(* ===== verification/Prelude.thy ===== *)
theory Prelude imports Main "HOL-Library.Word" begin

unbundle bit_operations_syntax

text \<open>
  The vocabulary the components share: machine integers and pointers, the ways a C function
  can fail to return (a failed \<open>__ASSERT\<close>, an access through a bad pointer, a caller that
  blocks for ever, a loop that has used up its fuel), programs as state transformers that may
  fail in one of these ways, and the collections of rules the component theories add to.
\<close>

section \<open>Machine integers, pointers, time-outs\<close>

type_synonym uint8 = "8 word"
type_synonym uint16 = "16 word"
type_synonym uint32 = "32 word"

text \<open>A pointer is the number of the object it points at; objects of different C types live in
  different maps, and a struct embedded in another one carries the number of its container.\<close>

type_synonym ptr = nat

abbreviation (input) NULL :: ptr where
  "NULL \<equiv> 0"

abbreviation UINT8_MAX :: uint8 where
  "UINT8_MAX \<equiv> 255"

datatype k_timeout = K_NO_WAIT | K_FOREVER | K_TICKS nat

abbreviation EPERM :: int where "EPERM \<equiv> 1"
abbreviation EAGAIN :: int where "EAGAIN \<equiv> 11"
abbreviation ENOMEM :: int where "ENOMEM \<equiv> 12"
abbreviation EINVAL :: int where "EINVAL \<equiv> 22"
abbreviation ENOMSG :: int where "ENOMSG \<equiv> 80"

section \<open>Programs\<close>

text \<open>
  \<^item> \<open>Assert_failed\<close>: an \<open>__ASSERT\<close> that is compiled in does not hold;
  \<^item> \<open>Bad_pointer\<close>: a \<open>NULL\<close> or dangling pointer is followed (or called);
  \<^item> \<open>Out_of_bounds\<close>: an array is accessed past its end;
  \<^item> \<open>Wrong_member\<close>: the union of a subscriber is read through the member not stored in it;
  \<^item> \<open>Fifo_relink\<close>: a message that is still linked in a FIFO is put into a FIFO again;
  \<^item> \<open>Blocked\<close>: the calling thread waits for something that does not happen;
  \<^item> \<open>Out_of_fuel\<close>: a loop was cut off.
\<close>

datatype error =
    Assert_failed
  | Bad_pointer
  | Out_of_bounds
  | Wrong_member
  | Fifo_relink
  | Blocked
  | Out_of_fuel

type_synonym ('s, 'a) prog = "'s \<Rightarrow> error + 'a \<times> 's"

definition ret :: "'a \<Rightarrow> ('s, 'a) prog" where
  "ret a s = Inr (a, s)"

definition raise :: "error \<Rightarrow> ('s, 'a) prog" where
  "raise e s = Inl e"

definition bindM :: "('s, 'a) prog \<Rightarrow> ('a \<Rightarrow> ('s, 'b) prog) \<Rightarrow> ('s, 'b) prog" where
  "bindM m f s = (case m s of Inl e \<Rightarrow> Inl e | Inr r \<Rightarrow> f (fst r) (snd r))"

definition thenM :: "('s, 'a) prog \<Rightarrow> ('s, 'b) prog \<Rightarrow> ('s, 'b) prog" where
  "thenM m m' = bindM m (\<lambda>_. m')"

definition getsM :: "('s \<Rightarrow> 'a) \<Rightarrow> ('s, 'a) prog" where
  "getsM f s = Inr (f s, s)"

definition modifyM :: "('s \<Rightarrow> 's) \<Rightarrow> ('s, unit) prog" where
  "modifyM f s = Inr ((), f s)"

definition guardM :: "error \<Rightarrow> bool \<Rightarrow> ('s, unit) prog" where
  "guardM e b = (if b then ret () else raise e)"

text \<open>The value of an \<open>option\<close>-valued part of the state, or the given error.\<close>

definition fetchM :: "error \<Rightarrow> ('s \<Rightarrow> 'a option) \<Rightarrow> ('s, 'a) prog" where
  "fetchM e f s = (case f s of None \<Rightarrow> Inl e | Some a \<Rightarrow> Inr (a, s))"

named_theorems run_simps \<open>one-step evaluation of programs\<close>
named_theorems run_elims \<open>inversion of programs that returned\<close>
named_theorems keeps_intros \<open>programs that keep a predicate of the state\<close>

lemma ret_run [run_simps, simp]: "ret a s = Inr (a, s)"
  by (simp add: ret_def)

lemma raise_run [run_simps, simp]: "raise e s = Inl e"
  by (simp add: raise_def)

lemma getsM_run [run_simps, simp]: "getsM f s = Inr (f s, s)"
  by (simp add: getsM_def)

lemma modifyM_run [run_simps, simp]: "modifyM f s = Inr ((), f s)"
  by (simp add: modifyM_def)

lemma guardM_run [run_simps, simp]: "guardM e b s = (if b then Inr ((), s) else Inl e)"
  by (simp add: guardM_def)

lemma fetchM_Some [run_simps, simp]: "f s = Some a \<Longrightarrow> fetchM e f s = Inr (a, s)"
  by (simp add: fetchM_def)

lemma fetchM_None [run_simps, simp]: "f s = None \<Longrightarrow> fetchM e f s = Inl e"
  by (simp add: fetchM_def)

lemma bindM_run [run_simps, simp]:
  "bindM m f s = (case m s of Inl e \<Rightarrow> Inl e | Inr r \<Rightarrow> f (fst r) (snd r))"
  by (simp add: bindM_def)

lemma thenM_run [run_simps, simp]:
  "thenM m m' s = (case m s of Inl e \<Rightarrow> Inl e | Inr r \<Rightarrow> m' (snd r))"
  by (simp add: thenM_def)

lemma bindM_eq_Inr:
  "bindM m f s = Inr r \<longleftrightarrow> (\<exists>a s'. m s = Inr (a, s') \<and> f a s' = Inr r)"
  by (auto simp: bindM_def split: sum.splits)

lemma thenM_eq_Inr:
  "thenM m m' s = Inr r \<longleftrightarrow> (\<exists>a s'. m s = Inr (a, s') \<and> m' s' = Inr r)"
  by (auto simp: thenM_def bindM_def split: sum.splits)

lemma bindM_InrE [run_elims]:
  assumes "bindM m f s = Inr r"
  obtains a s' where "m s = Inr (a, s')" and "f a s' = Inr r"
  using assms unfolding bindM_eq_Inr by blast

lemma thenM_InrE [run_elims]:
  assumes "thenM m m' s = Inr r"
  obtains a s' where "m s = Inr (a, s')" and "m' s' = Inr r"
  using assms unfolding thenM_eq_Inr by blast

lemma guardM_InrE [run_elims]:
  assumes "guardM e b s = Inr r"
  obtains "b" and "r = ((), s)"
  using assms by (auto split: if_splits)

lemma fetchM_InrE [run_elims]:
  assumes "fetchM e f s = Inr r"
  obtains a where "f s = Some a" and "r = (a, s)"
  using assms by (auto simp: fetchM_def split: option.splits)

text \<open>The congruence rule lets recursive programs be defined under \<open>bindM\<close>.\<close>

lemma bindM_cong [fundef_cong]:
  assumes "m s = m' s'" and "\<And>a t. m' s' = Inr (a, t) \<Longrightarrow> f a t = f' a t"
  shows "bindM m f s = bindM m' f' s'"
  using assms by (auto simp: bindM_def split: sum.splits)

lemma bindM_assoc: "bindM (bindM m f) g s = bindM m (\<lambda>a. bindM (f a) g) s"
  by (simp add: bindM_def split: sum.splits)

section \<open>Predicates that a program keeps\<close>

definition keeps :: "('s \<Rightarrow> bool) \<Rightarrow> ('s, 'a) prog \<Rightarrow> bool" where
  "keeps I m \<longleftrightarrow> (\<forall>s a s'. I s \<longrightarrow> m s = Inr (a, s') \<longrightarrow> I s')"

lemma keepsI: "(\<And>s a s'. I s \<Longrightarrow> m s = Inr (a, s') \<Longrightarrow> I s') \<Longrightarrow> keeps I m"
  by (auto simp: keeps_def)

lemma keepsD: "keeps I m \<Longrightarrow> m s = Inr (a, s') \<Longrightarrow> I s \<Longrightarrow> I s'"
  by (auto simp: keeps_def)

lemma keeps_ret [keeps_intros]: "keeps I (ret a)"
  and keeps_raise [keeps_intros]: "keeps I (raise e)"
  and keeps_getsM [keeps_intros]: "keeps I (getsM f)"
  and keeps_guardM [keeps_intros]: "keeps I (guardM e b)"
  and keeps_fetchM [keeps_intros]: "keeps I (fetchM e g)"
  by (auto simp: keeps_def fetchM_def split: if_splits option.splits)

lemma keeps_bindM [keeps_intros]:
  "keeps I m \<Longrightarrow> (\<And>a. keeps I (f a)) \<Longrightarrow> keeps I (bindM m f)"
  unfolding keeps_def bindM_eq_Inr by blast

lemma keeps_thenM [keeps_intros]:
  "keeps I m \<Longrightarrow> keeps I m' \<Longrightarrow> keeps I (thenM m m')"
  unfolding keeps_def thenM_eq_Inr by blast

lemma keeps_if [keeps_intros]:
  "(b \<Longrightarrow> keeps I m) \<Longrightarrow> (\<not> b \<Longrightarrow> keeps I m') \<Longrightarrow> keeps I (if b then m else m')"
  by simp

lemma keeps_modifyM: "(\<And>s. I s \<Longrightarrow> I (f s)) \<Longrightarrow> keeps I (modifyM f)"
  by (auto simp: keeps_def)

section \<open>Sequences of programs\<close>

fun run_all :: "('s, unit) prog list \<Rightarrow> ('s, unit) prog" where
  "run_all [] = ret ()"
| "run_all (m # ms) = thenM m (run_all ms)"

text \<open>The result of a program is not used.\<close>

definition discard :: "('s, 'a) prog \<Rightarrow> ('s, unit) prog" where
  "discard m = bindM m (\<lambda>_. ret ())"

lemma discard_run [run_simps, simp]:
  "discard m s = (case m s of Inl e \<Rightarrow> Inl e | Inr r \<Rightarrow> Inr ((), snd r))"
  by (simp add: discard_def split: sum.splits)

lemma keeps_discard [keeps_intros]: "keeps I m \<Longrightarrow> keeps I (discard m)"
  by (simp add: discard_def keeps_intros)

lemma keeps_run_all: "(\<And>m. m \<in> set ms \<Longrightarrow> keeps I m) \<Longrightarrow> keeps I (run_all ms)"
  by (induction ms) (auto intro: keeps_intros)

text \<open>Counters moved up (\<open>True\<close>) and down (\<open>False\<close>) one after the other, none of them below
  0 or above \<open>hi\<close> at any time.\<close>

fun moves_ok :: "nat \<Rightarrow> (bool \<times> 'a) list \<Rightarrow> ('a \<Rightarrow> nat) \<Rightarrow> bool" where
  "moves_ok hi [] n = True"
| "moves_ok hi ((True, x) # xs) n = (n x < hi \<and> moves_ok hi xs (n(x := n x + 1)))"
| "moves_ok hi ((False, x) # xs) n = (0 < n x \<and> moves_ok hi xs (n(x := n x - 1)))"

text \<open>A program run \<open>n\<close> times, with the list of its results.\<close>

fun repeatM :: "nat \<Rightarrow> ('s, 'a) prog \<Rightarrow> ('s, 'a list) prog" where
  "repeatM 0 m = ret []"
| "repeatM (Suc n) m = bindM m (\<lambda>a. bindM (repeatM n m) (\<lambda>as. ret (a # as)))"

section \<open>Unsigned sizes\<close>

text \<open>Subtraction of two \<open>size_t\<close> values wraps.\<close>

definition size_sub :: "nat \<Rightarrow> nat \<Rightarrow> nat" where
  "size_sub a b = nat ((int a - int b) mod 2 ^ 32)"

lemma size_sub_eq: "b \<le> a \<Longrightarrow> a < 2 ^ 32 \<Longrightarrow> size_sub a b = a - b"
  by (simp add: size_sub_def)

section \<open>Positions in a list\<close>

fun index_of :: "'a \<Rightarrow> 'a list \<Rightarrow> nat option" where
  "index_of x [] = None"
| "index_of x (y # ys) = (if x = y then Some 0 else map_option Suc (index_of x ys))"

lemma index_of_nth:
  "distinct xs \<Longrightarrow> i < length xs \<Longrightarrow> index_of (xs ! i) xs = Some i"
proof (induction xs arbitrary: i)
  case Nil
  then show ?case by simp
next
  case (Cons x xs)
  then show ?case by (cases i) auto
qed

lemma index_of_Some: "index_of x xs = Some i \<Longrightarrow> i < length xs \<and> xs ! i = x"
  by (induction xs arbitrary: i) (auto split: if_splits)

end
