(* ===== verification/State.thy ===== *)
theory State imports Prelude begin

text \<open>
  The data of the library: the structs and enums of \<open>include/pub_sub\<close> and
  \<open>include/hsm\<close> as records and datatypes, and the memory of a running system that holds
  them. The type variable \<open>'k\<close> is the type of Zephyr's kernel objects (\<open>k_fifo\<close>,
  \<open>k_msgq\<close>, \<open>k_mutex\<close>, \<open>k_mem_slab\<close>, ...), which the
  library only handles through the API of theory Zephyr; \<open>'u\<close> is the memory of the
  application (handlers, state machines' own data).
\<close>

section \<open>Messages (msg.h, static\_msg.h, delayable\_msg.h)\<close>

text \<open>The header before every message. \<open>fifo_reserved\<close> is the word a \<open>k_fifo\<close>
  uses to link the message; the model keeps whether it is in use.\<close>

record pub_sub_msg =
  fifo_reserved :: bool
  atomic_data :: uint32

text \<open>The part of a callback message before its header: a function pointer.\<close>

type_synonym pub_sub_msg_callback_fn = ptr

record pub_sub_msg_callback =
  callback :: pub_sub_msg_callback_fn

text \<open>The part of a delayable message before its header.\<close>

record 'k pub_sub_msg_delayable =
  timeout :: 'k
  subscriber :: ptr

section \<open>Allocators (msg\_alloc.h, msg\_alloc.c)\<close>

text \<open>Function pointers to an allocator's operations: \<open>NULL\<close> (an uninitialised allocator),
  the memory slab back end of the library, or a function of the application.\<close>

datatype pub_sub_alloc_fn = Alloc_NULL | Allocate_from_mem_slab | User_alloc nat

datatype pub_sub_free_fn = Free_NULL | Free_for_mem_slab | User_free nat

record pub_sub_allocator =
  allocate :: pub_sub_alloc_fn
  free :: pub_sub_free_fn
  impl :: ptr
  allocator_id :: uint8

record 'k pub_sub_runtime_allocators =
  allocators :: "ptr list"
  num_allocators :: nat
  mutex :: 'k

definition PUB_SUB_ALLOC_ID_INVALID :: uint8 where
  "PUB_SUB_ALLOC_ID_INVALID = 0xFF"

definition PUB_SUB_ALLOC_ID_STATIC_MSG :: uint8 where
  "PUB_SUB_ALLOC_ID_STATIC_MSG = 0xFE"

definition PUB_SUB_ALLOC_ID_CALLBACK_MSG :: uint8 where
  "PUB_SUB_ALLOC_ID_CALLBACK_MSG = 0xFD"

definition PUB_SUB_ALLOC_ID_LINK_SECTION :: uint8 where
  "PUB_SUB_ALLOC_ID_LINK_SECTION = 0xFC"

definition PUB_SUB_ALLOC_ID_LINK_SECTION_MAX_ID :: uint8 where
  "PUB_SUB_ALLOC_ID_LINK_SECTION_MAX_ID = 0x7F"

definition PUB_SUB_ALLOC_ID_RUNTIME_OFFSET :: uint8 where
  "PUB_SUB_ALLOC_ID_RUNTIME_OFFSET = 0x80"

lemmas alloc_id_defs =
  PUB_SUB_ALLOC_ID_INVALID_def PUB_SUB_ALLOC_ID_STATIC_MSG_def PUB_SUB_ALLOC_ID_CALLBACK_MSG_def
  PUB_SUB_ALLOC_ID_LINK_SECTION_def PUB_SUB_ALLOC_ID_LINK_SECTION_MAX_ID_def
  PUB_SUB_ALLOC_ID_RUNTIME_OFFSET_def

section \<open>Subscribers (subscriber.h)\<close>

text \<open>The enum, ordered as C orders its constants.\<close>

datatype pub_sub_rx_type =
    PUB_SUB_RX_TYPE_CALLBACK
  | PUB_SUB_RX_TYPE_MSGQ
  | PUB_SUB_RX_TYPE_FIFO

fun rx_type_rank :: "pub_sub_rx_type \<Rightarrow> nat" where
  "rx_type_rank PUB_SUB_RX_TYPE_CALLBACK = 0"
| "rx_type_rank PUB_SUB_RX_TYPE_MSGQ = 1"
| "rx_type_rank PUB_SUB_RX_TYPE_FIFO = 2"

lemma rx_type_rank_inj [simp]: "rx_type_rank a = rx_type_rank b \<longleftrightarrow> a = b"
  by (cases a; cases b) simp_all

instantiation pub_sub_rx_type :: linorder
begin

definition less_eq_pub_sub_rx_type :: "pub_sub_rx_type \<Rightarrow> pub_sub_rx_type \<Rightarrow> bool" where
  "a \<le> b \<longleftrightarrow> rx_type_rank a \<le> rx_type_rank b"

definition less_pub_sub_rx_type :: "pub_sub_rx_type \<Rightarrow> pub_sub_rx_type \<Rightarrow> bool" where
  "a < b \<longleftrightarrow> rx_type_rank a < rx_type_rank b"

instance
  by standard (auto simp: less_eq_pub_sub_rx_type_def less_pub_sub_rx_type_def)

end

lemma rx_type_le_FIFO [simp]: "a \<le> PUB_SUB_RX_TYPE_FIFO"
  and CALLBACK_le_rx_type [simp]: "PUB_SUB_RX_TYPE_CALLBACK \<le> a"
  and rx_type_less [simp]:
    "PUB_SUB_RX_TYPE_CALLBACK < PUB_SUB_RX_TYPE_MSGQ"
    "PUB_SUB_RX_TYPE_MSGQ < PUB_SUB_RX_TYPE_FIFO"
    "PUB_SUB_RX_TYPE_CALLBACK < PUB_SUB_RX_TYPE_FIFO"
  by (cases a; simp add: less_eq_pub_sub_rx_type_def less_pub_sub_rx_type_def)+

text \<open>A handler is \<open>NULL\<close>, the handler of the HSM framework, or an application function.\<close>

datatype pub_sub_handler_fn = Handler_NULL | Hsm_msg_handler | User_handler nat

record pub_sub_subscriber_handler_data =
  msg_handler :: pub_sub_handler_fn
  user_data :: ptr

text \<open>The anonymous union: nothing stored yet, a pointer to a message queue, or a FIFO.\<close>

datatype 'k rx_queue = Rx_unset | Rx_msgq ptr | Rx_fifo 'k

record 'k pub_sub_subscriber =
  broker :: ptr
  handler_data :: pub_sub_subscriber_handler_data
  rx_queue :: "'k rx_queue"
  subs_bitarray :: ptr
  rx_type :: pub_sub_rx_type
  max_pub_msg_id :: uint16
  priority :: uint8

section \<open>Brokers (broker.h)\<close>

text \<open>The list head \<open>subscribers\<close> lives with the list nodes in the field
  \<open>slists\<close> of the memory, under the broker's number.\<close>

record 'k pub_sub_broker =
  msg_publish_fifo :: 'k
  sub_list_mutex :: 'k
  publish_work :: 'k
  publish_work_poll_event :: 'k

section \<open>Hierarchical state machines (hsm.h)\<close>

definition HSM_MSG_ID_WALK :: uint16 where
  "HSM_MSG_ID_WALK = 0xFFFF"

definition HSM_MSG_ID_ENTRY :: uint16 where
  "HSM_MSG_ID_ENTRY = HSM_MSG_ID_WALK - 1"

definition HSM_MSG_ID_EXIT :: uint16 where
  "HSM_MSG_ID_EXIT = HSM_MSG_ID_ENTRY - 1"

lemmas hsm_msg_id_defs = HSM_MSG_ID_WALK_def HSM_MSG_ID_ENTRY_def HSM_MSG_ID_EXIT_def

datatype hsm_ret =
    HSM_RET_CONSUMED
  | HSM_RET_PARENT
  | HSM_RET_TOP_STATE
  | HSM_RET_TRANSITION

text \<open>State functions are named by their function pointer. The subscriber embedded in
  \<open>struct hsm\<close> is found under the state machine's own number.\<close>

type_synonym hsm_state_fn = ptr

record hsm =
  current_state :: hsm_state_fn
  tmp_state :: hsm_state_fn

section \<open>The memory\<close>

record ('k, 'u) memory =
  messages :: "ptr \<rightharpoonup> pub_sub_msg"
  callback_msgs :: "ptr \<rightharpoonup> pub_sub_msg_callback"
  delayable_msgs :: "ptr \<rightharpoonup> 'k pub_sub_msg_delayable"
  allocator_objs :: "ptr \<rightharpoonup> pub_sub_allocator"
  g_runtime_allocators :: "'k pub_sub_runtime_allocators"
  mem_slabs :: "ptr \<rightharpoonup> 'k"
  msgqs :: "ptr \<rightharpoonup> 'k"
  bitarrays :: "ptr \<rightharpoonup> uint32 list"
  subscribers :: "ptr \<rightharpoonup> 'k pub_sub_subscriber"
  brokers :: "ptr \<rightharpoonup> 'k pub_sub_broker"
  slists :: 'k
  poll_events :: "ptr \<rightharpoonup> 'k"
  hsms :: "ptr \<rightharpoonup> hsm"
  app :: 'u

end
