(* ===== verification/Zephyr.thy ===== *)
theory Zephyr imports State begin

unbundle bit_operations_syntax

text \<open>
  What the library is linked with. The record \<open>platform\<close> collects the Kconfig values, the
  parts of Zephyr the code calls, the linker section of allocators, and the functions of the
  application that are called through function pointers. All of them are parameters: every
  definition of the component theories takes the platform as its first argument, and nothing
  is assumed about it but the named laws below, each a statement of Zephyr's API
  documentation, and each used only where a theorem names it.
\<close>

section \<open>The platform\<close>

datatype k_poll_type = K_POLL_TYPE_FIFO_DATA_AVAILABLE | K_POLL_TYPE_MSGQ_DATA_AVAILABLE

datatype k_poll_mode = K_POLL_MODE_NOTIFY_ONLY

datatype k_poll_state = K_POLL_STATE_NOT_READY

text \<open>The object a poll event watches.\<close>

datatype poll_obj = Publish_fifo_of ptr | Rx_fifo_of ptr | Msgq_at ptr

text \<open>
  Fields from \<open>fifo_items\<close> on are not code: they are the abstraction functions in which the
  laws describe a kernel object (the items a queue holds, whether a time-out is active, ...).
  A call that may wait returns an \<open>option\<close>: \<open>None\<close> means that the caller waits
  for ever. \<open>fuel\<close> bounds the loops that are not bounded by the code.
\<close>

record ('k, 'u) platform =
  CONFIG_ASSERT :: bool
  CONFIG_PUB_SUB_RUNTIME_ALLOCATORS :: bool
  CONFIG_PUB_SUB_RUNTIME_ALLOCATORS_MAX_NUM :: nat
  CONFIG_HSM_MAX_NESTED_STATES :: nat
  fuel :: nat
  link_section :: "ptr list"
  GENMASK :: "nat \<Rightarrow> nat \<Rightarrow> uint32"
  FIELD_PREP :: "uint32 \<Rightarrow> uint32 \<Rightarrow> uint32"
  FIELD_GET :: "uint32 \<Rightarrow> uint32 \<Rightarrow> uint32"
  ATOMIC_INIT :: "uint32 \<Rightarrow> uint32"
  atomic_get :: "uint32 \<Rightarrow> uint32"
  atomic_inc :: "uint32 \<Rightarrow> uint32 \<times> uint32"
  atomic_dec :: "uint32 \<Rightarrow> uint32 \<times> uint32"
  ATOMIC_BITMAP_SIZE :: "nat \<Rightarrow> nat"
  atomic_test_bit :: "uint32 list \<Rightarrow> nat \<Rightarrow> bool"
  atomic_set_bit :: "uint32 list \<Rightarrow> nat \<Rightarrow> uint32 list"
  atomic_clear_bit :: "uint32 list \<Rightarrow> nat \<Rightarrow> uint32 list"
  k_fifo_init :: 'k
  k_fifo_put :: "'k \<Rightarrow> ptr \<Rightarrow> 'k"
  k_fifo_get :: "'k \<Rightarrow> k_timeout \<Rightarrow> (ptr \<times> 'k) option"
  k_msgq_put :: "'k \<Rightarrow> ptr \<Rightarrow> k_timeout \<Rightarrow> (int \<times> 'k) option"
  k_msgq_get :: "'k \<Rightarrow> k_timeout \<Rightarrow> (int \<times> ptr \<times> 'k) option"
  K_MSGQ_DEFINE :: "nat \<Rightarrow> nat \<Rightarrow> nat \<Rightarrow> 'k"
  k_mem_slab_alloc :: "'k \<Rightarrow> k_timeout \<Rightarrow> (int \<times> ptr \<times> 'k) option"
  k_mem_slab_free :: "'k \<Rightarrow> ptr \<Rightarrow> 'k"
  block_size :: "'k \<Rightarrow> nat"
  sizeof_pub_sub_msg :: nat
  WB_UP :: "nat \<Rightarrow> nat"
  k_mutex_init :: 'k
  k_mutex_lock :: "'k \<Rightarrow> 'k"
  k_mutex_unlock :: "'k \<Rightarrow> 'k"
  k_poll_event_init :: "k_poll_type \<Rightarrow> k_poll_mode \<Rightarrow> poll_obj \<Rightarrow> 'k"
  poll_event_set_state :: "k_poll_state \<Rightarrow> 'k \<Rightarrow> 'k"
  k_work_poll_init :: 'k
  k_work_poll_submit :: "'k \<Rightarrow> 'k \<Rightarrow> k_timeout \<Rightarrow> 'k"
  sys_slist_init :: "'k \<Rightarrow> ptr \<Rightarrow> 'k"
  sys_slist_peek_head :: "'k \<Rightarrow> ptr \<Rightarrow> ptr"
  sys_slist_peek_next :: "'k \<Rightarrow> ptr \<Rightarrow> ptr"
  sys_slist_insert :: "'k \<Rightarrow> ptr \<Rightarrow> ptr \<Rightarrow> ptr \<Rightarrow> 'k"
  sys_slist_find_and_remove :: "'k \<Rightarrow> ptr \<Rightarrow> ptr \<Rightarrow> 'k"
  sys_dnode_init :: 'k
  z_add_timeout :: "'k \<Rightarrow> k_timeout \<Rightarrow> 'k"
  z_abort_timeout :: "'k \<Rightarrow> int \<times> 'k"
  user_alloc :: "nat \<Rightarrow> ptr \<Rightarrow> nat \<Rightarrow> k_timeout \<Rightarrow> (('k, 'u) memory, ptr) prog"
  user_free :: "nat \<Rightarrow> ptr \<Rightarrow> ptr \<Rightarrow> (('k, 'u) memory, unit) prog"
  user_callback :: "ptr \<Rightarrow> ptr \<Rightarrow> (('k, 'u) memory, unit) prog"
  user_handler :: "nat \<Rightarrow> uint16 \<Rightarrow> ptr \<Rightarrow> ptr \<Rightarrow> (('k, 'u) memory, unit) prog"
  state_fn :: "ptr \<Rightarrow> ptr \<Rightarrow> uint16 \<Rightarrow> ptr \<Rightarrow> (('k, 'u) memory, hsm_ret) prog"
  fifo_items :: "'k \<Rightarrow> ptr list"
  msgq_items :: "'k \<Rightarrow> ptr list"
  msgq_max :: "'k \<Rightarrow> nat"
  slab_free_blocks :: "'k \<Rightarrow> ptr set"
  mutex_depth :: "'k \<Rightarrow> nat"
  work_pending :: "'k \<Rightarrow> bool"
  poll_event_of :: "'k \<Rightarrow> k_poll_type \<times> poll_obj"
  slist_nodes :: "'k \<Rightarrow> ptr \<Rightarrow> ptr list"
  timeout_active :: "'k \<Rightarrow> bool"

text \<open>\<open>__ASSERT\<close>: checked when assertions are compiled in, and otherwise not evaluated.\<close>

definition z_assert :: "('k, 'u) platform \<Rightarrow> bool \<Rightarrow> ('s, unit) prog" where
  "z_assert P b = guardM Assert_failed (CONFIG_ASSERT P \<longrightarrow> b)"

definition z_assertM :: "('k, 'u) platform \<Rightarrow> ('s, bool) prog \<Rightarrow> ('s, unit) prog" where
  "z_assertM P c = (if CONFIG_ASSERT P then bindM c (guardM Assert_failed) else ret ())"

text \<open>The result of a call that may wait.\<close>

definition waitM :: "'a option \<Rightarrow> ('s, 'a) prog" where
  "waitM r = (case r of None \<Rightarrow> raise Blocked | Some a \<Rightarrow> ret a)"

lemma z_assert_run [run_simps, simp]:
  "z_assert P b s = (if CONFIG_ASSERT P \<longrightarrow> b then Inr ((), s) else Inl Assert_failed)"
  by (simp add: z_assert_def)

lemma z_assert_InrE [run_elims]:
  assumes "z_assert P b s = Inr r"
  obtains "CONFIG_ASSERT P \<longrightarrow> b" and "r = ((), s)"
  using assms by (auto split: if_splits)

lemma waitM_run [run_simps, simp]:
  "waitM (Some a) s = Inr (a, s)" "waitM None s = Inl Blocked"
  by (simp_all add: waitM_def)

lemma waitM_InrE [run_elims]:
  assumes "waitM r s = Inr x"
  obtains a where "r = Some a" and "x = (a, s)"
  using assms by (cases r) auto

lemma keeps_z_assert [keeps_intros]: "keeps I (z_assert P b)"
  and keeps_waitM [keeps_intros]: "keeps I (waitM r)"
  by (auto simp: z_assert_def waitM_def intro: keeps_intros split: option.splits)

lemma keeps_z_assertM [keeps_intros]: "keeps I c \<Longrightarrow> keeps I (z_assertM P c)"
  by (auto simp: z_assertM_def intro!: keeps_intros)

section \<open>Laws of the parts of Zephyr the code relies on\<close>

text \<open>\<open>sys/util.h\<close>: a contiguous bit mask, and a bit field put into and read from the place
  a mask denotes.\<close>

definition field_laws :: "('k, 'u) platform \<Rightarrow> bool" where
  "field_laws P \<longleftrightarrow>
     (\<forall>h l. l \<le> h \<and> h < 32 \<longrightarrow> GENMASK P h l = push_bit l (mask (Suc h - l))) \<and>
     (\<forall>l n v. 0 < n \<and> l + n \<le> 32 \<longrightarrow>
        FIELD_PREP P (push_bit l (mask n)) v = push_bit l (take_bit n v) \<and>
        FIELD_GET P (push_bit l (mask n)) v = take_bit n (drop_bit l v))"

text \<open>\<open>sys/atomic.h\<close>: increment and decrement return the value before the operation.\<close>

definition atomic_laws :: "('k, 'u) platform \<Rightarrow> bool" where
  "atomic_laws P \<longleftrightarrow>
     (\<forall>w. ATOMIC_INIT P w = w \<and> atomic_get P w = w \<and>
          atomic_inc P w = (w, w + 1) \<and> atomic_dec P w = (w, w - 1))"

text \<open>\<open>sys/atomic.h\<close>: arrays of atomic words used as bit maps.\<close>

definition bitmap_laws :: "('k, 'u) platform \<Rightarrow> bool" where
  "bitmap_laws P \<longleftrightarrow>
     (\<forall>n. n \<le> 32 * ATOMIC_BITMAP_SIZE P n) \<and>
     (\<forall>a n i. i < 32 * n \<longrightarrow> \<not> atomic_test_bit P (replicate n 0 @ a) i) \<and>
     (\<forall>a i. length (atomic_set_bit P a i) = length a \<and>
            length (atomic_clear_bit P a i) = length a) \<and>
     (\<forall>a i j. i < 32 * length a \<and> j < 32 * length a \<longrightarrow>
        atomic_test_bit P (atomic_set_bit P a i) j = (i = j \<or> atomic_test_bit P a j) \<and>
        atomic_test_bit P (atomic_clear_bit P a i) j = (i \<noteq> j \<and> atomic_test_bit P a j))"

text \<open>\<open>k_fifo\<close>: first in, first out; an empty FIFO yields \<open>NULL\<close> once the time-out has
  passed.\<close>

definition fifo_laws :: "('k, 'u) platform \<Rightarrow> bool" where
  "fifo_laws P \<longleftrightarrow>
     fifo_items P (k_fifo_init P) = [] \<and>
     (\<forall>q m. fifo_items P (k_fifo_put P q m) = fifo_items P q @ [m]) \<and>
     (\<forall>q t m ms. fifo_items P q = m # ms \<longrightarrow>
        (\<exists>q'. k_fifo_get P q t = Some (m, q') \<and> fifo_items P q' = ms)) \<and>
     (\<forall>q t. fifo_items P q = [] \<and> t \<noteq> K_FOREVER \<longrightarrow>
        (\<exists>q'. k_fifo_get P q t = Some (NULL, q') \<and> fifo_items P q' = []))"

text \<open>\<open>k_msgq\<close>: a ring of bounded size; a full queue makes a sender with \<open>K_FOREVER\<close> wait;
  an empty one returns \<open>-ENOMSG\<close> to a reader that does not wait and \<open>-EAGAIN\<close> to a reader
  whose waiting period is over. \<open>K_MSGQ_DEFINE\<close> makes an empty queue from the size of an entry, the
  number of entries and the alignment of its buffer.\<close>

definition msgq_laws :: "('k, 'u) platform \<Rightarrow> bool" where
  "msgq_laws P \<longleftrightarrow>
     (\<forall>q m t. length (msgq_items P q) < msgq_max P q \<longrightarrow>
        (\<exists>q'. k_msgq_put P q m t = Some (0, q') \<and> msgq_items P q' = msgq_items P q @ [m] \<and>
              msgq_max P q' = msgq_max P q)) \<and>
     (\<forall>q m. msgq_max P q \<le> length (msgq_items P q) \<longrightarrow> k_msgq_put P q m K_FOREVER = None) \<and>
     (\<forall>q t m ms. msgq_items P q = m # ms \<longrightarrow>
        (\<exists>q'. k_msgq_get P q t = Some (0, m, q') \<and> msgq_items P q' = ms \<and>
              msgq_max P q' = msgq_max P q)) \<and>
     (\<forall>q. msgq_items P q = [] \<longrightarrow>
        (\<exists>m q'. k_msgq_get P q K_NO_WAIT = Some (- ENOMSG, m, q') \<and> msgq_items P q' = [] \<and>
                msgq_max P q' = msgq_max P q) \<and>
        (\<forall>n. \<exists>m q'. k_msgq_get P q (K_TICKS n) = Some (- EAGAIN, m, q') \<and>
                msgq_items P q' = [] \<and> msgq_max P q' = msgq_max P q)) \<and>
     (\<forall>sz n al. msgq_items P (K_MSGQ_DEFINE P sz n al) = [] \<and> msgq_max P (K_MSGQ_DEFINE P sz n al) = n)"

text \<open>\<open>k_mem_slab\<close>: an allocation hands out one of the free blocks, or fails when there is
  none; a freed block can be handed out again.\<close>

definition slab_laws :: "('k, 'u) platform \<Rightarrow> bool" where
  "slab_laws P \<longleftrightarrow>
     (\<forall>q t. slab_free_blocks P q \<noteq> {} \<longrightarrow>
        (\<exists>b q'. k_mem_slab_alloc P q t = Some (0, b, q') \<and> b \<in> slab_free_blocks P q \<and>
                slab_free_blocks P q' = slab_free_blocks P q - {b} \<and>
                block_size P q' = block_size P q)) \<and>
     (\<forall>q t. slab_free_blocks P q = {} \<and> t \<noteq> K_FOREVER \<longrightarrow>
        (\<exists>r b. k_mem_slab_alloc P q t = Some (r, b, q) \<and> r \<noteq> 0)) \<and>
     (\<forall>q b. slab_free_blocks P (k_mem_slab_free P q b) = insert b (slab_free_blocks P q) \<and>
            block_size P (k_mem_slab_free P q b) = block_size P q)"

text \<open>\<open>sys/util.h\<close>: rounding a size up to a multiple of the word size.\<close>

definition size_laws :: "('k, 'u) platform \<Rightarrow> bool" where
  "size_laws P \<longleftrightarrow> (\<forall>n. n \<le> WB_UP P n \<and> WB_UP P n < n + 4 \<and> 4 dvd WB_UP P n)"

text \<open>\<open>k_mutex\<close>: locking nests.\<close>

definition mutex_laws :: "('k, 'u) platform \<Rightarrow> bool" where
  "mutex_laws P \<longleftrightarrow>
     mutex_depth P (k_mutex_init P) = 0 \<and>
     (\<forall>q. mutex_depth P (k_mutex_lock P q) = Suc (mutex_depth P q) \<and>
          mutex_depth P (k_mutex_unlock P q) = mutex_depth P q - 1)"

text \<open>\<open>k_poll\<close>, \<open>k_work_poll\<close>.\<close>

definition poll_laws :: "('k, 'u) platform \<Rightarrow> bool" where
  "poll_laws P \<longleftrightarrow>
     (\<forall>t m x. poll_event_of P (k_poll_event_init P t m x) = (t, x)) \<and>
     (\<forall>st q. poll_event_of P (poll_event_set_state P st q) = poll_event_of P q) \<and>
     (\<forall>w e t. work_pending P (k_work_poll_submit P w e t))"

text \<open>\<open>sys/slist.h\<close>, for the list under one head: nodes are reached from the head one after
  the other; a node is inserted after another one or, with no predecessor, at the front; other
  lists are not touched. \<open>NULL\<close> is no node, and no node is twice in a list or in two lists.\<close>

definition slist_ok :: "('k, 'u) platform \<Rightarrow> 'k \<Rightarrow> bool" where
  "slist_ok P l \<longleftrightarrow>
     (\<forall>h. distinct (slist_nodes P l h) \<and> NULL \<notin> set (slist_nodes P l h)) \<and>
     (\<forall>h h'. h \<noteq> h' \<longrightarrow> set (slist_nodes P l h) \<inter> set (slist_nodes P l h') = {})"

text \<open>The list with \<open>x\<close> put after the node \<open>p\<close>, or in front when \<open>p\<close> is \<open>NULL\<close>.\<close>

fun insert_after :: "ptr \<Rightarrow> ptr \<Rightarrow> ptr list \<Rightarrow> ptr list" where
  "insert_after p x [] = [x]"
| "insert_after p x (y # ys) =
     (if p = NULL then x # y # ys
      else if y = p then y # x # ys else y # insert_after p x ys)"

definition slist_laws :: "('k, 'u) platform \<Rightarrow> bool" where
  "slist_laws P \<longleftrightarrow>
     (\<forall>l h. slist_nodes P (sys_slist_init P l h) = (slist_nodes P l)(h := [])) \<and>
     (\<forall>l h. slist_ok P l \<longrightarrow>
        sys_slist_peek_head P l h = (case slist_nodes P l h of [] \<Rightarrow> NULL | x # _ \<Rightarrow> x)) \<and>
     (\<forall>l h xs x ys. slist_ok P l \<and> slist_nodes P l h = xs @ x # ys \<longrightarrow>
        sys_slist_peek_next P l x = (case ys of [] \<Rightarrow> NULL | y # _ \<Rightarrow> y)) \<and>
     (\<forall>l h p x. slist_ok P l \<and> (p = NULL \<or> p \<in> set (slist_nodes P l h)) \<and>
        x \<noteq> NULL \<and> (\<forall>h'. x \<notin> set (slist_nodes P l h')) \<longrightarrow>
        slist_nodes P (sys_slist_insert P l h p x) =
          (slist_nodes P l)(h := insert_after p x (slist_nodes P l h))) \<and>
     (\<forall>l h x. slist_ok P l \<longrightarrow>
        slist_nodes P (sys_slist_find_and_remove P l h x) =
          (slist_nodes P l)(h := remove1 x (slist_nodes P l h)))"

text \<open>Kernel time-outs: adding one that is not active makes it active; aborting says with
  \<open>0\<close> or \<open>-EINVAL\<close> whether it was.\<close>

definition timeout_laws :: "('k, 'u) platform \<Rightarrow> bool" where
  "timeout_laws P \<longleftrightarrow>
     \<not> timeout_active P (sys_dnode_init P) \<and>
     (\<forall>q t. \<not> timeout_active P q \<and> t \<noteq> K_FOREVER \<longrightarrow> timeout_active P (z_add_timeout P q t)) \<and>
     (\<forall>q. (fst (z_abort_timeout P q) = (if timeout_active P q then 0 else - EINVAL)) \<and>
          \<not> timeout_active P (snd (z_abort_timeout P q)))"

text \<open>The laws do not depend on the functions of the application.\<close>

lemma slist_ok_user_handler [simp]: "slist_ok (P\<lparr>user_handler := f\<rparr>) = slist_ok P"
  by (simp add: slist_ok_def [abs_def])

lemma laws_user_handler [simp]:
  "field_laws (P\<lparr>user_handler := f\<rparr>) = field_laws P"
  "atomic_laws (P\<lparr>user_handler := f\<rparr>) = atomic_laws P"
  "bitmap_laws (P\<lparr>user_handler := f\<rparr>) = bitmap_laws P"
  "fifo_laws (P\<lparr>user_handler := f\<rparr>) = fifo_laws P"
  "msgq_laws (P\<lparr>user_handler := f\<rparr>) = msgq_laws P"
  "slab_laws (P\<lparr>user_handler := f\<rparr>) = slab_laws P"
  "mutex_laws (P\<lparr>user_handler := f\<rparr>) = mutex_laws P"
  "poll_laws (P\<lparr>user_handler := f\<rparr>) = poll_laws P"
  "slist_laws (P\<lparr>user_handler := f\<rparr>) = slist_laws P"
  "timeout_laws (P\<lparr>user_handler := f\<rparr>) = timeout_laws P"
  unfolding field_laws_def atomic_laws_def bitmap_laws_def fifo_laws_def msgq_laws_def slab_laws_def
    mutex_laws_def poll_laws_def slist_laws_def timeout_laws_def
  by simp_all

lemma laws_state_fn [simp]:
  "slist_ok (P\<lparr>state_fn := f\<rparr>) = slist_ok P"
  "field_laws (P\<lparr>state_fn := f\<rparr>) = field_laws P"
  "atomic_laws (P\<lparr>state_fn := f\<rparr>) = atomic_laws P"
  "bitmap_laws (P\<lparr>state_fn := f\<rparr>) = bitmap_laws P"
  "fifo_laws (P\<lparr>state_fn := f\<rparr>) = fifo_laws P"
  "msgq_laws (P\<lparr>state_fn := f\<rparr>) = msgq_laws P"
  "slab_laws (P\<lparr>state_fn := f\<rparr>) = slab_laws P"
  "mutex_laws (P\<lparr>state_fn := f\<rparr>) = mutex_laws P"
  "slist_laws (P\<lparr>state_fn := f\<rparr>) = slist_laws P"
  unfolding field_laws_def atomic_laws_def bitmap_laws_def fifo_laws_def msgq_laws_def slab_laws_def
    mutex_laws_def slist_laws_def
  by (simp_all add: slist_ok_def [abs_def])

text \<open>Nor do they depend on the configuration.\<close>

lemma laws_config [simp]:
  "slist_ok (P\<lparr>link_section := l, CONFIG_PUB_SUB_RUNTIME_ALLOCATORS_MAX_NUM := n\<rparr>) = slist_ok P"
  "field_laws (P\<lparr>link_section := l, CONFIG_PUB_SUB_RUNTIME_ALLOCATORS_MAX_NUM := n\<rparr>) = field_laws P"
  "atomic_laws (P\<lparr>link_section := l, CONFIG_PUB_SUB_RUNTIME_ALLOCATORS_MAX_NUM := n\<rparr>) = atomic_laws P"
  "bitmap_laws (P\<lparr>link_section := l, CONFIG_PUB_SUB_RUNTIME_ALLOCATORS_MAX_NUM := n\<rparr>) = bitmap_laws P"
  "fifo_laws (P\<lparr>link_section := l, CONFIG_PUB_SUB_RUNTIME_ALLOCATORS_MAX_NUM := n\<rparr>) = fifo_laws P"
  "msgq_laws (P\<lparr>link_section := l, CONFIG_PUB_SUB_RUNTIME_ALLOCATORS_MAX_NUM := n\<rparr>) = msgq_laws P"
  "slab_laws (P\<lparr>link_section := l, CONFIG_PUB_SUB_RUNTIME_ALLOCATORS_MAX_NUM := n\<rparr>) = slab_laws P"
  "mutex_laws (P\<lparr>link_section := l, CONFIG_PUB_SUB_RUNTIME_ALLOCATORS_MAX_NUM := n\<rparr>) = mutex_laws P"
  "slist_laws (P\<lparr>link_section := l, CONFIG_PUB_SUB_RUNTIME_ALLOCATORS_MAX_NUM := n\<rparr>) = slist_laws P"
  unfolding field_laws_def atomic_laws_def bitmap_laws_def fifo_laws_def msgq_laws_def slab_laws_def
    mutex_laws_def slist_laws_def
  by (simp_all add: slist_ok_def [abs_def])

end
