(* ===== verification/RefPlatform.thy ===== *)
theory RefPlatform imports Zephyr begin

unbundle bit_operations_syntax

text \<open>
  A platform on which all laws of theory Zephyr hold at once: kernel objects are lists, numbers
  and flags, the words of a bit map are read and written bit by bit. No component is defined
  over it; it shows that the hypotheses of the theorems can be met, and the closed examples of
  the component theories run on it.
\<close>

section \<open>Reference kernel objects\<close>

record kobj =
  k_items :: "ptr list"
  k_cap :: nat
  k_depth :: nat
  k_flag :: bool
  k_poll :: "k_poll_type \<times> poll_obj"
  k_lists :: "(ptr \<times> ptr list) list"

definition kobj0 :: kobj where
  "kobj0 = \<lparr>k_items = [], k_cap = 0, k_depth = 0, k_flag = False,
     k_poll = (K_POLL_TYPE_FIFO_DATA_AVAILABLE, Publish_fifo_of 0), k_lists = []\<rparr>"

definition ref_ctz :: "uint32 \<Rightarrow> nat" where
  "ref_ctz m = length (takeWhile (\<lambda>i. \<not> bit m i) [0..<32])"

fun ref_fifo_get :: "kobj \<Rightarrow> k_timeout \<Rightarrow> (ptr \<times> kobj) option" where
  "ref_fifo_get q t =
     (case k_items q of
        [] \<Rightarrow> if t = K_FOREVER then None else Some (NULL, q)
      | m # ms \<Rightarrow> Some (m, q\<lparr>k_items := ms\<rparr>))"

fun ref_msgq_put :: "kobj \<Rightarrow> ptr \<Rightarrow> k_timeout \<Rightarrow> (int \<times> kobj) option" where
  "ref_msgq_put q m t =
     (if length (k_items q) < k_cap q then Some (0, q\<lparr>k_items := k_items q @ [m]\<rparr>)
      else case t of K_FOREVER \<Rightarrow> None | K_NO_WAIT \<Rightarrow> Some (- ENOMSG, q) | K_TICKS n \<Rightarrow> Some (- EAGAIN, q))"

fun ref_msgq_get :: "kobj \<Rightarrow> k_timeout \<Rightarrow> (int \<times> ptr \<times> kobj) option" where
  "ref_msgq_get q t =
     (case k_items q of
        [] \<Rightarrow> (case t of K_FOREVER \<Rightarrow> None | K_NO_WAIT \<Rightarrow> Some (- ENOMSG, NULL, q)
               | K_TICKS n \<Rightarrow> Some (- EAGAIN, NULL, q))
      | m # ms \<Rightarrow> Some (0, m, q\<lparr>k_items := ms\<rparr>))"

fun ref_slab_alloc :: "kobj \<Rightarrow> k_timeout \<Rightarrow> (int \<times> ptr \<times> kobj) option" where
  "ref_slab_alloc q t =
     (case k_items q of
        [] \<Rightarrow> (case t of K_FOREVER \<Rightarrow> None | K_NO_WAIT \<Rightarrow> Some (- ENOMEM, NULL, q)
               | K_TICKS n \<Rightarrow> Some (- EAGAIN, NULL, q))
      | b # bs \<Rightarrow> Some (0, b, q\<lparr>k_items := filter (\<lambda>x. x \<noteq> b) bs\<rparr>))"

definition ref_nodes :: "kobj \<Rightarrow> ptr \<Rightarrow> ptr list" where
  "ref_nodes l h = (case map_of (k_lists l) h of None \<Rightarrow> [] | Some xs \<Rightarrow> xs)"

definition ref_set_nodes :: "kobj \<Rightarrow> ptr \<Rightarrow> ptr list \<Rightarrow> kobj" where
  "ref_set_nodes l h xs = l\<lparr>k_lists := (h, xs) # k_lists l\<rparr>"

fun succ_in :: "ptr \<Rightarrow> ptr list \<Rightarrow> ptr" where
  "succ_in x (y # z # zs) = (if x = y then z else succ_in x (z # zs))"
| "succ_in x zs = NULL"

definition ref_peek_next :: "kobj \<Rightarrow> ptr \<Rightarrow> ptr" where
  "ref_peek_next l x =
     (case filter (\<lambda>h. x \<in> set (ref_nodes l h)) (map fst (k_lists l)) of
        [] \<Rightarrow> NULL
      | h # _ \<Rightarrow> succ_in x (ref_nodes l h))"

definition ref_peek_head :: "kobj \<Rightarrow> ptr \<Rightarrow> ptr" where
  "ref_peek_head l h = (case ref_nodes l h of [] \<Rightarrow> NULL | x # _ \<Rightarrow> x)"

section \<open>The platform\<close>

definition ref_platform :: "(kobj, 'u) platform" where
  "ref_platform = \<lparr>
     CONFIG_ASSERT = True,
     CONFIG_PUB_SUB_RUNTIME_ALLOCATORS = True,
     CONFIG_PUB_SUB_RUNTIME_ALLOCATORS_MAX_NUM = 5,
     CONFIG_HSM_MAX_NESTED_STATES = 8,
     fuel = 20,
     link_section = [],
     GENMASK = (\<lambda>h l. push_bit l (mask (Suc h - l))),
     FIELD_PREP = (\<lambda>m v. push_bit (ref_ctz m) v AND m),
     FIELD_GET = (\<lambda>m v. drop_bit (ref_ctz m) (v AND m)),
     ATOMIC_INIT = (\<lambda>w. w),
     atomic_get = (\<lambda>w. w),
     atomic_inc = (\<lambda>w. (w, w + 1)),
     atomic_dec = (\<lambda>w. (w, w - 1)),
     ATOMIC_BITMAP_SIZE = (\<lambda>n. (n + 31) div 32),
     atomic_test_bit = (\<lambda>a i. bit (a ! (i div 32)) (i mod 32)),
     atomic_set_bit = (\<lambda>a i. a[i div 32 := set_bit (i mod 32) (a ! (i div 32))]),
     atomic_clear_bit = (\<lambda>a i. a[i div 32 := unset_bit (i mod 32) (a ! (i div 32))]),
     k_fifo_init = kobj0,
     k_fifo_put = (\<lambda>q m. q\<lparr>k_items := k_items q @ [m]\<rparr>),
     k_fifo_get = ref_fifo_get,
     k_msgq_put = ref_msgq_put,
     k_msgq_get = ref_msgq_get,
     K_MSGQ_DEFINE = (\<lambda>_ n _. kobj0\<lparr>k_cap := n\<rparr>),
     k_mem_slab_alloc = ref_slab_alloc,
     k_mem_slab_free = (\<lambda>q b. q\<lparr>k_items := b # k_items q\<rparr>),
     block_size = k_cap,
     sizeof_pub_sub_msg = 8,
     WB_UP = (\<lambda>n. (n + 3) div 4 * 4),
     k_mutex_init = kobj0,
     k_mutex_lock = (\<lambda>q. q\<lparr>k_depth := Suc (k_depth q)\<rparr>),
     k_mutex_unlock = (\<lambda>q. q\<lparr>k_depth := k_depth q - 1\<rparr>),
     k_poll_event_init = (\<lambda>t m x. kobj0\<lparr>k_poll := (t, x)\<rparr>),
     poll_event_set_state = (\<lambda>st q. q),
     k_work_poll_init = kobj0,
     k_work_poll_submit = (\<lambda>w e t. w\<lparr>k_flag := True\<rparr>),
     sys_slist_init = (\<lambda>l h. ref_set_nodes l h []),
     sys_slist_peek_head = ref_peek_head,
     sys_slist_peek_next = ref_peek_next,
     sys_slist_insert = (\<lambda>l h p x. ref_set_nodes l h (insert_after p x (ref_nodes l h))),
     sys_slist_find_and_remove = (\<lambda>l h x. ref_set_nodes l h (remove1 x (ref_nodes l h))),
     sys_dnode_init = kobj0,
     z_add_timeout = (\<lambda>q t. q\<lparr>k_flag := (t \<noteq> K_FOREVER)\<rparr>),
     z_abort_timeout = (\<lambda>q. (if k_flag q then 0 else - EINVAL, q\<lparr>k_flag := False\<rparr>)),
     user_alloc = (\<lambda>f p n t. raise Bad_pointer),
     user_free = (\<lambda>f p m. raise Bad_pointer),
     user_callback = (\<lambda>f m. ret ()),
     user_handler = (\<lambda>f i m d. ret ()),
     state_fn = (\<lambda>f h i m. raise Bad_pointer),
     fifo_items = k_items,
     msgq_items = k_items,
     msgq_max = k_cap,
     slab_free_blocks = (\<lambda>q. set (k_items q)),
     mutex_depth = k_depth,
     work_pending = k_flag,
     poll_event_of = k_poll,
     slist_nodes = ref_nodes,
     timeout_active = k_flag\<rparr>"

lemma ref_platform_sel [simp]:
  "CONFIG_ASSERT ref_platform = True"
  "CONFIG_PUB_SUB_RUNTIME_ALLOCATORS ref_platform = True"
  "CONFIG_PUB_SUB_RUNTIME_ALLOCATORS_MAX_NUM ref_platform = 5"
  "CONFIG_HSM_MAX_NESTED_STATES ref_platform = 8"
  "fuel ref_platform = 20"
  "link_section ref_platform = []"
  "GENMASK ref_platform = (\<lambda>h l. push_bit l (mask (Suc h - l)))"
  "FIELD_PREP ref_platform = (\<lambda>m v. push_bit (ref_ctz m) v AND m)"
  "FIELD_GET ref_platform = (\<lambda>m v. drop_bit (ref_ctz m) (v AND m))"
  "ATOMIC_INIT ref_platform = (\<lambda>w. w)"
  "atomic_get ref_platform = (\<lambda>w. w)"
  "atomic_inc ref_platform = (\<lambda>w. (w, w + 1))"
  "atomic_dec ref_platform = (\<lambda>w. (w, w - 1))"
  "ATOMIC_BITMAP_SIZE ref_platform = (\<lambda>n. (n + 31) div 32)"
  "atomic_test_bit ref_platform = (\<lambda>a i. bit (a ! (i div 32)) (i mod 32))"
  "atomic_set_bit ref_platform = (\<lambda>a i. a[i div 32 := set_bit (i mod 32) (a ! (i div 32))])"
  "atomic_clear_bit ref_platform = (\<lambda>a i. a[i div 32 := unset_bit (i mod 32) (a ! (i div 32))])"
  "k_fifo_init ref_platform = kobj0"
  "k_fifo_put ref_platform = (\<lambda>q m. q\<lparr>k_items := k_items q @ [m]\<rparr>)"
  "k_fifo_get ref_platform = ref_fifo_get"
  "k_msgq_put ref_platform = ref_msgq_put"
  "k_msgq_get ref_platform = ref_msgq_get"
  "K_MSGQ_DEFINE ref_platform = (\<lambda>_ n _. kobj0\<lparr>k_cap := n\<rparr>)"
  "k_mem_slab_alloc ref_platform = ref_slab_alloc"
  "k_mem_slab_free ref_platform = (\<lambda>q b. q\<lparr>k_items := b # k_items q\<rparr>)"
  "block_size ref_platform = k_cap"
  "sizeof_pub_sub_msg ref_platform = 8"
  "WB_UP ref_platform = (\<lambda>n. (n + 3) div 4 * 4)"
  "k_mutex_init ref_platform = kobj0"
  "k_mutex_lock ref_platform = (\<lambda>q. q\<lparr>k_depth := Suc (k_depth q)\<rparr>)"
  "k_mutex_unlock ref_platform = (\<lambda>q. q\<lparr>k_depth := k_depth q - 1\<rparr>)"
  "k_poll_event_init ref_platform = (\<lambda>t m x. kobj0\<lparr>k_poll := (t, x)\<rparr>)"
  "poll_event_set_state ref_platform = (\<lambda>st q. q)"
  "k_work_poll_init ref_platform = kobj0"
  "k_work_poll_submit ref_platform = (\<lambda>w e t. w\<lparr>k_flag := True\<rparr>)"
  "sys_slist_init ref_platform = (\<lambda>l h. ref_set_nodes l h [])"
  "sys_slist_peek_head ref_platform = ref_peek_head"
  "sys_slist_peek_next ref_platform = ref_peek_next"
  "sys_slist_insert ref_platform = (\<lambda>l h p x. ref_set_nodes l h (insert_after p x (ref_nodes l h)))"
  "sys_slist_find_and_remove ref_platform = (\<lambda>l h x. ref_set_nodes l h (remove1 x (ref_nodes l h)))"
  "sys_dnode_init ref_platform = kobj0"
  "z_add_timeout ref_platform = (\<lambda>q t. q\<lparr>k_flag := (t \<noteq> K_FOREVER)\<rparr>)"
  "z_abort_timeout ref_platform = (\<lambda>q. (if k_flag q then 0 else - EINVAL, q\<lparr>k_flag := False\<rparr>))"
  "user_alloc ref_platform = (\<lambda>f p n t. raise Bad_pointer)"
  "user_free ref_platform = (\<lambda>f p m. raise Bad_pointer)"
  "user_callback ref_platform = (\<lambda>f m. ret ())"
  "user_handler ref_platform = (\<lambda>f i m d. ret ())"
  "state_fn ref_platform = (\<lambda>f h i m. raise Bad_pointer)"
  "fifo_items ref_platform = k_items"
  "msgq_items ref_platform = k_items"
  "msgq_max ref_platform = k_cap"
  "slab_free_blocks ref_platform = (\<lambda>q. set (k_items q))"
  "mutex_depth ref_platform = k_depth"
  "work_pending ref_platform = k_flag"
  "poll_event_of ref_platform = k_poll"
  "slist_nodes ref_platform = ref_nodes"
  "timeout_active ref_platform = k_flag"
  by (simp_all add: ref_platform_def)

section \<open>The laws hold\<close>

lemma takeWhile_upt_all:
  "l \<le> n \<Longrightarrow> (\<forall>i < l. Q i) \<Longrightarrow> \<not> Q l \<Longrightarrow> l < n \<Longrightarrow> length (takeWhile Q [0..<n]) = l"
proof -
  assume a: "l \<le> n" "\<forall>i < l. Q i" "\<not> Q l" "l < n"
  have "[0..<n] = [0..<l] @ l # [Suc l..<n]"
    using a(1,4) upt_add_eq_append [of 0 l "n - l"] by (simp add: upt_conv_Cons)
  then show ?thesis using a(2,3) by (simp add: takeWhile_append)
qed

lemma ref_ctz_mask:
  assumes "0 < n" "l + n \<le> 32"
  shows "ref_ctz (push_bit l (mask n)) = l"
  unfolding ref_ctz_def using assms
  by (intro takeWhile_upt_all) (auto simp: bit_simps)

lemma ref_field_laws: "field_laws (ref_platform :: (kobj, 'u) platform)"
proof -
  have "push_bit l v AND push_bit l (mask n) = push_bit l (take_bit n v)" for l n and v :: uint32
    by (rule bit_word_eqI) (auto simp: bit_simps)
  moreover have "drop_bit l (v AND push_bit l (mask n)) = take_bit n (drop_bit l v)"
    if "l + n \<le> 32" for l n and v :: uint32
    using that by (intro bit_word_eqI) (auto simp: bit_simps)
  ultimately show ?thesis
    by (simp add: field_laws_def ref_ctz_mask)
qed

lemma ref_atomic_laws: "atomic_laws (ref_platform :: (kobj, 'u) platform)"
  by (simp add: atomic_laws_def)

lemma ref_bitmap_laws: "bitmap_laws (ref_platform :: (kobj, 'u) platform)"
  unfolding bitmap_laws_def ref_platform_sel
proof (intro conjI allI impI)
  fix n :: nat
  show "n \<le> 32 * ((n + 31) div 32)" by presburger
next
  fix n i :: nat and a :: "uint32 list"
  assume "i < 32 * n"
  then have "i div 32 < n" by (simp add: less_mult_imp_div_less mult.commute)
  then show "\<not> bit ((replicate n 0 @ a) ! (i div 32)) (i mod 32)" by (simp add: nth_append)
next
  fix a :: "uint32 list" and i j :: nat
  assume b: "i < 32 * length a \<and> j < 32 * length a"
  have l: "i div 32 < length a"
    using b by (simp add: less_mult_imp_div_less mult.commute)
  have e: "i = j \<longleftrightarrow> i div 32 = j div 32 \<and> i mod 32 = j mod 32"
    by (metis div_mult_mod_eq)
  have m: "j mod 32 < 32" by simp
  show "bit (a[i div 32 := set_bit (i mod 32) (a ! (i div 32))] ! (j div 32)) (j mod 32) =
      (i = j \<or> bit (a ! (j div 32)) (j mod 32))"
    using l m unfolding e by (cases "i div 32 = j div 32") (auto simp: bit_simps)
  show "bit (a[i div 32 := unset_bit (i mod 32) (a ! (i div 32))] ! (j div 32)) (j mod 32) =
      (i \<noteq> j \<and> bit (a ! (j div 32)) (j mod 32))"
    using l m unfolding e by (cases "i div 32 = j div 32") (auto simp: bit_simps)
qed simp_all

lemma ref_fifo_laws: "fifo_laws (ref_platform :: (kobj, 'u) platform)"
  by (simp add: fifo_laws_def kobj0_def)

lemma ref_msgq_laws: "msgq_laws (ref_platform :: (kobj, 'u) platform)"
  by (simp add: msgq_laws_def kobj0_def)

lemma ref_slab_laws: "slab_laws (ref_platform :: (kobj, 'u) platform)"
  by (auto simp: slab_laws_def neq_Nil_conv split: list.splits k_timeout.splits)

lemma ref_size_laws: "size_laws (ref_platform :: (kobj, 'u) platform)"
proof -
  have "n \<le> (n + 3) div 4 * 4" "(n + 3) div 4 * 4 < n + 4" for n :: nat by presburger+
  then show ?thesis by (simp add: size_laws_def)
qed

lemma ref_mutex_laws: "mutex_laws (ref_platform :: (kobj, 'u) platform)"
  by (simp add: mutex_laws_def kobj0_def)

lemma ref_poll_laws: "poll_laws (ref_platform :: (kobj, 'u) platform)"
  by (simp add: poll_laws_def)

lemma ref_timeout_laws: "timeout_laws (ref_platform :: (kobj, 'u) platform)"
  by (simp add: timeout_laws_def kobj0_def)

lemma succ_in_append:
  "x \<notin> set xs \<Longrightarrow> succ_in x (xs @ x # ys) = (case ys of [] \<Rightarrow> NULL | y # _ \<Rightarrow> y)"
proof (induction xs)
  case Nil
  then show ?case by (cases ys) simp_all
next
  case (Cons a xs)
  then show ?case by (cases "xs @ x # ys") (auto split: list.splits)
qed

lemma ref_peek_next_eq:
  assumes "slist_ok (ref_platform :: (kobj, 'u) platform) l" and "ref_nodes l h = xs @ x # ys"
  shows "ref_peek_next l x = (case ys of [] \<Rightarrow> NULL | y # _ \<Rightarrow> y)"
proof -
  have d: "distinct (ref_nodes l h')" and dj: "h \<noteq> h' \<Longrightarrow> x \<notin> set (ref_nodes l h')" for h'
    using assms by (fastforce simp: slist_ok_def)+
  have "h \<in> set (map fst (k_lists l))"
  proof -
    have "map_of (k_lists l) h \<noteq> None"
      using assms(2) by (auto simp: ref_nodes_def split: option.splits)
    then show ?thesis by (metis map_of_eq_None_iff list.set_map)
  qed
  moreover have "x \<in> set (ref_nodes l h') \<longleftrightarrow> h' = h" for h'
    using assms(2) dj by (cases "h' = h") auto
  ultimately have "\<exists>t. filter (\<lambda>h'. x \<in> set (ref_nodes l h')) (map fst (k_lists l)) = h # t"
    by (cases "filter (\<lambda>h'. x \<in> set (ref_nodes l h')) (map fst (k_lists l))")
      (auto simp: filter_eq_Cons_iff filter_empty_conv)
  moreover have "succ_in x (ref_nodes l h) = (case ys of [] \<Rightarrow> NULL | y # _ \<Rightarrow> y)"
    using d [of h] assms(2) by (simp add: succ_in_append)
  ultimately show ?thesis by (auto simp: ref_peek_next_def)
qed

lemma ref_nodes_set [simp]: "ref_nodes (ref_set_nodes l h xs) = (ref_nodes l)(h := xs)"
  by (auto simp: ref_nodes_def ref_set_nodes_def)

lemma ref_slist_laws: "slist_laws (ref_platform :: (kobj, 'u) platform)"
  unfolding slist_laws_def ref_platform_sel
proof (intro conjI allI impI)
  fix l h xs x ys
  assume "slist_ok (ref_platform :: (kobj, 'u) platform) l \<and> ref_nodes l h = xs @ x # ys"
  then show "ref_peek_next l x = (case ys of [] \<Rightarrow> NULL | y # _ \<Rightarrow> y)"
    by (blast intro: ref_peek_next_eq)
qed (simp_all add: ref_peek_head_def)

lemmas ref_laws =
  ref_field_laws ref_atomic_laws ref_bitmap_laws ref_fifo_laws ref_msgq_laws ref_slab_laws ref_size_laws
  ref_mutex_laws ref_poll_laws ref_timeout_laws ref_slist_laws

section \<open>An empty memory\<close>

definition ref_memory :: "'u \<Rightarrow> (kobj, 'u) memory" where
  "ref_memory u = \<lparr>
     messages = Map.empty,
     callback_msgs = Map.empty,
     delayable_msgs = Map.empty,
     allocator_objs = Map.empty,
     g_runtime_allocators = \<lparr>allocators = [], num_allocators = 0, mutex = kobj0\<rparr>,
     mem_slabs = Map.empty,
     msgqs = Map.empty,
     bitarrays = Map.empty,
     subscribers = Map.empty,
     brokers = Map.empty,
     slists = kobj0,
     poll_events = Map.empty,
     hsms = Map.empty,
     app = u\<rparr>"

end
