(* ===== verification/Msg.thy ===== *)
theory Msg imports RefPlatform begin

unbundle bit_operations_syntax

text \<open>
  The message header, \<open>include/pub_sub/msg.h\<close>: the message id, the allocator id and the
  reference counter in one atomic word, and the two operations that link a message into a FIFO.
  The lemmas show that the three fields are independent as long as the counter stays within
  its eight bits, and what happens to the allocator id when it does not.
\<close>

section \<open>Layout of the atomic word\<close>

definition PUB_SUB_MSG_ID_MASK :: "('k, 'u) platform \<Rightarrow> uint32" where
  "PUB_SUB_MSG_ID_MASK P = GENMASK P 31 16"

definition PUB_SUB_MSG_ALLOC_MASK :: "('k, 'u) platform \<Rightarrow> uint32" where
  "PUB_SUB_MSG_ALLOC_MASK P = GENMASK P 15 8"

definition PUB_SUB_MSG_REF_CNT_MASK :: "('k, 'u) platform \<Rightarrow> uint32" where
  "PUB_SUB_MSG_REF_CNT_MASK P = GENMASK P 7 0"

definition PUB_SUB_MSG_ATOMIC_DATA_INIT :: "('k, 'u) platform \<Rightarrow> uint16 \<Rightarrow> uint8 \<Rightarrow> uint32" where
  "PUB_SUB_MSG_ATOMIC_DATA_INIT P msg_id alloc_id =
     ATOMIC_INIT P (FIELD_PREP P (PUB_SUB_MSG_ID_MASK P) (ucast msg_id) OR
                    FIELD_PREP P (PUB_SUB_MSG_ALLOC_MASK P) (ucast alloc_id) OR
                    FIELD_PREP P (PUB_SUB_MSG_REF_CNT_MASK P) 0)"

definition PUB_SUB_MSG_OVERHEAD_NUM_BYTES :: "('k, 'u) platform \<Rightarrow> nat" where
  "PUB_SUB_MSG_OVERHEAD_NUM_BYTES P = sizeof_pub_sub_msg P"

section \<open>Access to the header\<close>

text \<open>\<open>CONTAINER_OF(msg, struct pub_sub_msg, msg)\<close> and the read or write of the struct: the
  header has the number of its message.\<close>

definition read_msg :: "ptr \<Rightarrow> (('k, 'u) memory, pub_sub_msg) prog" where
  "read_msg msg = fetchM Bad_pointer (\<lambda>s. messages s msg)"

definition set_atomic_data :: "ptr \<Rightarrow> uint32 \<Rightarrow> ('k, 'u) memory \<Rightarrow> ('k, 'u) memory" where
  "set_atomic_data msg w s =
     s\<lparr>messages := (messages s)(msg := map_option (\<lambda>m. m\<lparr>atomic_data := w\<rparr>) (messages s msg))\<rparr>"

definition set_fifo_reserved :: "ptr \<Rightarrow> bool \<Rightarrow> ('k, 'u) memory \<Rightarrow> ('k, 'u) memory" where
  "set_fifo_reserved msg b s =
     s\<lparr>messages := (messages s)(msg := map_option (\<lambda>m. m\<lparr>fifo_reserved := b\<rparr>) (messages s msg))\<rparr>"

definition pub_sub_msg_init ::
  "('k, 'u) platform \<Rightarrow> ptr \<Rightarrow> uint16 \<Rightarrow> uint8 \<Rightarrow> (('k, 'u) memory, unit) prog" where
  "pub_sub_msg_init P msg msg_id alloc_id =
     thenM (z_assert P (msg \<noteq> NULL))
    (thenM (read_msg msg)
    (modifyM (set_atomic_data msg (PUB_SUB_MSG_ATOMIC_DATA_INIT P msg_id alloc_id))))"

definition pub_sub_msg_get_ref_cnt ::
  "('k, 'u) platform \<Rightarrow> ptr \<Rightarrow> (('k, 'u) memory, uint8) prog" where
  "pub_sub_msg_get_ref_cnt P msg =
     thenM (z_assert P (msg \<noteq> NULL))
    (bindM (read_msg msg) (\<lambda>ps_msg.
     ret (ucast (FIELD_GET P (PUB_SUB_MSG_REF_CNT_MASK P) (atomic_get P (atomic_data ps_msg))))))"

definition pub_sub_msg_inc_ref_cnt ::
  "('k, 'u) platform \<Rightarrow> ptr \<Rightarrow> (('k, 'u) memory, unit) prog" where
  "pub_sub_msg_inc_ref_cnt P msg =
     thenM (z_assert P (msg \<noteq> NULL))
    (thenM (z_assertM P (bindM (pub_sub_msg_get_ref_cnt P msg) (\<lambda>n. ret (n < UINT8_MAX))))
    (bindM (read_msg msg) (\<lambda>ps_msg.
     modifyM (set_atomic_data msg (snd (atomic_inc P (atomic_data ps_msg)))))))"

definition pub_sub_msg_dec_ref_cnt ::
  "('k, 'u) platform \<Rightarrow> ptr \<Rightarrow> (('k, 'u) memory, uint8) prog" where
  "pub_sub_msg_dec_ref_cnt P msg =
     thenM (z_assert P (msg \<noteq> NULL))
    (thenM (z_assertM P (bindM (pub_sub_msg_get_ref_cnt P msg) (\<lambda>n. ret (n > 0))))
    (bindM (read_msg msg) (\<lambda>ps_msg.
     thenM (modifyM (set_atomic_data msg (snd (atomic_dec P (atomic_data ps_msg)))))
     (ret (ucast (FIELD_GET P (PUB_SUB_MSG_REF_CNT_MASK P)
                   (fst (atomic_dec P (atomic_data ps_msg)))))))))"

definition pub_sub_msg_get_msg_id ::
  "('k, 'u) platform \<Rightarrow> ptr \<Rightarrow> (('k, 'u) memory, uint16) prog" where
  "pub_sub_msg_get_msg_id P msg =
     thenM (z_assert P (msg \<noteq> NULL))
    (bindM (read_msg msg) (\<lambda>ps_msg.
     ret (ucast (FIELD_GET P (PUB_SUB_MSG_ID_MASK P) (atomic_get P (atomic_data ps_msg))))))"

definition pub_sub_msg_get_alloc_id ::
  "('k, 'u) platform \<Rightarrow> ptr \<Rightarrow> (('k, 'u) memory, uint8) prog" where
  "pub_sub_msg_get_alloc_id P msg =
     thenM (z_assert P (msg \<noteq> NULL))
    (bindM (read_msg msg) (\<lambda>ps_msg.
     ret (ucast (FIELD_GET P (PUB_SUB_MSG_ALLOC_MASK P) (atomic_get P (atomic_data ps_msg))))))"

section \<open>FIFOs\<close>

text \<open>A \<open>struct k_fifo *\<close> of the library points at the publish FIFO of a broker or at the
  FIFO of a subscriber. The union of a subscriber that holds something else has no FIFO.\<close>

datatype fifo_ref = Msg_publish_fifo ptr | Sub_fifo ptr

fun fifo_at :: "fifo_ref \<Rightarrow> ('k, 'u) memory \<Rightarrow> error + 'k" where
  "fifo_at (Msg_publish_fifo b) s =
     (case brokers s b of None \<Rightarrow> Inl Bad_pointer | Some br \<Rightarrow> Inr (msg_publish_fifo br))"
| "fifo_at (Sub_fifo x) s =
     (case subscribers s x of
        None \<Rightarrow> Inl Bad_pointer
      | Some su \<Rightarrow> (case rx_queue su of Rx_fifo q \<Rightarrow> Inr q | _ \<Rightarrow> Inl Wrong_member))"

fun set_fifo :: "fifo_ref \<Rightarrow> 'k \<Rightarrow> ('k, 'u) memory \<Rightarrow> ('k, 'u) memory" where
  "set_fifo (Msg_publish_fifo b) q s =
     s\<lparr>brokers := (brokers s)(b := map_option (\<lambda>br. br\<lparr>msg_publish_fifo := q\<rparr>) (brokers s b))\<rparr>"
| "set_fifo (Sub_fifo x) q s =
     s\<lparr>subscribers :=
         (subscribers s)(x := map_option (\<lambda>su. su\<lparr>rx_queue := Rx_fifo q\<rparr>) (subscribers s x))\<rparr>"

definition read_fifo :: "fifo_ref \<Rightarrow> (('k, 'u) memory, 'k) prog" where
  "read_fifo f s = (case fifo_at f s of Inl e \<Rightarrow> Inl e | Inr q \<Rightarrow> Inr (q, s))"

text \<open>\<open>k_fifo_put\<close> overwrites the link word of the message; if the message is still linked
  that breaks the FIFO it is in.\<close>

definition pub_sub_msg_fifo_put ::
  "('k, 'u) platform \<Rightarrow> fifo_ref \<Rightarrow> ptr \<Rightarrow> (('k, 'u) memory, unit) prog" where
  "pub_sub_msg_fifo_put P fifo msg =
     thenM (z_assert P (msg \<noteq> NULL))
    (bindM (read_fifo fifo) (\<lambda>q.
     bindM (read_msg msg) (\<lambda>ps_msg.
     thenM (guardM Fifo_relink (\<not> fifo_reserved ps_msg))
    (modifyM (\<lambda>s. set_fifo fifo (k_fifo_put P q msg) (set_fifo_reserved msg True s))))))"

definition pub_sub_msg_fifo_get ::
  "('k, 'u) platform \<Rightarrow> fifo_ref \<Rightarrow> k_timeout \<Rightarrow> (('k, 'u) memory, ptr) prog" where
  "pub_sub_msg_fifo_get P fifo t =
     bindM (read_fifo fifo) (\<lambda>q.
     bindM (waitM (k_fifo_get P q t)) (\<lambda>r.
     thenM (modifyM (\<lambda>s. set_fifo fifo (snd r) (if fst r \<noteq> NULL then set_fifo_reserved (fst r) False s else s)))
     (ret (if fst r \<noteq> NULL then fst r else NULL))))"

section \<open>The fields of the word\<close>

text \<open>What the three fields of a word are, in terms of bits.\<close>

definition ref_of :: "uint32 \<Rightarrow> uint8" where
  "ref_of w = ucast (take_bit 8 w)"

definition alloc_of :: "uint32 \<Rightarrow> uint8" where
  "alloc_of w = ucast (take_bit 8 (drop_bit 8 w))"

definition id_of :: "uint32 \<Rightarrow> uint16" where
  "id_of w = ucast (take_bit 16 (drop_bit 16 w))"

text \<open>The word as a number: id, allocator, counter are its digits.\<close>

lemma take_bit_32_unat: "take_bit 32 (unat w) = unat w" for w :: uint32
  using unsigned_less [of w, where ?'a = nat] by (simp add: take_bit_nat_eq_self)

lemma unat_ref_of: "unat (ref_of w) = unat w mod 256"
proof -
  have "unat (ref_of w) = take_bit 8 (unat w)"
    by (simp add: ref_of_def unsigned_ucast_eq unsigned_take_bit_eq)
  then show ?thesis by (simp add: take_bit_eq_mod)
qed

lemma unat_alloc_of: "unat (alloc_of w) = unat w div 256 mod 256"
proof -
  have "unat (alloc_of w) = take_bit 8 (drop_bit 8 (unat w))"
    by (simp add: alloc_of_def unsigned_ucast_eq unsigned_take_bit_eq unsigned_drop_bit_eq
        take_bit_32_unat)
  then show ?thesis by (simp add: take_bit_eq_mod drop_bit_eq_div)
qed

lemma unat_id_of: "unat (id_of w) = unat w div 65536"
proof -
  have "unat w < 65536 * 65536"
    using unsigned_less [of w, where ?'a = nat] by simp
  then have "unat w div 65536 < 65536"
    by (rule less_mult_imp_div_less)
  moreover have "unat (id_of w) = take_bit 16 (drop_bit 16 (unat w))"
    by (simp add: id_of_def unsigned_ucast_eq unsigned_take_bit_eq unsigned_drop_bit_eq
        take_bit_32_unat)
  ultimately show ?thesis by (simp add: take_bit_eq_mod drop_bit_eq_div)
qed

lemmas unat_fields = unat_ref_of unat_alloc_of unat_id_of

lemma fields_eq_iff:
  "w = v \<longleftrightarrow> ref_of w = ref_of v \<and> alloc_of w = alloc_of v \<and> id_of w = id_of v"
proof
  assume r: "ref_of w = ref_of v \<and> alloc_of w = alloc_of v \<and> id_of w = id_of v"
  have m: "unat w mod 256 = unat v mod 256"
    using r unat_ref_of [of w] unat_ref_of [of v] by simp
  have a: "unat w div 256 mod 256 = unat v div 256 mod 256"
    using r unat_alloc_of [of w] unat_alloc_of [of v] by simp
  have "unat w div (256 * 256) = unat v div (256 * 256)"
    using r unat_id_of [of w] unat_id_of [of v] by simp
  then have "unat w div 256 div 256 = unat v div 256 div 256"
    by (simp only: div_mult2_eq)
  with a have "unat w div 256 = unat v div 256"
    by (metis div_mult_mod_eq)
  with m have "unat w = unat v"
    by (metis div_mult_mod_eq)
  then show "w = v" by (simp add: word_unat_eq_iff)
qed simp

lemma unat_inc: "unat (w + 1) = (unat w + 1) mod (2 ^ LENGTH('a))" for w :: "'a::len word"
  using unat_word_ariths(1) [of w 1] by simp

text \<open>Incrementing a number whose last digit (to base 256) is not full.\<close>

lemma inc_digits:
  fixes n :: nat
  assumes "n mod 256 < 255" and "n < 4294967296"
  shows "(n + 1) mod 4294967296 = n + 1" and "(n + 1) mod 256 = n mod 256 + 1"
    and "(n + 1) div 256 = n div 256" and "(n + 1) div 65536 = n div 65536"
proof -
  show m: "(n + 1) mod 256 = n mod 256 + 1" and d: "(n + 1) div 256 = n div 256"
    using assms(1) by (simp_all add: mod_Suc div_Suc)
  have "(n + 1) div (256 * 256) = n div (256 * 256)"
    by (simp only: div_mult2_eq d)
  then show "(n + 1) div 65536 = n div 65536" by simp
  have "n \<noteq> 4294967295" using assms(1) by auto
  then show "(n + 1) mod 4294967296 = n + 1" using assms(2) by simp
qed

lemma ref_of_not_full: "ref_of w \<noteq> UINT8_MAX \<longleftrightarrow> unat w mod 256 < 255"
proof -
  have "ref_of w = UINT8_MAX \<longleftrightarrow> unat w mod 256 = 255"
    by (simp add: word_unat_eq_iff [of "ref_of w"] unat_ref_of)
  moreover have "unat w mod 256 < 256" by simp
  ultimately show ?thesis by linarith
qed

lemma fields_inc:
  assumes "ref_of w \<noteq> UINT8_MAX"
  shows "ref_of (w + 1) = ref_of w + 1"
    and "alloc_of (w + 1) = alloc_of w" and "id_of (w + 1) = id_of w"
proof -
  have r: "unat w mod 256 < 255"
    using assms by (simp only: ref_of_not_full)
  have l: "unat w < 4294967296"
    using unsigned_less [of w, where ?'a = nat] by simp
  note d = inc_digits [OF r l]
  have u: "unat (w + 1) = unat w + 1"
    using unat_inc [of w] d(1) by simp
  have "unat (ref_of w + 1) = unat (ref_of w) + 1"
    using unat_inc [of "ref_of w"] r by (simp add: unat_ref_of)
  then show "ref_of (w + 1) = ref_of w + 1"
    using d(2) by (simp add: word_unat_eq_iff unat_ref_of u)
  show "alloc_of (w + 1) = alloc_of w" and "id_of (w + 1) = id_of w"
    using d(3,4) by (simp_all add: word_unat_eq_iff unat_alloc_of unat_id_of u)
qed

text \<open>A full counter spills into the allocator id.\<close>

lemma fields_inc_carry:
  assumes "ref_of w = UINT8_MAX"
  shows "ref_of (w + 1) = 0" and "alloc_of (w + 1) = alloc_of w + 1"
proof -
  have r: "unat w mod 256 = 255"
    using assms unat_ref_of [of w] by simp
  define k where "k = unat w div 256"
  have n: "unat w + 1 = (k + 1) * 256"
    using r div_mult_mod_eq [of "unat w" 256] unfolding k_def by simp
  have u: "unat (w + 1) = ((k + 1) mod 16777216) * 256"
    using unat_inc [of w] mod_mult_mult2 [of "k + 1" 256 16777216] by (simp only: n) simp
  have "unat (ref_of (w + 1)) = 0" by (simp add: unat_ref_of u)
  then show "ref_of (w + 1) = 0" by (simp add: unat_eq_0)
  have "(k + 1) mod 16777216 mod 256 = (k + 1) mod 256"
    by (rule mod_mod_cancel) simp
  moreover have "unat (alloc_of w + 1) = (k + 1) mod 256"
    using unat_inc [of "alloc_of w"] by (simp add: unat_alloc_of k_def mod_Suc_eq)
  ultimately show "alloc_of (w + 1) = alloc_of w + 1"
    by (simp add: word_unat_eq_iff unat_alloc_of u)
qed

lemma fields_dec:
  assumes "ref_of w \<noteq> 0"
  shows "ref_of (w - 1) = ref_of w - 1"
    and "alloc_of (w - 1) = alloc_of w" and "id_of (w - 1) = id_of w"
proof -
  have r: "ref_of (w - 1) \<noteq> UINT8_MAX"
    using fields_inc_carry(1) [of "w - 1"] assms by auto
  show "ref_of (w - 1) = ref_of w - 1"
    and "alloc_of (w - 1) = alloc_of w" and "id_of (w - 1) = id_of w"
    using fields_inc [OF r] by simp_all
qed

section \<open>The operations in terms of the fields\<close>

text \<open>The laws of the platform that the header relies on.\<close>

definition header_laws :: "('k, 'u) platform \<Rightarrow> bool" where
  "header_laws P \<longleftrightarrow> field_laws P \<and> atomic_laws P"

lemma header_masks:
  assumes "header_laws P"
  shows "PUB_SUB_MSG_ID_MASK P = push_bit 16 (mask 16)"
    and "PUB_SUB_MSG_ALLOC_MASK P = push_bit 8 (mask 8)"
    and "PUB_SUB_MSG_REF_CNT_MASK P = push_bit 0 (mask 8)"
  using assms unfolding header_laws_def field_laws_def PUB_SUB_MSG_ID_MASK_def
    PUB_SUB_MSG_ALLOC_MASK_def PUB_SUB_MSG_REF_CNT_MASK_def by force+

lemma header_gets:
  assumes "header_laws P"
  shows "ucast (FIELD_GET P (PUB_SUB_MSG_ID_MASK P) w) = id_of w"
    and "ucast (FIELD_GET P (PUB_SUB_MSG_ALLOC_MASK P) w) = alloc_of w"
    and "ucast (FIELD_GET P (PUB_SUB_MSG_REF_CNT_MASK P) w) = ref_of w"
proof -
  have g: "FIELD_GET P (push_bit l (mask n)) w = take_bit n (drop_bit l w)"
    if "0 < n" "l + n \<le> 32" for l n
    using assms that by (simp add: header_laws_def field_laws_def)
  show "ucast (FIELD_GET P (PUB_SUB_MSG_ID_MASK P) w) = id_of w"
    and "ucast (FIELD_GET P (PUB_SUB_MSG_ALLOC_MASK P) w) = alloc_of w"
    and "ucast (FIELD_GET P (PUB_SUB_MSG_REF_CNT_MASK P) w) = ref_of w"
    using g [of 16 16] g [of 8 8] g [of 8 0]
    by (simp_all add: header_masks [OF assms] id_of_def alloc_of_def ref_of_def)
qed

lemma header_atomics:
  assumes "header_laws P"
  shows "ATOMIC_INIT P w = w" and "atomic_get P w = w"
    and "atomic_inc P w = (w, w + 1)" and "atomic_dec P w = (w, w - 1)"
  using assms by (simp_all add: header_laws_def atomic_laws_def)

lemma header_init_word:
  assumes "header_laws P"
  shows "PUB_SUB_MSG_ATOMIC_DATA_INIT P i a = push_bit 16 (ucast i) OR push_bit 8 (ucast a)"
proof -
  have f: "FIELD_PREP P (push_bit l (mask n)) v = push_bit l (take_bit n v)"
    if "0 < n" "l + n \<le> 32" for l n v
    using assms that by (simp add: header_laws_def field_laws_def)
  have "take_bit 16 (ucast i :: uint32) = ucast i" "take_bit 8 (ucast a :: uint32) = ucast a"
    by (rule bit_word_eqI; simp add: bit_simps; use bit_imp_le_length in fastforce)+
  then show ?thesis
    using f [of 16 16] f [of 8 8] f [of 8 0]
    by (simp add: PUB_SUB_MSG_ATOMIC_DATA_INIT_def header_masks [OF assms] header_atomics [OF assms])
qed

lemma header_init_fields:
  assumes "header_laws P"
  shows "id_of (PUB_SUB_MSG_ATOMIC_DATA_INIT P i a) = i"
    and "alloc_of (PUB_SUB_MSG_ATOMIC_DATA_INIT P i a) = a"
    and "ref_of (PUB_SUB_MSG_ATOMIC_DATA_INIT P i a) = 0"
  unfolding header_init_word [OF assms] id_of_def alloc_of_def ref_of_def
  by (rule bit_word_eqI; auto simp: bit_simps dest: bit_imp_le_length)+

named_theorems msg_run \<open>what an operation on a valid message does\<close>

lemma read_msg_run [msg_run]: "messages s msg = Some m \<Longrightarrow> read_msg msg s = Inr (m, s)"
  by (simp add: read_msg_def)

lemma read_msg_InrE [run_elims]:
  assumes "read_msg msg s = Inr r"
  obtains m where "messages s msg = Some m" and "r = (m, s)"
  using assms by (auto simp: read_msg_def elim: run_elims)

lemma init_run [msg_run]:
  assumes "messages s msg = Some m" and "msg \<noteq> NULL"
  shows "pub_sub_msg_init P msg i a s =
    Inr ((), set_atomic_data msg (PUB_SUB_MSG_ATOMIC_DATA_INIT P i a) s)"
  using assms by (simp add: pub_sub_msg_init_def msg_run)

lemma get_ref_cnt_run [msg_run]:
  assumes "header_laws P" and "messages s msg = Some m" and "msg \<noteq> NULL"
  shows "pub_sub_msg_get_ref_cnt P msg s = Inr (ref_of (atomic_data m), s)"
  using assms by (simp add: pub_sub_msg_get_ref_cnt_def msg_run header_gets header_atomics)

lemma get_msg_id_run [msg_run]:
  assumes "header_laws P" and "messages s msg = Some m" and "msg \<noteq> NULL"
  shows "pub_sub_msg_get_msg_id P msg s = Inr (id_of (atomic_data m), s)"
  using assms by (simp add: pub_sub_msg_get_msg_id_def msg_run header_gets header_atomics)

lemma get_alloc_id_run [msg_run]:
  assumes "header_laws P" and "messages s msg = Some m" and "msg \<noteq> NULL"
  shows "pub_sub_msg_get_alloc_id P msg s = Inr (alloc_of (atomic_data m), s)"
  using assms by (simp add: pub_sub_msg_get_alloc_id_def msg_run header_gets header_atomics)

text \<open>With assertions compiled in, a counter that is full is not incremented and a counter that
  is zero is not decremented; without them the word wraps.\<close>

lemma less_UINT8_MAX_iff: "n < UINT8_MAX \<longleftrightarrow> n \<noteq> UINT8_MAX"
proof -
  have "n \<le> UINT8_MAX" by (simp add: word_le_nat_alt) (use unsigned_less [of n, where ?'a = nat] in simp)
  then show ?thesis by auto
qed

lemma inc_ref_cnt_run [msg_run]:
  assumes "header_laws P" and "messages s msg = Some m" and "msg \<noteq> NULL"
  shows "pub_sub_msg_inc_ref_cnt P msg s =
    (if CONFIG_ASSERT P \<and> ref_of (atomic_data m) = UINT8_MAX then Inl Assert_failed
     else Inr ((), set_atomic_data msg (atomic_data m + 1) s))"
  using assms by (simp add: pub_sub_msg_inc_ref_cnt_def z_assertM_def msg_run header_atomics
      less_UINT8_MAX_iff)

lemma dec_ref_cnt_run [msg_run]:
  assumes "header_laws P" and "messages s msg = Some m" and "msg \<noteq> NULL"
  shows "pub_sub_msg_dec_ref_cnt P msg s =
    (if CONFIG_ASSERT P \<and> ref_of (atomic_data m) = 0 then Inl Assert_failed
     else Inr (ref_of (atomic_data m), set_atomic_data msg (atomic_data m - 1) s))"
  using assms by (simp add: pub_sub_msg_dec_ref_cnt_def z_assertM_def msg_run header_atomics
      header_gets word_gt_0)

lemma messages_set_atomic_data [simp]:
  "messages s msg = Some m \<Longrightarrow>
   messages (set_atomic_data msg w s) = (messages s)(msg \<mapsto> m\<lparr>atomic_data := w\<rparr>)"
  by (simp add: set_atomic_data_def)

lemma messages_set_fifo_reserved [simp]:
  "messages s msg = Some m \<Longrightarrow>
   messages (set_fifo_reserved msg b s) = (messages s)(msg \<mapsto> m\<lparr>fifo_reserved := b\<rparr>)"
  by (simp add: set_fifo_reserved_def)

text \<open>A write to a header leaves the rest of the memory alone.\<close>

lemma set_atomic_data_frame [simp]:
  "callback_msgs (set_atomic_data msg w s) = callback_msgs s"
  "delayable_msgs (set_atomic_data msg w s) = delayable_msgs s"
  "allocator_objs (set_atomic_data msg w s) = allocator_objs s"
  "g_runtime_allocators (set_atomic_data msg w s) = g_runtime_allocators s"
  "mem_slabs (set_atomic_data msg w s) = mem_slabs s"
  "msgqs (set_atomic_data msg w s) = msgqs s"
  "bitarrays (set_atomic_data msg w s) = bitarrays s"
  "subscribers (set_atomic_data msg w s) = subscribers s"
  "brokers (set_atomic_data msg w s) = brokers s"
  "slists (set_atomic_data msg w s) = slists s"
  "poll_events (set_atomic_data msg w s) = poll_events s"
  "hsms (set_atomic_data msg w s) = hsms s"
  "app (set_atomic_data msg w s) = app s"
  by (simp_all add: set_atomic_data_def)

lemma set_fifo_reserved_frame [simp]:
  "callback_msgs (set_fifo_reserved msg b s) = callback_msgs s"
  "delayable_msgs (set_fifo_reserved msg b s) = delayable_msgs s"
  "allocator_objs (set_fifo_reserved msg b s) = allocator_objs s"
  "g_runtime_allocators (set_fifo_reserved msg b s) = g_runtime_allocators s"
  "mem_slabs (set_fifo_reserved msg b s) = mem_slabs s"
  "msgqs (set_fifo_reserved msg b s) = msgqs s"
  "bitarrays (set_fifo_reserved msg b s) = bitarrays s"
  "subscribers (set_fifo_reserved msg b s) = subscribers s"
  "brokers (set_fifo_reserved msg b s) = brokers s"
  "slists (set_fifo_reserved msg b s) = slists s"
  "poll_events (set_fifo_reserved msg b s) = poll_events s"
  "hsms (set_fifo_reserved msg b s) = hsms s"
  "app (set_fifo_reserved msg b s) = app s"
  by (simp_all add: set_fifo_reserved_def)

section \<open>Reference-counted messages\<close>

text \<open>
  The contract the allocator, the broker and the subscribers rely on: a counter per message,
  moved by one by the two operations as long as it stays between 0 and 255, while the other
  messages, and the identity of the message, stay what they are.
\<close>

locale ref_counted =
  fixes ok :: "'p \<Rightarrow> bool"
    and valid :: "'s \<Rightarrow> ptr \<Rightarrow> bool"
    and refs :: "'s \<Rightarrow> ptr \<Rightarrow> nat"
    and ident :: "'s \<Rightarrow> ptr \<Rightarrow> 'i"
    and incr :: "'p \<Rightarrow> ptr \<Rightarrow> ('s, unit) prog"
    and decr :: "'p \<Rightarrow> ptr \<Rightarrow> ('s, uint8) prog"
  assumes incr_spec: "ok p \<Longrightarrow> valid s m \<Longrightarrow> refs s m < 255 \<Longrightarrow>
      \<exists>s'. incr p m s = Inr ((), s') \<and> valid s' = valid s \<and>
           refs s' = (refs s)(m := refs s m + 1) \<and> ident s' = ident s"
    and decr_spec: "ok p \<Longrightarrow> valid s m \<Longrightarrow> 0 < refs s m \<Longrightarrow>
      \<exists>r s'. decr p m s = Inr (r, s') \<and> unat r = refs s m \<and> valid s' = valid s \<and>
           refs s' = (refs s)(m := refs s m - 1) \<and> ident s' = ident s"
begin

text \<open>Operations on any messages, one after the other: the counter of each message moves by the
  number of its increments less the number of its decrements.\<close>

lemma moves_counts:
  assumes "ok p" and "\<forall>x \<in> set xs. valid s (snd x)" and "moves_ok 255 xs (refs s)"
  shows "\<exists>s'. run_all (map (\<lambda>(up, m). if up then incr p m else discard (decr p m)) xs) s = Inr ((), s') \<and>
    valid s' = valid s \<and> ident s' = ident s \<and>
    (\<forall>m. refs s' m + count_list xs (False, m) = refs s m + count_list xs (True, m))"
  using assms(2,3)
proof (induction xs arbitrary: s)
  case Nil
  then show ?case by simp
next
  case (Cons x xs)
  obtain up y where x: "x = (up, y)" by (cases x)
  show ?case
  proof (cases up)
    case True
    with Cons.prems incr_spec [OF assms(1), of s y] x obtain s1 where
      s1: "incr p y s = Inr ((), s1)" "valid s1 = valid s"
        "refs s1 = (refs s)(y := refs s y + 1)" "ident s1 = ident s"
      by auto
    with Cons.prems True Cons.IH [of s1] x show ?thesis by fastforce
  next
    case False
    with Cons.prems decr_spec [OF assms(1), of s y] x obtain r s1 where
      s1: "decr p y s = Inr (r, s1)" "valid s1 = valid s"
        "refs s1 = (refs s)(y := refs s y - 1)" "ident s1 = ident s" "0 < refs s y"
      by auto
    with Cons.prems False Cons.IH [of s1] x show ?thesis by fastforce
  qed
qed

end

definition valid_msg :: "('k, 'u) memory \<Rightarrow> ptr \<Rightarrow> bool" where
  "valid_msg s m \<longleftrightarrow> m \<noteq> NULL \<and> messages s m \<noteq> None"

definition ref_cnt :: "('k, 'u) memory \<Rightarrow> ptr \<Rightarrow> nat" where
  "ref_cnt s m = (case messages s m of None \<Rightarrow> 0 | Some h \<Rightarrow> unat (ref_of (atomic_data h)))"

definition msg_ident :: "('k, 'u) memory \<Rightarrow> ptr \<Rightarrow> (uint16 \<times> uint8) option" where
  "msg_ident s m =
     map_option (\<lambda>h. (id_of (atomic_data h), alloc_of (atomic_data h))) (messages s m)"

lemma valid_msgE:
  assumes "valid_msg s m"
  obtains h where "messages s m = Some h" and "m \<noteq> NULL"
  using assms by (auto simp: valid_msg_def)

lemma ref_cnt_range: "ref_cnt s m \<le> 255"
  using unsigned_less [where ?'a = nat and ?'b = 8]
  by (auto simp: ref_cnt_def less_Suc_eq_le [symmetric] split: option.split)

lemma valid_set_atomic_data:
  assumes "messages s m = Some h"
  shows "valid_msg (set_atomic_data m w s) = valid_msg s"
    and "ref_cnt (set_atomic_data m w s) = (ref_cnt s)(m := unat (ref_of w))"
    and "msg_ident (set_atomic_data m w s) = (msg_ident s)(m := Some (id_of w, alloc_of w))"
  using assms by (auto simp: valid_msg_def ref_cnt_def msg_ident_def fun_eq_iff)

lemma unat_less_UINT8_MAX: "unat r < 255 \<longleftrightarrow> r \<noteq> UINT8_MAX" for r :: uint8
  by (simp add: less_UINT8_MAX_iff [symmetric] word_less_nat_alt)

interpretation hdr: ref_counted header_laws valid_msg ref_cnt msg_ident
  pub_sub_msg_inc_ref_cnt pub_sub_msg_dec_ref_cnt
proof (unfold_locales, goal_cases)
  case (1 P s m)
  obtain h where h: "messages s m = Some h" "m \<noteq> NULL" using 1(2) by (rule valid_msgE)
  have r: "ref_of (atomic_data h) \<noteq> UINT8_MAX"
    using 1(3) h by (simp add: ref_cnt_def unat_less_UINT8_MAX)
  have u: "unat (ref_of (atomic_data h) + 1) = unat (ref_of (atomic_data h)) + 1"
    using r by (simp add: unat_inc unat_less_UINT8_MAX [symmetric])
  show ?case
    using h r u fields_inc [OF r]
    by (auto simp: msg_run 1(1) valid_set_atomic_data ref_cnt_def msg_ident_def fun_eq_iff)
next
  case (2 P s m)
  obtain h where h: "messages s m = Some h" "m \<noteq> NULL" using 2(2) by (rule valid_msgE)
  have r: "ref_of (atomic_data h) \<noteq> 0"
    using 2(3) h by (auto simp: ref_cnt_def)
  have u: "unat (ref_of (atomic_data h) - 1) = unat (ref_of (atomic_data h)) - 1"
    using r by (simp add: unat_minus_one)
  show ?case
    using h r u fields_dec [OF r]
    by (auto simp: msg_run 2(1) valid_set_atomic_data ref_cnt_def msg_ident_def fun_eq_iff)
qed

section \<open>FIFOs of messages\<close>

lemma fifo_at_set_fifo:
  "fifo_at f s = Inr q \<Longrightarrow> fifo_at f (set_fifo f q' s) = Inr q'"
  by (cases f) (auto split: option.splits rx_queue.splits)

lemma fifo_at_other:
  "f \<noteq> g \<Longrightarrow> fifo_at f (set_fifo g q s) = fifo_at f s"
  by (cases f; cases g) (auto split: option.splits)

lemma fifo_at_set_fifo_reserved [simp]: "fifo_at f (set_fifo_reserved m b s) = fifo_at f s"
  and fifo_at_set_atomic_data [simp]: "fifo_at f (set_atomic_data m w s) = fifo_at f s"
  by (cases f; simp)+

lemma set_fifo_frame [simp]:
  "messages (set_fifo f q s) = messages s"
  "callback_msgs (set_fifo f q s) = callback_msgs s"
  "delayable_msgs (set_fifo f q s) = delayable_msgs s"
  "allocator_objs (set_fifo f q s) = allocator_objs s"
  "g_runtime_allocators (set_fifo f q s) = g_runtime_allocators s"
  "mem_slabs (set_fifo f q s) = mem_slabs s"
  "msgqs (set_fifo f q s) = msgqs s"
  "bitarrays (set_fifo f q s) = bitarrays s"
  "slists (set_fifo f q s) = slists s"
  "poll_events (set_fifo f q s) = poll_events s"
  "hsms (set_fifo f q s) = hsms s"
  "app (set_fifo f q s) = app s"
  by (cases f; simp)+

lemma fifo_put_run [msg_run]:
  assumes "messages s msg = Some m" and "msg \<noteq> NULL" and "fifo_at f s = Inr q"
  shows "pub_sub_msg_fifo_put P f msg s =
    (if fifo_reserved m then Inl Fifo_relink
     else Inr ((), set_fifo f (k_fifo_put P q msg) (set_fifo_reserved msg True s)))"
  using assms by (simp add: pub_sub_msg_fifo_put_def read_fifo_def msg_run)

lemma fifo_get_run [msg_run]:
  assumes "fifo_laws P" and "fifo_at f s = Inr q" and "fifo_items P q = x # xs"
  shows "\<exists>q'. fifo_items P q' = xs \<and> pub_sub_msg_fifo_get P f t s =
    Inr (x, set_fifo f q' (if x \<noteq> NULL then set_fifo_reserved x False s else s))"
proof -
  obtain q' where "k_fifo_get P q t = Some (x, q')" "fifo_items P q' = xs"
    using assms(1,3) unfolding fifo_laws_def by blast
  then show ?thesis
    using assms(2) by (auto simp: pub_sub_msg_fifo_get_def read_fifo_def)
qed

lemma fifo_get_empty:
  assumes "fifo_laws P" and "fifo_at f s = Inr q" and "fifo_items P q = []" and "t \<noteq> K_FOREVER"
  shows "\<exists>q'. fifo_items P q' = [] \<and> pub_sub_msg_fifo_get P f t s = Inr (NULL, set_fifo f q' s)"
proof -
  obtain q' where "k_fifo_get P q t = Some (NULL, q')" "fifo_items P q' = []"
    using assms(1,3,4) unfolding fifo_laws_def by blast
  then show ?thesis
    using assms(2) by (auto simp: pub_sub_msg_fifo_get_def read_fifo_def)
qed

section \<open>Properties\<close>

text \<open>Initialising a message stores its id and its allocator id, which the accessors read
  back, and sets its reference counter to 0 (not to 1, as the comments in msg.h and
  static\_msg.h say); no other message changes.\<close>

lemma msg_init_get:
  assumes "header_laws P" and "valid_msg s msg"
  shows "\<exists>s'. pub_sub_msg_init P msg i a s = Inr ((), s') \<and>
    pub_sub_msg_get_msg_id P msg s' = Inr (i, s') \<and>
    pub_sub_msg_get_alloc_id P msg s' = Inr (a, s') \<and>
    pub_sub_msg_get_ref_cnt P msg s' = Inr (0, s') \<and>
    (\<forall>x. x \<noteq> msg \<longrightarrow> messages s' x = messages s x)"
proof -
  obtain h where h: "messages s msg = Some h" "msg \<noteq> NULL" using assms(2) by (rule valid_msgE)
  then show ?thesis
    by (simp add: msg_run assms(1) header_init_fields)
qed

definition one_msg :: "uint32 \<Rightarrow> (kobj, unit) memory" where
  "one_msg w = (ref_memory ())\<lparr>messages := [2 \<mapsto> \<lparr>fifo_reserved = False, atomic_data = w\<rparr>]\<rparr>"

lemma ref_header_laws [simp]: "header_laws ref_platform"
  by (simp add: header_laws_def ref_laws)

lemma messages_one_msg [simp]:
  "messages (one_msg w) = [2 \<mapsto> \<lparr>fifo_reserved = False, atomic_data = w\<rparr>]"
  by (simp add: one_msg_def)

text \<open>Any sequence of increments and decrements of any messages that keeps every counter
  between 0 and 255 runs to its end, moves each message's counter by the number of its
  increments less the number of its decrements, and changes no message's id or allocator id.\<close>

lemma msg_ref_cnt_moves:
  assumes "header_laws P" and "\<forall>x \<in> set xs. valid_msg s (snd x)"
    and "moves_ok 255 xs (ref_cnt s)"
  shows "\<exists>s'. run_all (map (\<lambda>(up, m). if up then pub_sub_msg_inc_ref_cnt P m
                                   else discard (pub_sub_msg_dec_ref_cnt P m)) xs) s = Inr ((), s') \<and>
    valid_msg s' = valid_msg s \<and> msg_ident s' = msg_ident s \<and>
    (\<forall>m. ref_cnt s' m + count_list xs (False, m) = ref_cnt s m + count_list xs (True, m))"
  using assms by (rule hdr.moves_counts)

lemma msg_ref_cnt_moves_example:
  "\<exists>s'. run_all (map (\<lambda>(up, m). if up then pub_sub_msg_inc_ref_cnt ref_platform m
           else discard (pub_sub_msg_dec_ref_cnt ref_platform m)) [(True, 2), (True, 2), (False, 2)])
         (one_msg 0) = Inr ((), s') \<and> ref_cnt s' 2 = 1"
proof -
  have n: "ref_cnt (one_msg 0) 2 = 0" by (simp add: ref_cnt_def ref_of_def)
  have m: "moves_ok 255 [(True, 2), (True, 2), (False, 2)] (ref_cnt (one_msg 0))"
    by (simp add: n)
  have v: "\<forall>x \<in> set [(True, 2), (True, 2), (False, 2)]. valid_msg (one_msg 0) (snd x)"
    by (simp add: valid_msg_def)
  obtain s' where s': "run_all (map (\<lambda>(up, m). if up then pub_sub_msg_inc_ref_cnt ref_platform m
           else discard (pub_sub_msg_dec_ref_cnt ref_platform m)) [(True, 2), (True, 2), (False, 2)])
         (one_msg 0) = Inr ((), s')"
    and c: "\<forall>m. ref_cnt s' m + count_list [(True, 2), (True, 2), (False, 2)] (False, m) =
      ref_cnt (one_msg 0) m + count_list [(True, 2), (True, 2), (False, 2)] (True, m)"
    using msg_ref_cnt_moves [OF ref_header_laws v m] by blast
  have "ref_cnt s' 2 = 1" using c [rule_format, of 2] n by simp
  with s' show ?thesis by blast
qed

text \<open>C37. When assertions are not compiled in, acquiring a message whose counter is 255 does not
  fail: the counter becomes 0 and the carry adds one to the allocator id, so the message now
  claims to belong to another allocator.\<close>

theorem msg_ref_cnt_overflow:
  assumes "header_laws P" and "\<not> CONFIG_ASSERT P" and "messages s msg = Some m"
    and "msg \<noteq> NULL" and "ref_of (atomic_data m) = UINT8_MAX"
  shows "\<exists>s'. pub_sub_msg_inc_ref_cnt P msg s = Inr ((), s') \<and> ref_cnt s' msg = 0 \<and>
    pub_sub_msg_get_alloc_id P msg s' = Inr (alloc_of (atomic_data m) + 1, s')"
  using assms fields_inc_carry [OF assms(5)] by (simp add: msg_run ref_cnt_def)

theorem msg_ref_cnt_overflow_witness:
  "let P = (ref_platform\<lparr>CONFIG_ASSERT := False\<rparr> :: (kobj, unit) platform) in
   header_laws P \<and>
   (\<exists>s'. pub_sub_msg_inc_ref_cnt P 2 (one_msg 0x0007FEFF) = Inr ((), s') \<and>
         pub_sub_msg_get_alloc_id P 2 s' = Inr (PUB_SUB_ALLOC_ID_INVALID, s'))"
proof -
  let ?P = "ref_platform\<lparr>CONFIG_ASSERT := False\<rparr> :: (kobj, unit) platform"
  have l: "header_laws ?P"
    using ref_header_laws by (simp add: header_laws_def field_laws_def atomic_laws_def)
  have r: "ref_of 0x0007FEFF = UINT8_MAX" and a: "alloc_of 0x0007FEFF + 1 = PUB_SUB_ALLOC_ID_INVALID"
    by (simp_all add: word_unat_eq_iff unat_ref_of unat_alloc_of unat_inc PUB_SUB_ALLOC_ID_INVALID_def)
  show ?thesis
    using msg_ref_cnt_overflow [OF l, of "one_msg 0x0007FEFF" 2] l by (auto simp: r a)
qed

text \<open>A FIFO hands messages out in the order they were put in: putting a message that is not
  linked into a FIFO and taking the oldest one out again returns the head of the FIFO (the
  message itself when the FIFO was empty), leaves the other items followed by the new one,
  and marks the returned message as not linked; the words of all headers stay the same.\<close>

lemma msg_fifo_order:
  assumes "fifo_laws P" and "messages s msg = Some m" and "msg \<noteq> NULL" and "\<not> fifo_reserved m"
    and "fifo_at f s = Inr q" and "fifo_items P q @ [msg] = x # xs" and "messages s x = Some y"
    and "x \<noteq> NULL"
  shows "\<exists>s1 s2 q2. pub_sub_msg_fifo_put P f msg s = Inr ((), s1) \<and>
    pub_sub_msg_fifo_get P f t s1 = Inr (x, s2) \<and> fifo_at f s2 = Inr q2 \<and>
    fifo_items P q2 = xs \<and> map_option fifo_reserved (messages s2 x) = Some False \<and>
    ref_cnt s2 = ref_cnt s \<and> msg_ident s2 = msg_ident s"
proof -
  let ?s1 = "set_fifo f (k_fifo_put P q msg) (set_fifo_reserved msg True s)"
  have i: "fifo_items P (k_fifo_put P q msg) = x # xs"
    using assms(1,6) by (simp add: fifo_laws_def)
  have "fifo_at f (set_fifo_reserved msg True s) = Inr q" using assms(5) by simp
  then have f1: "fifo_at f ?s1 = Inr (k_fifo_put P q msg)" by (rule fifo_at_set_fifo)
  obtain q' where q': "fifo_items P q' = xs"
    "pub_sub_msg_fifo_get P f t ?s1 = Inr (x, set_fifo f q' (set_fifo_reserved x False ?s1))"
    using fifo_get_run [OF assms(1) f1 i, of t] assms(8) by auto
  let ?s2 = "set_fifo f q' (set_fifo_reserved x False ?s1)"
  have "messages ?s1 x \<noteq> None" using assms(2,7) by auto
  then have m2: "map_option atomic_data \<circ> messages ?s2 = map_option atomic_data \<circ> messages s"
    "map_option fifo_reserved (messages ?s2 x) = Some False"
    using assms(2,7) by (auto simp: fun_eq_iff)
  have e: "ref_cnt s = (\<lambda>m. case (map_option atomic_data \<circ> messages s) m of None \<Rightarrow> 0
        | Some w \<Rightarrow> unat (ref_of w))" for s :: "('a, 'b) memory"
    by (auto simp: ref_cnt_def fun_eq_iff split: option.splits)
  have e': "msg_ident s = (\<lambda>m. map_option (\<lambda>w. (id_of w, alloc_of w)) ((map_option atomic_data \<circ> messages s) m))"
    for s :: "('a, 'b) memory"
    by (auto simp: msg_ident_def fun_eq_iff option.map_comp comp_def)
  have "fifo_at f ?s2 = Inr q'"
    by (rule fifo_at_set_fifo [of _ _ "k_fifo_put P q msg"]) (simp add: f1)
  moreover have "ref_cnt ?s2 = ref_cnt s" "msg_ident ?s2 = msg_ident s"
    unfolding e [of ?s2] e [of s] e' [of ?s2] e' [of s] m2(1) by (rule refl)+
  ultimately show ?thesis
    using assms(2-5) q' m2(2) by (auto simp: msg_run)
qed

end
