(* ===== verification/MemSlab.thy ===== *)
theory MemSlab imports Msg begin

text \<open>
  The memory slab back end of the message allocators, \<open>msg_alloc_mem_slab.h\<close> and
  \<open>msg_alloc_mem_slab.c\<close>: a message is a block of a \<open>k_mem_slab\<close>, the header at its start.
  The locale \<open>message_pool\<close> is the contract between an allocator's two functions and the
  code that calls them through the function pointers of \<open>struct pub_sub_allocator\<close>.
\<close>

section \<open>Sizes\<close>

definition PUB_SUB_MEM_SLAB_ALLOCATOR_BLOCK_SIZE :: "('k, 'u) platform \<Rightarrow> nat \<Rightarrow> nat" where
  "PUB_SUB_MEM_SLAB_ALLOCATOR_BLOCK_SIZE P msg_size =
     WB_UP P (msg_size + PUB_SUB_MSG_OVERHEAD_NUM_BYTES P)"

definition PUB_SUB_MEM_SLAB_ALLOCATOR_BUF_SIZE :: "('k, 'u) platform \<Rightarrow> nat \<Rightarrow> nat \<Rightarrow> nat" where
  "PUB_SUB_MEM_SLAB_ALLOCATOR_BUF_SIZE P msg_size num_msgs =
     PUB_SUB_MEM_SLAB_ALLOCATOR_BLOCK_SIZE P msg_size * num_msgs"

section \<open>The allocator's functions\<close>

definition read_slab :: "ptr \<Rightarrow> (('k, 'u) memory, 'k) prog" where
  "read_slab slab = fetchM Bad_pointer (\<lambda>s. mem_slabs s slab)"

definition write_slab :: "ptr \<Rightarrow> 'k \<Rightarrow> ('k, 'u) memory \<Rightarrow> ('k, 'u) memory" where
  "write_slab slab q s = s\<lparr>mem_slabs := (mem_slabs s)(slab \<mapsto> q)\<rparr>"

definition read_allocator :: "ptr \<Rightarrow> (('k, 'u) memory, pub_sub_allocator) prog" where
  "read_allocator alloc = fetchM Bad_pointer (\<lambda>s. allocator_objs s alloc)"

definition write_allocator :: "ptr \<Rightarrow> pub_sub_allocator \<Rightarrow> ('k, 'u) memory \<Rightarrow> ('k, 'u) memory" where
  "write_allocator alloc a s = s\<lparr>allocator_objs := (allocator_objs s)(alloc \<mapsto> a)\<rparr>"

definition pub_sub_init_mem_slab_allocator ::
  "('k, 'u) platform \<Rightarrow> ptr \<Rightarrow> ptr \<Rightarrow> (('k, 'u) memory, unit) prog" where
  "pub_sub_init_mem_slab_allocator P alloc mem_slab =
     thenM (z_assert P (alloc \<noteq> NULL))
    (thenM (z_assert P (mem_slab \<noteq> NULL))
    (bindM (read_allocator alloc) (\<lambda>a.
     modifyM (write_allocator alloc (a\<lparr>
       allocate := Allocate_from_mem_slab,
       free := Free_for_mem_slab,
       allocator_id := PUB_SUB_ALLOC_ID_INVALID,
       impl := mem_slab\<rparr>)))))"

definition pub_sub_allocate_from_mem_slab ::
  "('k, 'u) platform \<Rightarrow> ptr \<Rightarrow> nat \<Rightarrow> k_timeout \<Rightarrow> (('k, 'u) memory, ptr) prog" where
  "pub_sub_allocate_from_mem_slab P imp msg_size_bytes t =
     thenM (z_assert P (imp \<noteq> NULL))
    (bindM (read_slab imp) (\<lambda>slab.
     thenM (z_assert P (msg_size_bytes \<le> size_sub (block_size P slab) (PUB_SUB_MSG_OVERHEAD_NUM_BYTES P)))
    (bindM (waitM (k_mem_slab_alloc P slab t)) (\<lambda>(res, ps_msg, slab').
     thenM (modifyM (write_slab imp slab'))
     (ret (if res = 0 then ps_msg else NULL))))))"

definition pub_sub_free_for_mem_slab ::
  "('k, 'u) platform \<Rightarrow> ptr \<Rightarrow> ptr \<Rightarrow> (('k, 'u) memory, unit) prog" where
  "pub_sub_free_for_mem_slab P imp msg =
     thenM (z_assert P (imp \<noteq> NULL))
    (thenM (z_assert P (msg \<noteq> NULL))
    (bindM (read_slab imp) (\<lambda>slab.
     modifyM (write_slab imp (k_mem_slab_free P slab msg)))))"

section \<open>Pools of messages\<close>

text \<open>\<open>fits p s q n\<close>: the pool \<open>q\<close> exists and its messages have room for \<open>n\<close> bytes.\<close>

locale message_pool =
  fixes ok :: "'p \<Rightarrow> bool"
    and pool :: "'p \<Rightarrow> 's \<Rightarrow> ptr \<Rightarrow> ptr set"
    and fits :: "'p \<Rightarrow> 's \<Rightarrow> ptr \<Rightarrow> nat \<Rightarrow> bool"
    and get :: "'p \<Rightarrow> ptr \<Rightarrow> nat \<Rightarrow> k_timeout \<Rightarrow> ('s, ptr) prog"
    and put :: "'p \<Rightarrow> ptr \<Rightarrow> ptr \<Rightarrow> ('s, unit) prog"
  assumes get_some: "ok p \<Longrightarrow> fits p s q n \<Longrightarrow> pool p s q \<noteq> {} \<Longrightarrow>
      \<exists>b s'. get p q n t s = Inr (b, s') \<and> b \<in> pool p s q \<and>
             pool p s' = (pool p s)(q := pool p s q - {b}) \<and> fits p s' = fits p s"
    and get_none: "ok p \<Longrightarrow> fits p s q n \<Longrightarrow> pool p s q = {} \<Longrightarrow> t \<noteq> K_FOREVER \<Longrightarrow>
      \<exists>s'. get p q n t s = Inr (NULL, s') \<and> pool p s' = pool p s \<and> fits p s' = fits p s"
    and put_spec: "ok p \<Longrightarrow> fits p s q n \<Longrightarrow> b \<noteq> NULL \<Longrightarrow>
      \<exists>s'. put p q b s = Inr ((), s') \<and> pool p s' = (pool p s)(q := insert b (pool p s q)) \<and>
           fits p s' = fits p s"
begin

lemma get_put:
  assumes "ok p" and "fits p s q n" and "pool p s q \<noteq> {}" and "NULL \<notin> pool p s q"
  shows "\<exists>b s1 s2. get p q n t s = Inr (b, s1) \<and> b \<noteq> NULL \<and> put p q b s1 = Inr ((), s2) \<and>
    pool p s2 = pool p s"
proof -
  obtain b s1 where g: "get p q n t s = Inr (b, s1)" "b \<in> pool p s q"
    "pool p s1 = (pool p s)(q := pool p s q - {b})" "fits p s1 = fits p s"
    using get_some [OF assms(1-3)] by blast
  have "b \<noteq> NULL" using g(2) assms(4) by metis
  moreover obtain s2 where "put p q b s1 = Inr ((), s2)"
    "pool p s2 = (pool p s1)(q := insert b (pool p s1 q))"
    using put_spec [OF assms(1), of s1 q n b] g(4) assms(2) \<open>b \<noteq> NULL\<close> by auto
  ultimately show ?thesis using g by (auto simp: insert_absorb)
qed

text \<open>A pool yields exactly its messages, each once.\<close>

lemma get_all:
  assumes "ok p" and "fits p s q n" and "finite (pool p s q)" and "card (pool p s q) = k"
  shows "\<exists>bs s'. repeatM k (get p q n t) s = Inr (bs, s') \<and> distinct bs \<and> set bs = pool p s q \<and>
    pool p s' q = {} \<and> fits p s' = fits p s"
  using assms(2-)
proof (induction k arbitrary: s)
  case 0
  then show ?case by simp
next
  case (Suc k)
  then have "pool p s q \<noteq> {}" by auto
  then obtain b s1 where g: "get p q n t s = Inr (b, s1)" "b \<in> pool p s q"
    "pool p s1 = (pool p s)(q := pool p s q - {b})" "fits p s1 = fits p s"
    using get_some [OF assms(1) Suc.prems(1)] by blast
  have "fits p s1 q n" "finite (pool p s1 q)" "card (pool p s1 q) = k"
    using Suc.prems g by simp_all
  then obtain bs s2 where r: "repeatM k (get p q n t) s1 = Inr (bs, s2)" "distinct bs"
    "set bs = pool p s1 q" "pool p s2 q = {}" "fits p s2 = fits p s1"
    using Suc.IH by blast
  have "set (b # bs) = pool p s q" "distinct (b # bs)"
    using g r by auto
  then show ?case using g(1,4) r by auto
qed

end

definition slab_pool :: "('k, 'u) platform \<Rightarrow> ('k, 'u) memory \<Rightarrow> ptr \<Rightarrow> ptr set" where
  "slab_pool P s q = (case mem_slabs s q of None \<Rightarrow> {} | Some k \<Rightarrow> slab_free_blocks P k)"

definition slab_fits :: "('k, 'u) platform \<Rightarrow> ('k, 'u) memory \<Rightarrow> ptr \<Rightarrow> nat \<Rightarrow> bool" where
  "slab_fits P s q n \<longleftrightarrow> q \<noteq> NULL \<and>
     (\<exists>k. mem_slabs s q = Some k \<and> n \<le> size_sub (block_size P k) (PUB_SUB_MSG_OVERHEAD_NUM_BYTES P))"

lemma slab_fitsE:
  assumes "slab_fits P s q n"
  obtains k where "mem_slabs s q = Some k" and "q \<noteq> NULL"
    and "n \<le> size_sub (block_size P k) (PUB_SUB_MSG_OVERHEAD_NUM_BYTES P)"
  using assms by (auto simp: slab_fits_def)

lemma write_slab_pool:
  assumes "mem_slabs s q = Some k"
  shows "slab_pool P (write_slab q k' s) = (slab_pool P s)(q := slab_free_blocks P k')"
    and "block_size P k' = block_size P k \<Longrightarrow> slab_fits P (write_slab q k' s) = slab_fits P s"
  using assms by (auto simp: slab_pool_def slab_fits_def write_slab_def fun_eq_iff)

lemma write_slab_frame [simp]:
  "messages (write_slab q k s) = messages s"
  "callback_msgs (write_slab q k s) = callback_msgs s"
  "delayable_msgs (write_slab q k s) = delayable_msgs s"
  "allocator_objs (write_slab q k s) = allocator_objs s"
  "g_runtime_allocators (write_slab q k s) = g_runtime_allocators s"
  "msgqs (write_slab q k s) = msgqs s"
  "bitarrays (write_slab q k s) = bitarrays s"
  "subscribers (write_slab q k s) = subscribers s"
  "brokers (write_slab q k s) = brokers s"
  "slists (write_slab q k s) = slists s"
  "poll_events (write_slab q k s) = poll_events s"
  "hsms (write_slab q k s) = hsms s"
  "app (write_slab q k s) = app s"
  by (simp_all add: write_slab_def)

text \<open>What the two functions do, in terms of the slab.\<close>

lemma allocate_run_some:
  assumes "slab_laws P" and "slab_fits P s q n" and "slab_pool P s q \<noteq> {}"
  shows "\<exists>b k'. pub_sub_allocate_from_mem_slab P q n t s = Inr (b, write_slab q k' s) \<and>
    b \<in> slab_pool P s q \<and> slab_free_blocks P k' = slab_pool P s q - {b} \<and>
    slab_fits P (write_slab q k' s) = slab_fits P s"
proof -
  obtain k where k: "mem_slabs s q = Some k" "q \<noteq> NULL"
    "n \<le> size_sub (block_size P k) (PUB_SUB_MSG_OVERHEAD_NUM_BYTES P)"
    using assms(2) by (rule slab_fitsE)
  have "slab_free_blocks P k \<noteq> {}" using assms(3) k(1) by (simp add: slab_pool_def)
  then obtain b k' where b: "k_mem_slab_alloc P k t = Some (0, b, k')" "b \<in> slab_free_blocks P k"
    "slab_free_blocks P k' = slab_free_blocks P k - {b}" "block_size P k' = block_size P k"
    using assms(1) unfolding slab_laws_def by metis
  then have "pub_sub_allocate_from_mem_slab P q n t s = Inr (b, write_slab q k' s)"
    using k by (simp add: pub_sub_allocate_from_mem_slab_def read_slab_def)
  then show ?thesis
    using b k(1) write_slab_pool(2) [OF k(1) b(4)] by (auto simp: slab_pool_def)
qed

lemma allocate_run_none:
  assumes "slab_laws P" and "slab_fits P s q n" and "slab_pool P s q = {}" and "t \<noteq> K_FOREVER"
  shows "pub_sub_allocate_from_mem_slab P q n t s = Inr (NULL, s)"
proof -
  obtain k where k: "mem_slabs s q = Some k" "q \<noteq> NULL"
    "n \<le> size_sub (block_size P k) (PUB_SUB_MSG_OVERHEAD_NUM_BYTES P)"
    using assms(2) by (rule slab_fitsE)
  have "slab_free_blocks P k = {}" using assms(3) k(1) by (simp add: slab_pool_def)
  then obtain r b where "k_mem_slab_alloc P k t = Some (r, b, k)" "r \<noteq> 0"
    using assms(1,4) unfolding slab_laws_def by metis
  moreover have "write_slab q k s = s"
    using k(1) by (simp add: write_slab_def map_upd_triv)
  ultimately show ?thesis
    using k by (simp add: pub_sub_allocate_from_mem_slab_def read_slab_def)
qed

lemma free_run:
  assumes "slab_fits P s q n" and "msg \<noteq> NULL"
  shows "pub_sub_free_for_mem_slab P q msg s =
    Inr ((), write_slab q (k_mem_slab_free P (the (mem_slabs s q)) msg) s)"
proof -
  obtain k where "mem_slabs s q = Some k" "q \<noteq> NULL" using assms(1) by (rule slab_fitsE)
  then show ?thesis
    using assms(2) by (simp add: pub_sub_free_for_mem_slab_def read_slab_def)
qed

interpretation slab: message_pool slab_laws slab_pool slab_fits
  pub_sub_allocate_from_mem_slab pub_sub_free_for_mem_slab
proof (unfold_locales, goal_cases)
  case (1 P s q n t)
  obtain k where k: "mem_slabs s q = Some k" using 1(2) by (rule slab_fitsE)
  then show ?case
    using allocate_run_some [OF 1, of t] write_slab_pool(1) [OF k, of P] by force
next
  case (2 P s q n t)
  then show ?case using allocate_run_none by blast
next
  case (3 P s q n b)
  obtain k where k: "mem_slabs s q = Some k" using 3(2) by (rule slab_fitsE)
  have l: "slab_free_blocks P (k_mem_slab_free P k b) = insert b (slab_free_blocks P k)"
    "block_size P (k_mem_slab_free P k b) = block_size P k"
    using 3(1) by (simp_all add: slab_laws_def)
  show ?case
    using k l free_run [OF 3(2,3)] write_slab_pool(1) [OF k] write_slab_pool(2) [OF k l(2)]
    by (auto simp: slab_pool_def)
qed

section \<open>Properties\<close>

text \<open>A memory slab allocator with \<open>k\<close> free blocks serves exactly \<open>k\<close> requests that fit
  its block size, with different messages, and answers the next request that does not wait
  for ever with \<open>NULL\<close>; freeing one of the messages lets the next request succeed with it.\<close>

lemma mem_slab_exhaustion:
  assumes "slab_laws P" and "slab_fits P s q n" and "finite (slab_pool P s q)"
    and "NULL \<notin> slab_pool P s q" and "t \<noteq> K_FOREVER"
  shows "\<exists>bs s'. repeatM (card (slab_pool P s q)) (pub_sub_allocate_from_mem_slab P q n t) s = Inr (bs, s') \<and>
    distinct bs \<and> set bs = slab_pool P s q \<and>
    pub_sub_allocate_from_mem_slab P q n t s' = Inr (NULL, s') \<and>
    (\<forall>b \<in> set bs. \<exists>s1 s2. pub_sub_free_for_mem_slab P q b s' = Inr ((), s1) \<and>
       pub_sub_allocate_from_mem_slab P q n t s1 = Inr (b, s2))"
proof -
  obtain bs s' where r: "repeatM (card (slab_pool P s q)) (pub_sub_allocate_from_mem_slab P q n t) s = Inr (bs, s')"
    "distinct bs" "set bs = slab_pool P s q" "slab_pool P s' q = {}" "slab_fits P s' = slab_fits P s"
    using slab.get_all [OF assms(1-3) refl] by blast
  have f: "slab_fits P s' q n" using r(5) assms(2) by simp
  have again: "\<exists>s1 s2. pub_sub_free_for_mem_slab P q b s' = Inr ((), s1) \<and>
      pub_sub_allocate_from_mem_slab P q n t s1 = Inr (b, s2)" if b: "b \<in> set bs" for b
  proof -
    have "b \<noteq> NULL" using b r(3) assms(4) by metis
    then obtain s1 where s1: "pub_sub_free_for_mem_slab P q b s' = Inr ((), s1)"
      "slab_pool P s1 = (slab_pool P s')(q := insert b (slab_pool P s' q))" "slab_fits P s1 = slab_fits P s'"
      using slab.put_spec [OF assms(1) f] by blast
    then have o: "slab_pool P s1 q = {b}" "slab_fits P s1 q n" using r(4) f by simp_all
    obtain b' s2 where "pub_sub_allocate_from_mem_slab P q n t s1 = Inr (b', s2)" "b' \<in> {b}"
      using slab.get_some [OF assms(1) o(2), of t] unfolding o(1) by blast
    then show ?thesis using s1(1) by blast
  qed
  show ?thesis
    using r(1-3) allocate_run_none [OF assms(1) f r(4) assms(5)] again by blast
qed

definition one_slab :: "ptr list \<Rightarrow> (kobj, unit) memory" where
  "one_slab bs = (ref_memory ())\<lparr>
     messages := (\<lambda>b. if b \<in> set bs then Some \<lparr>fifo_reserved = False, atomic_data = 0\<rparr> else None),
     mem_slabs := [3 \<mapsto> kobj0\<lparr>k_items := bs, k_cap := 16\<rparr>]\<rparr>"

lemma slab_fits_one_slab: "slab_fits ref_platform (one_slab bs) 3 8"
  and slab_pool_one_slab: "slab_pool ref_platform (one_slab bs) 3 = set bs"
  by (simp_all add: slab_fits_def slab_pool_def one_slab_def PUB_SUB_MSG_OVERHEAD_NUM_BYTES_def
      size_sub_def)

lemma mem_slab_exhaustion_example:
  "\<exists>bs s'. repeatM 2 (pub_sub_allocate_from_mem_slab ref_platform 3 8 K_NO_WAIT) (one_slab [40, 50]) =
      Inr (bs, s') \<and> set bs = {40, 50} \<and>
    pub_sub_allocate_from_mem_slab ref_platform 3 8 K_NO_WAIT s' = Inr (NULL, s')"
proof -
  have p: "slab_pool ref_platform (one_slab [40, 50]) 3 = {40, 50}"
    by (simp add: slab_pool_one_slab)
  have c: "card (slab_pool ref_platform (one_slab [40, 50]) 3) = 2" by (simp add: p)
  have "finite (slab_pool ref_platform (one_slab [40, 50]) 3)"
    and "NULL \<notin> slab_pool ref_platform (one_slab [40, 50]) 3" by (simp_all add: p)
  from mem_slab_exhaustion [OF ref_slab_laws slab_fits_one_slab this, of K_NO_WAIT]
  show ?thesis unfolding c unfolding p by blast
qed

text \<open>A slab whose blocks have the size computed by \<open>PUB_SUB_MEM_SLAB_ALLOCATOR_BLOCK_SIZE\<close>
  has room for the message in every block beside the header, so the assertion of the
  allocation function holds for every message of at most that size; and the buffer of
  \<open>PUB_SUB_MEM_SLAB_ALLOCATOR_BUF_SIZE\<close> bytes holds the blocks without a gap.\<close>

lemma mem_slab_block_size:
  assumes "size_laws P" and "PUB_SUB_MEM_SLAB_ALLOCATOR_BLOCK_SIZE P msg_size < 2 ^ 32"
    and "n \<le> msg_size" and "mem_slabs s q = Some k" and "q \<noteq> NULL"
    and "block_size P k = PUB_SUB_MEM_SLAB_ALLOCATOR_BLOCK_SIZE P msg_size"
  shows "slab_fits P s q n \<and>
    4 dvd PUB_SUB_MEM_SLAB_ALLOCATOR_BUF_SIZE P msg_size m \<and>
    m * (msg_size + PUB_SUB_MSG_OVERHEAD_NUM_BYTES P) \<le> PUB_SUB_MEM_SLAB_ALLOCATOR_BUF_SIZE P msg_size m"
proof -
  let ?b = "PUB_SUB_MEM_SLAB_ALLOCATOR_BLOCK_SIZE P msg_size"
  have b: "msg_size + PUB_SUB_MSG_OVERHEAD_NUM_BYTES P \<le> ?b" "4 dvd ?b"
    using assms(1) by (simp_all add: size_laws_def PUB_SUB_MEM_SLAB_ALLOCATOR_BLOCK_SIZE_def)
  have "n \<le> size_sub ?b (PUB_SUB_MSG_OVERHEAD_NUM_BYTES P)"
    using b(1) assms(2,3) by (subst size_sub_eq) simp_all
  then show ?thesis
    using b assms(4-6) by (auto simp: slab_fits_def PUB_SUB_MEM_SLAB_ALLOCATOR_BUF_SIZE_def mult.commute)
qed

end
