(* ===== verification/StaticMsg.thy ===== *)
theory StaticMsg imports Msg begin

text \<open>
  Static messages and callback messages, \<open>include/pub_sub/static_msg.h\<close>: messages that no
  allocator owns. The struct of a callback message ends in the header of the message, so its
  callback is found under the message's own number.
\<close>

text \<open>The contents the static initialisers give the header and the callback struct.\<close>

definition PUB_SUB_STATIC_MSG_DEFINE :: "('k, 'u) platform \<Rightarrow> uint16 \<Rightarrow> pub_sub_msg" where
  "PUB_SUB_STATIC_MSG_DEFINE P msg_id =
     \<lparr>fifo_reserved = False,
      atomic_data = PUB_SUB_MSG_ATOMIC_DATA_INIT P msg_id PUB_SUB_ALLOC_ID_STATIC_MSG\<rparr>"

definition PUB_SUB_STATIC_CALLBACK_MSG_DEFINE ::
  "('k, 'u) platform \<Rightarrow> uint16 \<Rightarrow> pub_sub_msg_callback_fn \<Rightarrow> pub_sub_msg_callback \<times> pub_sub_msg" where
  "PUB_SUB_STATIC_CALLBACK_MSG_DEFINE P msg_id callback_fn =
     (\<lparr>callback = callback_fn\<rparr>,
      \<lparr>fifo_reserved = False,
       atomic_data = PUB_SUB_MSG_ATOMIC_DATA_INIT P msg_id PUB_SUB_ALLOC_ID_CALLBACK_MSG\<rparr>)"

definition read_callback_msg :: "ptr \<Rightarrow> (('k, 'u) memory, pub_sub_msg_callback) prog" where
  "read_callback_msg msg = fetchM Bad_pointer (\<lambda>s. callback_msgs s msg)"

definition pub_sub_static_msg_init ::
  "('k, 'u) platform \<Rightarrow> ptr \<Rightarrow> uint16 \<Rightarrow> (('k, 'u) memory, unit) prog" where
  "pub_sub_static_msg_init P msg msg_id =
     thenM (z_assert P (msg \<noteq> NULL))
     (pub_sub_msg_init P msg msg_id PUB_SUB_ALLOC_ID_STATIC_MSG)"

definition pub_sub_callback_msg_init ::
  "('k, 'u) platform \<Rightarrow> ptr \<Rightarrow> uint16 \<Rightarrow> pub_sub_msg_callback_fn \<Rightarrow> (('k, 'u) memory, unit) prog" where
  "pub_sub_callback_msg_init P msg msg_id callback_fn =
     thenM (z_assert P (msg \<noteq> NULL))
    (thenM (z_assert P (callback_fn \<noteq> NULL))
    (bindM (read_callback_msg msg) (\<lambda>cb_msg.
     thenM (modifyM (\<lambda>s. s\<lparr>callback_msgs := (callback_msgs s)(msg \<mapsto> cb_msg\<lparr>callback := callback_fn\<rparr>)\<rparr>))
     (pub_sub_msg_init P msg msg_id PUB_SUB_ALLOC_ID_CALLBACK_MSG))))"

definition pub_sub_free_callback_msg ::
  "('k, 'u) platform \<Rightarrow> ptr \<Rightarrow> (('k, 'u) memory, unit) prog" where
  "pub_sub_free_callback_msg P msg =
     thenM (z_assert P (msg \<noteq> NULL))
    (bindM (read_callback_msg msg) (\<lambda>cb_msg.
     thenM (z_assert P (callback cb_msg \<noteq> NULL))
    (thenM (guardM Bad_pointer (callback cb_msg \<noteq> NULL))
     (user_callback P (callback cb_msg) msg))))"

lemma read_callback_msg_run [msg_run]:
  "callback_msgs s msg = Some c \<Longrightarrow> read_callback_msg msg s = Inr (c, s)"
  by (simp add: read_callback_msg_def)

lemma free_callback_msg_run [msg_run]:
  assumes "callback_msgs s msg = Some c" and "callback c \<noteq> NULL" and "msg \<noteq> NULL"
  shows "pub_sub_free_callback_msg P msg s = user_callback P (callback c) msg s"
  using assms by (simp add: pub_sub_free_callback_msg_def msg_run)

end
