(* ===== verification/MsgAlloc.thy ===== *)
theory MsgAlloc imports MemSlab StaticMsg begin

text \<open>
  Allocation, acquisition and release of messages, \<open>include/pub_sub/msg_alloc.h\<close> and
  \<open>lib/pub_sub/msg_alloc.c\<close>. A message carries the id of its allocator: the allocator's
  position in the linker section, or its position in the runtime table plus an offset. The
  main result is that releasing the last reference finds, through this id, the allocator the
  message came from.
\<close>

section \<open>Calls through the function pointers of an allocator\<close>

fun call_allocate ::
  "('k, 'u) platform \<Rightarrow> pub_sub_alloc_fn \<Rightarrow> ptr \<Rightarrow> nat \<Rightarrow> k_timeout \<Rightarrow> (('k, 'u) memory, ptr) prog" where
  "call_allocate P Alloc_NULL imp n t = raise Bad_pointer"
| "call_allocate P Allocate_from_mem_slab imp n t = pub_sub_allocate_from_mem_slab P imp n t"
| "call_allocate P (User_alloc f) imp n t = user_alloc P f imp n t"

fun call_free ::
  "('k, 'u) platform \<Rightarrow> pub_sub_free_fn \<Rightarrow> ptr \<Rightarrow> ptr \<Rightarrow> (('k, 'u) memory, unit) prog" where
  "call_free P Free_NULL imp msg = raise Bad_pointer"
| "call_free P Free_for_mem_slab imp msg = pub_sub_free_for_mem_slab P imp msg"
| "call_free P (User_free f) imp msg = user_free P f imp msg"

section \<open>The operations\<close>

definition PUB_SUB_ALLOCATOR_DEFINE :: "pub_sub_alloc_fn \<Rightarrow> pub_sub_free_fn \<Rightarrow> ptr \<Rightarrow> pub_sub_allocator" where
  "PUB_SUB_ALLOCATOR_DEFINE allocate_fn free_fn imp =
     \<lparr>allocate = allocate_fn, free = free_fn, impl = imp,
      allocator_id = PUB_SUB_ALLOC_ID_LINK_SECTION\<rparr>"

definition PUB_SUB_MEM_SLAB_ALLOCATOR_DEFINE_STATIC :: "ptr \<Rightarrow> pub_sub_allocator" where
  "PUB_SUB_MEM_SLAB_ALLOCATOR_DEFINE_STATIC slab =
     PUB_SUB_ALLOCATOR_DEFINE Allocate_from_mem_slab Free_for_mem_slab slab"

definition pub_sub_acquire_msg :: "('k, 'u) platform \<Rightarrow> ptr \<Rightarrow> (('k, 'u) memory, unit) prog" where
  "pub_sub_acquire_msg P msg =
     thenM (z_assert P (msg \<noteq> NULL))
     (pub_sub_msg_inc_ref_cnt P msg)"

text \<open>\<open>allocator - STRUCT_SECTION_START(pub_sub_allocator)\<close>.\<close>

definition section_position :: "('k, 'u) platform \<Rightarrow> ptr \<Rightarrow> ('s, nat) prog" where
  "section_position P alloc =
     (case index_of alloc (link_section P) of None \<Rightarrow> raise Out_of_bounds | Some i \<Rightarrow> ret i)"

definition pub_sub_new_msg ::
  "('k, 'u) platform \<Rightarrow> ptr \<Rightarrow> uint16 \<Rightarrow> nat \<Rightarrow> k_timeout \<Rightarrow> (('k, 'u) memory, ptr) prog" where
  "pub_sub_new_msg P alloc msg_id msg_size_bytes t =
     thenM (z_assert P (alloc \<noteq> NULL))
    (bindM (read_allocator alloc) (\<lambda>a.
     thenM (z_assert P (allocator_id a \<noteq> PUB_SUB_ALLOC_ID_INVALID))
    (bindM (call_allocate P (allocate a) (impl a) msg_size_bytes t) (\<lambda>msg.
     if msg \<noteq> NULL then
       bindM (read_allocator alloc) (\<lambda>a'.
       bindM (if allocator_id a' = PUB_SUB_ALLOC_ID_LINK_SECTION then
                bindM (section_position P alloc) (\<lambda>i.
                let aid = (word_of_nat i :: uint8) in
                thenM (z_assert P (aid \<le> PUB_SUB_ALLOC_ID_LINK_SECTION_MAX_ID)) (ret aid))
              else ret (allocator_id a')) (\<lambda>aid.
       thenM (pub_sub_msg_init P msg msg_id aid)
      (thenM (pub_sub_acquire_msg P msg)
       (ret msg))))
     else ret msg))))"

text \<open>\<open>STRUCT_SECTION_GET\<close>, and the entry of the runtime table.\<close>

definition section_get :: "('k, 'u) platform \<Rightarrow> nat \<Rightarrow> ('s, ptr) prog" where
  "section_get P i = (if i < length (link_section P) then ret (link_section P ! i) else raise Out_of_bounds)"

definition runtime_get :: "nat \<Rightarrow> (('k, 'u) memory, ptr) prog" where
  "runtime_get i = bindM (getsM (\<lambda>s. allocators (g_runtime_allocators s))) (\<lambda>as.
     if i < length as then ret (as ! i) else raise Out_of_bounds)"

definition pub_sub_release_msg :: "('k, 'u) platform \<Rightarrow> ptr \<Rightarrow> (('k, 'u) memory, unit) prog" where
  "pub_sub_release_msg P msg =
     thenM (z_assert P (msg \<noteq> NULL))
    (bindM (pub_sub_msg_dec_ref_cnt P msg) (\<lambda>prev_ref_cnt.
     if prev_ref_cnt = 1 then
       bindM (pub_sub_msg_get_alloc_id P msg) (\<lambda>aid.
       bindM (getsM (\<lambda>s. num_allocators (g_runtime_allocators s))) (\<lambda>num.
       if aid \<le> PUB_SUB_ALLOC_ID_LINK_SECTION_MAX_ID then
         bindM (section_get P (unat aid)) (\<lambda>alloc.
         bindM (read_allocator alloc) (\<lambda>a.
         call_free P (free a) (impl a) msg))
       else if CONFIG_PUB_SUB_RUNTIME_ALLOCATORS P \<and>
               unat aid - unat PUB_SUB_ALLOC_ID_RUNTIME_OFFSET < num then
         bindM (runtime_get (unat (aid - PUB_SUB_ALLOC_ID_RUNTIME_OFFSET))) (\<lambda>alloc.
         bindM (read_allocator alloc) (\<lambda>a.
         call_free P (free a) (impl a) msg))
       else if aid = PUB_SUB_ALLOC_ID_CALLBACK_MSG then
         pub_sub_free_callback_msg P msg
       else ret ()))
     else ret ()))"

definition set_runtime_mutex :: "('k \<Rightarrow> 'k) \<Rightarrow> ('k, 'u) memory \<Rightarrow> ('k, 'u) memory" where
  "set_runtime_mutex f s =
     s\<lparr>g_runtime_allocators := (g_runtime_allocators s)\<lparr>mutex := f (mutex (g_runtime_allocators s))\<rparr>\<rparr>"

definition pub_sub_add_runtime_allocator ::
  "('k, 'u) platform \<Rightarrow> ptr \<Rightarrow> (('k, 'u) memory, int) prog" where
  "pub_sub_add_runtime_allocator P alloc =
     thenM (z_assert P (alloc \<noteq> NULL))
    (thenM (modifyM (set_runtime_mutex (k_mutex_lock P)))
    (bindM (getsM g_runtime_allocators) (\<lambda>g.
     bindM (if num_allocators g < CONFIG_PUB_SUB_RUNTIME_ALLOCATORS_MAX_NUM P then
              let aid = (word_of_nat (num_allocators g) :: uint8) in
              bindM (read_allocator alloc) (\<lambda>a.
              thenM (modifyM (write_allocator alloc
                       (a\<lparr>allocator_id := aid + PUB_SUB_ALLOC_ID_RUNTIME_OFFSET\<rparr>)))
             (thenM (guardM Out_of_bounds (unat aid < length (allocators g)))
             (thenM (modifyM (\<lambda>s. s\<lparr>g_runtime_allocators := (g_runtime_allocators s)
                       \<lparr>allocators := (allocators g)[unat aid := alloc],
                        num_allocators := num_allocators g + 1\<rparr>\<rparr>))
              (ret 0))))
            else ret (- ENOMEM)) (\<lambda>r.
     thenM (modifyM (set_runtime_mutex (k_mutex_unlock P)))
     (ret r)))))"

definition pub_sub_init_runtime_allocators ::
  "('k, 'u) platform \<Rightarrow> (('k, 'u) memory, int) prog" where
  "pub_sub_init_runtime_allocators P =
     bindM (getsM (\<lambda>s. allocators (g_runtime_allocators s))) (\<lambda>as.
     thenM (guardM Out_of_bounds (CONFIG_PUB_SUB_RUNTIME_ALLOCATORS_MAX_NUM P \<le> length as))
    (thenM (modifyM (\<lambda>s. s\<lparr>g_runtime_allocators := (g_runtime_allocators s)
              \<lparr>num_allocators := 0,
               allocators := fold (\<lambda>i xs. xs[i := NULL])
                 [0..<CONFIG_PUB_SUB_RUNTIME_ALLOCATORS_MAX_NUM P] as\<rparr>\<rparr>))
    (thenM (modifyM (set_runtime_mutex (\<lambda>_. k_mutex_init P)))
     (ret 0))))"

section \<open>What the operations do\<close>

lemma acquire_run [msg_run]:
  assumes "header_laws P" and "messages s msg = Some m" and "msg \<noteq> NULL"
  shows "pub_sub_acquire_msg P msg s =
    (if CONFIG_ASSERT P \<and> ref_of (atomic_data m) = UINT8_MAX then Inl Assert_failed
     else Inr ((), set_atomic_data msg (atomic_data m + 1) s))"
  using assms by (simp add: pub_sub_acquire_msg_def msg_run)

lemma read_allocator_run [msg_run]:
  "allocator_objs s alloc = Some a \<Longrightarrow> read_allocator alloc s = Inr (a, s)"
  by (simp add: read_allocator_def)

text \<open>The allocator that an id stands for.\<close>

definition allocator_at :: "('k, 'u) platform \<Rightarrow> ('k, 'u) memory \<Rightarrow> uint8 \<Rightarrow> ptr option" where
  "allocator_at P s aid =
     (if aid \<le> PUB_SUB_ALLOC_ID_LINK_SECTION_MAX_ID then
        if unat aid < length (link_section P) then Some (link_section P ! unat aid) else None
      else
        let i = unat aid - unat PUB_SUB_ALLOC_ID_RUNTIME_OFFSET; g = g_runtime_allocators s
        in if CONFIG_PUB_SUB_RUNTIME_ALLOCATORS P \<and> i < num_allocators g \<and> i < length (allocators g)
           then Some (allocators g ! i) else None)"

text \<open>The runtime table: as long as configured, and its first entries are allocators that know
  their id.\<close>

definition runtime_id :: "nat \<Rightarrow> uint8" where
  "runtime_id i = word_of_nat i + PUB_SUB_ALLOC_ID_RUNTIME_OFFSET"

definition runtime_ok :: "('k, 'u) platform \<Rightarrow> ('k, 'u) memory \<Rightarrow> bool" where
  "runtime_ok P s \<longleftrightarrow> (let g = g_runtime_allocators s in
     length (allocators g) = CONFIG_PUB_SUB_RUNTIME_ALLOCATORS_MAX_NUM P \<and>
     num_allocators g \<le> CONFIG_PUB_SUB_RUNTIME_ALLOCATORS_MAX_NUM P \<and>
     (\<forall>i < num_allocators g. \<exists>a. allocator_objs s (allocators g ! i) = Some a \<and>
        allocator_id a = runtime_id i))"

text \<open>Room for the reserved ids: the table has no more than 124 entries.\<close>

definition runtime_max_ok :: "('k, 'u) platform \<Rightarrow> bool" where
  "runtime_max_ok P \<longleftrightarrow> CONFIG_PUB_SUB_RUNTIME_ALLOCATORS_MAX_NUM P \<le> 124"

lemma unat_runtime_id: "i < 128 \<Longrightarrow> unat (runtime_id i) = i + 128"
  by (simp add: runtime_id_def PUB_SUB_ALLOC_ID_RUNTIME_OFFSET_def unat_word_ariths
      unat_of_nat take_bit_nat_eq_self)

lemma runtime_id_special:
  assumes "i < 124"
  shows "\<not> runtime_id i \<le> PUB_SUB_ALLOC_ID_LINK_SECTION_MAX_ID"
    and "runtime_id i \<noteq> PUB_SUB_ALLOC_ID_LINK_SECTION"
    and "runtime_id i \<noteq> PUB_SUB_ALLOC_ID_CALLBACK_MSG"
    and "runtime_id i \<noteq> PUB_SUB_ALLOC_ID_STATIC_MSG"
    and "runtime_id i \<noteq> PUB_SUB_ALLOC_ID_INVALID"
  using assms unat_runtime_id [of i]
  by (auto simp: alloc_id_defs word_le_nat_alt word_unat_eq_iff)

text \<open>The id an allocator's messages get.\<close>

definition assigned_id :: "('k, 'u) platform \<Rightarrow> ('k, 'u) memory \<Rightarrow> ptr \<Rightarrow> uint8 \<Rightarrow> bool" where
  "assigned_id P s alloc aid \<longleftrightarrow> (\<exists>a. allocator_objs s alloc = Some a \<and>
     (if allocator_id a = PUB_SUB_ALLOC_ID_LINK_SECTION
      then \<exists>i. index_of alloc (link_section P) = Some i \<and> i \<le> 127 \<and> aid = word_of_nat i
      else \<exists>i < num_allocators (g_runtime_allocators s).
             allocators (g_runtime_allocators s) ! i = alloc \<and> allocator_id a = aid))"

lemma assigned_id_found:
  assumes "runtime_ok P s" and "runtime_max_ok P" and "CONFIG_PUB_SUB_RUNTIME_ALLOCATORS P"
    and "assigned_id P s alloc aid"
  shows "allocator_at P s aid = Some alloc" and "aid \<noteq> PUB_SUB_ALLOC_ID_CALLBACK_MSG"
proof -
  obtain a where a: "allocator_objs s alloc = Some a" and
    c: "if allocator_id a = PUB_SUB_ALLOC_ID_LINK_SECTION
      then \<exists>i. index_of alloc (link_section P) = Some i \<and> i \<le> 127 \<and> aid = word_of_nat i
      else \<exists>i < num_allocators (g_runtime_allocators s).
             allocators (g_runtime_allocators s) ! i = alloc \<and> allocator_id a = aid"
    using assms(4) unfolding assigned_id_def by blast
  have "allocator_at P s aid = Some alloc \<and> aid \<noteq> PUB_SUB_ALLOC_ID_CALLBACK_MSG"
  proof (cases "allocator_id a = PUB_SUB_ALLOC_ID_LINK_SECTION")
    case True
    with c obtain i where i: "index_of alloc (link_section P) = Some i" "i \<le> 127" "aid = word_of_nat i"
      by auto
    have u: "unat aid = i"
      using i(2,3) by (simp add: unat_of_nat take_bit_nat_eq_self)
    have "aid \<le> PUB_SUB_ALLOC_ID_LINK_SECTION_MAX_ID" "aid \<noteq> PUB_SUB_ALLOC_ID_CALLBACK_MSG"
      using u i(2) by (auto simp: alloc_id_defs word_le_nat_alt word_unat_eq_iff)
    then show ?thesis using index_of_Some [OF i(1)] by (simp add: allocator_at_def u)
  next
    case False
    with c obtain i where i: "i < num_allocators (g_runtime_allocators s)"
      "allocators (g_runtime_allocators s) ! i = alloc" "allocator_id a = aid" by auto
    have l: "i < 124" "i < length (allocators (g_runtime_allocators s))" and r: "aid = runtime_id i"
      using assms(1,2) i a by (auto simp: runtime_ok_def runtime_max_ok_def Let_def)
    have "unat aid - unat PUB_SUB_ALLOC_ID_RUNTIME_OFFSET = i"
      using l(1) by (simp add: r unat_runtime_id alloc_id_defs)
    then show ?thesis
      using runtime_id_special [OF l(1)] i(1,2) l(2) assms(3) by (simp add: allocator_at_def r)
  qed
  then show "allocator_at P s aid = Some alloc" "aid \<noteq> PUB_SUB_ALLOC_ID_CALLBACK_MSG" by simp_all
qed

text \<open>What releasing the last reference does, by allocator id.\<close>

definition free_by_id :: "('k, 'u) platform \<Rightarrow> ptr \<Rightarrow> uint8 \<Rightarrow> (('k, 'u) memory, unit) prog" where
  "free_by_id P msg aid s =
     (case allocator_at P s aid of
        Some alloc \<Rightarrow> bindM (read_allocator alloc) (\<lambda>a. call_free P (free a) (impl a) msg) s
      | None \<Rightarrow>
          if aid \<le> PUB_SUB_ALLOC_ID_LINK_SECTION_MAX_ID then Inl Out_of_bounds
          else if aid = PUB_SUB_ALLOC_ID_CALLBACK_MSG then pub_sub_free_callback_msg P msg s
          else Inr ((), s))"

lemma allocator_at_set_atomic_data [simp]:
  "allocator_at P (set_atomic_data m w s) = allocator_at P s"
  by (simp add: allocator_at_def fun_eq_iff)

lemma unat_minus_runtime_offset:
  assumes "\<not> aid \<le> PUB_SUB_ALLOC_ID_LINK_SECTION_MAX_ID"
  shows "unat (aid - PUB_SUB_ALLOC_ID_RUNTIME_OFFSET) = unat aid - unat PUB_SUB_ALLOC_ID_RUNTIME_OFFSET"
  using assms by (intro unat_sub) (simp add: alloc_id_defs word_le_nat_alt)

lemma release_run:
  assumes "header_laws P" and "messages s msg = Some m" and "msg \<noteq> NULL"
    and "num_allocators (g_runtime_allocators s) \<le> length (allocators (g_runtime_allocators s))"
  shows "pub_sub_release_msg P msg s =
    (let s' = set_atomic_data msg (atomic_data m - 1) s in
     if ref_of (atomic_data m) = 1 then free_by_id P msg (alloc_of (atomic_data m)) s'
     else if CONFIG_ASSERT P \<and> ref_of (atomic_data m) = 0 then Inl Assert_failed
     else Inr ((), s'))"
proof -
  let ?s' = "set_atomic_data msg (atomic_data m - 1) s" and ?aid = "alloc_of (atomic_data m)"
  have m': "messages ?s' msg = Some (m\<lparr>atomic_data := atomic_data m - 1\<rparr>)" using assms(2) by simp
  have a: "alloc_of (atomic_data m - 1) = ?aid" if "ref_of (atomic_data m) = 1"
    using that by (intro fields_dec(2)) simp
  show ?thesis
    using assms a unat_minus_runtime_offset [of ?aid]
    by (auto simp: pub_sub_release_msg_def msg_run m' Let_def free_by_id_def allocator_at_def
        section_get_def runtime_get_def split: option.split)
qed

lemma assigned_id_set_atomic_data [simp]:
  "assigned_id P (set_atomic_data m w s) = assigned_id P s"
  and runtime_ok_set_atomic_data [simp]: "runtime_ok P (set_atomic_data m w s) = runtime_ok P s"
  and slab_pool_set_atomic_data [simp]: "slab_pool P (set_atomic_data m w s) = slab_pool P s"
  and slab_fits_set_atomic_data [simp]: "slab_fits P (set_atomic_data m w s) = slab_fits P s"
  by (simp_all add: assigned_id_def runtime_ok_def slab_pool_def slab_fits_def fun_eq_iff)

lemma assigned_id_write_slab [simp]: "assigned_id P (write_slab q k s) = assigned_id P s"
  and runtime_ok_write_slab [simp]: "runtime_ok P (write_slab q k s) = runtime_ok P s"
  and allocator_at_write_slab [simp]: "allocator_at P (write_slab q k s) = allocator_at P s"
  by (simp_all add: assigned_id_def runtime_ok_def allocator_at_def fun_eq_iff)

lemma assigned_id_valid:
  assumes "runtime_ok P s" and "runtime_max_ok P" and "assigned_id P s alloc aid"
    and "allocator_objs s alloc = Some a"
  shows "allocator_id a \<noteq> PUB_SUB_ALLOC_ID_INVALID"
  using assms runtime_id_special(5)
  by (fastforce simp: assigned_id_def runtime_ok_def runtime_max_ok_def Let_def alloc_id_defs
      split: if_splits)

text \<open>The id lookup at the end of \<open>pub_sub_new_msg\<close>.\<close>

lemma new_msg_run:
  assumes "header_laws P" and "assigned_id P s alloc aid" and "allocator_objs s alloc = Some a"
    and "alloc \<noteq> NULL" and "runtime_ok P s" and "runtime_max_ok P"
    and "call_allocate P (allocate a) (impl a) n t s = Inr (msg, s1)"
    and "allocator_objs s1 = allocator_objs s" and "msg \<noteq> NULL" and "messages s1 msg = Some m"
  shows "pub_sub_new_msg P alloc i n t s = Inr (msg,
    set_atomic_data msg (PUB_SUB_MSG_ATOMIC_DATA_INIT P i aid + 1)
      (set_atomic_data msg (PUB_SUB_MSG_ATOMIC_DATA_INIT P i aid) s1))"
proof -
  let ?w = "PUB_SUB_MSG_ATOMIC_DATA_INIT P i aid"
  let ?s2 = "set_atomic_data msg ?w s1"
  have m2: "messages ?s2 msg = Some (m\<lparr>atomic_data := ?w\<rparr>)" using assms(10) by simp
  have inv: "allocator_id a \<noteq> PUB_SUB_ALLOC_ID_INVALID"
    by (rule assigned_id_valid [OF assms(5,6,2,3)])
  have w: "pub_sub_acquire_msg P msg ?s2 = Inr ((), set_atomic_data msg (?w + 1) ?s2)"
    using assms(9) by (simp add: acquire_run [OF assms(1) m2] header_init_fields [OF assms(1)])
  have a1: "allocator_objs s1 alloc = Some a" using assms(3,8) by simp
  show ?thesis
  proof (cases "allocator_id a = PUB_SUB_ALLOC_ID_LINK_SECTION")
    case True
    then obtain j where j: "index_of alloc (link_section P) = Some j" "j \<le> 127" "aid = word_of_nat j"
      using assms(2,3) by (auto simp: assigned_id_def)
    have "aid \<le> PUB_SUB_ALLOC_ID_LINK_SECTION_MAX_ID"
      using j(2,3) by (simp add: alloc_id_defs word_le_nat_alt unat_of_nat take_bit_nat_eq_self)
    then show ?thesis
      using True inv w j assms(3,4,7,9) a1
      by (simp add: pub_sub_new_msg_def msg_run section_position_def Let_def init_run [OF assms(10)])
  next
    case False
    then have "allocator_id a = aid" using assms(2,3) by (auto simp: assigned_id_def)
    then show ?thesis
      using False inv w assms(3,4,7,9) a1
      by (simp add: pub_sub_new_msg_def msg_run init_run [OF assms(10)])
  qed
qed

lemma new_msg_null:
  assumes "allocator_objs s alloc = Some a" and "alloc \<noteq> NULL"
    and "allocator_id a \<noteq> PUB_SUB_ALLOC_ID_INVALID"
    and "call_allocate P (allocate a) (impl a) n t s = Inr (NULL, s1)"
  shows "pub_sub_new_msg P alloc i n t s = Inr (NULL, s1)"
  using assms by (simp add: pub_sub_new_msg_def msg_run)

lemma ref_cnt_word: "messages s m = Some h \<Longrightarrow> ref_cnt s m = unat (ref_of (atomic_data h))"
  by (simp add: ref_cnt_def)

lemma msg_ident_word:
  "messages s m = Some h \<Longrightarrow> msg_ident s m = Some (id_of (atomic_data h), alloc_of (atomic_data h))"
  by (simp add: msg_ident_def)

lemma header_init_inc:
  assumes "header_laws P"
  shows "ref_of (PUB_SUB_MSG_ATOMIC_DATA_INIT P i a + 1) = 1"
    and "id_of (PUB_SUB_MSG_ATOMIC_DATA_INIT P i a + 1) = i"
    and "alloc_of (PUB_SUB_MSG_ATOMIC_DATA_INIT P i a + 1) = a"
  using fields_inc [of "PUB_SUB_MSG_ATOMIC_DATA_INIT P i a"]
  by (simp_all add: header_init_fields [OF assms])

text \<open>An allocator over a memory slab, from which a message of \<open>n\<close> bytes can be taken.\<close>

definition slab_allocator ::
  "('k, 'u) platform \<Rightarrow> ('k, 'u) memory \<Rightarrow> ptr \<Rightarrow> ptr \<Rightarrow> nat \<Rightarrow> bool" where
  "slab_allocator P s alloc q n \<longleftrightarrow> alloc \<noteq> NULL \<and>
     (\<exists>a. allocator_objs s alloc = Some a \<and> allocate a = Allocate_from_mem_slab \<and>
          free a = Free_for_mem_slab \<and> impl a = q) \<and>
     slab_fits P s q n \<and> NULL \<notin> slab_pool P s q \<and> (\<forall>b \<in> slab_pool P s q. messages s b \<noteq> None)"

lemma slab_new_msg_run:
  assumes "header_laws P" and "slab_laws P" and "runtime_ok P s" and "runtime_max_ok P"
    and "slab_allocator P s alloc q n" and "assigned_id P s alloc aid" and "slab_pool P s q \<noteq> {}"
  shows "\<exists>b m k s'. pub_sub_new_msg P alloc i n t s = Inr (b, s') \<and> b \<in> slab_pool P s q \<and>
    b \<noteq> NULL \<and> messages s b = Some m \<and> slab_free_blocks P k = slab_pool P s q - {b} \<and>
    slab_fits P (write_slab q k s) = slab_fits P s \<and>
    s' = set_atomic_data b (PUB_SUB_MSG_ATOMIC_DATA_INIT P i aid + 1)
           (set_atomic_data b (PUB_SUB_MSG_ATOMIC_DATA_INIT P i aid) (write_slab q k s))"
proof -
  obtain a where a: "allocator_objs s alloc = Some a" "allocate a = Allocate_from_mem_slab"
    "free a = Free_for_mem_slab" "impl a = q" "alloc \<noteq> NULL" and f: "slab_fits P s q n"
    and z: "NULL \<notin> slab_pool P s q" and v: "\<forall>b \<in> slab_pool P s q. messages s b \<noteq> None"
    using assms(5) unfolding slab_allocator_def by blast
  obtain b k where b: "pub_sub_allocate_from_mem_slab P q n t s = Inr (b, write_slab q k s)"
    "b \<in> slab_pool P s q" "slab_free_blocks P k = slab_pool P s q - {b}"
    "slab_fits P (write_slab q k s) = slab_fits P s"
    using allocate_run_some [OF assms(2) f assms(7)] by blast
  obtain m where m: "messages s b = Some m" using v b(2) by blast
  have nz: "b \<noteq> NULL" using b(2) z by metis
  have "pub_sub_new_msg P alloc i n t s = Inr (b,
      set_atomic_data b (PUB_SUB_MSG_ATOMIC_DATA_INIT P i aid + 1)
        (set_atomic_data b (PUB_SUB_MSG_ATOMIC_DATA_INIT P i aid) (write_slab q k s)))"
    by (rule new_msg_run [OF assms(1,6) a(1,5) assms(3,4), where m = m])
      (use a b(1) nz m in simp_all)
  then show ?thesis using b(2-4) nz m by blast
qed

section \<open>Properties\<close>

text \<open>C15. A message allocated from a slab allocator that is in the linker section or has been
  added to the runtime table starts with one reference and the requested id, and its block is
  taken out of the slab; releasing that reference finds the same allocator through the
  allocator id in the header and puts the block back, so the slab is as it was.\<close>

theorem new_release_roundtrip:
  assumes "header_laws P" and "slab_laws P" and "runtime_ok P s" and "runtime_max_ok P"
    and "CONFIG_PUB_SUB_RUNTIME_ALLOCATORS P"
    and "slab_allocator P s alloc q n" and "assigned_id P s alloc aid" and "slab_pool P s q \<noteq> {}"
  shows "\<exists>b s1 s2. pub_sub_new_msg P alloc i n t s = Inr (b, s1) \<and> b \<in> slab_pool P s q \<and>
    ref_cnt s1 b = 1 \<and> msg_ident s1 b = Some (i, aid) \<and>
    slab_pool P s1 = (slab_pool P s)(q := slab_pool P s q - {b}) \<and>
    pub_sub_release_msg P b s1 = Inr ((), s2) \<and> slab_pool P s2 = slab_pool P s \<and>
    ref_cnt s2 b = 0"
proof -
  let ?w = "PUB_SUB_MSG_ATOMIC_DATA_INIT P i aid"
  obtain b m k s1 where n: "pub_sub_new_msg P alloc i n t s = Inr (b, s1)" "b \<in> slab_pool P s q"
    "b \<noteq> NULL" "messages s b = Some m" "slab_free_blocks P k = slab_pool P s q - {b}"
    "slab_fits P (write_slab q k s) = slab_fits P s"
    and s1: "s1 = set_atomic_data b (?w + 1) (set_atomic_data b ?w (write_slab q k s))"
    using slab_new_msg_run [OF assms(1-4,6-8)] by blast
  obtain a where a: "allocator_objs s alloc = Some a" "free a = Free_for_mem_slab" "impl a = q"
    and f: "slab_fits P s q n"
    using assms(6) by (auto simp: slab_allocator_def)
  obtain k0 where k0: "mem_slabs s q = Some k0" using f by (rule slab_fitsE)
  let ?s2 = "set_atomic_data b (?w + 1 - 1) s1"
  have m1: "messages s1 b = Some (m\<lparr>atomic_data := ?w + 1\<rparr>)" using n(4) by (simp add: s1)
  have f2: "slab_fits P ?s2 q n" using f n(6) by (simp add: s1)
  obtain s2 where s2: "pub_sub_free_for_mem_slab P q b ?s2 = Inr ((), s2)"
    "slab_pool P s2 = (slab_pool P ?s2)(q := insert b (slab_pool P ?s2 q))"
    using slab.put_spec [OF assms(2) f2 n(3)] by blast
  have s2_eq: "s2 = write_slab q (k_mem_slab_free P (the (mem_slabs ?s2 q)) b) ?s2"
    using s2(1) free_run [OF f2 n(3)] by simp
  have "allocator_at P s1 aid = Some alloc"
    using assigned_id_found(1) [OF assms(3-5,7)] by (simp add: s1)
  then have "free_by_id P b aid ?s2 = Inr ((), s2)"
    using a s2(1) by (simp add: free_by_id_def msg_run s1)
  moreover have "num_allocators (g_runtime_allocators s1) \<le> length (allocators (g_runtime_allocators s1))"
    using assms(3) by (simp add: runtime_ok_def Let_def s1)
  ultimately have "pub_sub_release_msg P b s1 = Inr ((), s2)"
    using release_run [OF assms(1) m1 n(3)] by (simp add: header_init_inc [OF assms(1)] Let_def)
  moreover have p1: "slab_pool P s1 = (slab_pool P s)(q := slab_pool P s q - {b})"
    using write_slab_pool(1) [OF k0] n(5) by (simp add: s1)
  moreover have "slab_pool P s2 = slab_pool P s"
    using s2(2) p1 n(2) by (simp add: insert_absorb)
  moreover have "ref_cnt s1 b = 1" "msg_ident s1 b = Some (i, aid)"
    using m1 header_init_inc [OF assms(1), of i aid] by (simp_all add: ref_cnt_word msg_ident_word)
  moreover have "ref_cnt s2 b = 0"
    using m1 header_init_fields(3) [OF assms(1)] by (simp add: ref_cnt_def s2_eq)
  ultimately show ?thesis using n(1,2) by blast
qed

text \<open>An example: the allocator with number 6 is the only one of the linker section.\<close>

definition link_platform :: "(kobj, 'u) platform" where
  "link_platform = ref_platform\<lparr>link_section := [6], CONFIG_PUB_SUB_RUNTIME_ALLOCATORS_MAX_NUM := 0\<rparr>"

definition link_memory :: "(kobj, unit) memory" where
  "link_memory = (one_slab [40, 50])\<lparr>
     allocator_objs := [6 \<mapsto> PUB_SUB_MEM_SLAB_ALLOCATOR_DEFINE_STATIC 3]\<rparr>"

lemma link_platform_laws:
  "header_laws link_platform" "slab_laws link_platform" "runtime_max_ok link_platform"
  "fifo_laws link_platform" "CONFIG_PUB_SUB_RUNTIME_ALLOCATORS link_platform"
  using ref_header_laws ref_slab_laws ref_fifo_laws
  by (simp_all add: link_platform_def header_laws_def field_laws_def atomic_laws_def slab_laws_def
      fifo_laws_def runtime_max_ok_def)

lemma link_memory_ok:
  "runtime_ok link_platform link_memory" "slab_allocator link_platform link_memory 6 3 8"
  "assigned_id link_platform link_memory 6 0" "slab_pool link_platform link_memory 3 = {40, 50}"
  by (auto simp: runtime_ok_def slab_allocator_def assigned_id_def slab_pool_def slab_fits_def
      link_platform_def link_memory_def one_slab_def ref_memory_def size_sub_def
      PUB_SUB_MSG_OVERHEAD_NUM_BYTES_def PUB_SUB_MEM_SLAB_ALLOCATOR_DEFINE_STATIC_def
      PUB_SUB_ALLOCATOR_DEFINE_def)

theorem new_release_roundtrip_witness:
  "\<exists>b s1 s2. pub_sub_new_msg link_platform 6 77 8 K_NO_WAIT link_memory = Inr (b, s1) \<and>
     b \<in> {40, 50} \<and> ref_cnt s1 b = 1 \<and> pub_sub_release_msg link_platform b s1 = Inr ((), s2) \<and>
     slab_pool link_platform s2 3 = {40, 50}"
proof -
  have ne: "slab_pool link_platform link_memory 3 \<noteq> {}" by (simp add: link_memory_ok)
  obtain b s1 s2 where "pub_sub_new_msg link_platform 6 77 8 K_NO_WAIT link_memory = Inr (b, s1)"
    "b \<in> slab_pool link_platform link_memory 3" "ref_cnt s1 b = 1"
    "pub_sub_release_msg link_platform b s1 = Inr ((), s2)"
    "slab_pool link_platform s2 = slab_pool link_platform link_memory"
    using new_release_roundtrip [OF link_platform_laws(1,2) link_memory_ok(1) link_platform_laws(3,5)
        link_memory_ok(2,3) ne] by blast
  then show ?thesis unfolding link_memory_ok(4) [symmetric] by force
qed

text \<open>Releasing one of several references only takes one from the message's counter: the id
  and allocator id of the message stay, no pool changes, and no allocator and no callback is
  called.\<close>

lemma release_shared:
  assumes "header_laws P" and "runtime_ok P s" and "valid_msg s msg" and "1 < ref_cnt s msg"
  shows "\<exists>s'. pub_sub_release_msg P msg s = Inr ((), s') \<and>
    ref_cnt s' = (ref_cnt s)(msg := ref_cnt s msg - 1) \<and> msg_ident s' = msg_ident s \<and>
    slab_pool P s' = slab_pool P s \<and> app s' = app s"
proof -
  obtain h where h: "messages s msg = Some h" "msg \<noteq> NULL" using assms(3) by (rule valid_msgE)
  let ?r = "ref_of (atomic_data h)"
  have r: "?r \<noteq> 0" "?r \<noteq> 1" using assms(4) h(1) by (auto simp: ref_cnt_def)
  have "pub_sub_release_msg P msg s = Inr ((), set_atomic_data msg (atomic_data h - 1) s)"
    using assms(2) r by (simp add: release_run [OF assms(1) h] runtime_ok_def Let_def)
  moreover have "unat (?r - 1) = unat ?r - 1" using r(1) by (simp add: unat_minus_one)
  ultimately show ?thesis
    using h fields_dec [OF r(1)] by (auto simp: valid_set_atomic_data ref_cnt_def msg_ident_def fun_eq_iff)
qed

lemma runtime_ok_one_msg [simp]:
  "CONFIG_PUB_SUB_RUNTIME_ALLOCATORS_MAX_NUM P = 0 \<Longrightarrow> runtime_ok P (one_msg w)"
  by (simp add: runtime_ok_def one_msg_def ref_memory_def)

text \<open>C29. Releasing the last reference to a message that no allocator owns: a static message is
  left in place with a counter of 0, and a callback message is handed to its callback after
  its counter has reached 0. Neither is mistaken for a message of a runtime allocator.\<close>

theorem release_unowned:
  assumes "header_laws P" and "runtime_ok P s" and "runtime_max_ok P"
    and "messages s msg = Some m" and "msg \<noteq> NULL" and "ref_of (atomic_data m) = 1"
  shows "(alloc_of (atomic_data m) = PUB_SUB_ALLOC_ID_STATIC_MSG \<longrightarrow>
      pub_sub_release_msg P msg s = Inr ((), set_atomic_data msg (atomic_data m - 1) s)) \<and>
    (\<forall>c. alloc_of (atomic_data m) = PUB_SUB_ALLOC_ID_CALLBACK_MSG \<and>
         callback_msgs s msg = Some c \<and> callback c \<noteq> NULL \<longrightarrow>
      pub_sub_release_msg P msg s =
        user_callback P (callback c) msg (set_atomic_data msg (atomic_data m - 1) s))"
proof -
  let ?aid = "alloc_of (atomic_data m)"
  have n: "num_allocators (g_runtime_allocators s) \<le> length (allocators (g_runtime_allocators s))"
    "num_allocators (g_runtime_allocators s) \<le> 124"
    using assms(2,3) by (auto simp: runtime_ok_def runtime_max_ok_def Let_def)
  have "allocator_at P s ?aid = None" "\<not> ?aid \<le> PUB_SUB_ALLOC_ID_LINK_SECTION_MAX_ID"
    if "?aid = PUB_SUB_ALLOC_ID_STATIC_MSG \<or> ?aid = PUB_SUB_ALLOC_ID_CALLBACK_MSG"
    using that n(2) by (auto simp: allocator_at_def alloc_id_defs)
  then show ?thesis
    using assms(5,6)
    by (auto simp: release_run [OF assms(1,4,5) n(1)] free_by_id_def msg_run Let_def
        PUB_SUB_ALLOC_ID_STATIC_MSG_def PUB_SUB_ALLOC_ID_CALLBACK_MSG_def)
qed

theorem release_unowned_witness:
  "let s = (one_msg 0x0007FD01)\<lparr>callback_msgs := [2 \<mapsto> \<lparr>callback = 5\<rparr>]\<rparr> in
   pub_sub_release_msg link_platform 2 s = Inr ((), set_atomic_data 2 0x0007FD00 s) \<and>
   pub_sub_release_msg link_platform 2 (one_msg 0x0007FE01) =
     Inr ((), set_atomic_data 2 0x0007FE00 (one_msg 0x0007FE01))"
proof -
  let ?s = "(one_msg 0x0007FD01)\<lparr>callback_msgs := [2 \<mapsto> \<lparr>callback = 5\<rparr>]\<rparr>"
  have r: "runtime_ok link_platform (one_msg w)" "runtime_ok link_platform ?s" for w
    by (simp_all add: runtime_ok_def one_msg_def ref_memory_def link_platform_def)
  have f: "ref_of 0x0007FD01 = 1" "ref_of 0x0007FE01 = 1"
    "alloc_of 0x0007FD01 = PUB_SUB_ALLOC_ID_CALLBACK_MSG" "alloc_of 0x0007FE01 = PUB_SUB_ALLOC_ID_STATIC_MSG"
    by (simp_all add: word_unat_eq_iff unat_ref_of unat_alloc_of alloc_id_defs)
  have u: "user_callback link_platform 5 2 s = Inr ((), s)" for s :: "(kobj, unit) memory"
    by (simp add: link_platform_def)
  show ?thesis
    using release_unowned [OF link_platform_laws(1) r(1) link_platform_laws(3), where msg = 2]
      release_unowned [OF link_platform_laws(1) r(2) link_platform_laws(3), where msg = 2]
    by (simp add: Let_def f u)
qed

text \<open>C30. Adding an allocator that is not in the runtime table: while there is room the call
  returns 0, the allocator gets the next runtime id, all allocators added before keep theirs,
  and the table stays well formed; when the table is full it returns \<open>-ENOMEM\<close> and the
  table and all allocators are unchanged. The table's mutex is left as it was found.\<close>

theorem add_runtime_allocator:
  assumes "runtime_ok P s" and "runtime_max_ok P" and "mutex_laws P"
    and "allocator_objs s alloc = Some a" and "alloc \<noteq> NULL"
    and "alloc \<notin> set (take (num_allocators (g_runtime_allocators s)) (allocators (g_runtime_allocators s)))"
  shows "\<exists>s'. let g = g_runtime_allocators s; g' = g_runtime_allocators s'; n = num_allocators g in
    pub_sub_add_runtime_allocator P alloc s =
      Inr (if n < CONFIG_PUB_SUB_RUNTIME_ALLOCATORS_MAX_NUM P then 0 else - ENOMEM, s') \<and>
    runtime_ok P s' \<and> mutex_depth P (mutex g') = mutex_depth P (mutex g) \<and>
    (if n < CONFIG_PUB_SUB_RUNTIME_ALLOCATORS_MAX_NUM P
     then num_allocators g' = Suc n \<and> assigned_id P s' alloc (runtime_id n) \<and>
          (\<forall>x aid. x \<noteq> alloc \<and> assigned_id P s x aid \<longrightarrow> assigned_id P s' x aid)
     else num_allocators g' = n \<and> allocators g' = allocators g \<and> allocator_objs s' = allocator_objs s)"
proof -
  let ?g = "g_runtime_allocators s" and ?M = "CONFIG_PUB_SUB_RUNTIME_ALLOCATORS_MAX_NUM P"
  let ?n = "num_allocators ?g"
  have l: "length (allocators ?g) = ?M" "?n \<le> ?M" "?M \<le> 124"
    using assms(1,2) by (auto simp: runtime_ok_def runtime_max_ok_def Let_def)
  have m: "mutex_depth P (k_mutex_unlock P (k_mutex_lock P q)) = mutex_depth P q" for q
    using assms(3) by (simp add: mutex_laws_def)
  show ?thesis
  proof (cases "?n < ?M")
    case True
    have u: "unat (word_of_nat ?n :: uint8) = ?n"
      using True l(3) by (simp add: unat_of_nat take_bit_nat_eq_self)
    have t: "allocators ?g ! i \<noteq> alloc" if "i < ?n" for i
      using that assms(6) l(1) True by (metis in_set_conv_nth length_take min_less_iff_conj nth_take
          less_trans)
    have k: "\<exists>b. allocator_objs s (allocators ?g ! i) = Some b \<and> allocator_id b = runtime_id i"
      if "i < ?n" for i
      using that assms(1) by (simp add: runtime_ok_def Let_def)
    let ?s = "(write_allocator alloc (a\<lparr>allocator_id := runtime_id ?n\<rparr>) s)
      \<lparr>g_runtime_allocators := ?g\<lparr>allocators := (allocators ?g)[?n := alloc], num_allocators := Suc ?n,
        mutex := k_mutex_unlock P (k_mutex_lock P (mutex ?g))\<rparr>\<rparr>"
    have e: "pub_sub_add_runtime_allocator P alloc s = Inr (0, ?s)"
      using True l(1) assms(4,5)
      by (simp add: pub_sub_add_runtime_allocator_def set_runtime_mutex_def read_allocator_def
          Let_def u runtime_id_def write_allocator_def)
    have i: "i < Suc ?n \<longleftrightarrow> i < ?n \<or> i = ?n" for i by auto
    have w: "runtime_ok P ?s"
      using True l(1) k t
      by (auto simp: runtime_ok_def Let_def write_allocator_def nth_list_update i)
    have x: "runtime_id ?n \<noteq> PUB_SUB_ALLOC_ID_LINK_SECTION"
      using runtime_id_special(2) [of ?n] True l(3) by simp
    have v: "assigned_id P ?s alloc (runtime_id ?n)"
      using True l(1) x by (auto simp: assigned_id_def write_allocator_def)
    have y: "assigned_id P ?s z aid" if "z \<noteq> alloc" "assigned_id P s z aid" for z aid
    proof -
      have "\<exists>j < Suc ?n. (allocators ?g)[?n := alloc] ! j = z" if "i < ?n" "allocators ?g ! i = z" for i
        using that by (intro exI [of _ i]) simp
      then show ?thesis
        using that by (auto simp: assigned_id_def write_allocator_def split: if_splits)
    qed
    show ?thesis
      by (rule exI [of _ ?s]) (use True e w v y m in \<open>simp add: Let_def\<close>)
  next
    case False
    let ?s = "s\<lparr>g_runtime_allocators := ?g\<lparr>mutex := k_mutex_unlock P (k_mutex_lock P (mutex ?g))\<rparr>\<rparr>"
    have "pub_sub_add_runtime_allocator P alloc s = Inr (- ENOMEM, ?s)"
      using False assms(5) by (simp add: pub_sub_add_runtime_allocator_def set_runtime_mutex_def)
    moreover have "runtime_ok P ?s" using assms(1) by (simp add: runtime_ok_def Let_def)
    ultimately show ?thesis
      by (intro exI [of _ ?s]) (use False m in \<open>simp add: Let_def\<close>)
  qed
qed

text \<open>An example: the runtime table has room for two allocators.\<close>

definition runtime_platform :: "(kobj, 'u) platform" where
  "runtime_platform = ref_platform\<lparr>CONFIG_PUB_SUB_RUNTIME_ALLOCATORS_MAX_NUM := 2\<rparr>"

definition runtime_memory :: "nat \<Rightarrow> ptr list \<Rightarrow> (kobj, unit) memory" where
  "runtime_memory n as = (one_slab [40, 50])\<lparr>
     g_runtime_allocators := \<lparr>allocators = as, num_allocators = n, mutex = kobj0\<rparr>,
     allocator_objs := [6 \<mapsto> (PUB_SUB_MEM_SLAB_ALLOCATOR_DEFINE_STATIC 3)\<lparr>allocator_id := 0x80\<rparr>,
       8 \<mapsto> (PUB_SUB_MEM_SLAB_ALLOCATOR_DEFINE_STATIC 3)\<lparr>allocator_id := 0xFF\<rparr>]\<rparr>"

lemma runtime_platform_laws:
  "header_laws runtime_platform" "runtime_max_ok runtime_platform" "mutex_laws runtime_platform"
  using ref_header_laws ref_mutex_laws
  by (simp_all add: runtime_platform_def header_laws_def field_laws_def atomic_laws_def
      mutex_laws_def runtime_max_ok_def)

theorem add_runtime_allocator_witness:
  "\<exists>s'. pub_sub_add_runtime_allocator runtime_platform 8 (runtime_memory 1 [6, NULL]) = Inr (0, s') \<and>
     assigned_id runtime_platform s' 8 (runtime_id 1) \<and> assigned_id runtime_platform s' 6 0x80"
proof -
  let ?s = "runtime_memory 1 [6, NULL]"
  have r: "runtime_ok runtime_platform ?s"
    by (simp add: runtime_ok_def runtime_memory_def runtime_platform_def runtime_id_def alloc_id_defs)
  have a: "allocator_objs ?s 8 = Some ((PUB_SUB_MEM_SLAB_ALLOCATOR_DEFINE_STATIC 3)\<lparr>allocator_id := 0xFF\<rparr>)"
    and n: "8 \<notin> set (take (num_allocators (g_runtime_allocators ?s)) (allocators (g_runtime_allocators ?s)))"
    and i: "assigned_id runtime_platform ?s 6 0x80"
    by (simp_all add: runtime_memory_def assigned_id_def alloc_id_defs)
  obtain s' where "let g = g_runtime_allocators ?s; g' = g_runtime_allocators s'; n = num_allocators g in
    pub_sub_add_runtime_allocator runtime_platform 8 ?s =
      Inr (if n < CONFIG_PUB_SUB_RUNTIME_ALLOCATORS_MAX_NUM (runtime_platform :: (kobj, unit) platform)
           then 0 else - ENOMEM, s') \<and>
    runtime_ok runtime_platform s' \<and>
    mutex_depth (runtime_platform :: (kobj, unit) platform) (mutex g') =
      mutex_depth (runtime_platform :: (kobj, unit) platform) (mutex g) \<and>
    (if n < CONFIG_PUB_SUB_RUNTIME_ALLOCATORS_MAX_NUM (runtime_platform :: (kobj, unit) platform)
     then num_allocators g' = Suc n \<and> assigned_id runtime_platform s' 8 (runtime_id n) \<and>
          (\<forall>x aid. x \<noteq> 8 \<and> assigned_id runtime_platform ?s x aid \<longrightarrow> assigned_id runtime_platform s' x aid)
     else num_allocators g' = n \<and> allocators g' = allocators g \<and> allocator_objs s' = allocator_objs ?s)"
    using add_runtime_allocator [OF r runtime_platform_laws(2,3) a _ n] by auto
  moreover have "num_allocators (g_runtime_allocators ?s) = 1"
    "CONFIG_PUB_SUB_RUNTIME_ALLOCATORS_MAX_NUM (runtime_platform :: (kobj, unit) platform) = 2"
    by (simp_all add: runtime_memory_def runtime_platform_def)
  ultimately show ?thesis using i by (intro exI [of _ s']) (simp add: Let_def)
qed

lemma fold_update_length [simp]: "length (fold (\<lambda>i xs. xs[i := c]) is xs) = length xs"
  by (induction "is" arbitrary: xs) simp_all

text \<open>Initialising the runtime table makes it well formed and empty, whatever it held before,
  with an unlocked mutex; nothing else in memory changes.\<close>

lemma init_runtime_allocators:
  assumes "mutex_laws P"
    and "length (allocators (g_runtime_allocators s)) = CONFIG_PUB_SUB_RUNTIME_ALLOCATORS_MAX_NUM P"
  shows "\<exists>s'. pub_sub_init_runtime_allocators P s = Inr (0, s') \<and> runtime_ok P s' \<and>
    num_allocators (g_runtime_allocators s') = 0 \<and>
    mutex_depth P (mutex (g_runtime_allocators s')) = 0 \<and>
    s' = s\<lparr>g_runtime_allocators := g_runtime_allocators s'\<rparr>"
  using assms
  by (simp add: pub_sub_init_runtime_allocators_def set_runtime_mutex_def runtime_ok_def mutex_laws_def)

lemma init_runtime_allocators_witness:
  "\<exists>s'. pub_sub_init_runtime_allocators runtime_platform (runtime_memory 1 [6, 8]) = Inr (0, s') \<and>
     runtime_ok runtime_platform s' \<and> num_allocators (g_runtime_allocators s') = 0"
proof -
  have "length (allocators (g_runtime_allocators (runtime_memory 1 [6, 8]))) =
    CONFIG_PUB_SUB_RUNTIME_ALLOCATORS_MAX_NUM (runtime_platform :: (kobj, unit) platform)"
    by (simp add: runtime_memory_def runtime_platform_def)
  from init_runtime_allocators [OF runtime_platform_laws(3) this] show ?thesis by blast
qed

text \<open>C39. Nothing keeps the runtime table below 125 entries. When 124 allocators have been added
  and there is room for one more, the call returns 0 and gives the new allocator the id
  \<open>PUB_SUB_ALLOC_ID_LINK_SECTION\<close>. When a message is then allocated from it, \<open>pub_sub_new_msg\<close>
  takes it for an allocator of the linker section and subtracts the start of the section from the
  address of an object outside of it, which has no defined result.\<close>

theorem runtime_allocator_125:
  assumes "num_allocators (g_runtime_allocators s) = 124"
    and "124 < CONFIG_PUB_SUB_RUNTIME_ALLOCATORS_MAX_NUM P"
    and "length (allocators (g_runtime_allocators s)) = CONFIG_PUB_SUB_RUNTIME_ALLOCATORS_MAX_NUM P"
    and "allocator_objs s alloc = Some a" and "alloc \<noteq> NULL" and "alloc \<notin> set (link_section P)"
  shows "\<exists>s'. pub_sub_add_runtime_allocator P alloc s = Inr (0, s') \<and>
    map_option allocator_id (allocator_objs s' alloc) = Some PUB_SUB_ALLOC_ID_LINK_SECTION \<and>
    (\<forall>msg s1. call_allocate P (allocate a) (impl a) n t s' = Inr (msg, s1) \<and> msg \<noteq> NULL \<and>
        allocator_objs s1 = allocator_objs s' \<longrightarrow>
      pub_sub_new_msg P alloc i n t s' = Inl Out_of_bounds)"
proof -
  let ?a = "a\<lparr>allocator_id := PUB_SUB_ALLOC_ID_LINK_SECTION\<rparr>"
  obtain s' where s': "pub_sub_add_runtime_allocator P alloc s = Inr (0, s')"
    "allocator_objs s' = (allocator_objs s)(alloc \<mapsto> ?a)"
    using assms
    by (simp add: pub_sub_add_runtime_allocator_def set_runtime_mutex_def read_allocator_def
        Let_def write_allocator_def alloc_id_defs)
  have o: "allocator_objs s' alloc = Some ?a" by (simp add: s'(2))
  have x: "index_of alloc (link_section P) = None"
    using assms(6) index_of_Some [of alloc "link_section P"] by (cases "index_of alloc (link_section P)") auto
  have "pub_sub_new_msg P alloc i n t s' = Inl Out_of_bounds"
    if "call_allocate P (allocate a) (impl a) n t s' = Inr (msg, s1)" "msg \<noteq> NULL"
      "allocator_objs s1 = allocator_objs s'" for msg s1
    using that o x assms(5)
    by (simp add: pub_sub_new_msg_def read_allocator_def section_position_def alloc_id_defs)
  then show ?thesis using s'(1) o by auto
qed

theorem runtime_allocator_125_witness:
  "let P = (ref_platform\<lparr>CONFIG_PUB_SUB_RUNTIME_ALLOCATORS_MAX_NUM := 125\<rparr> :: (kobj, unit) platform) in
   \<exists>s'. pub_sub_add_runtime_allocator P 8 (runtime_memory 124 (replicate 125 NULL)) = Inr (0, s') \<and>
     pub_sub_new_msg P 8 7 8 K_NO_WAIT s' = Inl Out_of_bounds"
proof -
  let ?P = "ref_platform\<lparr>CONFIG_PUB_SUB_RUNTIME_ALLOCATORS_MAX_NUM := 125\<rparr> :: (kobj, unit) platform"
  let ?s = "runtime_memory 124 (replicate 125 NULL)"
  let ?a = "(PUB_SUB_MEM_SLAB_ALLOCATOR_DEFINE_STATIC 3)\<lparr>allocator_id := 0xFF\<rparr>"
  obtain s' where s': "pub_sub_add_runtime_allocator ?P 8 ?s = Inr (0, s')"
    "\<forall>msg s1. call_allocate ?P (allocate ?a) (impl ?a) 8 K_NO_WAIT s' = Inr (msg, s1) \<and> msg \<noteq> NULL \<and>
        allocator_objs s1 = allocator_objs s' \<longrightarrow>
      pub_sub_new_msg ?P 8 7 8 K_NO_WAIT s' = Inl Out_of_bounds"
    using runtime_allocator_125 [of ?s ?P 8 ?a 8 K_NO_WAIT 7] by (auto simp: runtime_memory_def)
  have sl: "mem_slabs s' = mem_slabs ?s"
    using s'(1)
    by (auto simp: pub_sub_add_runtime_allocator_def set_runtime_mutex_def read_allocator_def
        write_allocator_def runtime_memory_def)
  have "\<exists>s1. call_allocate ?P (allocate ?a) (impl ?a) 8 K_NO_WAIT s' = Inr (40, s1) \<and>
      (40 :: ptr) \<noteq> NULL \<and> allocator_objs s1 = allocator_objs s'"
    using sl by (simp add: PUB_SUB_MEM_SLAB_ALLOCATOR_DEFINE_STATIC_def PUB_SUB_ALLOCATOR_DEFINE_def
        pub_sub_allocate_from_mem_slab_def runtime_memory_def one_slab_def size_sub_def
        PUB_SUB_MSG_OVERHEAD_NUM_BYTES_def read_slab_def write_slab_def)
  then have "pub_sub_new_msg ?P 8 7 8 K_NO_WAIT s' = Inl Out_of_bounds" using s'(2) by blast
  then show ?thesis using s'(1) by (auto simp: Let_def)
qed

text \<open>C27. With 128 allocators in the table and room for more, the next one gets the id 0, since the sum
  of its position and the offset wraps around at 8 bits; 0 is the id of the first allocator of the
  linker section. A message allocated from the new allocator carries that id, and releasing its only
  reference gives it to the free function of the linker section's first allocator, with that allocator's implementation.\<close>

theorem runtime_allocator_129:
  assumes "header_laws P" and "num_allocators (g_runtime_allocators s) = 128"
    and "128 < CONFIG_PUB_SUB_RUNTIME_ALLOCATORS_MAX_NUM P"
    and "length (allocators (g_runtime_allocators s)) = CONFIG_PUB_SUB_RUNTIME_ALLOCATORS_MAX_NUM P"
    and "allocator_objs s alloc = Some a" and "alloc \<noteq> NULL"
    and "link_section P = first # rest" and "first \<noteq> alloc" and "allocator_objs s first = Some a0"
  shows "\<exists>s'. pub_sub_add_runtime_allocator P alloc s = Inr (0, s') \<and>
    allocators (g_runtime_allocators s') ! 128 = alloc \<and>
    map_option allocator_id (allocator_objs s' alloc) = Some 0 \<and>
    (\<forall>msg s1. call_allocate P (allocate a) (impl a) n t s' = Inr (msg, s1) \<and> valid_msg s1 msg \<and>
        allocator_objs s1 = allocator_objs s' \<and> g_runtime_allocators s1 = g_runtime_allocators s' \<longrightarrow>
      (\<exists>s2 s3. pub_sub_new_msg P alloc i n t s' = Inr (msg, s2) \<and> msg_ident s2 msg = Some (i, 0) \<and>
        pub_sub_msg_dec_ref_cnt P msg s2 = Inr (1, s3) \<and> s3 = s1\<lparr>messages := messages s3\<rparr> \<and>
        pub_sub_release_msg P msg s2 = call_free P (free a0) (impl a0) msg s3))"
proof -
  let ?a = "a\<lparr>allocator_id := 0\<rparr>" and ?g = "g_runtime_allocators s"
  have wrap: "(256 :: uint8) = 0" by simp
  obtain s' where s': "pub_sub_add_runtime_allocator P alloc s = Inr (0, s')"
    "allocator_objs s' = (allocator_objs s)(alloc \<mapsto> ?a)" "allocators (g_runtime_allocators s') = (allocators ?g)[128 := alloc]"
    "num_allocators (g_runtime_allocators s') = 129"
    using assms(2-6) wrap
    by (simp add: pub_sub_add_runtime_allocator_def set_runtime_mutex_def read_allocator_def
        Let_def write_allocator_def alloc_id_defs)
  have o: "allocator_objs s' alloc = Some ?a" "allocator_objs s' first = Some a0" using assms(8,9) by (simp_all add: s'(2))
  have "\<exists>s2 s3. pub_sub_new_msg P alloc i n t s' = Inr (msg, s2) \<and> msg_ident s2 msg = Some (i, 0) \<and>
      pub_sub_msg_dec_ref_cnt P msg s2 = Inr (1, s3) \<and> s3 = s1\<lparr>messages := messages s3\<rparr> \<and>
      pub_sub_release_msg P msg s2 = call_free P (free a0) (impl a0) msg s3"
    if c: "call_allocate P (allocate a) (impl a) n t s' = Inr (msg, s1)" and v: "valid_msg s1 msg"
      and k: "allocator_objs s1 = allocator_objs s'" "g_runtime_allocators s1 = g_runtime_allocators s'" for msg s1
  proof -
    obtain h where h: "messages s1 msg = Some h" "msg \<noteq> NULL" using v by (rule valid_msgE)
    let ?w = "PUB_SUB_MSG_ATOMIC_DATA_INIT P i 0"
    let ?s2 = "set_atomic_data msg (?w + 1) (set_atomic_data msg ?w s1)"
    have m1: "messages (set_atomic_data msg ?w s1) msg = Some (h\<lparr>atomic_data := ?w\<rparr>)" using h(1) by simp
    have m2: "messages ?s2 msg = Some (h\<lparr>atomic_data := ?w + 1\<rparr>)" using h(1) by simp
    have "pub_sub_acquire_msg P msg (set_atomic_data msg ?w s1) = Inr ((), ?s2)"
      by (simp add: acquire_run [OF assms(1) m1 h(2)] header_init_fields [OF assms(1)])
    then have n: "pub_sub_new_msg P alloc i n t s' = Inr (msg, ?s2)"
      using c k(1) o(1) assms(6) h(2)
      by (simp add: pub_sub_new_msg_def msg_run init_run [OF h(1)] alloc_id_defs)
    have d: "pub_sub_msg_dec_ref_cnt P msg ?s2 = Inr (1, set_atomic_data msg ?w ?s2)"
      using m2 h(2) by (simp add: msg_run assms(1) header_init_inc [OF assms(1)])
    have x: "allocator_at P ?s2 0 = Some first" using assms(7) by (simp add: allocator_at_def alloc_id_defs)
    have l: "num_allocators (g_runtime_allocators ?s2) \<le> length (allocators (g_runtime_allocators ?s2))"
      using s'(3,4) k(2) assms(3,4) by simp
    have "pub_sub_release_msg P msg ?s2 = call_free P (free a0) (impl a0) msg (set_atomic_data msg ?w ?s2)"
      using release_run [OF assms(1) m2 h(2) l] o(2) k(1)
      by (simp add: header_init_inc [OF assms(1)] free_by_id_def x [simplified] read_allocator_def)
    moreover have "msg_ident ?s2 msg = Some (i, 0)"
      using msg_ident_word [OF m2] by (simp add: header_init_inc [OF assms(1)])
    moreover have "set_atomic_data msg ?w ?s2 = s1\<lparr>messages := messages (set_atomic_data msg ?w ?s2)\<rparr>"
      by (simp add: set_atomic_data_def)
    ultimately show ?thesis using n d by blast
  qed
  moreover have "allocators (g_runtime_allocators s') ! 128 = alloc" using s'(3) assms(3,4) by simp
  ultimately show ?thesis using s'(1) o(1) by auto
qed

text \<open>The block 40 of the slab 3 ends in the slab 5, which is the linker section's.\<close>

theorem runtime_allocator_129_witness:
  "let P = (ref_platform\<lparr>CONFIG_PUB_SUB_RUNTIME_ALLOCATORS_MAX_NUM := 129, link_section := [6]\<rparr> :: (kobj, unit) platform);
     s = (runtime_memory 128 (replicate 129 NULL))\<lparr>mem_slabs := [3 \<mapsto> kobj0\<lparr>k_items := [40], k_cap := 16\<rparr>, 5 \<mapsto> kobj0\<lparr>k_cap := 16\<rparr>],
       allocator_objs := [6 \<mapsto> PUB_SUB_MEM_SLAB_ALLOCATOR_DEFINE_STATIC 5, 8 \<mapsto> PUB_SUB_MEM_SLAB_ALLOCATOR_DEFINE_STATIC 3]\<rparr> in
   \<exists>s1 s2 s3. pub_sub_add_runtime_allocator P 8 s = Inr (0, s1) \<and> pub_sub_new_msg P 8 7 8 K_NO_WAIT s1 = Inr (40, s2) \<and>
     pub_sub_release_msg P 40 s2 = Inr ((), s3) \<and> slab_pool P s3 5 = {40} \<and> slab_pool P s3 3 = {}"
proof -
  let ?P = "ref_platform\<lparr>CONFIG_PUB_SUB_RUNTIME_ALLOCATORS_MAX_NUM := 129, link_section := [6]\<rparr> :: (kobj, unit) platform"
  let ?s = "(runtime_memory 128 (replicate 129 NULL))\<lparr>mem_slabs := [3 \<mapsto> kobj0\<lparr>k_items := [40], k_cap := 16\<rparr>, 5 \<mapsto> kobj0\<lparr>k_cap := 16\<rparr>],
    allocator_objs := [6 \<mapsto> PUB_SUB_MEM_SLAB_ALLOCATOR_DEFINE_STATIC 5, 8 \<mapsto> PUB_SUB_MEM_SLAB_ALLOCATOR_DEFINE_STATIC 3]\<rparr>"
  let ?a = "PUB_SUB_MEM_SLAB_ALLOCATOR_DEFINE_STATIC 3" and ?z = "PUB_SUB_MEM_SLAB_ALLOCATOR_DEFINE_STATIC 5"
  note defs = PUB_SUB_MEM_SLAB_ALLOCATOR_DEFINE_STATIC_def PUB_SUB_ALLOCATOR_DEFINE_def
  have hl: "header_laws ?P" using ref_header_laws by (simp add: header_laws_def field_laws_def atomic_laws_def)
  obtain s1 where s1: "pub_sub_add_runtime_allocator ?P 8 ?s = Inr (0, s1)"
    "\<forall>msg s2. call_allocate ?P (allocate ?a) (impl ?a) 8 K_NO_WAIT s1 = Inr (msg, s2) \<and> valid_msg s2 msg \<and>
        allocator_objs s2 = allocator_objs s1 \<and> g_runtime_allocators s2 = g_runtime_allocators s1 \<longrightarrow>
      (\<exists>s3 s4. pub_sub_new_msg ?P 8 7 8 K_NO_WAIT s1 = Inr (msg, s3) \<and> msg_ident s3 msg = Some (7, 0) \<and>
        pub_sub_msg_dec_ref_cnt ?P msg s3 = Inr (1, s4) \<and> s4 = s2\<lparr>messages := messages s4\<rparr> \<and>
        pub_sub_release_msg ?P msg s3 = call_free ?P (free ?z) (impl ?z) msg s4)"
    using runtime_allocator_129 [OF hl, of ?s 8 ?a 6 "[]" ?z 8 K_NO_WAIT 7] by (auto simp: runtime_memory_def)
  have sl: "mem_slabs s1 = mem_slabs ?s" "messages s1 = messages ?s"
    using s1(1)
    by (auto simp: pub_sub_add_runtime_allocator_def set_runtime_mutex_def read_allocator_def
        write_allocator_def runtime_memory_def)
  let ?s2 = "write_slab 3 (kobj0\<lparr>k_cap := 16, k_items := []\<rparr>) s1"
  have "call_allocate ?P (allocate ?a) (impl ?a) 8 K_NO_WAIT s1 = Inr (40, ?s2)" "valid_msg ?s2 40"
    using sl by (simp_all add: defs pub_sub_allocate_from_mem_slab_def runtime_memory_def one_slab_def size_sub_def
        PUB_SUB_MSG_OVERHEAD_NUM_BYTES_def read_slab_def write_slab_def valid_msg_def)
  then obtain s3 s4 where s3: "pub_sub_new_msg ?P 8 7 8 K_NO_WAIT s1 = Inr (40, s3)" "s4 = ?s2\<lparr>messages := messages s4\<rparr>"
    "pub_sub_release_msg ?P 40 s3 = call_free ?P (free ?z) (impl ?z) 40 s4"
    using s1(2) by (force simp: write_slab_def)
  have "mem_slabs s4 = mem_slabs ?s2" by (subst s3(2)) simp
  then have "\<exists>s5. call_free ?P (free ?z) (impl ?z) 40 s4 = Inr ((), s5) \<and> slab_pool ?P s5 5 = {40} \<and> slab_pool ?P s5 3 = {}"
    using sl by (simp add: defs pub_sub_free_for_mem_slab_def read_slab_def write_slab_def slab_pool_def kobj0_def)
  then show ?thesis unfolding Let_def using s1(1) s3(1,3) by metis
qed

end
