(* ===== verification/SubscriberInit.thy ===== *)
theory SubscriberInit imports Msg begin

text \<open>
  Setting a subscriber up, \<open>include/pub_sub/subscriber.h\<close> and the initialisers of
  \<open>lib/pub_sub/subscriber.c\<close>: the subscriber's kind and queue, its handler, its priority, and
  the bit array of the public message ids it has subscribed to. The locale
  \<open>subscription_sets\<close> states what these bit arrays are for: a set of ids per subscriber.
\<close>

section \<open>The operations\<close>

definition read_sub :: "ptr \<Rightarrow> (('k, 'u) memory, 'k pub_sub_subscriber) prog" where
  "read_sub x = fetchM Bad_pointer (\<lambda>s. subscribers s x)"

definition upd_sub ::
  "ptr \<Rightarrow> ('k pub_sub_subscriber \<Rightarrow> 'k pub_sub_subscriber) \<Rightarrow> ('k, 'u) memory \<Rightarrow> ('k, 'u) memory" where
  "upd_sub x f s = s\<lparr>subscribers := (subscribers s)(x := map_option f (subscribers s x))\<rparr>"

definition read_bitarray :: "ptr \<Rightarrow> (('k, 'u) memory, uint32 list) prog" where
  "read_bitarray p = fetchM Bad_pointer (\<lambda>s. bitarrays s p)"

definition write_bitarray :: "ptr \<Rightarrow> uint32 list \<Rightarrow> ('k, 'u) memory \<Rightarrow> ('k, 'u) memory" where
  "write_bitarray p a s = s\<lparr>bitarrays := (bitarrays s)(p \<mapsto> a)\<rparr>"

text \<open>An \<open>atomic_t\<close> has four bytes.\<close>

definition sizeof_atomic :: nat where
  "sizeof_atomic = 4"

definition PUB_SUB_SUBS_BITARRAY_BYTE_LEN :: "('k, 'u) platform \<Rightarrow> nat \<Rightarrow> nat" where
  "PUB_SUB_SUBS_BITARRAY_BYTE_LEN P max_msg_id = ATOMIC_BITMAP_SIZE P (max_msg_id + 1) * sizeof_atomic"

definition PUB_SUB_SUBS_BITARRAY_DEFINE :: "('k, 'u) platform \<Rightarrow> nat \<Rightarrow> uint32 list" where
  "PUB_SUB_SUBS_BITARRAY_DEFINE P max_msg_id = replicate (ATOMIC_BITMAP_SIZE P (max_msg_id + 1)) 0"

text \<open>A message queue of a subscriber holds pointers, of four bytes on the same target.\<close>

definition sizeof_void_ptr :: nat where
  "sizeof_void_ptr = 4"

definition PUB_SUB_RX_MSGQ_MSG_SIZE :: nat where
  "PUB_SUB_RX_MSGQ_MSG_SIZE = sizeof_void_ptr"

definition PUB_SUB_RX_MSGQ_BUFFER_LEN :: "nat \<Rightarrow> nat" where
  "PUB_SUB_RX_MSGQ_BUFFER_LEN max_msgs = max_msgs * PUB_SUB_RX_MSGQ_MSG_SIZE"

definition PUB_SUB_RX_MSGQ_DEFINE :: "('k, 'u) platform \<Rightarrow> nat \<Rightarrow> 'k" where
  "PUB_SUB_RX_MSGQ_DEFINE P max_msgs = K_MSGQ_DEFINE P PUB_SUB_RX_MSGQ_MSG_SIZE max_msgs sizeof_void_ptr"

text \<open>\<open>memset(subs_bitarray, 0, len)\<close> for a length in whole words.\<close>

definition memset_words :: "ptr \<Rightarrow> nat \<Rightarrow> (('k, 'u) memory, unit) prog" where
  "memset_words p len =
     bindM (read_bitarray p) (\<lambda>a.
     thenM (guardM Out_of_bounds (len \<le> length a * sizeof_atomic))
     (modifyM (write_bitarray p
        (replicate (len div sizeof_atomic) 0 @ drop (len div sizeof_atomic) a))))"

definition common_subscriber_init ::
  "('k, 'u) platform \<Rightarrow> ptr \<Rightarrow> ptr \<Rightarrow> uint16 \<Rightarrow> (('k, 'u) memory, unit) prog" where
  "common_subscriber_init P sub bitarray max_id =
     thenM (memset_words bitarray (PUB_SUB_SUBS_BITARRAY_BYTE_LEN P (unat max_id)))
    (thenM (read_sub sub)
     (modifyM (upd_sub sub (\<lambda>su. su\<lparr>
        broker := NULL,
        subs_bitarray := bitarray,
        max_pub_msg_id := max_id,
        priority := 0\<rparr>))))"

definition pub_sub_init_callback_subscriber ::
  "('k, 'u) platform \<Rightarrow> ptr \<Rightarrow> ptr \<Rightarrow> uint16 \<Rightarrow> (('k, 'u) memory, unit) prog" where
  "pub_sub_init_callback_subscriber P sub bitarray max_id =
     thenM (z_assert P (sub \<noteq> NULL))
    (thenM (z_assert P (bitarray \<noteq> NULL))
    (thenM (common_subscriber_init P sub bitarray max_id)
     (modifyM (upd_sub sub (\<lambda>su. su\<lparr>rx_type := PUB_SUB_RX_TYPE_CALLBACK\<rparr>)))))"

definition pub_sub_init_msgq_subscriber ::
  "('k, 'u) platform \<Rightarrow> ptr \<Rightarrow> ptr \<Rightarrow> uint16 \<Rightarrow> ptr \<Rightarrow> (('k, 'u) memory, unit) prog" where
  "pub_sub_init_msgq_subscriber P sub bitarray max_id msgq =
     thenM (z_assert P (sub \<noteq> NULL))
    (thenM (z_assert P (msgq \<noteq> NULL))
    (thenM (z_assert P (bitarray \<noteq> NULL))
    (thenM (common_subscriber_init P sub bitarray max_id)
    (thenM (modifyM (upd_sub sub (\<lambda>su. su\<lparr>rx_queue := Rx_msgq msgq\<rparr>)))
     (modifyM (upd_sub sub (\<lambda>su. su\<lparr>rx_type := PUB_SUB_RX_TYPE_MSGQ\<rparr>)))))))"

definition pub_sub_init_fifo_subscriber ::
  "('k, 'u) platform \<Rightarrow> ptr \<Rightarrow> ptr \<Rightarrow> uint16 \<Rightarrow> (('k, 'u) memory, unit) prog" where
  "pub_sub_init_fifo_subscriber P sub bitarray max_id =
     thenM (z_assert P (sub \<noteq> NULL))
    (thenM (z_assert P (bitarray \<noteq> NULL))
    (thenM (common_subscriber_init P sub bitarray max_id)
    (thenM (modifyM (upd_sub sub (\<lambda>su. su\<lparr>rx_queue := Rx_fifo (k_fifo_init P)\<rparr>)))
     (modifyM (upd_sub sub (\<lambda>su. su\<lparr>rx_type := PUB_SUB_RX_TYPE_FIFO\<rparr>))))))"

text \<open>Bit number \<open>i\<close> of a bit array, which has to lie within the array.\<close>

definition bit_in_array :: "uint32 list \<Rightarrow> uint16 \<Rightarrow> ('s, unit) prog" where
  "bit_in_array a i = guardM Out_of_bounds (unat i < 32 * length a)"

definition pub_sub_subscribe :: "('k, 'u) platform \<Rightarrow> ptr \<Rightarrow> uint16 \<Rightarrow> (('k, 'u) memory, unit) prog" where
  "pub_sub_subscribe P sub msg_id =
     thenM (z_assert P (sub \<noteq> NULL))
    (bindM (read_sub sub) (\<lambda>su.
     thenM (z_assert P (subs_bitarray su \<noteq> NULL))
    (thenM (z_assert P (msg_id \<le> max_pub_msg_id su))
    (bindM (read_bitarray (subs_bitarray su)) (\<lambda>a.
     thenM (bit_in_array a msg_id)
     (modifyM (write_bitarray (subs_bitarray su) (atomic_set_bit P a (unat msg_id)))))))))"

definition pub_sub_unsubscribe :: "('k, 'u) platform \<Rightarrow> ptr \<Rightarrow> uint16 \<Rightarrow> (('k, 'u) memory, unit) prog" where
  "pub_sub_unsubscribe P sub msg_id =
     thenM (z_assert P (sub \<noteq> NULL))
    (bindM (read_sub sub) (\<lambda>su.
     thenM (z_assert P (subs_bitarray su \<noteq> NULL))
    (thenM (z_assert P (msg_id \<le> max_pub_msg_id su))
    (bindM (read_bitarray (subs_bitarray su)) (\<lambda>a.
     thenM (bit_in_array a msg_id)
     (modifyM (write_bitarray (subs_bitarray su) (atomic_clear_bit P a (unat msg_id)))))))))"

text \<open>The condition \<open>(msg_id <= sub->max_pub_msg_id) && atomic_test_bit(sub->subs_bitarray, msg_id)\<close>
  under which a broker hands a message to a subscriber.\<close>

definition is_subscribed :: "('k, 'u) platform \<Rightarrow> ptr \<Rightarrow> uint16 \<Rightarrow> (('k, 'u) memory, bool) prog" where
  "is_subscribed P sub msg_id =
     bindM (read_sub sub) (\<lambda>su.
     if msg_id \<le> max_pub_msg_id su then
       bindM (read_bitarray (subs_bitarray su)) (\<lambda>a.
       thenM (bit_in_array a msg_id)
       (ret (atomic_test_bit P a (unat msg_id))))
     else ret False)"

definition pub_sub_subscriber_set_handler_data ::
  "('k, 'u) platform \<Rightarrow> ptr \<Rightarrow> pub_sub_handler_fn \<Rightarrow> ptr \<Rightarrow> (('k, 'u) memory, unit) prog" where
  "pub_sub_subscriber_set_handler_data P sub handler data =
     thenM (z_assert P (sub \<noteq> NULL))
    (thenM (z_assert P (handler \<noteq> Handler_NULL))
    (thenM (read_sub sub)
     (modifyM (upd_sub sub (\<lambda>su. su\<lparr>handler_data := \<lparr>msg_handler = handler, user_data = data\<rparr>\<rparr>)))))"

definition pub_sub_subscriber_set_priority ::
  "('k, 'u) platform \<Rightarrow> ptr \<Rightarrow> uint8 \<Rightarrow> (('k, 'u) memory, unit) prog" where
  "pub_sub_subscriber_set_priority P sub prio =
     thenM (z_assert P (sub \<noteq> NULL))
    (thenM (read_sub sub)
     (modifyM (upd_sub sub (\<lambda>su. su\<lparr>priority := prio\<rparr>))))"

section \<open>What the operations do\<close>

named_theorems sub_run \<open>what an operation on an existing subscriber does\<close>

lemma read_sub_run [sub_run]: "subscribers s x = Some su \<Longrightarrow> read_sub x s = Inr (su, s)"
  by (simp add: read_sub_def)

lemma read_bitarray_run [sub_run]: "bitarrays s p = Some a \<Longrightarrow> read_bitarray p s = Inr (a, s)"
  by (simp add: read_bitarray_def)

lemma bit_in_array_run [sub_run]:
  "bit_in_array a i s = (if unat i < 32 * length a then Inr ((), s) else Inl Out_of_bounds)"
  by (simp add: bit_in_array_def)

lemma subscribers_upd_sub [simp]:
  "subscribers (upd_sub x f s) = (subscribers s)(x := map_option f (subscribers s x))"
  by (simp add: upd_sub_def)

lemma bitarrays_write_bitarray [simp]:
  "bitarrays (write_bitarray p a s) = (bitarrays s)(p \<mapsto> a)"
  by (simp add: write_bitarray_def)

lemma upd_sub_frame [simp]:
  "messages (upd_sub x f s) = messages s"
  "callback_msgs (upd_sub x f s) = callback_msgs s"
  "delayable_msgs (upd_sub x f s) = delayable_msgs s"
  "allocator_objs (upd_sub x f s) = allocator_objs s"
  "g_runtime_allocators (upd_sub x f s) = g_runtime_allocators s"
  "mem_slabs (upd_sub x f s) = mem_slabs s"
  "msgqs (upd_sub x f s) = msgqs s"
  "bitarrays (upd_sub x f s) = bitarrays s"
  "brokers (upd_sub x f s) = brokers s"
  "slists (upd_sub x f s) = slists s"
  "poll_events (upd_sub x f s) = poll_events s"
  "hsms (upd_sub x f s) = hsms s"
  "app (upd_sub x f s) = app s"
  by (simp_all add: upd_sub_def)

lemma write_bitarray_frame [simp]:
  "messages (write_bitarray p a s) = messages s"
  "callback_msgs (write_bitarray p a s) = callback_msgs s"
  "delayable_msgs (write_bitarray p a s) = delayable_msgs s"
  "allocator_objs (write_bitarray p a s) = allocator_objs s"
  "g_runtime_allocators (write_bitarray p a s) = g_runtime_allocators s"
  "mem_slabs (write_bitarray p a s) = mem_slabs s"
  "msgqs (write_bitarray p a s) = msgqs s"
  "subscribers (write_bitarray p a s) = subscribers s"
  "brokers (write_bitarray p a s) = brokers s"
  "slists (write_bitarray p a s) = slists s"
  "poll_events (write_bitarray p a s) = poll_events s"
  "hsms (write_bitarray p a s) = hsms s"
  "app (write_bitarray p a s) = app s"
  by (simp_all add: write_bitarray_def)

text \<open>The subscriptions of a subscriber, as a set of message ids.\<close>

definition subscriptions :: "('k, 'u) platform \<Rightarrow> ('k, 'u) memory \<Rightarrow> ptr \<Rightarrow> uint16 set" where
  "subscriptions P s x =
     (case subscribers s x of None \<Rightarrow> {}
      | Some su \<Rightarrow> (case bitarrays s (subs_bitarray su) of None \<Rightarrow> {}
         | Some a \<Rightarrow> {i. i \<le> max_pub_msg_id su \<and> atomic_test_bit P a (unat i)}))"

text \<open>A subscriber that has been set up: its bit array has a bit for each public message id, and
  no other subscriber uses it.\<close>

definition sub_ok :: "('k, 'u) memory \<Rightarrow> ptr \<Rightarrow> bool" where
  "sub_ok s x \<longleftrightarrow> x \<noteq> NULL \<and>
     (\<exists>su a. subscribers s x = Some su \<and> subs_bitarray su \<noteq> NULL \<and>
        bitarrays s (subs_bitarray su) = Some a \<and> unat (max_pub_msg_id su) < 32 * length a \<and>
        (\<forall>y sv. y \<noteq> x \<and> subscribers s y = Some sv \<longrightarrow> subs_bitarray sv \<noteq> subs_bitarray su))"

definition max_id_of :: "('k, 'u) memory \<Rightarrow> ptr \<Rightarrow> uint16" where
  "max_id_of s x = (case subscribers s x of None \<Rightarrow> 0 | Some su \<Rightarrow> max_pub_msg_id su)"

lemma sub_okI:
  assumes "x \<noteq> NULL" and "subscribers s x = Some su" and "subs_bitarray su \<noteq> NULL"
    and "bitarrays s (subs_bitarray su) = Some a" and "unat (max_pub_msg_id su) < 32 * length a"
    and "\<forall>y sv. y \<noteq> x \<and> subscribers s y = Some sv \<longrightarrow> subs_bitarray sv \<noteq> subs_bitarray su"
  shows "sub_ok s x"
  using assms unfolding sub_ok_def by blast

lemma sub_okE:
  assumes "sub_ok s x"
  obtains su a where "x \<noteq> NULL" and "subscribers s x = Some su" and "subs_bitarray su \<noteq> NULL"
    and "bitarrays s (subs_bitarray su) = Some a" and "unat (max_pub_msg_id su) < 32 * length a"
    and "\<And>y sv. y \<noteq> x \<Longrightarrow> subscribers s y = Some sv \<Longrightarrow> subs_bitarray sv \<noteq> subs_bitarray su"
  using assms unfolding sub_ok_def by blast

lemma is_subscribed_run [sub_run]:
  assumes "sub_ok s x"
  shows "is_subscribed P x i s = Inr (i \<in> subscriptions P s x, s)"
proof -
  obtain su a where a: "subscribers s x = Some su" "bitarrays s (subs_bitarray su) = Some a"
    "unat (max_pub_msg_id su) < 32 * length a"
    using assms by (rule sub_okE)
  have "unat i < 32 * length a" if "i \<le> max_pub_msg_id su"
    using that a(3) by (simp add: word_le_nat_alt)
  then show ?thesis using a by (simp add: is_subscribed_def sub_run subscriptions_def)
qed

text \<open>A write of a subscriber's own bit array.\<close>

lemma write_own_bitarray:
  assumes "sub_ok s x" and "subscribers s x = Some su" and "bitarrays s (subs_bitarray su) = Some a"
    and "length b = length a"
  shows "sub_ok (write_bitarray (subs_bitarray su) b s) = sub_ok s"
    and "max_id_of (write_bitarray (subs_bitarray su) b s) = max_id_of s"
    and "subscriptions P (write_bitarray (subs_bitarray su) b s) =
      (subscriptions P s)(x := {i. i \<le> max_pub_msg_id su \<and> atomic_test_bit P b (unat i)})"
proof -
  have o: "subs_bitarray sv \<noteq> subs_bitarray su" if "y \<noteq> x" "subscribers s y = Some sv" for y sv
    using assms(1,2) that by (auto simp: sub_ok_def)
  let ?s = "write_bitarray (subs_bitarray su) b s"
  show "sub_ok ?s = sub_ok s"
    by (rule ext) (use assms(3,4) in \<open>auto simp: sub_ok_def\<close>)
  show "max_id_of ?s = max_id_of s"
    by (simp add: max_id_of_def fun_eq_iff)
  show "subscriptions P ?s =
      (subscriptions P s)(x := {i. i \<le> max_pub_msg_id su \<and> atomic_test_bit P b (unat i)})"
    using assms(2) o by (auto simp: subscriptions_def fun_eq_iff split: option.splits)
qed

section \<open>Sets of subscriptions\<close>

text \<open>The contract a client of subscriptions relies on: a set per subscriber, one id added or
  removed at a time, the other subscribers' sets unaffected.\<close>

locale subscription_sets =
  fixes ok :: "'p \<Rightarrow> bool"
    and valid :: "'s \<Rightarrow> ptr \<Rightarrow> bool"
    and max_id :: "'s \<Rightarrow> ptr \<Rightarrow> uint16"
    and subs :: "'p \<Rightarrow> 's \<Rightarrow> ptr \<Rightarrow> uint16 set"
    and add :: "'p \<Rightarrow> ptr \<Rightarrow> uint16 \<Rightarrow> ('s, unit) prog"
    and remove :: "'p \<Rightarrow> ptr \<Rightarrow> uint16 \<Rightarrow> ('s, unit) prog"
  assumes add_spec: "ok p \<Longrightarrow> valid s x \<Longrightarrow> i \<le> max_id s x \<Longrightarrow>
      \<exists>s'. add p x i s = Inr ((), s') \<and> valid s' = valid s \<and> max_id s' = max_id s \<and>
           subs p s' = (subs p s)(x := insert i (subs p s x))"
    and remove_spec: "ok p \<Longrightarrow> valid s x \<Longrightarrow> i \<le> max_id s x \<Longrightarrow>
      \<exists>s'. remove p x i s = Inr ((), s') \<and> valid s' = valid s \<and> max_id s' = max_id s \<and>
           subs p s' = (subs p s)(x := subs p s x - {i})"
begin

text \<open>What a list of additions (\<open>True\<close>) and removals leaves of a set.\<close>

definition outcome :: "(bool \<times> uint16) list \<Rightarrow> uint16 set \<Rightarrow> uint16 set" where
  "outcome xs A = fold (\<lambda>(b, i) B. if b then insert i B else B - {i}) xs A"

lemma changes_outcome:
  assumes "ok p" and "valid s x" and "\<forall>(b, i) \<in> set xs. i \<le> max_id s x"
  shows "\<exists>s'. run_all (map (\<lambda>(b, i). if b then add p x i else remove p x i) xs) s = Inr ((), s') \<and>
    valid s' = valid s \<and> subs p s' = (subs p s)(x := outcome xs (subs p s x))"
  using assms(2,3)
proof (induction xs arbitrary: s)
  case Nil
  then show ?case by (simp add: outcome_def)
next
  case (Cons y ys)
  obtain b i where y: "y = (b, i)" by (cases y)
  have m: "i \<le> max_id s x" using Cons.prems(2) y by simp
  obtain s1 where s1: "(if b then add p x i else remove p x i) s = Inr ((), s1)"
    "valid s1 = valid s" "max_id s1 = max_id s"
    "subs p s1 = (subs p s)(x := (if b then insert i (subs p s x) else subs p s x - {i}))"
    using add_spec [OF assms(1) Cons.prems(1) m] remove_spec [OF assms(1) Cons.prems(1) m]
    by (cases b) auto
  have v1: "valid s1 x" and m1: "\<forall>(b, i) \<in> set ys. i \<le> max_id s1 x"
    using Cons.prems s1(2,3) by auto
  obtain s2 where s2: "run_all (map (\<lambda>(b, i). if b then add p x i else remove p x i) ys) s1 = Inr ((), s2)"
    "valid s2 = valid s1" "subs p s2 = (subs p s1)(x := outcome ys (subs p s1 x))"
    using Cons.IH [OF v1 m1] by blast
  then show ?case using s1 by (auto simp: y outcome_def)
qed

end

interpretation ids: subscription_sets bitmap_laws sub_ok max_id_of subscriptions
  pub_sub_subscribe pub_sub_unsubscribe
proof (unfold_locales, goal_cases)
  case (1 P s x i)
  from 1(2) obtain su a where a: "x \<noteq> NULL" "subscribers s x = Some su" "subs_bitarray su \<noteq> NULL"
    "bitarrays s (subs_bitarray su) = Some a" "unat (max_pub_msg_id su) < 32 * length a"
    by (rule sub_okE)
  have m: "unat j < 32 * length a" if "j \<le> max_pub_msg_id su" for j
    using that a(5) by (simp add: word_le_nat_alt)
  have i: "i \<le> max_pub_msg_id su" using 1(3) a(2) by (simp add: max_id_of_def)
  have t: "atomic_test_bit P (atomic_set_bit P a (unat i)) (unat j) \<longleftrightarrow> i = j \<or> atomic_test_bit P a (unat j)"
    if "j \<le> max_pub_msg_id su" for j
    using 1(1) m [OF i] m [OF that] by (simp add: bitmap_laws_def word_unat_eq_iff)
  have l: "length (atomic_set_bit P a (unat i)) = length a" using 1(1) by (simp add: bitmap_laws_def)
  show ?case
    using a i m [OF i] write_own_bitarray [OF 1(2) a(2,4) l] t
    by (auto simp: pub_sub_subscribe_def sub_run subscriptions_def fun_eq_iff)
next
  case (2 P s x i)
  from 2(2) obtain su a where a: "x \<noteq> NULL" "subscribers s x = Some su" "subs_bitarray su \<noteq> NULL"
    "bitarrays s (subs_bitarray su) = Some a" "unat (max_pub_msg_id su) < 32 * length a"
    by (rule sub_okE)
  have m: "unat j < 32 * length a" if "j \<le> max_pub_msg_id su" for j
    using that a(5) by (simp add: word_le_nat_alt)
  have i: "i \<le> max_pub_msg_id su" using 2(3) a(2) by (simp add: max_id_of_def)
  have t: "atomic_test_bit P (atomic_clear_bit P a (unat i)) (unat j) \<longleftrightarrow> i \<noteq> j \<and> atomic_test_bit P a (unat j)"
    if "j \<le> max_pub_msg_id su" for j
    using 2(1) m [OF i] m [OF that] by (simp add: bitmap_laws_def word_unat_eq_iff)
  have l: "length (atomic_clear_bit P a (unat i)) = length a" using 2(1) by (simp add: bitmap_laws_def)
  show ?case
    using a i m [OF i] write_own_bitarray [OF 2(2) a(2,4) l] t
    by (auto simp: pub_sub_unsubscribe_def sub_run subscriptions_def fun_eq_iff)
qed

text \<open>The three initialisers by the kind of subscriber they make, and their effect on memory: nothing
  changes but the subscriber and its bit array.\<close>

fun init_of_kind ::
  "('k, 'u) platform \<Rightarrow> pub_sub_rx_type \<Rightarrow> ptr \<Rightarrow> ptr \<Rightarrow> uint16 \<Rightarrow> ptr \<Rightarrow> (('k, 'u) memory, unit) prog" where
  "init_of_kind P PUB_SUB_RX_TYPE_CALLBACK x p m q = pub_sub_init_callback_subscriber P x p m"
| "init_of_kind P PUB_SUB_RX_TYPE_MSGQ x p m q = pub_sub_init_msgq_subscriber P x p m q"
| "init_of_kind P PUB_SUB_RX_TYPE_FIFO x p m q = pub_sub_init_fifo_subscriber P x p m"

fun new_queue :: "('k, 'u) platform \<Rightarrow> pub_sub_rx_type \<Rightarrow> 'k rx_queue \<Rightarrow> ptr \<Rightarrow> 'k rx_queue" where
  "new_queue P PUB_SUB_RX_TYPE_CALLBACK r q = r"
| "new_queue P PUB_SUB_RX_TYPE_MSGQ r q = Rx_msgq q"
| "new_queue P PUB_SUB_RX_TYPE_FIFO r q = Rx_fifo (k_fifo_init P)"

lemma subscriber_init_run:
  assumes "bitmap_laws P" and "subscribers s x = Some su" and "x \<noteq> NULL"
    and "bitarrays s p = Some a" and "p \<noteq> NULL" and "ATOMIC_BITMAP_SIZE P (unat m + 1) \<le> length a"
    and "\<forall>y sv. y \<noteq> x \<and> subscribers s y = Some sv \<longrightarrow> subs_bitarray sv \<noteq> p" and "q \<noteq> NULL"
  shows "\<exists>s' b. init_of_kind P kind x p m q s = Inr ((), s') \<and> sub_ok s' x \<and> subscriptions P s' x = {} \<and>
    subscribers s' = (subscribers s)(x \<mapsto> su\<lparr>broker := NULL, rx_queue := new_queue P kind (rx_queue su) q,
      subs_bitarray := p, rx_type := kind, max_pub_msg_id := m, priority := 0\<rparr>) \<and>
    bitarrays s' = (bitarrays s)(p \<mapsto> b) \<and>
    s' = s\<lparr>subscribers := subscribers s', bitarrays := bitarrays s'\<rparr>"
proof -
  let ?n = "ATOMIC_BITMAP_SIZE P (unat m + 1)"
  let ?a = "replicate ?n 0 @ drop ?n a"
  let ?su = "su\<lparr>broker := NULL, rx_queue := new_queue P kind (rx_queue su) q, subs_bitarray := p,
        rx_type := kind, max_pub_msg_id := m, priority := 0\<rparr>"
  let ?s = "s\<lparr>subscribers := (subscribers s)(x \<mapsto> ?su), bitarrays := (bitarrays s)(p \<mapsto> ?a)\<rparr>"
  have r: "unat m < 32 * ?n" using assms(1) [unfolded bitmap_laws_def] by (metis Suc_eq_plus1 Suc_le_eq)
  have z: "\<not> atomic_test_bit P ?a (unat i)" if "i \<le> m" for i
  proof -
    have "unat i < 32 * ?n" using that r by (simp add: word_le_nat_alt)
    then show ?thesis using assms(1) unfolding bitmap_laws_def by blast
  qed
  have d: "0 < sizeof_atomic" by (simp add: sizeof_atomic_def)
  have c: "common_subscriber_init P x p m s = Inr ((), upd_sub x (\<lambda>su. su\<lparr>broker := NULL,
      subs_bitarray := p, max_pub_msg_id := m, priority := 0\<rparr>) (write_bitarray p ?a s))"
    using assms(2,4,6)
    by (simp add: common_subscriber_init_def memset_words_def PUB_SUB_SUBS_BITARRAY_BYTE_LEN_def d sub_run)
  have "init_of_kind P kind x p m q s = Inr ((), ?s)"
    using assms(2,3,5,8) c
    by (cases kind; cases su) (simp_all add: pub_sub_init_callback_subscriber_def pub_sub_init_msgq_subscriber_def
        pub_sub_init_fifo_subscriber_def upd_sub_def write_bitarray_def)
  moreover have "sub_ok ?s x" by (rule sub_okI [of _ _ ?su ?a]) (use assms(3,5,6,7) r in auto)
  moreover have "subscriptions P ?s x = {}" using z by (simp add: subscriptions_def)
  ultimately show ?thesis by (intro exI [of _ ?s] exI [of _ ?a]) simp
qed

section \<open>Properties\<close>

text \<open>C35. Any sequence of subscriptions and unsubscriptions of one subscriber, to public ids, runs
  to its end and leaves exactly the ids whose last change was a subscription (and the ids
  never touched as they were), while the subscriptions of all others stay the same; a broker
  that then asks whether the subscriber wants a message gets this answer.\<close>

theorem subscription_changes:
  assumes "bitmap_laws P" and "sub_ok s x" and "\<forall>(b, i) \<in> set xs. i \<le> max_id_of s x"
  shows "\<exists>s'. run_all (map (\<lambda>(b, i). if b then pub_sub_subscribe P x i
                                   else pub_sub_unsubscribe P x i) xs) s = Inr ((), s') \<and>
    subscriptions P s' = (subscriptions P s)(x :=
      fold (\<lambda>(b, i) A. if b then insert i A else A - {i}) xs (subscriptions P s x)) \<and>
    (\<forall>i. is_subscribed P x i s' = Inr (i \<in> subscriptions P s' x, s'))"
proof -
  obtain s' where s': "run_all (map (\<lambda>(b, i). if b then pub_sub_subscribe P x i
      else pub_sub_unsubscribe P x i) xs) s = Inr ((), s')" "sub_ok s' = sub_ok s"
    "subscriptions P s' = (subscriptions P s)(x := ids.outcome xs (subscriptions P s x))"
    using ids.changes_outcome [OF assms] by blast
  moreover have "is_subscribed P x i s' = Inr (i \<in> subscriptions P s' x, s')" for i
    using s'(2) assms(2) by (simp add: is_subscribed_run)
  ultimately show ?thesis by (auto simp: ids.outcome_def)
qed

text \<open>An example: one subscriber, number 4, whose bit array has one word and is number 5.\<close>

definition one_sub :: "pub_sub_rx_type \<Rightarrow> kobj rx_queue \<Rightarrow> uint32 \<Rightarrow> (kobj, unit) memory" where
  "one_sub k queue w = (one_msg 0)\<lparr>
     subscribers := [4 \<mapsto> \<lparr>broker = NULL, handler_data = \<lparr>msg_handler = User_handler 0, user_data = NULL\<rparr>,
       rx_queue = queue, subs_bitarray = 5, rx_type = k, max_pub_msg_id = 9, priority = 3\<rparr>],
     bitarrays := [5 \<mapsto> [w]]\<rparr>"

theorem subscription_changes_witness:
  "\<exists>s'. run_all [pub_sub_subscribe ref_platform 4 3, pub_sub_subscribe ref_platform 4 7,
       pub_sub_unsubscribe ref_platform 4 3] (one_sub PUB_SUB_RX_TYPE_CALLBACK Rx_unset 0) = Inr ((), s') \<and>
     subscriptions ref_platform s' 4 = {7}"
proof -
  let ?s = "one_sub PUB_SUB_RX_TYPE_CALLBACK Rx_unset 0"
  have o: "sub_ok ?s 4" by (simp add: sub_ok_def one_sub_def)
  have "unat i div 32 = 0" if "i \<le> 9" for i :: uint16
    using that by (simp add: word_le_nat_alt)
  then have e: "subscriptions ref_platform ?s 4 = {}" by (simp add: subscriptions_def one_sub_def)
  have m: "\<forall>(b, i) \<in> set [(True, 3), (True, 7), (False, 3)]. i \<le> max_id_of ?s 4"
    by (simp add: max_id_of_def one_sub_def)
  show ?thesis
    using subscription_changes [OF ref_bitmap_laws o m] by (auto simp: e)
qed

end
