(* ===== verification/Hsm.thy ===== *)
theory Hsm imports SubscriberInit begin

text \<open>
  Hierarchical state machines, \<open>include/hsm/hsm.h\<close> and \<open>lib/hsm/hsm.c\<close>. A state is a
  function of the application that answers a message with one of the return codes of
  \<open>enum hsm_ret\<close>, after it has written its parent, or the state to go to, into
  \<open>hsm->tmp_state\<close>. The framework knows nothing else of the hierarchy: it finds the parents
  of a state by sending it WALK messages.

  The array \<open>parents\<close> of the code has \<open>CONFIG_HSM_MAX_NESTED_STATES\<close> entries and is
  filled from the front; the model keeps the filled part as a list, so the index of the last
  entry (\<open>num_parents\<close>) is one less than its length, and a write past the end of the
  array is \<open>Out_of_bounds\<close>.
\<close>

section \<open>The state machine's fields, and calls of states\<close>

definition read_hsm :: "ptr \<Rightarrow> (('k, 'u) memory, hsm) prog" where
  "read_hsm h = fetchM Bad_pointer (\<lambda>s. hsms s h)"

definition set_tmp_state :: "ptr \<Rightarrow> hsm_state_fn \<Rightarrow> ('k, 'u) memory \<Rightarrow> ('k, 'u) memory" where
  "set_tmp_state h st s = s\<lparr>hsms := (hsms s)(h := map_option (\<lambda>x. x\<lparr>tmp_state := st\<rparr>) (hsms s h))\<rparr>"

definition set_current_state :: "ptr \<Rightarrow> hsm_state_fn \<Rightarrow> ('k, 'u) memory \<Rightarrow> ('k, 'u) memory" where
  "set_current_state h st s =
     s\<lparr>hsms := (hsms s)(h := map_option (\<lambda>x. x\<lparr>current_state := st\<rparr>) (hsms s h))\<rparr>"

definition call_state ::
  "('k, 'u) platform \<Rightarrow> hsm_state_fn \<Rightarrow> ptr \<Rightarrow> uint16 \<Rightarrow> ptr \<Rightarrow> (('k, 'u) memory, hsm_ret) prog" where
  "call_state P st h msg_id msg =
     (if st = NULL then raise Bad_pointer else state_fn P st h msg_id msg)"

text \<open>The macros a state returns with.\<close>

definition HSM_CONSUMED :: "(('k, 'u) memory, hsm_ret) prog" where
  "HSM_CONSUMED = ret HSM_RET_CONSUMED"

definition HSM_PARENT :: "ptr \<Rightarrow> hsm_state_fn \<Rightarrow> (('k, 'u) memory, hsm_ret) prog" where
  "HSM_PARENT h parent_fn = thenM (modifyM (set_tmp_state h parent_fn)) (ret HSM_RET_PARENT)"

definition HSM_TOP_STATE :: "ptr \<Rightarrow> (('k, 'u) memory, hsm_ret) prog" where
  "HSM_TOP_STATE h = thenM (modifyM (set_tmp_state h NULL)) (ret HSM_RET_TOP_STATE)"

definition HSM_TRANSITION :: "ptr \<Rightarrow> hsm_state_fn \<Rightarrow> (('k, 'u) memory, hsm_ret) prog" where
  "HSM_TRANSITION h new_fn = thenM (modifyM (set_tmp_state h new_fn)) (ret HSM_RET_TRANSITION)"

section \<open>Initialisation and start\<close>

definition hsm_init :: "('k, 'u) platform \<Rightarrow> ptr \<Rightarrow> hsm_state_fn \<Rightarrow> (('k, 'u) memory, unit) prog" where
  "hsm_init P h initial_state =
     thenM (z_assert P (h \<noteq> NULL))
    (thenM (z_assert P (initial_state \<noteq> NULL))
    (thenM (read_hsm h)
    (thenM (modifyM (set_current_state h initial_state))
     (pub_sub_subscriber_set_handler_data P h Hsm_msg_handler h))))"

text \<open>One WALK: asks the state in \<open>tmp_state\<close> and returns the answer with the new
  \<open>tmp_state\<close>.\<close>

definition walk_step :: "('k, 'u) platform \<Rightarrow> ptr \<Rightarrow> (('k, 'u) memory, hsm_ret \<times> hsm_state_fn) prog" where
  "walk_step P h =
     bindM (read_hsm h) (\<lambda>x.
     thenM (z_assert P (tmp_state x \<noteq> NULL))
    (bindM (call_state P (tmp_state x) h HSM_MSG_ID_WALK NULL) (\<lambda>r.
     thenM (z_assert P (r = HSM_RET_PARENT \<or> r = HSM_RET_TOP_STATE))
    (bindM (read_hsm h) (\<lambda>y.
     ret (r, tmp_state y))))))"

text \<open>The \<open>do ... while\<close> loop of \<open>hsm_start\<close>.\<close>

function collect_parents ::
  "('k, 'u) platform \<Rightarrow> ptr \<Rightarrow> hsm_state_fn list \<Rightarrow> (('k, 'u) memory, hsm_state_fn list) prog" where
  "collect_parents P h parents s =
     bindM (walk_step P h) (\<lambda>(r, t).
     bindM (guardM Out_of_bounds (length parents < CONFIG_HSM_MAX_NESTED_STATES P)) (\<lambda>_.
     if r = HSM_RET_PARENT \<and> length (parents @ [t]) - 1 < CONFIG_HSM_MAX_NESTED_STATES P - 1
     then collect_parents P h (parents @ [t])
     else ret (parents @ [t]))) s"
  by pat_completeness auto
termination
  by (relation "measure (\<lambda>(P, h, parents, s). CONFIG_HSM_MAX_NESTED_STATES P - length parents)") auto

text \<open>\<open>parents[i](hsm, HSM_MSG_ID_ENTRY, NULL)\<close> for \<open>i = n - 1, ..., 0\<close>.\<close>

definition enter_parents ::
  "('k, 'u) platform \<Rightarrow> ptr \<Rightarrow> hsm_state_fn list \<Rightarrow> nat \<Rightarrow> (('k, 'u) memory, unit) prog" where
  "enter_parents P h parents n =
     run_all (map (\<lambda>i.
       thenM (guardM Out_of_bounds (i < length parents))
      (thenM (z_assert P (parents ! i \<noteq> NULL))
       (discard (call_state P (parents ! i) h HSM_MSG_ID_ENTRY NULL)))) (rev [0..<n]))"

definition hsm_start :: "('k, 'u) platform \<Rightarrow> ptr \<Rightarrow> (('k, 'u) memory, unit) prog" where
  "hsm_start P h =
     thenM (z_assert P (h \<noteq> NULL))
    (bindM (read_hsm h) (\<lambda>x.
     thenM (z_assert P (current_state x \<noteq> NULL))
    (thenM (modifyM (set_tmp_state h (current_state x)))
    (bindM (collect_parents P h []) (\<lambda>parents.
     thenM (enter_parents P h parents (length parents - 1))
    (bindM (read_hsm h) (\<lambda>y.
     discard (call_state P (current_state y) h HSM_MSG_ID_ENTRY NULL))))))))"

section \<open>Transitions\<close>

text \<open>The first loop of \<open>transition_state\<close>: the new state's parents, up to the current
  state, with the index of the current state among them or \<open>-1\<close>.\<close>

function collect_new_parents ::
  "('k, 'u) platform \<Rightarrow> ptr \<Rightarrow> hsm_state_fn list \<Rightarrow> (('k, 'u) memory, hsm_state_fn list \<times> int) prog" where
  "collect_new_parents P h parents s =
     bindM (walk_step P h) (\<lambda>(r, t).
     bindM (read_hsm h) (\<lambda>x.
     bindM (guardM Out_of_bounds (length parents < CONFIG_HSM_MAX_NESTED_STATES P)) (\<lambda>_.
     let common = (if t = current_state x then int (length parents) else - 1) in
     if r = HSM_RET_PARENT \<and> common = - 1 \<and>
        length (parents @ [t]) - 1 < CONFIG_HSM_MAX_NESTED_STATES P - 1
     then collect_new_parents P h (parents @ [t])
     else ret (parents @ [t], common)))) s"
  by pat_completeness auto
termination
  by (relation "measure (\<lambda>(P, h, parents, s). CONFIG_HSM_MAX_NESTED_STATES P - length parents)")
    (auto simp: Let_def split: if_splits)

text \<open>The \<open>for\<close> loop that looks for a state among the first \<open>n\<close> parents: the last index
  at which it stands, or the value from before.\<close>

definition find_common :: "hsm_state_fn list \<Rightarrow> nat \<Rightarrow> hsm_state_fn \<Rightarrow> int \<Rightarrow> int" where
  "find_common parents n t common =
     fold (\<lambda>i c. if parents ! i = t then int i else c) [0..<n] common"

text \<open>The second loop: EXIT messages to the current state and its parents.\<close>

function exit_states ::
  "('k, 'u) platform \<Rightarrow> ptr \<Rightarrow> hsm_state_fn list \<Rightarrow> nat \<Rightarrow> (('k, 'u) memory, int) prog" where
  "exit_states P h parents nest_count s =
     bindM (read_hsm h) (\<lambda>x.
     bindM (z_assert P (tmp_state x \<noteq> NULL)) (\<lambda>_.
     bindM (call_state P (tmp_state x) h HSM_MSG_ID_EXIT NULL) (\<lambda>r0.
     bindM (z_assert P (r0 \<noteq> HSM_RET_TRANSITION)) (\<lambda>_.
     bindM (if r0 = HSM_RET_CONSUMED then bindM (walk_step P h) (\<lambda>(r, t). ret r) else ret r0) (\<lambda>r.
     bindM (read_hsm h) (\<lambda>y.
     let common = (if r = HSM_RET_PARENT
                   then find_common parents (length parents - 1) (tmp_state y) (- 1) else - 1) in
     if r = HSM_RET_PARENT \<and> common = - 1 \<and> nest_count + 1 < CONFIG_HSM_MAX_NESTED_STATES P
     then exit_states P h parents (nest_count + 1)
     else ret common)))))) s"
  by pat_completeness auto
termination
  by (relation "measure (\<lambda>(P, h, parents, n, s). CONFIG_HSM_MAX_NESTED_STATES P - n)")
    (auto simp: Let_def split: if_splits)

definition transition_state ::
  "('k, 'u) platform \<Rightarrow> ptr \<Rightarrow> hsm_state_fn \<Rightarrow> (('k, 'u) memory, unit) prog" where
  "transition_state P h new_state =
     thenM (modifyM (set_tmp_state h new_state))
    (bindM (collect_new_parents P h []) (\<lambda>(parents, common0).
     bindM (if common0 = - 1 then
              bindM (read_hsm h) (\<lambda>x.
              thenM (modifyM (set_tmp_state h (current_state x)))
              (exit_states P h parents 0))
            else ret common0) (\<lambda>common1.
     let common = (if common1 = - 1 then int (length parents) - 1 else common1) in
     thenM (enter_parents P h parents (nat common))
    (thenM (z_assert P (new_state \<noteq> NULL))
    (thenM (discard (call_state P new_state h HSM_MSG_ID_ENTRY NULL))
     (modifyM (set_current_state h new_state)))))))"

section \<open>The message handler\<close>

text \<open>The \<open>do ... while\<close> loop of \<open>msg_handler\<close> is not bounded by the code; the first
  argument is the fuel.\<close>

fun dispatch ::
  "nat \<Rightarrow> ('k, 'u) platform \<Rightarrow> ptr \<Rightarrow> uint16 \<Rightarrow> ptr \<Rightarrow> (('k, 'u) memory, hsm_ret) prog" where
  "dispatch 0 P h msg_id msg = raise Out_of_fuel"
| "dispatch (Suc n) P h msg_id msg =
     bindM (read_hsm h) (\<lambda>x.
     thenM (z_assert P (tmp_state x \<noteq> NULL))
    (bindM (call_state P (tmp_state x) h msg_id msg) (\<lambda>r.
     if r = HSM_RET_PARENT then dispatch n P h msg_id msg else ret r)))"

definition hsm_msg_handler ::
  "('k, 'u) platform \<Rightarrow> uint16 \<Rightarrow> ptr \<Rightarrow> ptr \<Rightarrow> (('k, 'u) memory, unit) prog" where
  "hsm_msg_handler P msg_id msg data =
     bindM (read_hsm data) (\<lambda>x.
     thenM (modifyM (set_tmp_state data (current_state x)))
    (bindM (dispatch (fuel P) P data msg_id msg) (\<lambda>r.
     bindM (read_hsm data) (\<lambda>y.
     if r = HSM_RET_TRANSITION \<and> tmp_state y \<noteq> current_state y then
       thenM (z_assert P (tmp_state y \<noteq> NULL))
       (transition_state P data (tmp_state y))
     else ret ()))))"

declare collect_parents.simps [simp del] collect_new_parents.simps [simp del] exit_states.simps [simp del]

section \<open>Hierarchies\<close>

text \<open>\<open>chain par st as\<close>: \<open>as\<close> are the parent of \<open>st\<close>, its parent, and so on up to a
  top state.\<close>

fun chain :: "(hsm_state_fn \<Rightarrow> hsm_state_fn option) \<Rightarrow> hsm_state_fn \<Rightarrow> hsm_state_fn list \<Rightarrow> bool" where
  "chain par st [] \<longleftrightarrow> par st = None"
| "chain par st (p # ps) \<longleftrightarrow> par st = Some p \<and> chain par p ps"

lemma chain_unique: "chain par st as \<Longrightarrow> chain par st bs \<Longrightarrow> as = bs"
proof (induction as arbitrary: st bs)
  case Nil
  then show ?case by (cases bs) auto
next
  case (Cons a as)
  then show ?case by (cases bs) auto
qed

lemma chain_suffix: "chain par st (xs @ p # ys) \<Longrightarrow> chain par p ys"
  by (induction xs arbitrary: st) auto

lemma chain_not_own_ancestor: "chain par st as \<Longrightarrow> st \<notin> set as"
proof
  assume c: "chain par st as" and "st \<in> set as"
  then obtain xs ys where as: "as = xs @ st # ys" by (meson split_list)
  then have "as = ys" using c chain_suffix chain_unique by metis
  then have "length ys = length (xs @ st # ys)" using as by metis
  then show False by simp
qed

lemma chain_distinct: "chain par st as \<Longrightarrow> distinct (st # as)"
proof (induction as arbitrary: st)
  case (Cons a as)
  then show ?case using chain_not_own_ancestor [OF Cons.prems] Cons.IH [of a] by simp
qed simp

text \<open>Two chains that meet are the same from the first common state on.\<close>

lemma chains_before_common:
  assumes "chain par c as" and "chain par d (xs @ t # ys)"
    and "c # as = us @ t # vs" and "set us \<inter> set (xs @ t # ys) = {}"
  shows "takeWhile (\<lambda>b. b \<notin> set (c # as)) (xs @ t # ys) = xs"
proof -
  have tv: "chain par t vs"
    using assms(1,3) chain_suffix by (cases us) auto
  have "b \<notin> set (c # as)" if b: "b \<in> set xs" for b
  proof
    assume "b \<in> set (c # as)"
    then have "b \<in> set (t # vs)" using assms(3,4) b by auto
    moreover have "b \<noteq> t" using b chain_distinct [OF assms(2)] by auto
    ultimately obtain v1 v2 where v: "vs = v1 @ b # v2" by (auto dest: split_list)
    obtain x1 x2 where x: "xs = x1 @ b # x2" using b by (auto dest: split_list)
    have "chain par b v2" using tv v chain_suffix by simp
    moreover have "chain par b (x2 @ t # ys)" using assms(2) x chain_suffix [of par d x1 b] by simp
    ultimately have "t \<in> set vs" using v chain_unique by fastforce
    then show False using chain_not_own_ancestor [OF tv] by simp
  qed
  moreover have "t \<in> set (c # as)" using assms(3) by simp
  ultimately show ?thesis by (simp add: takeWhile_append2)
qed

text \<open>The states that are left, from the inside out, and those that are entered, from the
  outside in, when a machine goes from a state \<open>c\<close> with ancestors \<open>as\<close> to a state
  \<open>d\<close> with ancestors \<open>bs\<close>.\<close>

definition left_states :: "hsm_state_fn \<Rightarrow> hsm_state_fn list \<Rightarrow> hsm_state_fn list \<Rightarrow> hsm_state_fn list" where
  "left_states c as bs = takeWhile (\<lambda>a. a \<notin> set bs) (c # as)"

definition entered_states ::
  "hsm_state_fn \<Rightarrow> hsm_state_fn list \<Rightarrow> hsm_state_fn \<Rightarrow> hsm_state_fn list \<Rightarrow> hsm_state_fn list" where
  "entered_states c as d bs = rev (d # takeWhile (\<lambda>b. b \<notin> set (c # as)) bs)"

definition transition_log ::
  "hsm_state_fn \<Rightarrow> hsm_state_fn list \<Rightarrow> hsm_state_fn \<Rightarrow> hsm_state_fn list \<Rightarrow> (hsm_state_fn \<times> uint16) list" where
  "transition_log c as d bs =
     map (\<lambda>st. (st, HSM_MSG_ID_EXIT)) (left_states c as bs) @
     map (\<lambda>st. (st, HSM_MSG_ID_ENTRY)) (entered_states c as d bs)"

section \<open>What a state is expected to do\<close>

text \<open>Every state answers WALK with its parent, or says that it is a top state, and does
  nothing else (the code's own comment: "Walk should never be handled by a state machine").\<close>

definition walk_law ::
  "('k, 'u) platform \<Rightarrow> ptr \<Rightarrow> (hsm_state_fn \<Rightarrow> hsm_state_fn option) \<Rightarrow> hsm_state_fn set \<Rightarrow> bool" where
  "walk_law P h par S \<longleftrightarrow> (\<forall>st \<in> S. st \<noteq> NULL \<and> (\<forall>p. par st = Some p \<longrightarrow> p \<in> S) \<and>
     (\<forall>s. hsms s h \<noteq> None \<longrightarrow> state_fn P st h HSM_MSG_ID_WALK NULL s =
        (case par st of None \<Rightarrow> HSM_TOP_STATE h s | Some p \<Rightarrow> HSM_PARENT h p s)))"

text \<open>Every state notes its ENTRY and EXIT messages in a log of the application that has room
  for \<open>cap\<close> entries, and does not touch \<open>current_state\<close>. An EXIT message is consumed or
  not handled, but does not lead to another transition.\<close>

definition notify_law ::
  "('k, 'u) platform \<Rightarrow> ptr \<Rightarrow> (hsm_state_fn \<Rightarrow> hsm_state_fn option) \<Rightarrow> hsm_state_fn set \<Rightarrow>
   ('u \<Rightarrow> (hsm_state_fn \<times> uint16) list) \<Rightarrow> nat \<Rightarrow> bool" where
  "notify_law P h par S log cap \<longleftrightarrow>
     (\<forall>st \<in> S. \<forall>i \<in> {HSM_MSG_ID_ENTRY, HSM_MSG_ID_EXIT}. \<forall>s x.
        hsms s h = Some x \<and> length (log (app s)) < cap \<longrightarrow>
        (\<exists>r s' x'. state_fn P st h i NULL s = Inr (r, s') \<and> hsms s' h = Some x' \<and>
           current_state x' = current_state x \<and> log (app s') = log (app s) @ [(st, i)] \<and>
           (i = HSM_MSG_ID_EXIT \<longrightarrow>
              r = HSM_RET_CONSUMED \<and> tmp_state x' = tmp_state x \<or>
              r = HSM_RET_PARENT \<and> par st = Some (tmp_state x') \<or>
              r = HSM_RET_TOP_STATE \<and> par st = None)))"

text \<open>The same for any other way to look at the state: \<open>view\<close> is what is seen of it, without the fields of the
  machine that the framework writes itself, \<open>upd\<close> the effect of an ENTRY or EXIT message on it, and
  \<open>ok\<close> says when the state can take one. The log is one such view.\<close>

definition informs ::
  "('k, 'u) platform \<Rightarrow> ptr \<Rightarrow> (hsm_state_fn \<Rightarrow> hsm_state_fn option) \<Rightarrow> hsm_state_fn set \<Rightarrow>
   (('k, 'u) memory \<Rightarrow> 'l) \<Rightarrow> (hsm_state_fn \<times> uint16 \<Rightarrow> 'l \<Rightarrow> 'l) \<Rightarrow> (hsm_state_fn \<times> uint16 \<Rightarrow> 'l \<Rightarrow> bool) \<Rightarrow> bool" where
  "informs P h par S view upd ok \<longleftrightarrow>
     (\<forall>s t. view (set_tmp_state h t s) = view s \<and> view (set_current_state h t s) = view s) \<and>
     (\<forall>st \<in> S. \<forall>i \<in> {HSM_MSG_ID_ENTRY, HSM_MSG_ID_EXIT}. \<forall>s x.
        hsms s h = Some x \<and> ok (st, i) (view s) \<longrightarrow>
        (\<exists>r s' x'. state_fn P st h i NULL s = Inr (r, s') \<and> hsms s' h = Some x' \<and>
           current_state x' = current_state x \<and> view s' = upd (st, i) (view s) \<and>
           (i = HSM_MSG_ID_EXIT \<longrightarrow>
              r = HSM_RET_CONSUMED \<and> tmp_state x' = tmp_state x \<or>
              r = HSM_RET_PARENT \<and> par st = Some (tmp_state x') \<or>
              r = HSM_RET_TOP_STATE \<and> par st = None)))"

fun all_ok :: "('e \<Rightarrow> 'l \<Rightarrow> 'l) \<Rightarrow> ('e \<Rightarrow> 'l \<Rightarrow> bool) \<Rightarrow> 'e list \<Rightarrow> 'l \<Rightarrow> bool" where
  "all_ok upd ok [] l = True"
| "all_ok upd ok (e # es) l = (ok e l \<and> all_ok upd ok es (upd e l))"

lemma all_ok_append [simp]:
  "all_ok upd ok (es @ fs) l \<longleftrightarrow> all_ok upd ok es l \<and> all_ok upd ok fs (fold upd es l)"
  by (induction es arbitrary: l) auto

lemma log_views:
  "fold (\<lambda>e l. l @ [e]) es l = l @ es"
  "length l + length es \<le> cap \<Longrightarrow> all_ok (\<lambda>e l. l @ [e]) (\<lambda>e l. length l < cap) es l"
  by (induction es arbitrary: l) auto

text \<open>The messages have been sent one after the other; the machine is still in the same state.\<close>

definition told ::
  "(('k, 'u) memory \<Rightarrow> 'l) \<Rightarrow> ('e \<Rightarrow> 'l \<Rightarrow> 'l) \<Rightarrow> ptr \<Rightarrow> ('k, 'u) memory \<Rightarrow> 'e list \<Rightarrow> ('k, 'u) memory \<Rightarrow> bool" where
  "told view upd h s es s' \<longleftrightarrow> hsms s h \<noteq> None \<and> hsms s' h \<noteq> None \<and>
     map_option current_state (hsms s' h) = map_option current_state (hsms s h) \<and>
     view s' = fold upd es (view s)"

lemma told_trans:
  "told view upd h s es s' \<Longrightarrow> told view upd h s' fs s'' \<Longrightarrow> told view upd h s (es @ fs) s''"
  by (auto simp: told_def)

lemma hsms_set_tmp_state [simp]:
  "hsms (set_tmp_state h t s) = (hsms s)(h := map_option (\<lambda>x. x\<lparr>tmp_state := t\<rparr>) (hsms s h))"
  by (simp add: set_tmp_state_def)

lemma app_set_tmp_state [simp]: "app (set_tmp_state h t s) = app s"
  by (simp add: set_tmp_state_def)

lemma set_tmp_state_twice [simp]: "set_tmp_state h t (set_tmp_state h u s) = set_tmp_state h t s"
  by (auto simp: set_tmp_state_def option.map_comp comp_def)

lemma informs_blind [simp]:
  assumes "informs P h par S view upd ok"
  shows "view (set_tmp_state h t s) = view s" and "view (set_current_state h t s) = view s"
  using assms by (simp_all add: informs_def)

lemma told_set_tmp_state:
  "informs P h par S view upd ok \<Longrightarrow> hsms s h \<noteq> None \<Longrightarrow> told view upd h s [] (set_tmp_state h t s)"
  by (auto simp: told_def option.map_comp comp_def)

lemma notify_informs:
  assumes "notify_law P h par S log cap"
  shows "informs P h par S (\<lambda>s. log (app s)) (\<lambda>e l. l @ [e]) (\<lambda>e l. length l < cap)"
  using assms by (simp add: informs_def notify_law_def set_current_state_def)

lemma read_hsm_run: "hsms s h = Some x \<Longrightarrow> read_hsm h s = Inr (x, s)"
  by (simp add: read_hsm_def)

lemma walk_step_run:
  assumes "walk_law P h par S" and "st \<in> S" and "hsms s h = Some x" and "tmp_state x = st"
  shows "walk_step P h s = (case par st of
      None \<Rightarrow> Inr ((HSM_RET_TOP_STATE, NULL), set_tmp_state h NULL s)
    | Some p \<Rightarrow> Inr ((HSM_RET_PARENT, p), set_tmp_state h p s))"
proof -
  have "state_fn P st h HSM_MSG_ID_WALK NULL s =
      (case par st of None \<Rightarrow> HSM_TOP_STATE h s | Some p \<Rightarrow> HSM_PARENT h p s)" and "st \<noteq> NULL"
    using assms(1-3) by (auto simp: walk_law_def)
  then show ?thesis
    using assms(3,4)
    by (auto simp: walk_step_def read_hsm_run call_state_def HSM_TOP_STATE_def HSM_PARENT_def
        split: option.splits)
qed

lemma walk_law_par: "walk_law P h par S \<Longrightarrow> st \<in> S \<Longrightarrow> par st = Some p \<Longrightarrow> p \<in> S"
  and walk_law_NULL: "walk_law P h par S \<Longrightarrow> st \<in> S \<Longrightarrow> st \<noteq> NULL"
  by (auto simp: walk_law_def)

lemma chain_states: "walk_law P h par S \<Longrightarrow> st \<in> S \<Longrightarrow> chain par st as \<Longrightarrow> set as \<subseteq> S"
  by (induction as arbitrary: st) (auto dest: walk_law_par)

lemma collect_parents_run:
  assumes "walk_law P h par S"
  shows "st \<in> S \<Longrightarrow> chain par st as \<Longrightarrow> hsms s h = Some x \<Longrightarrow> tmp_state x = st \<Longrightarrow>
    length ps < CONFIG_HSM_MAX_NESTED_STATES P \<Longrightarrow>
    \<exists>t. collect_parents P h ps s =
      Inr (ps @ take (CONFIG_HSM_MAX_NESTED_STATES P - length ps) (as @ [NULL]), set_tmp_state h t s)"
proof (induction as arbitrary: st ps s x)
  case Nil
  then show ?case
    using walk_step_run [OF assms Nil(1,3,4)]
    by (auto simp: collect_parents.simps [of P h ps s] take_Cons' intro!: exI)
next
  case (Cons p as)
  let ?M = "CONFIG_HSM_MAX_NESTED_STATES P"
  have w: "walk_step P h s = Inr ((HSM_RET_PARENT, p), set_tmp_state h p s)" and c: "chain par p as"
    using walk_step_run [OF assms Cons.prems(1,3,4)] Cons.prems(2) by simp_all
  have pS: "p \<in> S" using walk_law_par [OF assms Cons.prems(1)] Cons.prems(2) by simp
  show ?case
  proof (cases "length ps < ?M - 1")
    case True
    have l: "length (ps @ [p]) < ?M" using True by simp
    obtain t where "collect_parents P h (ps @ [p]) (set_tmp_state h p s) =
        Inr ((ps @ [p]) @ take (?M - length (ps @ [p])) (as @ [NULL]), set_tmp_state h t (set_tmp_state h p s))"
      using Cons.IH [OF pS c _ _ l, of "set_tmp_state h p s"] Cons.prems(3) by auto
    moreover have "?M - length ps = Suc (?M - Suc (length ps))" using True by simp
    ultimately show ?thesis
      using w Cons.prems(5) True by (auto simp: collect_parents.simps [of P h ps s] intro!: exI)
  next
    case False
    then have "?M - length ps = Suc 0" using Cons.prems(5) by simp
    then show ?thesis
      using w Cons.prems(5) False by (auto simp: collect_parents.simps [of P h ps s] intro!: exI)
  qed
qed

lemma collect_new_parents_run:
  assumes "walk_law P h par S" and "c \<noteq> NULL"
  shows "st \<in> S \<Longrightarrow> chain par st as \<Longrightarrow> hsms s h = Some x \<Longrightarrow> tmp_state x = st \<Longrightarrow>
    current_state x = c \<Longrightarrow> length ps + length as < CONFIG_HSM_MAX_NESTED_STATES P \<Longrightarrow>
    \<exists>t. collect_new_parents P h ps s =
      Inr (if c \<in> set as
           then (ps @ takeWhile (\<lambda>b. b \<noteq> c) as @ [c], int (length ps + length (takeWhile (\<lambda>b. b \<noteq> c) as)))
           else (ps @ as @ [NULL], - 1), set_tmp_state h t s)"
proof (induction as arbitrary: st ps s x)
  case Nil
  then show ?case
    using walk_step_run [OF assms(1) Nil(1,3,4)] assms(2)
    by (auto simp: collect_new_parents.simps [of P h ps s] read_hsm_run Let_def intro!: exI)
next
  case (Cons p as)
  let ?M = "CONFIG_HSM_MAX_NESTED_STATES P"
  have w: "walk_step P h s = Inr ((HSM_RET_PARENT, p), set_tmp_state h p s)" and c: "chain par p as"
    using walk_step_run [OF assms(1) Cons.prems(1,3,4)] Cons.prems(2) by simp_all
  have pS: "p \<in> S" using walk_law_par [OF assms(1) Cons.prems(1)] Cons.prems(2) by simp
  show ?case
  proof (cases "p = c")
    case True
    then show ?thesis
      using w Cons.prems(3,5,6)
      by (auto simp: collect_new_parents.simps [of P h ps s] read_hsm_run Let_def intro!: exI)
  next
    case False
    have l: "length (ps @ [p]) + length as < ?M" using Cons.prems(6) by simp
    let ?x = "x\<lparr>tmp_state := p\<rparr>"
    have y: "hsms (set_tmp_state h p s) h = Some ?x" using Cons.prems(3) by simp
    obtain t where "collect_new_parents P h (ps @ [p]) (set_tmp_state h p s) =
        Inr (if c \<in> set as
           then ((ps @ [p]) @ takeWhile (\<lambda>b. b \<noteq> c) as @ [c],
                 int (length (ps @ [p]) + length (takeWhile (\<lambda>b. b \<noteq> c) as)))
           else ((ps @ [p]) @ as @ [NULL], - 1), set_tmp_state h t (set_tmp_state h p s))"
      using Cons.IH [OF pS c y _ _ l] Cons.prems(5) by auto
    then show ?thesis
      using w Cons.prems(3,5,6) False
      by (auto simp: collect_new_parents.simps [of P h ps s] read_hsm_run Let_def intro!: exI)
  qed
qed

lemma find_common_run:
  "n \<le> length ps \<Longrightarrow> find_common ps n t d =
    (case index_of t (rev (take n ps)) of None \<Rightarrow> d | Some i \<Rightarrow> int (n - 1 - i))"
proof (induction n)
  case 0
  then show ?case by (simp add: find_common_def)
next
  case (Suc n)
  then have "rev (take (Suc n) ps) = ps ! n # rev (take n ps)" by (simp add: take_Suc_conv_app_nth)
  then show ?case using Suc by (auto simp: find_common_def split: option.splits)
qed

lemma index_of_None: "index_of x xs = None \<longleftrightarrow> x \<notin> set xs"
  by (induction xs) auto

lemma find_common_distinct:
  assumes "distinct bs"
  shows "find_common (bs @ [z]) (length bs) t (- 1) =
    (case index_of t bs of None \<Rightarrow> - 1 | Some i \<Rightarrow> int i)"
proof (cases "index_of t bs")
  case None
  then have "index_of t (rev bs) = None" by (simp add: index_of_None)
  then show ?thesis using None by (simp add: find_common_run)
next
  case (Some i)
  then have i: "i < length bs" "bs ! i = t" using index_of_Some [OF Some] by simp_all
  then have "index_of t (rev bs) = Some (length bs - 1 - i)"
    using index_of_nth [of "rev bs" "length bs - 1 - i"] assms by (simp add: rev_nth)
  then show ?thesis using Some i by (simp add: find_common_run)
qed

lemma notify_run:
  assumes "informs P h par S view upd ok" and "st \<in> S" and "st \<noteq> NULL" and "hsms s h = Some x"
    and "ok (st, i) (view s)" and "i \<in> {HSM_MSG_ID_ENTRY, HSM_MSG_ID_EXIT}"
  shows "\<exists>r s' x'. call_state P st h i NULL s = Inr (r, s') \<and> told view upd h s [(st, i)] s' \<and>
    hsms s' h = Some x' \<and> current_state x' = current_state x \<and>
    (i = HSM_MSG_ID_EXIT \<longrightarrow>
       r = HSM_RET_CONSUMED \<and> tmp_state x' = tmp_state x \<or>
       r = HSM_RET_PARENT \<and> par st = Some (tmp_state x') \<or>
       r = HSM_RET_TOP_STATE \<and> par st = None)"
proof -
  have "\<exists>r s' x'. state_fn P st h i NULL s = Inr (r, s') \<and> hsms s' h = Some x' \<and>
     current_state x' = current_state x \<and> view s' = upd (st, i) (view s) \<and>
     (i = HSM_MSG_ID_EXIT \<longrightarrow>
        r = HSM_RET_CONSUMED \<and> tmp_state x' = tmp_state x \<or>
        r = HSM_RET_PARENT \<and> par st = Some (tmp_state x') \<or>
        r = HSM_RET_TOP_STATE \<and> par st = None)"
    using assms(1) [unfolded informs_def] assms(2,4-6) by blast
  then show ?thesis using assms(3,4) by (simp add: call_state_def told_def) blast
qed

lemma enter_parents_run:
  assumes "informs P h par S view upd ok" and "NULL \<notin> S"
  shows "n \<le> length ps \<Longrightarrow> set (take n ps) \<subseteq> S \<Longrightarrow> hsms s h \<noteq> None \<Longrightarrow>
    all_ok upd ok (map (\<lambda>st. (st, HSM_MSG_ID_ENTRY)) (rev (take n ps))) (view s) \<Longrightarrow>
    \<exists>s'. enter_parents P h ps n s = Inr ((), s') \<and>
      told view upd h s (map (\<lambda>st. (st, HSM_MSG_ID_ENTRY)) (rev (take n ps))) s'"
proof (induction n arbitrary: s)
  case 0
  then show ?case by (simp add: enter_parents_def told_def)
next
  case (Suc n)
  have t: "take (Suc n) ps = take n ps @ [ps ! n]" using Suc.prems(1) by (simp add: take_Suc_conv_app_nth)
  then have p: "ps ! n \<in> S" using Suc.prems(2) by simp
  then have nz: "ps ! n \<noteq> NULL" using assms(2) by metis
  obtain x where x: "hsms s h = Some x" using Suc.prems(3) by blast
  have l: "ok (ps ! n, HSM_MSG_ID_ENTRY) (view s)" using Suc.prems(4) by (simp add: t)
  obtain r s1 where s1: "call_state P (ps ! n) h HSM_MSG_ID_ENTRY NULL s = Inr (r, s1)"
    "told view upd h s [(ps ! n, HSM_MSG_ID_ENTRY)] s1"
    using notify_run [OF assms(1) p nz x l] by blast
  have "hsms s1 h \<noteq> None" "all_ok upd ok (map (\<lambda>st. (st, HSM_MSG_ID_ENTRY)) (rev (take n ps))) (view s1)" "set (take n ps) \<subseteq> S"
    using s1(2) Suc.prems(2,4) t by (auto simp: told_def)
  then obtain s2 where s2: "enter_parents P h ps n s1 = Inr ((), s2)"
    "told view upd h s1 (map (\<lambda>st. (st, HSM_MSG_ID_ENTRY)) (rev (take n ps))) s2"
    using Suc.IH [of s1] Suc.prems(1) by auto
  have "enter_parents P h ps (Suc n) s = Inr ((), s2)"
    using s1(1) s2(1) nz Suc.prems(1) by (simp add: enter_parents_def)
  moreover have "told view upd h s (map (\<lambda>st. (st, HSM_MSG_ID_ENTRY)) (rev (take (Suc n) ps))) s2"
    using told_trans [OF s1(2) s2(2)] by (simp add: t)
  ultimately show ?case by blast
qed

text \<open>One round of the loop that sends EXIT messages, whether the state consumes the message
  (then it is asked for its parent) or names its parent at once.\<close>

lemma exit_states_step:
  assumes "walk_law P h par S" and "informs P h par S view upd ok" and "a \<in> S"
    and "hsms s h = Some x" and "tmp_state x = a" and "ok (a, HSM_MSG_ID_EXIT) (view s)"
  shows "\<exists>s1 x1. told view upd h s [(a, HSM_MSG_ID_EXIT)] s1 \<and> hsms s1 h = Some x1 \<and>
    (case par a of
       None \<Rightarrow> exit_states P h parents n s = Inr (- 1, s1)
     | Some p \<Rightarrow> tmp_state x1 = p \<and> exit_states P h parents n s =
         (let common = find_common parents (length parents - 1) p (- 1)
          in if common = - 1 \<and> n + 1 < CONFIG_HSM_MAX_NESTED_STATES P
             then exit_states P h parents (n + 1) s1 else Inr (common, s1)))"
proof -
  have nz: "a \<noteq> NULL" using walk_law_NULL [OF assms(1,3)] .
  obtain r0 s0 x0 where e: "call_state P a h HSM_MSG_ID_EXIT NULL s = Inr (r0, s0)"
    "told view upd h s [(a, HSM_MSG_ID_EXIT)] s0" "hsms s0 h = Some x0"
    and r0: "r0 = HSM_RET_CONSUMED \<and> tmp_state x0 = tmp_state x \<or>
      r0 = HSM_RET_PARENT \<and> par a = Some (tmp_state x0) \<or> r0 = HSM_RET_TOP_STATE \<and> par a = None"
    using notify_run [OF assms(2,3) nz assms(4,6)] by blast
  have tr: "r0 \<noteq> HSM_RET_TRANSITION" using r0 by auto
  show ?thesis
  proof (cases "r0 = HSM_RET_CONSUMED")
    case True
    then have t0: "tmp_state x0 = a" using r0 assms(5) by simp
    note w = walk_step_run [OF assms(1,3) e(3) t0]
    have lg: "told view upd h s [(a, HSM_MSG_ID_EXIT)] (set_tmp_state h t s0)" for t
      using told_trans [OF e(2) told_set_tmp_state [OF assms(2)], of t] e(3) by simp
    show ?thesis
    proof (cases "par a")
      case None
      then show ?thesis
        using w True e nz assms(4,5) lg
        by (simp add: exit_states.simps [of P h parents n s] read_hsm_run Let_def)
    next
      case (Some p)
      then show ?thesis
        using w True e nz assms(4,5) lg [of p]
        by (intro exI [of _ "set_tmp_state h p s0"])
          (simp add: exit_states.simps [of P h parents n s] read_hsm_run Let_def)
    qed
  next
    case False
    then show ?thesis
      using r0 tr e nz assms(4,5)
      by (intro exI [of _ s0]) (auto simp: exit_states.simps [of P h parents n s] read_hsm_run Let_def)
  qed
qed

lemma find_common_bs:
  assumes "distinct bs"
  shows "find_common (bs @ [NULL]) (length (bs @ [NULL]) - 1) p (- 1) =
    (if p \<in> set bs then int (the (index_of p bs)) else - 1)"
  using find_common_distinct [OF assms, of NULL p] index_of_None [of p bs]
  by (auto split: option.splits)

lemma exit_states_run:
  assumes "walk_law P h par S" and "informs P h par S view upd ok" and "distinct bs"
  shows "a \<in> S \<Longrightarrow> chain par a as \<Longrightarrow> hsms s h = Some x \<Longrightarrow> tmp_state x = a \<Longrightarrow> a \<notin> set bs \<Longrightarrow>
    n + length as < CONFIG_HSM_MAX_NESTED_STATES P \<Longrightarrow>
    all_ok upd ok (map (\<lambda>st. (st, HSM_MSG_ID_EXIT)) (takeWhile (\<lambda>b. b \<notin> set bs) (a # as))) (view s) \<Longrightarrow>
    \<exists>s'. exit_states P h (bs @ [NULL]) n s =
        Inr (case find (\<lambda>b. b \<in> set bs) as of None \<Rightarrow> - 1 | Some t \<Rightarrow> int (the (index_of t bs)), s') \<and>
      told view upd h s (map (\<lambda>st. (st, HSM_MSG_ID_EXIT)) (takeWhile (\<lambda>b. b \<notin> set bs) (a # as))) s'"
proof (induction as arbitrary: a n s x)
  case Nil
  have l: "ok (a, HSM_MSG_ID_EXIT) (view s)" using Nil(5,7) by simp
  show ?case
    using exit_states_step [OF assms(1,2) Nil(1,3,4) l, of "bs @ [NULL]" n] Nil(2,5) by auto
next
  case (Cons p as)
  have l: "ok (a, HSM_MSG_ID_EXIT) (view s)" using Cons.prems(5,7) by simp
  have p: "par a = Some p" "chain par p as" using Cons.prems(2) by simp_all
  have pS: "p \<in> S" using walk_law_par [OF assms(1) Cons.prems(1) p(1)] .
  obtain s1 x1 where s1: "told view upd h s [(a, HSM_MSG_ID_EXIT)] s1" "hsms s1 h = Some x1" "tmp_state x1 = p"
    and e: "exit_states P h (bs @ [NULL]) n s =
         (let common = find_common (bs @ [NULL]) (length (bs @ [NULL]) - 1) p (- 1)
          in if common = - 1 \<and> n + 1 < CONFIG_HSM_MAX_NESTED_STATES P
             then exit_states P h (bs @ [NULL]) (n + 1) s1 else Inr (common, s1))"
    using exit_states_step [OF assms(1,2) Cons.prems(1,3,4) l, of "bs @ [NULL]" n] p(1) by auto
  show ?case
  proof (cases "p \<in> set bs")
    case True
    then show ?thesis
      using e s1(1) Cons.prems(5) unfolding find_common_bs [OF assms(3)] by (auto simp: Let_def)
  next
    case False
    have n: "(n + 1) + length as < CONFIG_HSM_MAX_NESTED_STATES P" using Cons.prems(6) by simp
    have c: "all_ok upd ok (map (\<lambda>st. (st, HSM_MSG_ID_EXIT)) (takeWhile (\<lambda>b. b \<notin> set bs) (p # as))) (view s1)"
      using s1(1) Cons.prems(5,7) False by (simp add: told_def)
    obtain s2 where s2: "exit_states P h (bs @ [NULL]) (n + 1) s1 =
        Inr (case find (\<lambda>b. b \<in> set bs) as of None \<Rightarrow> - 1 | Some t \<Rightarrow> int (the (index_of t bs)), s2)"
      "told view upd h s1 (map (\<lambda>st. (st, HSM_MSG_ID_EXIT)) (takeWhile (\<lambda>b. b \<notin> set bs) (p # as))) s2"
      using Cons.IH [OF pS p(2) s1(2,3) False n c] by blast
    have "exit_states P h (bs @ [NULL]) n s = exit_states P h (bs @ [NULL]) (n + 1) s1"
      using e False n unfolding find_common_bs [OF assms(3)] by (simp add: Let_def)
    then show ?thesis
      using s2 told_trans [OF s1(1) s2(2)] False Cons.prems(5) by auto
  qed
qed

text \<open>The part of the new state's parents that is entered.\<close>

lemma takeWhile_is_take_index:
  "t \<in> set bs \<Longrightarrow> take (the (index_of t bs)) bs = takeWhile (\<lambda>b. b \<noteq> t) bs"
proof (induction bs)
  case (Cons a bs)
  then show ?case using index_of_None [of t bs] by (cases "index_of t bs") auto
qed simp

lemma common_prefix:
  assumes "chain par c as" and "chain par d bs" and "t \<in> set bs"
    and "c # as = us @ t # vs" and "set us \<inter> set bs = {}"
  shows "take (the (index_of t bs)) bs = takeWhile (\<lambda>b. b \<notin> set (c # as)) bs"
proof -
  obtain xs ys where b: "bs = xs @ t # ys" "t \<notin> set xs" using assms(3) by (meson split_list_first)
  then have "takeWhile (\<lambda>b. b \<noteq> t) bs = xs" by (auto simp: takeWhile_append)
  then show ?thesis
    using chains_before_common [of par c as d xs t ys us vs] assms takeWhile_is_take_index [OF assms(3)] b(1)
    by simp
qed

lemma find_SomeE:
  assumes "find Q as = Some t"
  obtains us vs where "as = us @ t # vs" and "Q t" and "\<forall>u \<in> set us. \<not> Q u"
  using assms by (auto simp: find_Some_iff2 find_Some_iff in_set_conv_nth dest: id_take_nth_drop
      intro!: that [of "take _ as" "drop (Suc _) as"])

text \<open>The end of a transition: ENTRY to the common part and to the new state.\<close>

definition enter_new ::
  "('k, 'u) platform \<Rightarrow> ptr \<Rightarrow> hsm_state_fn list \<Rightarrow> nat \<Rightarrow> hsm_state_fn \<Rightarrow> (('k, 'u) memory, unit) prog" where
  "enter_new P h ps n d =
     thenM (enter_parents P h ps n)
    (thenM (z_assert P (d \<noteq> NULL))
    (thenM (discard (call_state P d h HSM_MSG_ID_ENTRY NULL))
     (modifyM (set_current_state h d))))"

lemma enter_new_run:
  assumes "informs P h par S view upd ok" and "NULL \<notin> S" and "d \<in> S" and "n \<le> length ps"
    and "take n ps = es" and "set es \<subseteq> S" and "hsms s h \<noteq> None"
    and "all_ok upd ok (map (\<lambda>st. (st, HSM_MSG_ID_ENTRY)) (rev (d # es))) (view s)"
  shows "\<exists>s'. enter_new P h ps n d s = Inr ((), s') \<and>
    view s' = fold upd (map (\<lambda>st. (st, HSM_MSG_ID_ENTRY)) (rev (d # es))) (view s) \<and>
    map_option current_state (hsms s' h) = Some d"
proof -
  have e: "length es = n" using assms(4,5) by auto
  have dz: "d \<noteq> NULL" using assms(2,3) by metis
  obtain s1 where s1: "enter_parents P h ps n s = Inr ((), s1)"
    "told view upd h s (map (\<lambda>st. (st, HSM_MSG_ID_ENTRY)) (rev (take n ps))) s1"
    using enter_parents_run [OF assms(1,2,4), of s] assms(5-8) e by auto
  then obtain x1 where x1: "hsms s1 h = Some x1" by (auto simp: told_def)
  have "ok (d, HSM_MSG_ID_ENTRY) (view s1)" using s1(2) assms(5,8) by (simp add: told_def)
  then obtain r s2 where s2: "call_state P d h HSM_MSG_ID_ENTRY NULL s1 = Inr (r, s2)"
    "told view upd h s1 [(d, HSM_MSG_ID_ENTRY)] s2"
    using notify_run [OF assms(1,3) dz x1] by blast
  have "enter_new P h ps n d s = Inr ((), set_current_state h d s2)"
    using s1(1) s2(1) dz by (simp add: enter_new_def)
  then show ?thesis
    using s1(2) s2(2) assms(1,5) by (auto simp: told_def, auto simp: set_current_state_def)
qed

lemma transition_state_run:
  assumes "walk_law P h par S" and "informs P h par S view upd ok"
    and "c \<in> S" and "chain par c as" and "length as < CONFIG_HSM_MAX_NESTED_STATES P"
    and "d \<in> S" and "chain par d bs" and "length bs < CONFIG_HSM_MAX_NESTED_STATES P"
    and "hsms s h = Some x" and "current_state x = c"
    and "all_ok upd ok (transition_log c as d bs) (view s)"
  shows "\<exists>s'. transition_state P h d s = Inr ((), s') \<and>
    view s' = fold upd (transition_log c as d bs) (view s) \<and>
    map_option current_state (hsms s' h) = Some d"
proof -
  let ?s0 = "set_tmp_state h d s" and ?x0 = "x\<lparr>tmp_state := d\<rparr>"
  have nz: "NULL \<notin> S" using walk_law_NULL [OF assms(1)] by blast
  then have cz: "c \<noteq> NULL" using assms(3) by metis
  have h0: "hsms ?s0 h = Some ?x0" using assms(9) by simp
  have bS: "set bs \<subseteq> S" using chain_states [OF assms(1,6,7)] .
  have db: "distinct bs" using chain_distinct [OF assms(7)] by simp
  let ?es = "takeWhile (\<lambda>b. b \<notin> set (c # as)) bs"
  have es: "set ?es \<subseteq> S" using bS set_takeWhileD by fastforce
  obtain t where col: "collect_new_parents P h [] ?s0 =
      Inr (if c \<in> set bs
           then (takeWhile (\<lambda>b. b \<noteq> c) bs @ [c], int (length (takeWhile (\<lambda>b. b \<noteq> c) bs)))
           else (bs @ [NULL], - 1), set_tmp_state h t ?s0)"
    using collect_new_parents_run [OF assms(1) cz assms(6,7) h0, of "[]"] assms(8,10) by auto
  let ?s1 = "set_tmp_state h t s"
  show ?thesis
  proof (cases "c \<in> set bs")
    case True
    have e: "take (the (index_of c bs)) bs = ?es"
      using common_prefix [OF assms(4,7) True, of "[]" as] by simp
    then have w: "takeWhile (\<lambda>b. b \<noteq> c) bs = ?es" using takeWhile_is_take_index [OF True] by simp
    let ?ps = "?es @ [c]"
    have "transition_state P h d s = enter_new P h ?ps (length ?es) d ?s1"
      using col True by (simp add: transition_state_def enter_new_def w Let_def)
    moreover have "transition_log c as d bs = map (\<lambda>st. (st, HSM_MSG_ID_ENTRY)) (rev (d # ?es))"
      using True by (simp add: transition_log_def left_states_def entered_states_def)
    ultimately show ?thesis
      using enter_new_run [OF assms(2) nz assms(6), of "length ?es" ?ps ?es ?s1] es assms(9,11)
      by (simp add: informs_blind [OF assms(2)])
  next
    case False
    let ?s2 = "set_tmp_state h c s" and ?n = "case find (\<lambda>b. b \<in> set bs) as of
      None \<Rightarrow> length bs | Some t \<Rightarrow> the (index_of t bs)"
    have h2: "hsms ?s2 h = Some (x\<lparr>tmp_state := c\<rparr>)" using assms(9) by simp
    have e: "take ?n bs = ?es \<and> ?n \<le> length bs"
    proof (cases "find (\<lambda>b. b \<in> set bs) as")
      case None
      then have "\<forall>b \<in> set bs. b \<notin> set (c # as)" using False by (auto simp: find_None_iff)
      then have b: "?es = bs" unfolding takeWhile_eq_all_conv .
      show ?thesis unfolding b using None by simp
    next
      case (Some t)
      then obtain us vs where t: "as = us @ t # vs" "t \<in> set bs" "\<forall>u \<in> set us. u \<notin> set bs"
        by (rule find_SomeE)
      have "take (the (index_of t bs)) bs = ?es"
        by (rule common_prefix [OF assms(4,7) t(2), of "c # us" vs]) (use t False in auto)
      moreover have "the (index_of t bs) \<le> length bs"
        using t(2) index_of_None [of t bs] index_of_Some [of t bs] by (cases "index_of t bs") fastforce+
      ultimately show ?thesis using Some by simp
    qed
    let ?l = "map (\<lambda>st. (st, HSM_MSG_ID_EXIT)) (takeWhile (\<lambda>b. b \<notin> set bs) (c # as))"
    have tl: "transition_log c as d bs = ?l @ map (\<lambda>st. (st, HSM_MSG_ID_ENTRY)) (rev (d # ?es))"
      by (simp add: transition_log_def left_states_def entered_states_def)
    obtain s3 where s3: "exit_states P h (bs @ [NULL]) 0 ?s2 =
        Inr (case find (\<lambda>b. b \<in> set bs) as of None \<Rightarrow> - 1 | Some t \<Rightarrow> int (the (index_of t bs)), s3)"
      "told view upd h ?s2 ?l s3"
      using exit_states_run [OF assms(1,2) db assms(3,4) h2, of 0] False assms(5,11) tl
      by (auto simp: informs_blind [OF assms(2)])
    have "transition_state P h d s = enter_new P h (bs @ [NULL]) ?n d s3"
      using col False assms(9,10) s3(1)
      by (auto simp: transition_state_def enter_new_def Let_def read_hsm_run split: option.splits)
    moreover have "\<exists>s'. enter_new P h (bs @ [NULL]) ?n d s3 = Inr ((), s') \<and>
        view s' = fold upd (map (\<lambda>st. (st, HSM_MSG_ID_ENTRY)) (rev (d # ?es))) (view s3) \<and>
        map_option current_state (hsms s' h) = Some d"
      by (rule enter_new_run [OF assms(2) nz assms(6)])
        (use e es s3(2) assms(11) tl in \<open>auto simp: told_def informs_blind [OF assms(2)]\<close>)
    ultimately show ?thesis using s3(2) tl by (auto simp: told_def informs_blind [OF assms(2)])
  qed
qed

lemma transition_logged:
  assumes "walk_law P h par S" and "notify_law P h par S log cap"
    and "c \<in> S" and "chain par c as" and "length as < CONFIG_HSM_MAX_NESTED_STATES P"
    and "d \<in> S" and "chain par d bs" and "length bs < CONFIG_HSM_MAX_NESTED_STATES P"
    and "hsms s h = Some x" and "current_state x = c"
    and "length (log (app s)) + length (transition_log c as d bs) \<le> cap"
  shows "\<exists>s'. transition_state P h d s = Inr ((), s') \<and>
    log (app s') = log (app s) @ transition_log c as d bs \<and>
    map_option current_state (hsms s' h) = Some d"
  using transition_state_run [OF assms(1) notify_informs [OF assms(2)] assms(3-10) log_views(2) [OF assms(11)]]
  by (simp add: log_views(1))

section \<open>Handling a message\<close>

text \<open>What the loop of \<open>msg_handler\<close> comes to: the states of the chain are asked one after
  the other, until one does not pass the message on to its parent.\<close>

fun ask_states ::
  "('k, 'u) platform \<Rightarrow> hsm_state_fn list \<Rightarrow> ptr \<Rightarrow> uint16 \<Rightarrow> ptr \<Rightarrow> (('k, 'u) memory, hsm_ret) prog" where
  "ask_states P [] h i m = ret HSM_RET_PARENT"
| "ask_states P (st # sts) h i m =
     bindM (state_fn P st h i m) (\<lambda>r. if r = HSM_RET_PARENT then ask_states P sts h i m else ret r)"

text \<open>A state that returns from a message has left \<open>current_state\<close> alone, has named its
  parent if it did not handle the message, and one of the states if it asks for a transition.
  \<open>I\<close> is an invariant of the application's data, such as that messages carry states.\<close>

definition dispatch_law ::
  "('k, 'u) platform \<Rightarrow> ptr \<Rightarrow> (hsm_state_fn \<Rightarrow> hsm_state_fn option) \<Rightarrow> hsm_state_fn set \<Rightarrow>
   ('u \<Rightarrow> bool) \<Rightarrow> uint16 \<Rightarrow> ptr \<Rightarrow> bool" where
  "dispatch_law P h par S I i m \<longleftrightarrow> (\<forall>st \<in> S. \<forall>s r s' x.
     hsms s h = Some x \<and> I (app s) \<and> state_fn P st h i m s = Inr (r, s') \<longrightarrow>
     (\<exists>x'. hsms s' h = Some x' \<and> current_state x' = current_state x \<and> I (app s') \<and>
        (r = HSM_RET_PARENT \<longrightarrow> par st = Some (tmp_state x')) \<and>
        (r = HSM_RET_TRANSITION \<longrightarrow> tmp_state x' \<in> S)))"

lemma dispatch_run:
  assumes "walk_law P h par S" and "dispatch_law P h par S I i m"
  shows "st \<in> S \<Longrightarrow> chain par st as \<Longrightarrow> hsms s h = Some x \<Longrightarrow> tmp_state x = st \<Longrightarrow> length as < n \<Longrightarrow>
    I (app s) \<Longrightarrow> dispatch n P h i m s = ask_states P (st # as) h i m s \<and>
    (\<forall>r s'. ask_states P (st # as) h i m s = Inr (r, s') \<longrightarrow> (\<exists>x'. hsms s' h = Some x' \<and>
       current_state x' = current_state x \<and> r \<noteq> HSM_RET_PARENT \<and>
       (r = HSM_RET_TRANSITION \<longrightarrow> tmp_state x' \<in> S)))"
proof (induction as arbitrary: st n s x)
  case Nil
  obtain k where k: "n = Suc k" using Nil(5) by (cases n) auto
  have d: "state_fn P st h i m s = Inr (r, s') \<Longrightarrow> \<exists>x'. hsms s' h = Some x' \<and>
      current_state x' = current_state x \<and> r \<noteq> HSM_RET_PARENT \<and>
      (r = HSM_RET_TRANSITION \<longrightarrow> tmp_state x' \<in> S)" for r s'
    using assms(2) [unfolded dispatch_law_def, rule_format, OF Nil(1), of s x r s'] Nil(2,3,6) by auto
  then show ?case
    using Nil(3,4) walk_law_NULL [OF assms(1) Nil(1)]
    by (cases "state_fn P st h i m s") (fastforce simp: k read_hsm_run call_state_def)+
next
  case (Cons p as)
  obtain k where k: "n = Suc k" "length as < k" using Cons.prems(5) by (cases n) auto
  have c: "par st = Some p" "chain par p as" using Cons.prems(2) by simp_all
  have nz: "st \<noteq> NULL" and pS: "p \<in> S"
    using walk_law_NULL [OF assms(1) Cons.prems(1)] walk_law_par [OF assms(1) Cons.prems(1) c(1)] by blast+
  show ?case
  proof (cases "state_fn P st h i m s")
    case (Inl e)
    then show ?thesis using Cons.prems(3,4) nz by (simp add: k read_hsm_run call_state_def)
  next
    case (Inr q)
    obtain r s1 where q: "q = (r, s1)" by (cases q)
    obtain x1 where x1: "hsms s1 h = Some x1" "current_state x1 = current_state x"
      "r = HSM_RET_PARENT \<longrightarrow> par st = Some (tmp_state x1)" "r = HSM_RET_TRANSITION \<longrightarrow> tmp_state x1 \<in> S"
      "I (app s1)"
      using assms(2) [unfolded dispatch_law_def, rule_format, OF Cons.prems(1), of s x r s1]
        Cons.prems(3,6) Inr q by auto
    show ?thesis
    proof (cases "r = HSM_RET_PARENT")
      case True
      then have "tmp_state x1 = p" using x1(3) c(1) by simp
      from Cons.IH [OF pS c(2) x1(1) this k(2) x1(5)] show ?thesis
        using Inr q True Cons.prems(3,4) nz x1(2) by (simp add: k read_hsm_run call_state_def)
    next
      case False
      then show ?thesis
        using Inr q Cons.prems(3,4) nz x1 by (simp add: k read_hsm_run call_state_def)
    qed
  qed
qed

section \<open>Active states\<close>

text \<open>The states that have been entered and not yet left, innermost first, after a log of ENTRY
  and EXIT messages; only the innermost state may be left.\<close>

fun active_states :: "(hsm_state_fn \<times> uint16) list \<Rightarrow> hsm_state_fn list \<Rightarrow> hsm_state_fn list option" where
  "active_states [] sts = Some sts"
| "active_states ((st, i) # es) sts =
     (if i = HSM_MSG_ID_ENTRY then active_states es (st # sts)
      else if i = HSM_MSG_ID_EXIT then
        (case sts of [] \<Rightarrow> None | t # ts \<Rightarrow> if t = st then active_states es ts else None)
      else active_states es sts)"

lemma exit_not_entry [simp]: "HSM_MSG_ID_EXIT \<noteq> HSM_MSG_ID_ENTRY" "HSM_MSG_ID_EXIT \<noteq> HSM_MSG_ID_WALK"
  "HSM_MSG_ID_ENTRY \<noteq> HSM_MSG_ID_WALK"
  by (simp_all add: hsm_msg_id_defs)

lemma active_states_append:
  "active_states (es @ fs) sts = (case active_states es sts of None \<Rightarrow> None | Some ts \<Rightarrow> active_states fs ts)"
  by (induction es sts rule: active_states.induct) (auto split: list.splits)

lemma active_states_entries:
  "active_states (map (\<lambda>st. (st, HSM_MSG_ID_ENTRY)) xs) sts = Some (rev xs @ sts)"
  by (induction xs arbitrary: sts) auto

lemma active_states_exits:
  "active_states (map (\<lambda>st. (st, HSM_MSG_ID_EXIT)) xs) (xs @ sts) = Some sts"
  by (induction xs) auto

lemma transition_parts:
  assumes "chain par c as" and "chain par d bs"
  shows "\<exists>cs. c # as = left_states c as bs @ cs \<and> d # bs = rev (entered_states c as d bs) @ cs"
proof (cases "find (\<lambda>a. a \<in> set bs) (c # as)")
  case None
  then have n: "\<forall>a \<in> set (c # as). a \<notin> set bs" unfolding find_None_iff by blast
  then have l: "left_states c as bs = c # as"
    unfolding left_states_def takeWhile_eq_all_conv by blast
  have b: "takeWhile (\<lambda>b. b \<notin> set (c # as)) bs = bs"
    unfolding takeWhile_eq_all_conv using n by blast
  show ?thesis unfolding entered_states_def l b by (intro exI [of _ "[]"]) simp
next
  case (Some t)
  then obtain us vs where t: "c # as = us @ t # vs" "t \<in> set bs" "\<forall>u \<in> set us. u \<notin> set bs"
    by (rule find_SomeE)
  then obtain xs ys where b: "bs = xs @ t # ys" by (meson split_list)
  have w: "takeWhile (\<lambda>b. b \<notin> set (c # as)) bs = xs"
    using chains_before_common [of par c as d xs t ys us vs] assms t b by auto
  have l: "left_states c as bs = us"
    using t unfolding left_states_def t(1) by (auto simp: takeWhile_append)
  have "chain par t vs" using assms(1) t(1) chain_suffix by (cases us) auto
  moreover have "chain par t ys" using assms(2) b chain_suffix by metis
  ultimately have "vs = ys" by (rule chain_unique)
  then show ?thesis
    unfolding entered_states_def w l using t(1) b by (intro exI [of _ "t # vs"]) simp
qed

lemma transition_log_active:
  assumes "chain par c as" and "chain par d bs"
  shows "active_states (transition_log c as d bs) (c # as) = Some (d # bs)"
proof -
  obtain cs where cs: "c # as = left_states c as bs @ cs" "d # bs = rev (entered_states c as d bs) @ cs"
    using transition_parts [OF assms] by blast
  show ?thesis
    unfolding transition_log_def active_states_append cs(1)
    by (simp add: active_states_exits active_states_entries cs(2))
qed

lemma hsm_start_run:
  assumes "walk_law P h par S" and "informs P h par S view upd ok" and "c \<in> S" and "chain par c as"
    and "h \<noteq> NULL" and "hsms s h = Some x" and "current_state x = c"
    and "0 < CONFIG_HSM_MAX_NESTED_STATES P" and "es = map (\<lambda>st. (st, HSM_MSG_ID_ENTRY)) (rev (c # take (CONFIG_HSM_MAX_NESTED_STATES P - 1) as))"
    and "all_ok upd ok es (view s)"
  shows "\<exists>s'. hsm_start P h s = Inr ((), s') \<and>
    view s' = fold upd es (view s) \<and>
    map_option current_state (hsms s' h) = Some c"
proof -
  let ?M = "CONFIG_HSM_MAX_NESTED_STATES P" and ?s0 = "set_tmp_state h c s"
  let ?es = "take (?M - 1) as" and ?ps = "take ?M (as @ [NULL])"
  have nz: "NULL \<notin> S" using walk_law_NULL [OF assms(1)] by blast
  then have cz: "c \<noteq> NULL" using assms(3) by metis
  have h0: "hsms ?s0 h = Some (x\<lparr>tmp_state := c\<rparr>)" using assms(6) by simp
  obtain t where col: "collect_parents P h [] ?s0 = Inr (?ps, set_tmp_state h t s)"
    using collect_parents_run [OF assms(1,3,4) h0, of "[]"] assms(8) by auto
  have e: "take (length ?ps - 1) ?ps = ?es"
    using assms(8) by (cases "?M \<le> length as") (simp_all add: min_def)
  have eS: "set ?es \<subseteq> S" using chain_states [OF assms(1,3,4)] set_take_subset by fastforce
  have lc: "all_ok upd ok (map (\<lambda>st. (st, HSM_MSG_ID_ENTRY)) (rev ?es)) (view (set_tmp_state h t s))"
    using assms(2,9,10) by simp
  obtain s1 where s1: "enter_parents P h ?ps (length ?ps - 1) (set_tmp_state h t s) = Inr ((), s1)"
    "told view upd h (set_tmp_state h t s) (map (\<lambda>st. (st, HSM_MSG_ID_ENTRY)) (rev ?es)) s1"
    using enter_parents_run [OF assms(2) nz, of "length ?ps - 1" ?ps "set_tmp_state h t s"] eS assms(6) lc
    unfolding e by auto
  obtain x1 where x1: "hsms s1 h = Some x1" "current_state x1 = c"
    using s1(2) assms(6,7) by (auto simp: told_def)
  have "ok (c, HSM_MSG_ID_ENTRY) (view s1)" using s1(2) assms(2,9,10) by (simp add: told_def)
  then obtain r s2 where s2: "call_state P c h HSM_MSG_ID_ENTRY NULL s1 = Inr (r, s2)"
    "told view upd h s1 [(c, HSM_MSG_ID_ENTRY)] s2"
    using notify_run [OF assms(2,3) cz x1(1)] by blast
  have "hsm_start P h s = Inr ((), s2)"
    using col s1(1) x1 s2(1) assms(5-7) cz by (simp add: hsm_start_def read_hsm_run del: length_take)
  moreover have "told view upd h (set_tmp_state h t s)
      (map (\<lambda>st. (st, HSM_MSG_ID_ENTRY)) (rev ?es) @ [(c, HSM_MSG_ID_ENTRY)]) s2"
    using told_trans [OF s1(2) s2(2)] .
  ultimately show ?thesis using assms(2,6,7,9) by (auto simp: told_def)
qed

lemma hsm_start_logged:
  assumes "walk_law P h par S" and "notify_law P h par S log cap" and "c \<in> S" and "chain par c as"
    and "h \<noteq> NULL" and "hsms s h = Some x" and "current_state x = c"
    and "0 < CONFIG_HSM_MAX_NESTED_STATES P" and "length (log (app s)) + Suc (length as) \<le> cap"
  shows "\<exists>s'. hsm_start P h s = Inr ((), s') \<and>
    log (app s') = log (app s) @ map (\<lambda>st. (st, HSM_MSG_ID_ENTRY))
      (rev (c # take (CONFIG_HSM_MAX_NESTED_STATES P - 1) as)) \<and>
    map_option current_state (hsms s' h) = Some c"
  using hsm_start_run [OF assms(1) notify_informs [OF assms(2)] assms(3-8) refl log_views(2)] assms(9)
  by (simp add: log_views(1))

text \<open>A sequence of transitions, from a state to the next: what the states log, and which are active.\<close>

fun transitions_log ::
  "(hsm_state_fn \<Rightarrow> hsm_state_fn list) \<Rightarrow> hsm_state_fn \<Rightarrow> hsm_state_fn list \<Rightarrow> (hsm_state_fn \<times> uint16) list" where
  "transitions_log up c [] = []"
| "transitions_log up c (d # ds) = transition_log c (up c) d (up d) @ transitions_log up d ds"

lemma transitions_active:
  assumes "walk_law P h par S" and "notify_law P h par S log cap"
  shows "\<forall>d \<in> set (c # ds). d \<in> S \<and> chain par d (up d) \<and> length (up d) < CONFIG_HSM_MAX_NESTED_STATES P \<Longrightarrow>
    map_option current_state (hsms s h) = Some c \<Longrightarrow> active_states (log (app s)) [] = Some (c # up c) \<Longrightarrow>
    length (log (app s)) + length (transitions_log up c ds) \<le> cap \<Longrightarrow>
    \<exists>s'. run_all (map (transition_state P h) ds) s = Inr ((), s') \<and>
      active_states (log (app s')) [] = Some (last (c # ds) # up (last (c # ds))) \<and>
      map_option current_state (hsms s' h) = Some (last (c # ds))"
proof (induction ds arbitrary: c s)
  case Nil
  then show ?case by simp
next
  case (Cons d ds)
  obtain x where x: "hsms s h = Some x" "current_state x = c" using Cons.prems(2) by auto
  have u: "c \<in> S" "chain par c (up c)" "length (up c) < CONFIG_HSM_MAX_NESTED_STATES P"
    "d \<in> S" "chain par d (up d)" "length (up d) < CONFIG_HSM_MAX_NESTED_STATES P"
    using Cons.prems(1) by simp_all
  obtain s1 where s1: "transition_state P h d s = Inr ((), s1)"
    "log (app s1) = log (app s) @ transition_log c (up c) d (up d)" "map_option current_state (hsms s1 h) = Some d"
    using transition_logged [OF assms u x] Cons.prems(4) by auto
  have "active_states (log (app s1)) [] = Some (d # up d)"
    unfolding s1(2) active_states_append Cons.prems(3) using transition_log_active [OF u(2,5)] by simp
  then show ?case using Cons.IH [of d s1] Cons.prems(1,4) s1 by simp
qed

section \<open>Properties\<close>

text \<open>C26. Starting a machine sends ENTRY to the ancestors of its state, the outermost first, and
  then to the state itself, each once, and changes the state of the machine not at all. When
  the state has more ancestors than fit into the array of parents, the innermost ones that fit
  are entered, and nothing is written past the array.\<close>

theorem hsm_start_entries:
  assumes "walk_law P h par S" and "notify_law P h par S log cap" and "c \<in> S" and "chain par c as"
    and "h \<noteq> NULL" and "hsms s h = Some x" and "current_state x = c"
    and "0 < CONFIG_HSM_MAX_NESTED_STATES P" and "length (log (app s)) + Suc (length as) \<le> cap"
  shows "\<exists>s'. hsm_start P h s = Inr ((), s') \<and>
    log (app s') = log (app s) @ map (\<lambda>st. (st, HSM_MSG_ID_ENTRY))
      (rev (c # take (CONFIG_HSM_MAX_NESTED_STATES P - 1) as)) \<and>
    map_option current_state (hsms s' h) = Some c"
  using assms by (rule hsm_start_logged)

text \<open>C16. A transition from a state to another one sends EXIT to the states that are left, from the
  innermost outwards (the current state and its ancestors up to the first that is also an
  ancestor of the new state), then ENTRY to the states that are entered, from the outermost
  inwards and ending with the new state; each gets its message once, the common ancestors get
  none, and the new state becomes the current one.\<close>

theorem hsm_transition_order:
  assumes "walk_law P h par S" and "notify_law P h par S log cap"
    and "c \<in> S" and "chain par c as" and "length as < CONFIG_HSM_MAX_NESTED_STATES P"
    and "d \<in> S" and "chain par d bs" and "length bs < CONFIG_HSM_MAX_NESTED_STATES P"
    and "hsms s h = Some x" and "current_state x = c"
    and "length (log (app s)) + length (transition_log c as d bs) \<le> cap"
  shows "\<exists>s'. transition_state P h d s = Inr ((), s') \<and>
    log (app s') = log (app s) @
      map (\<lambda>st. (st, HSM_MSG_ID_EXIT)) (takeWhile (\<lambda>a. a \<notin> set bs) (c # as)) @
      map (\<lambda>st. (st, HSM_MSG_ID_ENTRY)) (rev (d # takeWhile (\<lambda>b. b \<notin> set (c # as)) bs)) \<and>
    map_option current_state (hsms s' h) = Some d"
  using transition_logged [OF assms]
  by (simp only: transition_log_def left_states_def entered_states_def)

text \<open>C23. The states that have been entered and not yet left are always the current state and its
  ancestors: this holds after the machine has been started, and after any sequence of transitions from there,
  in which only the innermost active state is ever left. \<open>up d\<close> are the ancestors of the state \<open>d\<close>.\<close>

theorem hsm_active_states:
  assumes "walk_law P h par S" and "notify_law P h par S log cap"
    and "\<forall>d \<in> set (c # ds). d \<in> S \<and> chain par d (up d) \<and> length (up d) < CONFIG_HSM_MAX_NESTED_STATES P"
    and "h \<noteq> NULL" and "hsms s h = Some x" and "current_state x = c" and "log (app s) = []"
    and "Suc (length (up c)) + length (transitions_log up c ds) \<le> cap"
  shows "\<exists>s'. run_all (hsm_start P h # map (transition_state P h) ds) s = Inr ((), s') \<and>
    active_states (log (app s')) [] = Some (last (c # ds) # up (last (c # ds))) \<and>
    map_option current_state (hsms s' h) = Some (last (c # ds))"
proof -
  have u: "c \<in> S" "chain par c (up c)" "length (up c) < CONFIG_HSM_MAX_NESTED_STATES P" using assms(3) by simp_all
  have m: "0 < CONFIG_HSM_MAX_NESTED_STATES P" using u(3) by simp
  have t: "take (CONFIG_HSM_MAX_NESTED_STATES P - 1) (up c) = up c" using u(3) by simp
  obtain s1 where s1: "hsm_start P h s = Inr ((), s1)"
    "log (app s1) = map (\<lambda>st. (st, HSM_MSG_ID_ENTRY)) (rev (c # up c))"
    "map_option current_state (hsms s1 h) = Some c"
    using hsm_start_logged [OF assms(1,2) u(1,2) assms(4-6) m, unfolded t] assms(7,8) by auto
  have "active_states (log (app s1)) [] = Some (c # up c)"
    unfolding s1(2) active_states_entries by simp
  moreover have "length (log (app s1)) + length (transitions_log up c ds) \<le> cap"
    using assms(8) by (simp add: s1(2))
  ultimately obtain s' where "run_all (map (transition_state P h) ds) s1 = Inr ((), s')"
    "active_states (log (app s')) [] = Some (last (c # ds) # up (last (c # ds)))"
    "map_option current_state (hsms s' h) = Some (last (c # ds))"
    using transitions_active [OF assms(1-3) s1(3)] by blast
  then show ?thesis using s1(1) by simp
qed

text \<open>Handling a message asks the current state and, as long as they pass it on, its ancestors
  one after the other. If the last one asked requests a transition to a state other than the
  current one, the machine goes there as described by the logs of EXIT and ENTRY messages;
  otherwise (consumed, not handled by any state, or a transition to the current state itself)
  the machine stays in its state and no EXIT or ENTRY is sent. A failure of a state is passed
  on. The loop comes to its end when the fuel exceeds the number of ancestors.\<close>

lemma hsm_message:
  assumes "walk_law P h par S" and "notify_law P h par S log cap" and "dispatch_law P h par S I i m"
    and "c \<in> S" and "chain par c as" and "length as < fuel P"
    and "length as < CONFIG_HSM_MAX_NESTED_STATES P"
    and "\<forall>d \<in> S. \<exists>bs. chain par d bs \<and> length bs < CONFIG_HSM_MAX_NESTED_STATES P"
    and "hsms s h = Some x" and "current_state x = c" and "I (app s)"
  shows "case ask_states P (c # as) h i m (set_tmp_state h c s) of
      Inl e \<Rightarrow> hsm_msg_handler P i m h s = Inl e
    | Inr (r, s1) \<Rightarrow> \<exists>x1. hsms s1 h = Some x1 \<and> current_state x1 = c \<and> r \<noteq> HSM_RET_PARENT \<and>
        (if r = HSM_RET_TRANSITION \<and> tmp_state x1 \<noteq> c then
           \<forall>bs. chain par (tmp_state x1) bs \<and>
             length (log (app s1)) + length (transition_log c as (tmp_state x1) bs) \<le> cap \<longrightarrow>
             (\<exists>s'. hsm_msg_handler P i m h s = Inr ((), s') \<and>
                log (app s') = log (app s1) @ transition_log c as (tmp_state x1) bs \<and>
                map_option current_state (hsms s' h) = Some (tmp_state x1))
         else hsm_msg_handler P i m h s = Inr ((), s1))"
proof -
  let ?s0 = "set_tmp_state h c s" and ?q = "ask_states P (c # as) h i m (set_tmp_state h c s)"
  have h0: "hsms ?s0 h = Some (x\<lparr>tmp_state := c\<rparr>)" using assms(9) by simp
  have d: "dispatch (fuel P) P h i m ?s0 = ?q"
    and post: "\<And>r s1. ?q = Inr (r, s1) \<Longrightarrow> \<exists>x1. hsms s1 h = Some x1 \<and> current_state x1 = c \<and>
      r \<noteq> HSM_RET_PARENT \<and> (r = HSM_RET_TRANSITION \<longrightarrow> tmp_state x1 \<in> S)"
    using dispatch_run [OF assms(1,3,4,5) h0 _ assms(6)] assms(10,11) by auto
  have hd: "hsm_msg_handler P i m h s = (case ?q of Inl e \<Rightarrow> Inl e | Inr q \<Rightarrow>
      bindM (read_hsm h) (\<lambda>y.
        if fst q = HSM_RET_TRANSITION \<and> tmp_state y \<noteq> current_state y then
          thenM (z_assert P (tmp_state y \<noteq> NULL)) (transition_state P h (tmp_state y))
        else ret ()) (snd q))"
    using assms(9,10) d by (simp add: hsm_msg_handler_def read_hsm_run)
  show ?thesis
  proof (cases ?q)
    case (Inl e)
    then show ?thesis by (simp add: hd del: ask_states.simps)
  next
    case (Inr q)
    obtain r s1 where q: "q = (r, s1)" by (cases q)
    obtain x1 where x1: "hsms s1 h = Some x1" "current_state x1 = c" "r \<noteq> HSM_RET_PARENT"
      "r = HSM_RET_TRANSITION \<longrightarrow> tmp_state x1 \<in> S"
      using post Inr q by blast
    show ?thesis
    proof (cases "r = HSM_RET_TRANSITION \<and> tmp_state x1 \<noteq> c")
      case True
      let ?d = "tmp_state x1"
      have dS: "?d \<in> S" and dz: "?d \<noteq> NULL" using True x1(4) walk_law_NULL [OF assms(1)] by blast+
      have t: "hsm_msg_handler P i m h s = transition_state P h ?d s1"
        using True Inr q x1(1,2) dz by (simp add: hd read_hsm_run del: ask_states.simps)
      have "\<exists>s'. transition_state P h ?d s1 = Inr ((), s') \<and>
          log (app s') = log (app s1) @ transition_log c as ?d bs \<and>
          map_option current_state (hsms s' h) = Some ?d"
        if b: "chain par ?d bs" "length (log (app s1)) + length (transition_log c as ?d bs) \<le> cap" for bs
      proof -
        have "length bs < CONFIG_HSM_MAX_NESTED_STATES P" using assms(8) dS b(1) chain_unique by blast
        then show ?thesis
          using transition_logged [OF assms(1,2,4,5,7) dS b(1) _ x1(1,2) b(2)] by blast
      qed
      then show ?thesis using Inr q x1 True t by (simp del: ask_states.simps)
    next
      case False
      then have "hsm_msg_handler P i m h s = Inr ((), s1)"
        using Inr q x1(1,2) by (auto simp: hd read_hsm_run simp del: ask_states.simps)
      then show ?thesis using Inr q x1 False by (auto simp del: ask_states.simps)
    qed
  qed
qed

text \<open>C40. The loop of the message handler has no bound of its own: when the current state does not
  handle a message and names itself as its parent, as the state of the test for the maximum
  depth does, the handler never returns, however long it runs.\<close>

theorem hsm_own_parent_diverges:
  assumes "\<forall>s. hsms s h \<noteq> None \<longrightarrow> state_fn P c h i m s = HSM_PARENT h c s"
    and "c \<noteq> NULL" and "hsms s h = Some x" and "current_state x = c"
  shows "hsm_msg_handler (P\<lparr>fuel := n\<rparr>) i m h s = Inl Out_of_fuel"
proof -
  have "dispatch k (P\<lparr>fuel := n\<rparr>) h i m (set_tmp_state h c s) = Inl Out_of_fuel" for k
    using assms by (induction k) (simp_all add: read_hsm_run call_state_def HSM_PARENT_def)
  then show ?thesis
    using assms(3,4) by (simp add: hsm_msg_handler_def read_hsm_run)
qed

end
