(* ===== verification/HsmMachine.thy ===== *)
theory HsmMachine imports Hsm begin

text \<open>
  What a hierarchical state machine means, without the framework: a state answers a message that it has
  handled it, that its parent shall see it, or that the machine shall go to another state. The
  message handler and the start of the framework are shown to compute the moves of this machine, for
  any application whose states return with the macros of \<open>hsm.h\<close>.
\<close>

section \<open>The reference machine\<close>

datatype answer = Done | Up | Go_to hsm_state_fn

text \<open>How a state answers a message and what it does to the application's data; \<open>None\<close> where the
  behaviour is not defined.\<close>

type_synonym 'u behaviour = "hsm_state_fn \<Rightarrow> uint16 \<Rightarrow> ptr \<Rightarrow> 'u \<Rightarrow> ('u \<times> answer) option"

text \<open>A message is offered to the states of a list, until one does not pass it on.\<close>

fun offer :: "'u behaviour \<Rightarrow> hsm_state_fn list \<Rightarrow> uint16 \<Rightarrow> ptr \<Rightarrow> 'u \<Rightarrow> ('u \<times> answer) option" where
  "offer beh [] i m a = Some (a, Up)"
| "offer beh (st # sts) i m a =
     (case beh st i m a of
        None \<Rightarrow> None
      | Some (a', r) \<Rightarrow> if r = Up then offer beh sts i m a' else Some (a', r))"

text \<open>ENTRY and EXIT messages; the answers do not matter.\<close>

fun inform :: "'u behaviour \<Rightarrow> (hsm_state_fn \<times> uint16) list \<Rightarrow> 'u \<Rightarrow> 'u option" where
  "inform beh [] a = Some a"
| "inform beh ((st, i) # es) a =
     (case beh st i NULL a of None \<Rightarrow> None | Some (a', r) \<Rightarrow> inform beh es a')"

text \<open>One message: the machine in state \<open>c\<close>, with the data \<open>a\<close>; \<open>up\<close> gives the ancestors of a state.\<close>

definition machine_step ::
  "'u behaviour \<Rightarrow> (hsm_state_fn \<Rightarrow> hsm_state_fn list) \<Rightarrow> uint16 \<Rightarrow> ptr \<Rightarrow>
   hsm_state_fn \<times> 'u \<Rightarrow> (hsm_state_fn \<times> 'u) option" where
  "machine_step beh up i m = (\<lambda>(c, a).
     case offer beh (c # up c) i m a of
       None \<Rightarrow> None
     | Some (a', Go_to d) \<Rightarrow>
         if d = c then Some (c, a')
         else map_option (\<lambda>a''. (d, a'')) (inform beh (transition_log c (up c) d (up d)) a')
     | Some (a', _) \<Rightarrow> Some (c, a'))"

fun machine_run ::
  "'u behaviour \<Rightarrow> (hsm_state_fn \<Rightarrow> hsm_state_fn list) \<Rightarrow> (uint16 \<times> ptr) list \<Rightarrow>
   hsm_state_fn \<times> 'u \<Rightarrow> (hsm_state_fn \<times> 'u) option" where
  "machine_run beh up [] q = Some q"
| "machine_run beh up ((i, m) # ims) q = Option.bind (machine_step beh up i m q) (machine_run beh up ims)"

definition machine_start ::
  "'u behaviour \<Rightarrow> (hsm_state_fn \<Rightarrow> hsm_state_fn list) \<Rightarrow> hsm_state_fn \<Rightarrow> 'u \<Rightarrow> 'u option" where
  "machine_start beh up c = inform beh (map (\<lambda>st. (st, HSM_MSG_ID_ENTRY)) (rev (c # up c)))"

section \<open>States that behave\<close>

text \<open>The macro that a state returns with.\<close>

fun do_answer ::
  "ptr \<Rightarrow> (hsm_state_fn \<Rightarrow> hsm_state_fn option) \<Rightarrow> hsm_state_fn \<Rightarrow> answer \<Rightarrow> (('k, 'u) memory, hsm_ret) prog" where
  "do_answer h par st Done = HSM_CONSUMED"
| "do_answer h par st Up = (case par st of None \<Rightarrow> HSM_TOP_STATE h | Some p \<Rightarrow> HSM_PARENT h p)"
| "do_answer h par st (Go_to d) = HSM_TRANSITION h d"

text \<open>The states change the application's data only, as \<open>beh\<close> says; EXIT does not lead to a transition.\<close>

definition behaves ::
  "('k, 'u) platform \<Rightarrow> ptr \<Rightarrow> (hsm_state_fn \<Rightarrow> hsm_state_fn option) \<Rightarrow> hsm_state_fn set \<Rightarrow> 'u behaviour \<Rightarrow> bool" where
  "behaves P h par S beh \<longleftrightarrow> (\<forall>st \<in> S. \<forall>i m s a r.
     i \<noteq> HSM_MSG_ID_WALK \<and> hsms s h \<noteq> None \<and> beh st i m (app s) = Some (a, r) \<longrightarrow>
     state_fn P st h i m s = do_answer h par st r (s\<lparr>app := a\<rparr>) \<and>
     (\<forall>d. r = Go_to d \<longrightarrow> d \<in> S \<and> i \<noteq> HSM_MSG_ID_EXIT))"

text \<open>The states, their ancestors, and what the framework needs of them.\<close>

definition machine_ok ::
  "('k, 'u) platform \<Rightarrow> ptr \<Rightarrow> (hsm_state_fn \<Rightarrow> hsm_state_fn option) \<Rightarrow> hsm_state_fn set \<Rightarrow>
   (hsm_state_fn \<Rightarrow> hsm_state_fn list) \<Rightarrow> 'u behaviour \<Rightarrow> bool" where
  "machine_ok P h par S up beh \<longleftrightarrow> walk_law P h par S \<and> behaves P h par S beh \<and>
     (\<forall>d \<in> S. chain par d (up d) \<and> length (up d) < CONFIG_HSM_MAX_NESTED_STATES P \<and> length (up d) < fuel P)"

text \<open>Only the application's data and the machine itself change.\<close>

definition moved :: "ptr \<Rightarrow> hsm \<Rightarrow> 'u \<Rightarrow> ('k, 'u) memory \<Rightarrow> ('k, 'u) memory" where
  "moved h y a s = s\<lparr>app := a, hsms := (hsms s)(h \<mapsto> y)\<rparr>"

lemma moved_sel [simp]: "hsms (moved h y a s) = (hsms s)(h \<mapsto> y)" "app (moved h y a s) = a"
  by (simp_all add: moved_def)

lemma moved_moved [simp]: "moved h y a (moved h z b s) = moved h y a s"
  by (simp add: moved_def)

lemma moved_same: "hsms s h = Some x \<Longrightarrow> moved h x (app s) s = s"
  by (simp add: moved_def fun_upd_idem)

lemma set_tmp_state_moved:
  "hsms s h = Some x \<Longrightarrow> set_tmp_state h t (s\<lparr>app := a\<rparr>) = moved h (x\<lparr>tmp_state := t\<rparr>) a s"
  by (simp add: moved_def set_tmp_state_def)

lemma do_answer_run:
  assumes "hsms s h = Some x"
  shows "\<exists>q y. do_answer h par st r (s\<lparr>app := a\<rparr>) = Inr (q, moved h y a s) \<and> current_state y = current_state x \<and>
    (case r of
       Done \<Rightarrow> q = HSM_RET_CONSUMED \<and> y = x
     | Up \<Rightarrow> (case par st of None \<Rightarrow> q = HSM_RET_TOP_STATE | Some p \<Rightarrow> q = HSM_RET_PARENT \<and> tmp_state y = p)
     | Go_to d \<Rightarrow> q = HSM_RET_TRANSITION \<and> tmp_state y = d)"
proof (cases r)
  case Done
  have "moved h x a s = s\<lparr>app := a\<rparr>" using assms by (simp add: moved_def fun_upd_idem)
  then show ?thesis using Done by (simp add: HSM_CONSUMED_def)
next
  case Up
  then show ?thesis
    using set_tmp_state_moved [OF assms]
    by (cases "par st") (auto simp: HSM_TOP_STATE_def HSM_PARENT_def)
next
  case (Go_to d)
  then show ?thesis using set_tmp_state_moved [OF assms] by (auto simp: HSM_TRANSITION_def)
qed

lemma behavesD:
  assumes "behaves P h par S beh" and "st \<in> S" and "i \<noteq> HSM_MSG_ID_WALK" and "hsms s h \<noteq> None"
    and "beh st i m (app s) = Some (a, r)"
  shows "state_fn P st h i m s = do_answer h par st r (s\<lparr>app := a\<rparr>)"
    and "r = Go_to d \<Longrightarrow> d \<in> S \<and> i \<noteq> HSM_MSG_ID_EXIT"
  using assms unfolding behaves_def by blast+

section \<open>The message handler\<close>

lemma dispatch_behaves:
  assumes "walk_law P h par S" and "behaves P h par S beh" and "i \<noteq> HSM_MSG_ID_WALK"
  shows "st \<in> S \<Longrightarrow> chain par st as \<Longrightarrow> hsms s h = Some x \<Longrightarrow> tmp_state x = st \<Longrightarrow> length as < n \<Longrightarrow>
    offer beh (st # as) i m (app s) = Some (a', r) \<Longrightarrow>
    \<exists>q y. dispatch n P h i m s = Inr (q, moved h y a' s) \<and> current_state y = current_state x \<and>
      (case r of Go_to d \<Rightarrow> q = HSM_RET_TRANSITION \<and> tmp_state y = d \<and> d \<in> S | _ \<Rightarrow> q \<noteq> HSM_RET_TRANSITION)"
proof (induction as arbitrary: st n s x)
  case Nil
  obtain k where k: "n = Suc k" using Nil.prems(5) by (cases n) auto
  obtain r' where b: "beh st i m (app s) = Some (a', r')" "r = r'"
    using Nil.prems(6) by (auto split: option.splits if_splits)
  have "state_fn P st h i m s = do_answer h par st r (s\<lparr>app := a'\<rparr>)" "\<And>d. r = Go_to d \<Longrightarrow> d \<in> S"
    using behavesD [OF assms(2) Nil.prems(1) assms(3) _ b(1)] Nil.prems(3) b(2) by simp_all
  then show ?case
    using do_answer_run [OF Nil.prems(3), of par st r a'] walk_law_NULL [OF assms(1) Nil.prems(1)] Nil.prems(2-4)
    by (cases r) (auto simp: k read_hsm_run call_state_def)
next
  case (Cons p as)
  obtain k where k: "n = Suc k" "length as < k" using Cons.prems(5) by (cases n) auto
  have c: "par st = Some p" "chain par p as" using Cons.prems(2) by simp_all
  have pS: "p \<in> S" by (rule walk_law_par [OF assms(1) Cons.prems(1) c(1)])
  obtain a1 r1 where b: "beh st i m (app s) = Some (a1, r1)"
    using Cons.prems(6) by (auto split: option.splits)
  have f: "state_fn P st h i m s = do_answer h par st r1 (s\<lparr>app := a1\<rparr>)" "\<And>d. r1 = Go_to d \<Longrightarrow> d \<in> S"
    using behavesD [OF assms(2) Cons.prems(1) assms(3) _ b] Cons.prems(3) by simp_all
  obtain q y where q: "do_answer h par st r1 (s\<lparr>app := a1\<rparr>) = Inr (q, moved h y a1 s)" "current_state y = current_state x"
    "case r1 of Done \<Rightarrow> q = HSM_RET_CONSUMED \<and> y = x
       | Up \<Rightarrow> (case par st of None \<Rightarrow> q = HSM_RET_TOP_STATE | Some p \<Rightarrow> q = HSM_RET_PARENT \<and> tmp_state y = p)
       | Go_to d \<Rightarrow> q = HSM_RET_TRANSITION \<and> tmp_state y = d"
    using do_answer_run [OF Cons.prems(3), of par st r1 a1] by blast
  have call: "call_state P st h i m s = Inr (q, moved h y a1 s)"
    using f(1) q(1) walk_law_NULL [OF assms(1) Cons.prems(1)] by (simp add: call_state_def)
  show ?case
  proof (cases "r1 = Up")
    case True
    then have u: "q = HSM_RET_PARENT" "tmp_state y = p" using q(3) c(1) by simp_all
    have o: "offer beh (p # as) i m (app (moved h y a1 s)) = Some (a', r)" using Cons.prems(6) b True by simp
    obtain q' y' where "dispatch k P h i m (moved h y a1 s) = Inr (q', moved h y' a' (moved h y a1 s))"
      "current_state y' = current_state y"
      "case r of Go_to d \<Rightarrow> q' = HSM_RET_TRANSITION \<and> tmp_state y' = d \<and> d \<in> S | _ \<Rightarrow> q' \<noteq> HSM_RET_TRANSITION"
      using Cons.IH [OF pS c(2) _ u(2) k(2) o] by auto
    then show ?thesis
      using call u q(2) walk_law_NULL [OF assms(1) Cons.prems(1)] Cons.prems(3,4)
      by (intro exI [of _ q'] exI [of _ y']) (simp add: k read_hsm_run)
  next
    case False
    then have "a1 = a'" "r1 = r" using Cons.prems(6) b by simp_all
    then show ?thesis
      using call q(2,3) False f(2) walk_law_NULL [OF assms(1) Cons.prems(1)] Cons.prems(3,4)
      by (intro exI [of _ q] exI [of _ y]) (cases r, auto simp: k read_hsm_run)
  qed
qed

text \<open>What is seen of the state without the machine, and what ENTRY and EXIT messages do to it.\<close>

definition without_hsm :: "ptr \<Rightarrow> ('k, 'u) memory \<Rightarrow> ('k, 'u) memory" where
  "without_hsm h s = s\<lparr>hsms := (hsms s)(h := None)\<rparr>"

definition take_notice :: "'u behaviour \<Rightarrow> hsm_state_fn \<times> uint16 \<Rightarrow> ('k, 'u) memory \<Rightarrow> ('k, 'u) memory" where
  "take_notice beh e v = v\<lparr>app := fst (the (beh (fst e) (snd e) NULL (app v)))\<rparr>"

definition can_notice :: "'u behaviour \<Rightarrow> hsm_state_fn \<times> uint16 \<Rightarrow> ('k, 'u) memory \<Rightarrow> bool" where
  "can_notice beh e v \<longleftrightarrow> beh (fst e) (snd e) NULL (app v) \<noteq> None"

lemma behaves_informs:
  assumes "behaves P h par S beh"
  shows "informs P h par S (without_hsm h) (take_notice beh) (can_notice beh)"
proof -
  have "\<exists>q s' y. state_fn P st h i NULL s = Inr (q, s') \<and> hsms s' h = Some y \<and> current_state y = current_state x \<and>
      without_hsm h s' = take_notice beh (st, i) (without_hsm h s) \<and>
      (i = HSM_MSG_ID_EXIT \<longrightarrow> q = HSM_RET_CONSUMED \<and> tmp_state y = tmp_state x \<or>
         q = HSM_RET_PARENT \<and> par st = Some (tmp_state y) \<or> q = HSM_RET_TOP_STATE \<and> par st = None)"
    if p: "st \<in> S" "i \<in> {HSM_MSG_ID_ENTRY, HSM_MSG_ID_EXIT}" "hsms s h = Some x" "can_notice beh (st, i) (without_hsm h s)"
    for st i s x
  proof -
    have w: "i \<noteq> HSM_MSG_ID_WALK" using p(2) by (auto simp: hsm_msg_id_defs)
    obtain a r where b: "beh st i NULL (app s) = Some (a, r)" using p(4) by (auto simp: can_notice_def without_hsm_def)
    obtain q y where q: "do_answer h par st r (s\<lparr>app := a\<rparr>) = Inr (q, moved h y a s)" "current_state y = current_state x"
      "case r of Done \<Rightarrow> q = HSM_RET_CONSUMED \<and> y = x
         | Up \<Rightarrow> (case par st of None \<Rightarrow> q = HSM_RET_TOP_STATE | Some p \<Rightarrow> q = HSM_RET_PARENT \<and> tmp_state y = p)
         | Go_to d \<Rightarrow> q = HSM_RET_TRANSITION \<and> tmp_state y = d"
      using do_answer_run [OF p(3), of par st r a] by blast
    have "state_fn P st h i NULL s = Inr (q, moved h y a s)" "i = HSM_MSG_ID_EXIT \<Longrightarrow> \<forall>d. r \<noteq> Go_to d"
      using behavesD [OF assms p(1) w _ b] p(3) q(1) by auto
    moreover have "without_hsm h (moved h y a s) = take_notice beh (st, i) (without_hsm h s)"
      using b by (simp add: without_hsm_def take_notice_def moved_def)
    ultimately show ?thesis using q(2,3) by (cases r) (auto split: option.splits)
  qed
  moreover have "without_hsm h (set_tmp_state h t s) = without_hsm h s" "without_hsm h (set_current_state h t s) = without_hsm h s" for s t
    by (simp_all add: without_hsm_def set_tmp_state_def set_current_state_def)
  ultimately show ?thesis unfolding informs_def by blast
qed

lemma inform_views:
  "inform beh es (app v) = Some a \<Longrightarrow> all_ok (take_notice beh) (can_notice beh) es v \<and> fold (take_notice beh) es v = v\<lparr>app := a\<rparr>"
proof (induction es arbitrary: v)
  case (Cons e es)
  obtain st i where e: "e = (st, i)" by (cases e)
  obtain a1 r where b: "beh st i NULL (app v) = Some (a1, r)" "inform beh es a1 = Some a"
    using Cons.prems by (auto simp: e split: option.splits)
  then show ?case using Cons.IH [of "v\<lparr>app := a1\<rparr>"] by (simp add: e can_notice_def take_notice_def)
qed simp

lemma moved_by_view:
  assumes "without_hsm h s' = (without_hsm h s)\<lparr>app := a\<rparr>" and "hsms s' h = Some y"
  shows "s' = moved h y a s"
proof -
  have "hsms s' k = ((hsms s)(h \<mapsto> y)) k" for k
    using arg_cong [OF assms(1), of "\<lambda>v. hsms v k"] assms(2) by (cases "k = h") (simp_all add: without_hsm_def)
  then have "hsms s' = (hsms s)(h \<mapsto> y)" by blast
  moreover have "s' = (without_hsm h s')\<lparr>hsms := hsms s'\<rparr>" by (simp add: without_hsm_def)
  ultimately show ?thesis unfolding assms(1) by (simp add: without_hsm_def moved_def)
qed

lemma machine_okD:
  assumes "machine_ok P h par S up beh"
  shows "walk_law P h par S" and "behaves P h par S beh"
    and "d \<in> S \<Longrightarrow> chain par d (up d)" and "d \<in> S \<Longrightarrow> length (up d) < CONFIG_HSM_MAX_NESTED_STATES P"
    and "d \<in> S \<Longrightarrow> length (up d) < fuel P"
  using assms by (simp_all add: machine_ok_def)

lemma transition_moves:
  assumes "machine_ok P h par S up beh" and "c \<in> S" and "d \<in> S" and "hsms s h = Some x" and "current_state x = c"
    and "inform beh (transition_log c (up c) d (up d)) (app s) = Some a"
  shows "\<exists>y. transition_state P h d s = Inr ((), moved h y a s) \<and> current_state y = d"
proof -
  note m = machine_okD [OF assms(1)]
  have "inform beh (transition_log c (up c) d (up d)) (app (without_hsm h s)) = Some a"
    using assms(6) by (simp add: without_hsm_def)
  note v = inform_views [OF this]
  obtain s' y where s': "transition_state P h d s = Inr ((), s')" "without_hsm h s' = (without_hsm h s)\<lparr>app := a\<rparr>"
    "hsms s' h = Some y" "current_state y = d"
    using transition_state_run [OF m(1) behaves_informs [OF m(2)] assms(2) m(3,4) [OF assms(2)] assms(3) m(3,4) [OF assms(3)] assms(4,5) conjunct1 [OF v]]
      v by auto
  then show ?thesis using moved_by_view [OF s'(2,3)] by blast
qed

text \<open>C25. The framework as an interpreter of state machines: for an application whose states return with the macros of
  the library, handling a message is one step of the reference machine. The message is offered to the
  current state and its ancestors; a transition sends EXIT and ENTRY messages to the states that are
  left and entered; the application's data and the current state are those of the
  reference machine in the end, and nothing else in memory has changed.\<close>

theorem hsm_machine:
  assumes "machine_ok P h par S up beh" and "c \<in> S" and "hsms s h = Some x" and "current_state x = c"
    and "i \<noteq> HSM_MSG_ID_WALK" and "machine_step beh up i m (c, app s) = Some (c', a')"
  shows "\<exists>y. hsm_msg_handler P i m h s = Inr ((), s\<lparr>app := a', hsms := (hsms s)(h \<mapsto> y)\<rparr>) \<and>
    current_state y = c' \<and> c' \<in> S"
proof -
  note m = machine_okD [OF assms(1)]
  let ?s0 = "set_tmp_state h c s"
  have h0: "hsms ?s0 h = Some (x\<lparr>tmp_state := c\<rparr>)" using assms(3) by simp
  obtain a1 r where o: "offer beh (c # up c) i m (app ?s0) = Some (a1, r)"
    using assms(6) unfolding app_set_tmp_state
    by (cases "offer beh (c # up c) i m (app s)") (simp_all only: machine_step_def prod.case option.case, auto)
  obtain q y where q: "dispatch (fuel P) P h i m ?s0 = Inr (q, moved h y a1 ?s0)" "current_state y = c"
    "case r of Go_to d \<Rightarrow> q = HSM_RET_TRANSITION \<and> tmp_state y = d \<and> d \<in> S | _ \<Rightarrow> q \<noteq> HSM_RET_TRANSITION"
    using dispatch_behaves [OF m(1,2) assms(5,2) m(3) [OF assms(2)] h0 _ m(5) [OF assms(2)] o] assms(4) by auto
  let ?s1 = "moved h y a1 s"
  have s1: "moved h y a1 ?s0 = ?s1" by (simp add: moved_def set_tmp_state_def)
  have step: "hsm_msg_handler P i m h s =
      (if q = HSM_RET_TRANSITION \<and> tmp_state y \<noteq> c then
         thenM (z_assert P (tmp_state y \<noteq> NULL)) (transition_state P h (tmp_state y)) else ret ()) ?s1"
    using assms(3,4) q(1,2) by (simp add: hsm_msg_handler_def read_hsm_run s1)
  have "\<exists>y. hsm_msg_handler P i m h s = Inr ((), moved h y a' s) \<and> current_state y = c' \<and> c' \<in> S"
  proof (cases "\<exists>d. r = Go_to d \<and> d \<noteq> c")
    case True
    then obtain d where d: "r = Go_to d" "d \<noteq> c" by blast
    then have d': "d \<in> S" "tmp_state y = d" "q = HSM_RET_TRANSITION" using q(3) by simp_all
    have "offer beh (c # up c) i m (app s) = Some (a1, Go_to d)" using o d(1) by (simp only: app_set_tmp_state)
    then have "map_option (\<lambda>a. (d, a)) (inform beh (transition_log c (up c) d (up d)) a1) = Some (c', a')"
      using assms(6) d(2) by (simp only: machine_step_def prod.case option.case answer.case if_False)
    then have a2: "inform beh (transition_log c (up c) d (up d)) (app ?s1) = Some a'" "c' = d" by auto
    obtain z where "transition_state P h d ?s1 = Inr ((), moved h z a' ?s1)" "current_state z = d"
      using transition_moves [OF assms(1,2) d'(1), of ?s1 y] q(2) a2(1) by auto
    then show ?thesis using step d d' a2(2) walk_law_NULL [OF m(1) d'(1)] by auto
  next
    case False
    have "offer beh (c # up c) i m (app s) = Some (a1, r)" using o by (simp only: app_set_tmp_state)
    then have "c' = c" "a' = a1" using assms(6) False
      by (cases r; simp only: machine_step_def prod.case option.case answer.case, simp split: if_splits)+
    moreover have "hsm_msg_handler P i m h s = Inr ((), ?s1)"
      using False q(3) step by (cases r) auto
    ultimately show ?thesis using q(2) assms(2) by auto
  qed
  then show ?thesis by (simp add: moved_def)
qed

lemma hsm_starts:
  assumes "machine_ok P h par S up beh" and "c \<in> S" and "h \<noteq> NULL" and "hsms s h = Some x" and "current_state x = c"
    and "machine_start beh up c (app s) = Some a"
  shows "\<exists>y. hsm_start P h s = Inr ((), moved h y a s) \<and> current_state y = c"
proof -
  note m = machine_okD [OF assms(1)]
  have M: "0 < CONFIG_HSM_MAX_NESTED_STATES P" "take (CONFIG_HSM_MAX_NESTED_STATES P - 1) (up c) = up c"
    using m(4) [OF assms(2)] by simp_all
  have "inform beh (map (\<lambda>st. (st, HSM_MSG_ID_ENTRY)) (rev (c # up c))) (app (without_hsm h s)) = Some a"
    using assms(6) by (simp add: without_hsm_def machine_start_def)
  note v = inform_views [OF this]
  obtain s' y where s': "hsm_start P h s = Inr ((), s')" "without_hsm h s' = (without_hsm h s)\<lparr>app := a\<rparr>"
    "hsms s' h = Some y" "current_state y = c"
    using hsm_start_run [OF m(1) behaves_informs [OF m(2)] assms(2) m(3) [OF assms(2)] assms(3-5) M(1), unfolded M(2), OF refl conjunct1 [OF v]]
      v by auto
  then show ?thesis using moved_by_view [OF s'(2,3)] by blast
qed

end
