(* ===== verification/HsmTest.thy ===== *)
theory HsmTest imports HsmMachine begin

text \<open>
  The state machine of the library's own test, \<open>tests/lib/hsm/basic/src/main.c\<close>, as a
  platform: eleven states in two trees, each of which notes the messages it handles in an array
  of 16 entries. It is the concrete machine on which the theorems of theory Hsm are applied,
  to the start and the transitions the test exercises.
\<close>

section \<open>The machine\<close>

text \<open>The part of \<open>struct test_hsm\<close> after \<open>hsm\<close>, and the payload of the transition
  messages, by message.\<close>

record test_hsm =
  msg_rx_data :: "(hsm_state_fn \<times> uint16) list"
  num_msg_received :: nat
  dest_state :: "ptr \<Rightarrow> hsm_state_fn"

abbreviation MSG_ID_TEST_GET_CURRENT_STATE :: uint16 where "MSG_ID_TEST_GET_CURRENT_STATE \<equiv> 1"
abbreviation MSG_ID_TEST_START_RX :: uint16 where "MSG_ID_TEST_START_RX \<equiv> 2"
abbreviation MSG_ID_TEST_SUB_STATE_RX :: uint16 where "MSG_ID_TEST_SUB_STATE_RX \<equiv> 3"
abbreviation MSG_ID_TEST_TOP_STATE_RX :: uint16 where "MSG_ID_TEST_TOP_STATE_RX \<equiv> 4"
abbreviation MSG_ID_TEST_TRANSITION_START_STATE :: uint16 where "MSG_ID_TEST_TRANSITION_START_STATE \<equiv> 6"
abbreviation MSG_ID_TEST_TRANSITION_SUB_STATE :: uint16 where "MSG_ID_TEST_TRANSITION_SUB_STATE \<equiv> 7"
abbreviation MSG_ID_TEST_TRANSITION_TOP_STATE :: uint16 where "MSG_ID_TEST_TRANSITION_TOP_STATE \<equiv> 8"

text \<open>The addresses of the state functions.\<close>

abbreviation (input) test_top_state :: ptr where "test_top_state \<equiv> 11"
abbreviation (input) test_parent_0_far_state :: ptr where "test_parent_0_far_state \<equiv> 12"
abbreviation (input) test_parent_1_far_state :: ptr where "test_parent_1_far_state \<equiv> 13"
abbreviation (input) test_far_state :: ptr where "test_far_state \<equiv> 14"
abbreviation (input) test_sub_state :: ptr where "test_sub_state \<equiv> 15"
abbreviation (input) test_start_state :: ptr where "test_start_state \<equiv> 16"
abbreviation (input) test_start_sibling_state :: ptr where "test_start_sibling_state \<equiv> 17"
abbreviation (input) test_start_child_state :: ptr where "test_start_child_state \<equiv> 18"
abbreviation (input) test_start_child_of_child_state :: ptr where "test_start_child_of_child_state \<equiv> 19"
abbreviation (input) test_diff_top_state :: ptr where "test_diff_top_state \<equiv> 20"
abbreviation (input) test_diff_child_state :: ptr where "test_diff_child_state \<equiv> 21"
abbreviation (input) test_recursive_state :: ptr where "test_recursive_state \<equiv> 22"

text \<open>The two lines with which every state notes a message.\<close>

definition note_msg :: "hsm_state_fn \<Rightarrow> uint16 \<Rightarrow> (('k, test_hsm) memory, unit) prog" where
  "note_msg st i =
     bindM (getsM app) (\<lambda>a.
     thenM (guardM Out_of_bounds (num_msg_received a < 16))
     (modifyM (\<lambda>s. s\<lparr>app := a\<lparr>msg_rx_data := (msg_rx_data a)[num_msg_received a := (st, i)],
       num_msg_received := num_msg_received a + 1\<rparr>\<rparr>)))"

definition go_to_dest :: "ptr \<Rightarrow> ptr \<Rightarrow> (('k, test_hsm) memory, hsm_ret) prog" where
  "go_to_dest h msg = bindM (getsM app) (\<lambda>a. HSM_TRANSITION h (dest_state a msg))"

definition test_top_fn :: "ptr \<Rightarrow> uint16 \<Rightarrow> ptr \<Rightarrow> (('k, test_hsm) memory, hsm_ret) prog" where
  "test_top_fn h i msg =
     (if i \<in> {HSM_MSG_ID_ENTRY, HSM_MSG_ID_EXIT, MSG_ID_TEST_GET_CURRENT_STATE, MSG_ID_TEST_TOP_STATE_RX}
      then thenM (note_msg test_top_state i) HSM_CONSUMED
      else if i = MSG_ID_TEST_TRANSITION_TOP_STATE
      then thenM (note_msg test_top_state i) (go_to_dest h msg)
      else HSM_TOP_STATE h)"

text \<open>The states that handle nothing but ENTRY, EXIT and the request for the current state.\<close>

definition test_plain_fn ::
  "hsm_state_fn \<Rightarrow> hsm_state_fn \<Rightarrow> ptr \<Rightarrow> uint16 \<Rightarrow> ptr \<Rightarrow> (('k, test_hsm) memory, hsm_ret) prog" where
  "test_plain_fn self parent h i msg =
     (if i \<in> {HSM_MSG_ID_ENTRY, HSM_MSG_ID_EXIT, MSG_ID_TEST_GET_CURRENT_STATE}
      then thenM (note_msg self i) HSM_CONSUMED
      else HSM_PARENT h parent)"

definition test_sub_fn :: "ptr \<Rightarrow> uint16 \<Rightarrow> ptr \<Rightarrow> (('k, test_hsm) memory, hsm_ret) prog" where
  "test_sub_fn h i msg =
     (if i \<in> {HSM_MSG_ID_ENTRY, HSM_MSG_ID_EXIT}
      then thenM (note_msg test_sub_state i) (HSM_PARENT h test_top_state)
      else if i \<in> {MSG_ID_TEST_GET_CURRENT_STATE, MSG_ID_TEST_SUB_STATE_RX}
      then thenM (note_msg test_sub_state i) HSM_CONSUMED
      else if i = MSG_ID_TEST_TRANSITION_SUB_STATE
      then thenM (note_msg test_sub_state i) (go_to_dest h msg)
      else HSM_PARENT h test_top_state)"

definition test_start_fn :: "ptr \<Rightarrow> uint16 \<Rightarrow> ptr \<Rightarrow> (('k, test_hsm) memory, hsm_ret) prog" where
  "test_start_fn h i msg =
     (if i \<in> {HSM_MSG_ID_ENTRY, HSM_MSG_ID_EXIT, MSG_ID_TEST_GET_CURRENT_STATE, MSG_ID_TEST_START_RX}
      then thenM (note_msg test_start_state i) HSM_CONSUMED
      else if i = MSG_ID_TEST_TRANSITION_START_STATE
      then thenM (note_msg test_start_state i) (go_to_dest h msg)
      else HSM_PARENT h test_sub_state)"

definition test_diff_top_fn :: "ptr \<Rightarrow> uint16 \<Rightarrow> ptr \<Rightarrow> (('k, test_hsm) memory, hsm_ret) prog" where
  "test_diff_top_fn h i msg =
     (if i \<in> {HSM_MSG_ID_ENTRY, HSM_MSG_ID_EXIT, MSG_ID_TEST_GET_CURRENT_STATE}
      then thenM (note_msg test_diff_top_state i) HSM_CONSUMED
      else HSM_TOP_STATE h)"

text \<open>The state that is its own parent, to test the maximum depth.\<close>

definition test_recursive_fn :: "ptr \<Rightarrow> uint16 \<Rightarrow> ptr \<Rightarrow> (('k, test_hsm) memory, hsm_ret) prog" where
  "test_recursive_fn h i msg =
     (if i \<in> {HSM_MSG_ID_ENTRY, HSM_MSG_ID_EXIT, MSG_ID_TEST_GET_CURRENT_STATE}
      then thenM (note_msg test_recursive_state i) HSM_CONSUMED
      else if i = MSG_ID_TEST_TRANSITION_START_STATE
      then thenM (note_msg test_recursive_state i) (go_to_dest h msg)
      else HSM_PARENT h test_recursive_state)"

text \<open>The parents that the plain states name.\<close>

definition plain_parents :: "(hsm_state_fn \<times> hsm_state_fn) list" where
  "plain_parents =
    [(test_parent_0_far_state, test_top_state),
     (test_parent_1_far_state, test_parent_0_far_state),
     (test_far_state, test_parent_1_far_state),
     (test_start_sibling_state, test_sub_state),
     (test_start_child_state, test_start_state),
     (test_start_child_of_child_state, test_start_child_state),
     (test_diff_child_state, test_diff_top_state)]"

definition test_state_fn ::
  "hsm_state_fn \<Rightarrow> ptr \<Rightarrow> uint16 \<Rightarrow> ptr \<Rightarrow> (('k, test_hsm) memory, hsm_ret) prog" where
  "test_state_fn st =
     (if st = test_top_state then test_top_fn
      else if st = test_sub_state then test_sub_fn
      else if st = test_start_state then test_start_fn
      else if st = test_diff_top_state then test_diff_top_fn
      else if st = test_recursive_state then test_recursive_fn
      else case map_of plain_parents st of
        Some p \<Rightarrow> test_plain_fn st p
      | None \<Rightarrow> (\<lambda>h i msg. raise Bad_pointer))"

definition hsm_platform :: "(kobj, test_hsm) platform" where
  "hsm_platform = ref_platform\<lparr>state_fn := test_state_fn\<rparr>"

section \<open>The machine obeys the laws\<close>

definition test_parent :: "hsm_state_fn \<Rightarrow> hsm_state_fn option" where
  "test_parent st =
     (if st = test_sub_state then Some test_top_state
      else if st = test_start_state then Some test_sub_state
      else map_of plain_parents st)"

definition test_states :: "hsm_state_fn set" where
  "test_states = set ([test_top_state, test_sub_state, test_start_state, test_diff_top_state] @
     map fst plain_parents)"

text \<open>The notes of the machine, as long as the array is what it should be.\<close>

definition test_log :: "test_hsm \<Rightarrow> (hsm_state_fn \<times> uint16) list" where
  "test_log a = (if length (msg_rx_data a) = 16 then take (num_msg_received a) (msg_rx_data a)
                 else replicate 16 (NULL, 0))"

lemma hsm_platform_sel [simp]:
  "state_fn hsm_platform = test_state_fn"
  "CONFIG_ASSERT hsm_platform"
  "CONFIG_HSM_MAX_NESTED_STATES hsm_platform = 8"
  "fuel hsm_platform = 20"
  by (simp_all add: hsm_platform_def)

lemma test_state_fn_eqs [simp]:
  "test_state_fn test_top_state = test_top_fn"
  "test_state_fn test_sub_state = test_sub_fn"
  "test_state_fn test_start_state = test_start_fn"
  "test_state_fn test_diff_top_state = test_diff_top_fn"
  "test_state_fn test_recursive_state = test_recursive_fn"
  by (simp_all add: test_state_fn_def)

lemma test_parent_eqs [simp]:
  "test_parent test_top_state = None"
  "test_parent test_sub_state = Some test_top_state"
  "test_parent test_start_state = Some test_sub_state"
  "test_parent test_diff_top_state = None"
  by (simp_all add: test_parent_def plain_parents_def)

lemma plain_state:
  assumes "(st, p) \<in> set plain_parents"
  shows "test_state_fn st = test_plain_fn st p" and "test_parent st = Some p"
    and "st \<noteq> NULL" and "p \<in> test_states"
  using assms by (auto simp: plain_parents_def test_state_fn_def test_parent_def test_states_def)

lemma test_states_cases:
  assumes "st \<in> test_states"
  obtains "st = test_top_state" | "st = test_sub_state" | "st = test_start_state"
    | "st = test_diff_top_state" | p where "(st, p) \<in> set plain_parents"
  using assms unfolding test_states_def by auto

lemma msg_ids_differ [simp]:
  "HSM_MSG_ID_WALK \<noteq> HSM_MSG_ID_ENTRY" "HSM_MSG_ID_WALK \<noteq> HSM_MSG_ID_EXIT"
  "HSM_MSG_ID_WALK \<noteq> 1" "HSM_MSG_ID_WALK \<noteq> 2" "HSM_MSG_ID_WALK \<noteq> 3" "HSM_MSG_ID_WALK \<noteq> 4"
  "HSM_MSG_ID_WALK \<noteq> 6" "HSM_MSG_ID_WALK \<noteq> 7" "HSM_MSG_ID_WALK \<noteq> 8"
  by (simp_all add: hsm_msg_id_defs)

lemmas test_fns = test_top_fn_def test_sub_fn_def test_start_fn_def test_diff_top_fn_def
  test_plain_fn_def

lemma test_walk_law: "walk_law hsm_platform h test_parent test_states"
proof -
  have "st \<noteq> NULL \<and> (\<forall>p. test_parent st = Some p \<longrightarrow> p \<in> test_states) \<and>
     state_fn hsm_platform st h HSM_MSG_ID_WALK NULL s =
        (case test_parent st of None \<Rightarrow> HSM_TOP_STATE h s | Some p \<Rightarrow> HSM_PARENT h p s)"
    if "st \<in> test_states" for st s
    using that by (rule test_states_cases) (auto simp: test_fns plain_state, auto simp: test_states_def)
  then show ?thesis unfolding walk_law_def by blast
qed

lemma note_msg_run:
  assumes "length (test_log (app s)) < 16"
  shows "\<exists>s'. note_msg st i s = Inr ((), s') \<and> hsms s' = hsms s \<and>
    test_log (app s') = test_log (app s) @ [(st, i)]"
proof -
  have l: "length (msg_rx_data (app s)) = 16" "num_msg_received (app s) < 16"
    using assms by (auto simp: test_log_def split: if_splits)
  then show ?thesis
    by (simp add: note_msg_def test_log_def take_Suc_conv_app_nth)
qed

lemma test_notify_law: "notify_law hsm_platform h test_parent test_states test_log 16"
  unfolding notify_law_def
proof (intro ballI allI impI)
  fix st i and s :: "(kobj, test_hsm) memory" and x
  assume st: "st \<in> test_states" and i: "i \<in> {HSM_MSG_ID_ENTRY, HSM_MSG_ID_EXIT}"
    and s: "hsms s h = Some x \<and> length (test_log (app s)) < 16"
  obtain s' where s': "note_msg st i s = Inr ((), s')" "hsms s' = hsms s"
    "test_log (app s') = test_log (app s) @ [(st, i)]"
    using note_msg_run [of s st i] s by blast
  from st show "\<exists>r s' x'. state_fn hsm_platform st h i NULL s = Inr (r, s') \<and> hsms s' h = Some x' \<and>
      current_state x' = current_state x \<and> test_log (app s') = test_log (app s) @ [(st, i)] \<and>
      (i = HSM_MSG_ID_EXIT \<longrightarrow>
         r = HSM_RET_CONSUMED \<and> tmp_state x' = tmp_state x \<or>
         r = HSM_RET_PARENT \<and> test_parent st = Some (tmp_state x') \<or>
         r = HSM_RET_TOP_STATE \<and> test_parent st = None)"
    by (rule test_states_cases)
      (use i s s' in \<open>auto simp: test_fns plain_state HSM_CONSUMED_def HSM_PARENT_def\<close>)
qed

section \<open>Examples\<close>

definition hsm_memory :: "hsm_state_fn \<Rightarrow> (ptr \<Rightarrow> hsm_state_fn) \<Rightarrow> (kobj, test_hsm) memory" where
  "hsm_memory c dest = (ref_memory \<lparr>msg_rx_data = replicate 16 (NULL, 0), num_msg_received = 0, dest_state = dest\<rparr>)
     \<lparr>hsms := [3 \<mapsto> \<lparr>current_state = c, tmp_state = NULL\<rparr>]\<rparr>"

lemma hsm_memory_sel [simp]:
  "hsms (hsm_memory c dest) = [3 \<mapsto> \<lparr>current_state = c, tmp_state = NULL\<rparr>]"
  "test_log (app (hsm_memory c dest)) = []"
  by (simp_all add: hsm_memory_def ref_memory_def test_log_def)

lemma start_chain: "chain test_parent test_start_state [test_sub_state, test_top_state]"
  and far_chain: "chain test_parent test_far_state
    [test_parent_1_far_state, test_parent_0_far_state, test_top_state]"
  by (simp_all add: test_parent_def plain_parents_def)

lemma start_far_states [simp]: "test_start_state \<in> test_states" "test_far_state \<in> test_states"
  by (simp_all add: test_states_def plain_parents_def)

definition to_far :: "(kobj, test_hsm) memory" where
  "to_far = hsm_memory test_start_state (\<lambda>_. test_far_state)"

lemma to_far_sel [simp]:
  "hsms to_far = [3 \<mapsto> \<lparr>current_state = test_start_state, tmp_state = NULL\<rparr>]"
  "test_log (app to_far) = []"
  by (simp_all add: to_far_def)

theorem hsm_start_entries_witness:
  "\<exists>s'. hsm_start hsm_platform 3 to_far = Inr ((), s') \<and>
     test_log (app s') = [(test_top_state, HSM_MSG_ID_ENTRY), (test_sub_state, HSM_MSG_ID_ENTRY),
       (test_start_state, HSM_MSG_ID_ENTRY)]"
  using hsm_start_entries [OF test_walk_law test_notify_law start_far_states(1) start_chain,
      where h = 3 and s = to_far] by auto

theorem hsm_transition_order_witness:
  "\<exists>s'. transition_state hsm_platform 3 test_far_state to_far = Inr ((), s') \<and>
     test_log (app s') = [(test_start_state, HSM_MSG_ID_EXIT), (test_sub_state, HSM_MSG_ID_EXIT),
       (test_parent_0_far_state, HSM_MSG_ID_ENTRY), (test_parent_1_far_state, HSM_MSG_ID_ENTRY),
       (test_far_state, HSM_MSG_ID_ENTRY)] \<and>
     map_option current_state (hsms s' 3) = Some test_far_state"
  using hsm_transition_order [OF test_walk_law test_notify_law start_far_states(1) start_chain _
      start_far_states(2) far_chain, where h = 3 and s = to_far]
  by (simp add: transition_log_def left_states_def entered_states_def)

theorem hsm_active_states_witness:
  "\<exists>s'. run_all (hsm_start hsm_platform 3 # map (transition_state hsm_platform 3) [test_far_state, test_start_state]) to_far = Inr ((), s') \<and>
     active_states (test_log (app s')) [] = Some [test_start_state, test_sub_state, test_top_state] \<and>
     map_option current_state (hsms s' 3) = Some test_start_state"
proof -
  let ?up = "\<lambda>st. if st = test_far_state then [test_parent_1_far_state, test_parent_0_far_state, test_top_state]
    else [test_sub_state, test_top_state]"
  have u: "\<forall>d \<in> set [test_start_state, test_far_state, test_start_state].
    d \<in> test_states \<and> chain test_parent d (?up d) \<and> length (?up d) < CONFIG_HSM_MAX_NESTED_STATES hsm_platform"
    using start_chain far_chain by simp
  show ?thesis
    using hsm_active_states [OF test_walk_law test_notify_law u, where h = 3 and s = to_far]
    by (simp add: transition_log_def left_states_def entered_states_def del: run_all.simps)
qed

text \<open>The same machine as a behaviour: which messages a state handles, and how it answers them.\<close>

definition noted :: "hsm_state_fn \<Rightarrow> uint16 \<Rightarrow> test_hsm \<Rightarrow> test_hsm option" where
  "noted st i a =
     (if num_msg_received a < 16 then
        Some (a\<lparr>msg_rx_data := (msg_rx_data a)[num_msg_received a := (st, i)], num_msg_received := num_msg_received a + 1\<rparr>)
      else None)"

definition test_states_list :: "hsm_state_fn list" where
  "test_states_list = [test_top_state, test_sub_state, test_start_state, test_diff_top_state] @ map fst plain_parents"

definition test_handles :: "(hsm_state_fn \<times> uint16) list" where
  "test_handles = [(test_top_state, MSG_ID_TEST_TOP_STATE_RX), (test_sub_state, MSG_ID_TEST_SUB_STATE_RX),
     (test_start_state, MSG_ID_TEST_START_RX)]"

definition test_transits :: "(hsm_state_fn \<times> uint16) list" where
  "test_transits = [(test_top_state, MSG_ID_TEST_TRANSITION_TOP_STATE), (test_sub_state, MSG_ID_TEST_TRANSITION_SUB_STATE),
     (test_start_state, MSG_ID_TEST_TRANSITION_START_STATE)]"

definition test_behaviour :: "test_hsm behaviour" where
  "test_behaviour st i m a =
     (if i \<in> {HSM_MSG_ID_ENTRY, HSM_MSG_ID_EXIT} then
        map_option (\<lambda>a'. (a', if st = test_sub_state then Up else Done)) (noted st i a)
      else if i = MSG_ID_TEST_GET_CURRENT_STATE \<or> (st, i) \<in> set test_handles then
        map_option (\<lambda>a'. (a', Done)) (noted st i a)
      else if (st, i) \<in> set test_transits then
        (if dest_state a m \<in> set test_states_list then map_option (\<lambda>a'. (a', Go_to (dest_state a m))) (noted st i a) else None)
      else Some (a, Up))"

lemma note_msg_noted: "note_msg st i s = (case noted st i (app s) of None \<Rightarrow> Inl Out_of_bounds | Some a \<Rightarrow> Inr ((), s\<lparr>app := a\<rparr>))"
  by (simp add: note_msg_def noted_def)

lemma noted_dest: "noted st i a = Some a' \<Longrightarrow> dest_state a' = dest_state a"
  by (auto simp: noted_def split: if_splits)

text \<open>A state that notes the messages of \<open>is\<close>, and may leave the machine for another state on those of \<open>js\<close>.\<close>

lemma test_behaviour_eqs:
  "test_behaviour test_top_state i m a =
     (if i \<in> {HSM_MSG_ID_ENTRY, HSM_MSG_ID_EXIT, 1, 4} then map_option (\<lambda>a'. (a', Done)) (noted test_top_state i a)
      else if i = 8 then (if dest_state a m \<in> set test_states_list then
        map_option (\<lambda>a'. (a', Go_to (dest_state a m))) (noted test_top_state i a) else None)
      else Some (a, Up))"
  "test_behaviour test_sub_state i m a =
     (if i \<in> {HSM_MSG_ID_ENTRY, HSM_MSG_ID_EXIT} then map_option (\<lambda>a'. (a', Up)) (noted test_sub_state i a)
      else if i \<in> {1, 3} then map_option (\<lambda>a'. (a', Done)) (noted test_sub_state i a)
      else if i = 7 then (if dest_state a m \<in> set test_states_list then
        map_option (\<lambda>a'. (a', Go_to (dest_state a m))) (noted test_sub_state i a) else None)
      else Some (a, Up))"
  "test_behaviour test_start_state i m a =
     (if i \<in> {HSM_MSG_ID_ENTRY, HSM_MSG_ID_EXIT, 1, 2} then map_option (\<lambda>a'. (a', Done)) (noted test_start_state i a)
      else if i = 6 then (if dest_state a m \<in> set test_states_list then
        map_option (\<lambda>a'. (a', Go_to (dest_state a m))) (noted test_start_state i a) else None)
      else Some (a, Up))"
  "st \<notin> {test_top_state, test_sub_state, test_start_state} \<Longrightarrow> test_behaviour st i m a =
     (if i \<in> {HSM_MSG_ID_ENTRY, HSM_MSG_ID_EXIT, 1} then map_option (\<lambda>a'. (a', Done)) (noted st i a) else Some (a, Up))"
  by (simp_all add: test_behaviour_def test_handles_def test_transits_def)

lemma note_msg_Some: "noted st i (app s) = Some a \<Longrightarrow> note_msg st i s = Inr ((), s\<lparr>app := a\<rparr>)"
  by (simp add: note_msg_noted)

lemma test_ids_not_exit: "HSM_MSG_ID_EXIT \<notin> {6, 7, 8}"
  by (simp add: hsm_msg_id_defs)

lemma test_behaves: "behaves hsm_platform h test_parent test_states test_behaviour"
proof -
  have d: "set test_states_list = test_states" by (simp add: test_states_list_def test_states_def)
  have "test_state_fn st h i m s = do_answer h test_parent st r (s\<lparr>app := a\<rparr>) \<and>
      (\<forall>d. r = Go_to d \<longrightarrow> d \<in> test_states \<and> i \<noteq> HSM_MSG_ID_EXIT)"
    if st: "st \<in> test_states" and b: "test_behaviour st i m (app s) = Some (a, r)" for st i m r a and s :: "(kobj, test_hsm) memory"
    using st
  proof (rule test_states_cases)
    assume "st = test_top_state"
    then show ?thesis using b test_ids_not_exit
      by (auto simp only: test_behaviour_eqs d split: if_splits)
        (auto simp: test_fns note_msg_Some noted_dest HSM_CONSUMED_def go_to_dest_def)
  next
    assume "st = test_sub_state"
    then show ?thesis using b test_ids_not_exit
      by (auto simp only: test_behaviour_eqs d split: if_splits)
        (auto simp: test_fns note_msg_Some noted_dest HSM_CONSUMED_def go_to_dest_def)
  next
    assume "st = test_start_state"
    then show ?thesis using b test_ids_not_exit
      by (auto simp only: test_behaviour_eqs d split: if_splits)
        (auto simp: test_fns note_msg_Some noted_dest HSM_CONSUMED_def go_to_dest_def)
  next
    assume s: "st = test_diff_top_state"
    then have n: "st \<notin> {test_top_state, test_sub_state, test_start_state}" by simp
    show ?thesis using b s unfolding test_behaviour_eqs(4) [OF n]
      by (auto simp: test_fns note_msg_Some HSM_CONSUMED_def split: if_splits)
  next
    fix p
    assume p: "(st, p) \<in> set plain_parents"
    then have n: "st \<notin> {test_top_state, test_sub_state, test_start_state}" by (auto simp: plain_parents_def)
    show ?thesis using b unfolding test_behaviour_eqs(4) [OF n]
      by (auto simp: plain_state [OF p] test_plain_fn_def note_msg_Some HSM_CONSUMED_def split: if_splits)
  qed
  then show ?thesis unfolding behaves_def hsm_platform_sel by blast
qed

definition test_up :: "hsm_state_fn \<Rightarrow> hsm_state_fn list" where
  "test_up st = (case map_of
     [(test_sub_state, [test_top_state]), (test_start_state, [test_sub_state, test_top_state]),
      (test_parent_0_far_state, [test_top_state]), (test_parent_1_far_state, [test_parent_0_far_state, test_top_state]),
      (test_far_state, [test_parent_1_far_state, test_parent_0_far_state, test_top_state]),
      (test_start_sibling_state, [test_sub_state, test_top_state]),
      (test_start_child_state, [test_start_state, test_sub_state, test_top_state]),
      (test_start_child_of_child_state, [test_start_child_state, test_start_state, test_sub_state, test_top_state]),
      (test_diff_child_state, [test_diff_top_state])] st of None \<Rightarrow> [] | Some sts \<Rightarrow> sts)"

lemma test_machine_ok: "machine_ok hsm_platform h test_parent test_states test_up test_behaviour"
proof -
  have "chain test_parent d (test_up d) \<and> length (test_up d) < 8" if "d \<in> test_states" for d
    using that by (auto simp: test_states_def plain_parents_def test_up_def test_parent_def)
  then show ?thesis using test_walk_law test_behaves by (fastforce simp: machine_ok_def)
qed

definition fresh_test_hsm :: "(ptr \<Rightarrow> hsm_state_fn) \<Rightarrow> test_hsm" where
  "fresh_test_hsm dest = \<lparr>msg_rx_data = replicate 16 (NULL, 0), num_msg_received = 0, dest_state = dest\<rparr>"

lemma far_step:
  "case machine_step test_behaviour test_up 8 2 (test_start_state, fresh_test_hsm (\<lambda>_. test_far_state)) of
     None \<Rightarrow> False
   | Some (c, a) \<Rightarrow> c = test_far_state \<and> test_log a = [(test_top_state, 8), (test_start_state, HSM_MSG_ID_EXIT),
       (test_sub_state, HSM_MSG_ID_EXIT), (test_parent_0_far_state, HSM_MSG_ID_ENTRY),
       (test_parent_1_far_state, HSM_MSG_ID_ENTRY), (test_far_state, HSM_MSG_ID_ENTRY)]"
  by code_simp

theorem hsm_machine_witness:
  "\<exists>s' y. hsm_msg_handler hsm_platform 8 2 3 to_far = Inr ((), s') \<and>
     hsms s' = [3 \<mapsto> y] \<and> current_state y = test_far_state \<and>
     test_log (app s') = [(test_top_state, 8), (test_start_state, HSM_MSG_ID_EXIT),
       (test_sub_state, HSM_MSG_ID_EXIT), (test_parent_0_far_state, HSM_MSG_ID_ENTRY),
       (test_parent_1_far_state, HSM_MSG_ID_ENTRY), (test_far_state, HSM_MSG_ID_ENTRY)]"
proof -
  have a: "app to_far = fresh_test_hsm (\<lambda>_. test_far_state)"
    by (simp add: to_far_def hsm_memory_def ref_memory_def fresh_test_hsm_def)
  have w: "(8 :: uint16) \<noteq> HSM_MSG_ID_WALK" by (simp add: hsm_msg_id_defs)
  have h: "hsms to_far 3 = Some \<lparr>current_state = test_start_state, tmp_state = NULL\<rparr>" by simp
  obtain c a' where s: "machine_step test_behaviour test_up 8 2 (test_start_state, app to_far) = Some (c, a')"
    and r: "c = test_far_state" "test_log a' = [(test_top_state, 8), (test_start_state, HSM_MSG_ID_EXIT),
       (test_sub_state, HSM_MSG_ID_EXIT), (test_parent_0_far_state, HSM_MSG_ID_ENTRY),
       (test_parent_1_far_state, HSM_MSG_ID_ENTRY), (test_far_state, HSM_MSG_ID_ENTRY)]"
    using far_step unfolding a by (auto split: option.splits)
  show ?thesis
    using hsm_machine [OF test_machine_ok start_far_states(1) h _ w s] r by auto
qed

theorem hsm_own_parent_diverges_witness:
  "\<forall>n. hsm_msg_handler (hsm_platform\<lparr>fuel := n\<rparr>) 5 2 3
     (hsm_memory test_recursive_state (\<lambda>_. NULL)) = Inl Out_of_fuel"
  by (intro allI hsm_own_parent_diverges [of _ _ test_recursive_state])
    (auto simp: test_recursive_fn_def hsm_msg_id_defs)

end
