(* ===== verification/Subscriber.thy ===== *)
theory Subscriber imports MsgAlloc Hsm begin

text \<open>
  Receiving messages, the second half of \<open>lib/pub_sub/subscriber.c\<close>: taking a message out of a
  subscriber's queue and handling it, passing it on to the next FIFO subscriber, publishing a
  private message to one subscriber, and polling. A FIFO links a message through its header, so
  a message can be in one FIFO at a time only; a public message therefore travels from one FIFO
  subscriber to the next.
\<close>

section \<open>Handlers and queues\<close>

text \<open>\<open>subscriber->handler_data.msg_handler(msg_id, msg, subscriber->handler_data.user_data)\<close>.\<close>

fun call_handler ::
  "('k, 'u) platform \<Rightarrow> pub_sub_handler_fn \<Rightarrow> uint16 \<Rightarrow> ptr \<Rightarrow> ptr \<Rightarrow> (('k, 'u) memory, unit) prog" where
  "call_handler P Handler_NULL msg_id msg data = raise Bad_pointer"
| "call_handler P Hsm_msg_handler msg_id msg data = hsm_msg_handler P msg_id msg data"
| "call_handler P (User_handler f) msg_id msg data = user_handler P f msg_id msg data"

definition sub_handle :: "('k, 'u) platform \<Rightarrow> ptr \<Rightarrow> uint16 \<Rightarrow> ptr \<Rightarrow> (('k, 'u) memory, unit) prog" where
  "sub_handle P sub msg_id msg =
     bindM (read_sub sub) (\<lambda>su.
     call_handler P (msg_handler (handler_data su)) msg_id msg (user_data (handler_data su)))"

definition assert_handler :: "('k, 'u) platform \<Rightarrow> ptr \<Rightarrow> (('k, 'u) memory, unit) prog" where
  "assert_handler P sub =
     bindM (read_sub sub) (\<lambda>su. z_assert P (msg_handler (handler_data su) \<noteq> Handler_NULL))"

text \<open>\<open>subscriber->msgq\<close>, and the message queue it points at.\<close>

definition sub_msgq :: "ptr \<Rightarrow> (('k, 'u) memory, ptr) prog" where
  "sub_msgq sub = bindM (read_sub sub) (\<lambda>su.
     case rx_queue su of Rx_msgq q \<Rightarrow> ret q | _ \<Rightarrow> raise Wrong_member)"

definition read_msgq :: "ptr \<Rightarrow> (('k, 'u) memory, 'k) prog" where
  "read_msgq q = fetchM Bad_pointer (\<lambda>s. msgqs s q)"

definition write_msgq :: "ptr \<Rightarrow> 'k \<Rightarrow> ('k, 'u) memory \<Rightarrow> ('k, 'u) memory" where
  "write_msgq q k s = s\<lparr>msgqs := (msgqs s)(q \<mapsto> k)\<rparr>"

definition msgq_put ::
  "('k, 'u) platform \<Rightarrow> ptr \<Rightarrow> ptr \<Rightarrow> k_timeout \<Rightarrow> (('k, 'u) memory, int) prog" where
  "msgq_put P sub msg t =
     bindM (sub_msgq sub) (\<lambda>q.
     bindM (read_msgq q) (\<lambda>k.
     bindM (waitM (k_msgq_put P k msg t)) (\<lambda>(r, k').
     thenM (modifyM (write_msgq q k')) (ret r))))"

definition msgq_get ::
  "('k, 'u) platform \<Rightarrow> ptr \<Rightarrow> k_timeout \<Rightarrow> (('k, 'u) memory, int \<times> ptr) prog" where
  "msgq_get P sub t =
     bindM (sub_msgq sub) (\<lambda>q.
     bindM (read_msgq q) (\<lambda>k.
     bindM (waitM (k_msgq_get P k t)) (\<lambda>(r, msg, k').
     thenM (modifyM (write_msgq q k')) (ret (r, msg)))))"

definition read_broker :: "ptr \<Rightarrow> (('k, 'u) memory, 'k pub_sub_broker) prog" where
  "read_broker b = fetchM Bad_pointer (\<lambda>s. brokers s b)"

definition upd_broker ::
  "ptr \<Rightarrow> ('k pub_sub_broker \<Rightarrow> 'k pub_sub_broker) \<Rightarrow> ('k, 'u) memory \<Rightarrow> ('k, 'u) memory" where
  "upd_broker b f s = s\<lparr>brokers := (brokers s)(b := map_option f (brokers s b))\<rparr>"

definition lock_sub_list :: "('k, 'u) platform \<Rightarrow> ptr \<Rightarrow> (('k, 'u) memory, unit) prog" where
  "lock_sub_list P b =
     thenM (read_broker b)
     (modifyM (upd_broker b (\<lambda>br. br\<lparr>sub_list_mutex := k_mutex_lock P (sub_list_mutex br)\<rparr>)))"

definition unlock_sub_list :: "('k, 'u) platform \<Rightarrow> ptr \<Rightarrow> (('k, 'u) memory, unit) prog" where
  "unlock_sub_list P b =
     thenM (read_broker b)
     (modifyM (upd_broker b (\<lambda>br. br\<lparr>sub_list_mutex := k_mutex_unlock P (sub_list_mutex br)\<rparr>)))"

section \<open>The operations\<close>

definition pub_sub_populate_poll_evt ::
  "('k, 'u) platform \<Rightarrow> ptr \<Rightarrow> ptr \<Rightarrow> (('k, 'u) memory, int) prog" where
  "pub_sub_populate_poll_evt P sub poll_evt =
     thenM (z_assert P (sub \<noteq> NULL))
    (thenM (z_assert P (poll_evt \<noteq> NULL))
    (bindM (read_sub sub) (\<lambda>su.
     case rx_type su of
       PUB_SUB_RX_TYPE_CALLBACK \<Rightarrow> ret (- EPERM)
     | PUB_SUB_RX_TYPE_MSGQ \<Rightarrow>
         bindM (sub_msgq sub) (\<lambda>q.
         thenM (guardM Bad_pointer (poll_evt \<noteq> NULL))
        (thenM (modifyM (\<lambda>s. s\<lparr>poll_events := (poll_events s)(poll_evt \<mapsto>
           k_poll_event_init P K_POLL_TYPE_MSGQ_DATA_AVAILABLE K_POLL_MODE_NOTIFY_ONLY (Msgq_at q))\<rparr>))
         (ret 0)))
     | PUB_SUB_RX_TYPE_FIFO \<Rightarrow>
         thenM (guardM Bad_pointer (poll_evt \<noteq> NULL))
        (thenM (modifyM (\<lambda>s. s\<lparr>poll_events := (poll_events s)(poll_evt \<mapsto>
           k_poll_event_init P K_POLL_TYPE_FIFO_DATA_AVAILABLE K_POLL_MODE_NOTIFY_ONLY (Rx_fifo_of sub))\<rparr>))
         (ret 0)))))"

text \<open>The loop of \<open>send_to_next_fifo_subscriber\<close> from the subscriber \<open>next_sub\<close> on; the first
  argument is the fuel.\<close>

fun next_fifo_loop :: "nat \<Rightarrow> ('k, 'u) platform \<Rightarrow> ptr \<Rightarrow> uint16 \<Rightarrow> ptr \<Rightarrow> (('k, 'u) memory, unit) prog" where
  "next_fifo_loop 0 P next_sub msg_id msg = raise Out_of_fuel"
| "next_fifo_loop (Suc n) P next_sub msg_id msg =
     (if next_sub = NULL then ret ()
      else bindM (is_subscribed P next_sub msg_id) (\<lambda>wanted.
        if wanted then
          thenM (pub_sub_acquire_msg P msg)
          (pub_sub_msg_fifo_put P (Sub_fifo next_sub) msg)
        else
          bindM (getsM (\<lambda>s. sys_slist_peek_next P (slists s) next_sub)) (\<lambda>next.
          next_fifo_loop n P next msg_id msg)))"

definition send_to_next_fifo_subscriber ::
  "('k, 'u) platform \<Rightarrow> ptr \<Rightarrow> uint16 \<Rightarrow> ptr \<Rightarrow> (('k, 'u) memory, unit) prog" where
  "send_to_next_fifo_subscriber P sub msg_id msg =
     bindM (read_sub sub) (\<lambda>su.
     let b = broker su in
     thenM (lock_sub_list P b)
    (bindM (getsM (\<lambda>s. sys_slist_peek_next P (slists s) sub)) (\<lambda>next.
     thenM (next_fifo_loop (fuel P) P next msg_id msg)
     (unlock_sub_list P b))))"

definition pub_sub_handle_queued_msg ::
  "('k, 'u) platform \<Rightarrow> ptr \<Rightarrow> k_timeout \<Rightarrow> (('k, 'u) memory, int) prog" where
  "pub_sub_handle_queued_msg P sub t =
     thenM (z_assert P (sub \<noteq> NULL))
    (bindM (read_sub sub) (\<lambda>su.
     case rx_type su of
       PUB_SUB_RX_TYPE_CALLBACK \<Rightarrow> ret (- EPERM)
     | PUB_SUB_RX_TYPE_MSGQ \<Rightarrow>
         bindM (msgq_get P sub t) (\<lambda>(r, msg).
         if r = 0 then
           bindM (pub_sub_msg_get_msg_id P msg) (\<lambda>msg_id.
           thenM (assert_handler P sub)
          (thenM (sub_handle P sub msg_id msg)
          (thenM (pub_sub_release_msg P msg)
           (ret r))))
         else ret r)
     | PUB_SUB_RX_TYPE_FIFO \<Rightarrow>
         bindM (pub_sub_msg_fifo_get P (Sub_fifo sub) t) (\<lambda>msg.
         if msg \<noteq> NULL then
           bindM (pub_sub_msg_get_msg_id P msg) (\<lambda>msg_id.
           thenM (assert_handler P sub)
          (bindM (read_sub sub) (\<lambda>su'.
           thenM (if msg_id \<le> max_pub_msg_id su' then send_to_next_fifo_subscriber P sub msg_id msg
                  else ret ())
          (thenM (sub_handle P sub msg_id msg)
          (thenM (pub_sub_release_msg P msg)
           (ret 0))))))
         else ret (- ENOMSG))))"

definition pub_sub_publish_to_subscriber ::
  "('k, 'u) platform \<Rightarrow> ptr \<Rightarrow> ptr \<Rightarrow> (('k, 'u) memory, unit) prog" where
  "pub_sub_publish_to_subscriber P sub msg =
     thenM (z_assert P (sub \<noteq> NULL))
    (bindM (read_sub sub) (\<lambda>su.
     thenM (z_assertM P (bindM (pub_sub_msg_get_msg_id P msg) (\<lambda>i. ret (i > max_pub_msg_id su))))
    (case rx_type su of
       PUB_SUB_RX_TYPE_CALLBACK \<Rightarrow>
         thenM (assert_handler P sub)
        (bindM (pub_sub_msg_get_msg_id P msg) (\<lambda>msg_id.
         thenM (sub_handle P sub msg_id msg)
         (pub_sub_release_msg P msg)))
     | PUB_SUB_RX_TYPE_MSGQ \<Rightarrow> discard (msgq_put P sub msg K_FOREVER)
     | PUB_SUB_RX_TYPE_FIFO \<Rightarrow> pub_sub_msg_fifo_put P (Sub_fifo sub) msg)))"

section \<open>What the operations do\<close>

lemma brokers_upd_broker [simp]:
  "brokers (upd_broker b f s) = (brokers s)(b := map_option f (brokers s b))"
  by (simp add: upd_broker_def)

lemma msgqs_write_msgq [simp]: "msgqs (write_msgq q k s) = (msgqs s)(q \<mapsto> k)"
  by (simp add: write_msgq_def)

lemma upd_broker_frame [simp]:
  "messages (upd_broker b f s) = messages s"
  "callback_msgs (upd_broker b f s) = callback_msgs s"
  "delayable_msgs (upd_broker b f s) = delayable_msgs s"
  "allocator_objs (upd_broker b f s) = allocator_objs s"
  "g_runtime_allocators (upd_broker b f s) = g_runtime_allocators s"
  "mem_slabs (upd_broker b f s) = mem_slabs s"
  "msgqs (upd_broker b f s) = msgqs s"
  "bitarrays (upd_broker b f s) = bitarrays s"
  "subscribers (upd_broker b f s) = subscribers s"
  "slists (upd_broker b f s) = slists s"
  "poll_events (upd_broker b f s) = poll_events s"
  "hsms (upd_broker b f s) = hsms s"
  "app (upd_broker b f s) = app s"
  by (simp_all add: upd_broker_def)

lemma write_msgq_frame [simp]:
  "messages (write_msgq q k s) = messages s"
  "callback_msgs (write_msgq q k s) = callback_msgs s"
  "delayable_msgs (write_msgq q k s) = delayable_msgs s"
  "allocator_objs (write_msgq q k s) = allocator_objs s"
  "g_runtime_allocators (write_msgq q k s) = g_runtime_allocators s"
  "mem_slabs (write_msgq q k s) = mem_slabs s"
  "bitarrays (write_msgq q k s) = bitarrays s"
  "subscribers (write_msgq q k s) = subscribers s"
  "brokers (write_msgq q k s) = brokers s"
  "slists (write_msgq q k s) = slists s"
  "poll_events (write_msgq q k s) = poll_events s"
  "hsms (write_msgq q k s) = hsms s"
  "app (write_msgq q k s) = app s"
  by (simp_all add: write_msgq_def)

lemma read_msgq_run [sub_run]: "msgqs s q = Some k \<Longrightarrow> read_msgq q s = Inr (k, s)"
  by (simp add: read_msgq_def)

lemma read_broker_run [sub_run]: "brokers s b = Some br \<Longrightarrow> read_broker b s = Inr (br, s)"
  by (simp add: read_broker_def)

lemma sub_msgq_run [sub_run]:
  "subscribers s x = Some su \<Longrightarrow> rx_queue su = Rx_msgq q \<Longrightarrow> sub_msgq x s = Inr (q, s)"
  by (simp add: sub_msgq_def sub_run)

lemma lock_run [sub_run]:
  "brokers s b = Some br \<Longrightarrow> lock_sub_list P b s =
    Inr ((), upd_broker b (\<lambda>br. br\<lparr>sub_list_mutex := k_mutex_lock P (sub_list_mutex br)\<rparr>) s)"
  by (simp add: lock_sub_list_def sub_run)

lemma unlock_run [sub_run]:
  "brokers s b = Some br \<Longrightarrow> unlock_sub_list P b s =
    Inr ((), upd_broker b (\<lambda>br. br\<lparr>sub_list_mutex := k_mutex_unlock P (sub_list_mutex br)\<rparr>) s)"
  by (simp add: unlock_sub_list_def sub_run)

lemma msgq_put_run:
  assumes "msgq_laws P" and "subscribers s x = Some su" and "rx_queue su = Rx_msgq q"
    and "msgqs s q = Some k"
  shows "length (msgq_items P k) < msgq_max P k \<Longrightarrow>
      \<exists>k'. msgq_put P x msg t s = Inr (0, write_msgq q k' s) \<and>
        msgq_items P k' = msgq_items P k @ [msg] \<and> msgq_max P k' = msgq_max P k"
    and "msgq_max P k \<le> length (msgq_items P k) \<Longrightarrow> msgq_put P x msg K_FOREVER s = Inl Blocked"
proof -
  assume "length (msgq_items P k) < msgq_max P k"
  then obtain k' where "k_msgq_put P k msg t = Some (0, k')"
    "msgq_items P k' = msgq_items P k @ [msg]" "msgq_max P k' = msgq_max P k"
    using assms(1) unfolding msgq_laws_def by blast
  then show "\<exists>k'. msgq_put P x msg t s = Inr (0, write_msgq q k' s) \<and>
      msgq_items P k' = msgq_items P k @ [msg] \<and> msgq_max P k' = msgq_max P k"
    using assms(2-4) by (auto simp: msgq_put_def sub_run)
next
  assume "msgq_max P k \<le> length (msgq_items P k)"
  then have "k_msgq_put P k msg K_FOREVER = None" using assms(1) unfolding msgq_laws_def by blast
  then show "msgq_put P x msg K_FOREVER s = Inl Blocked"
    using assms(2-4) by (simp add: msgq_put_def sub_run)
qed

lemma msgq_get_run:
  assumes "msgq_laws P" and "subscribers s x = Some su" and "rx_queue su = Rx_msgq q"
    and "msgqs s q = Some k"
  shows "msgq_items P k = m # ms \<Longrightarrow>
      \<exists>k'. msgq_get P x t s = Inr ((0, m), write_msgq q k' s) \<and>
        msgq_items P k' = ms \<and> msgq_max P k' = msgq_max P k"
    and "msgq_items P k = [] \<Longrightarrow> t \<noteq> K_FOREVER \<Longrightarrow>
      \<exists>y k'. msgq_get P x t s =
          Inr ((if t = K_NO_WAIT then - ENOMSG else - EAGAIN, y), write_msgq q k' s) \<and>
        msgq_items P k' = [] \<and> msgq_max P k' = msgq_max P k"
proof -
  assume "msgq_items P k = m # ms"
  then obtain k' where "k_msgq_get P k t = Some (0, m, k')" "msgq_items P k' = ms"
    "msgq_max P k' = msgq_max P k"
    using assms(1) unfolding msgq_laws_def by blast
  then show "\<exists>k'. msgq_get P x t s = Inr ((0, m), write_msgq q k' s) \<and>
      msgq_items P k' = ms \<and> msgq_max P k' = msgq_max P k"
    using assms(2-4) by (auto simp: msgq_get_def sub_run)
next
  assume e: "msgq_items P k = []" and t: "t \<noteq> K_FOREVER"
  have "\<exists>y k'. k_msgq_get P k t = Some (if t = K_NO_WAIT then - ENOMSG else - EAGAIN, y, k') \<and>
      msgq_items P k' = [] \<and> msgq_max P k' = msgq_max P k"
    using assms(1) e t unfolding msgq_laws_def by (cases t) auto
  then show "\<exists>y k'. msgq_get P x t s =
        Inr ((if t = K_NO_WAIT then - ENOMSG else - EAGAIN, y), write_msgq q k' s) \<and>
      msgq_items P k' = [] \<and> msgq_max P k' = msgq_max P k"
    using assms(2-4) by (auto simp: msgq_get_def sub_run)
qed

section \<open>The list of a broker's subscribers\<close>

text \<open>\<open>xs\<close> are the subscribers of broker \<open>b\<close>, in the order of its list; all are set up.\<close>

definition sub_list :: "('k, 'u) platform \<Rightarrow> ('k, 'u) memory \<Rightarrow> ptr \<Rightarrow> ptr list \<Rightarrow> bool" where
  "sub_list P s b xs \<longleftrightarrow> slist_ok P (slists s) \<and> slist_nodes P (slists s) b = xs \<and>
     brokers s b \<noteq> None \<and> (\<forall>x \<in> set xs. sub_ok s x)"

lemma peek_head_run:
  assumes "slist_laws P" and "sub_list P s b xs"
  shows "sys_slist_peek_head P (slists s) b = (case xs of [] \<Rightarrow> NULL | x # _ \<Rightarrow> x)"
  using assms unfolding slist_laws_def sub_list_def by metis

lemma peek_next_run:
  assumes "slist_laws P" and "sub_list P s b (us @ x # ys)"
  shows "sys_slist_peek_next P (slists s) x = (case ys of [] \<Rightarrow> NULL | y # _ \<Rightarrow> y)"
  using assms unfolding slist_laws_def sub_list_def by metis

lemma sub_list_sub_ok: "sub_list P s b xs \<Longrightarrow> x \<in> set xs \<Longrightarrow> sub_ok s x"
  by (auto simp: sub_list_def)

lemma sub_list_distinct: "sub_list P s b xs \<Longrightarrow> distinct xs"
  by (auto simp: sub_list_def slist_ok_def)

lemma sub_ok_not_NULL: "sub_ok s x \<Longrightarrow> x \<noteq> NULL"
  by (auto simp: sub_ok_def)

lemma next_fifo_loop_run:
  assumes "slist_laws P"
  shows "sub_list P s b (us @ ys) \<Longrightarrow> length ys < n \<Longrightarrow>
    next_fifo_loop n P (case ys of [] \<Rightarrow> NULL | y # _ \<Rightarrow> y) i msg s =
      (case find (\<lambda>y. i \<in> subscriptions P s y) ys of
         None \<Rightarrow> Inr ((), s)
       | Some y \<Rightarrow> thenM (pub_sub_acquire_msg P msg) (pub_sub_msg_fifo_put P (Sub_fifo y) msg) s)"
proof (induction ys arbitrary: us n)
  case Nil
  then show ?case by (cases n) auto
next
  case (Cons y ys)
  obtain k where k: "n = Suc k" "length ys < k" using Cons.prems(2) by (cases n) auto
  have o: "sub_ok s y" using sub_list_sub_ok [OF Cons.prems(1)] by simp
  have x: "sys_slist_peek_next P (slists s) y = (case ys of [] \<Rightarrow> NULL | y # _ \<Rightarrow> y)"
    using peek_next_run [OF assms Cons.prems(1)] .
  have r: "next_fifo_loop k P (case ys of [] \<Rightarrow> NULL | y # _ \<Rightarrow> y) i msg s =
      (case find (\<lambda>y. i \<in> subscriptions P s y) ys of
         None \<Rightarrow> Inr ((), s)
       | Some y \<Rightarrow> thenM (pub_sub_acquire_msg P msg) (pub_sub_msg_fifo_put P (Sub_fifo y) msg) s)"
    using Cons.IH [of "us @ [y]" k] Cons.prems(1) k(2) by simp
  show ?case
    using r by (simp add: k(1) sub_ok_not_NULL [OF o] is_subscribed_run [OF o] x del: thenM_run)
qed

text \<open>The locks change nothing the other operations look at.\<close>

lemma fifo_at_upd_broker [simp]:
  "(\<And>br. msg_publish_fifo (f br) = msg_publish_fifo br) \<Longrightarrow> fifo_at g (upd_broker b f s) = fifo_at g s"
  by (cases g) (auto split: option.splits)

lemma sub_views_cong:
  assumes "subscribers s' = subscribers s" and "bitarrays s' = bitarrays s"
  shows "sub_ok s' = sub_ok s" and "subscriptions P s' = subscriptions P s"
  unfolding sub_ok_def [abs_def] subscriptions_def [abs_def] assms by (rule refl)+

lemma sub_ok_upd_broker [simp]: "sub_ok (upd_broker b f s) = sub_ok s"
  and subscriptions_upd_broker [simp]: "subscriptions P (upd_broker b f s) = subscriptions P s"
  and sub_ok_set_atomic_data [simp]: "sub_ok (set_atomic_data m w s) = sub_ok s"
  and subscriptions_set_atomic_data [simp]: "subscriptions P (set_atomic_data m w s) = subscriptions P s"
  and sub_ok_set_fifo_reserved [simp]: "sub_ok (set_fifo_reserved m r s) = sub_ok s"
  and subscriptions_set_fifo_reserved [simp]: "subscriptions P (set_fifo_reserved m r s) = subscriptions P s"
  and sub_ok_write_msgq [simp]: "sub_ok (write_msgq q k s) = sub_ok s"
  and subscriptions_write_msgq [simp]: "subscriptions P (write_msgq q k s) = subscriptions P s"
  by (rule sub_views_cong; simp)+

text \<open>Nor does a write of a FIFO.\<close>

lemma subscribers_set_fifo_fields:
  "map_option subs_bitarray (subscribers (set_fifo f q s) x) = map_option subs_bitarray (subscribers s x)"
  "map_option max_pub_msg_id (subscribers (set_fifo f q s) x) = map_option max_pub_msg_id (subscribers s x)"
  by (cases f; simp add: option.map_comp comp_def)+

lemma subscriptions_by_fields:
  "subscriptions P s x = (case (map_option subs_bitarray (subscribers s x),
       map_option max_pub_msg_id (subscribers s x)) of
     (Some p, Some m) \<Rightarrow> (case bitarrays s p of None \<Rightarrow> {} | Some a \<Rightarrow> {i. i \<le> m \<and> atomic_test_bit P a (unat i)})
   | _ \<Rightarrow> {})"
  by (simp add: subscriptions_def split: option.splits)

lemma sub_ok_by_fields:
  "sub_ok s x \<longleftrightarrow> x \<noteq> NULL \<and> (\<exists>p m a. map_option subs_bitarray (subscribers s x) = Some p \<and>
     map_option max_pub_msg_id (subscribers s x) = Some m \<and> p \<noteq> NULL \<and> bitarrays s p = Some a \<and>
     unat m < 32 * length a \<and> (\<forall>y. y \<noteq> x \<longrightarrow> map_option subs_bitarray (subscribers s y) \<noteq> Some p))"
  by (fastforce simp: sub_ok_def)

lemma sub_ok_set_fifo [simp]: "sub_ok (set_fifo f q s) = sub_ok s"
  and subscriptions_set_fifo [simp]: "subscriptions P (set_fifo f q s) = subscriptions P s"
  unfolding fun_eq_iff sub_ok_by_fields subscriptions_by_fields subscribers_set_fifo_fields
    set_fifo_frame by simp_all

lemma brokers_None_set_fifo [simp]: "(brokers (set_fifo f q s) b = None) = (brokers s b = None)"
  by (cases f) auto

lemma sub_list_upd_broker [simp]: "sub_list P (upd_broker b f s) = sub_list P s"
  and sub_list_set_atomic_data [simp]: "sub_list P (set_atomic_data m w s) = sub_list P s"
  and sub_list_set_fifo_reserved [simp]: "sub_list P (set_fifo_reserved m r s) = sub_list P s"
  and sub_list_set_fifo [simp]: "sub_list P (set_fifo g k s) = sub_list P s"
  and sub_list_write_msgq [simp]: "sub_list P (write_msgq q k s) = sub_list P s"
  by (simp_all add: sub_list_def fun_eq_iff)

text \<open>The items of a subscriber's FIFO and message queue.\<close>

definition fifo_of :: "('k, 'u) platform \<Rightarrow> ('k, 'u) memory \<Rightarrow> ptr \<Rightarrow> ptr list" where
  "fifo_of P s x = (case fifo_at (Sub_fifo x) s of Inl e \<Rightarrow> [] | Inr q \<Rightarrow> fifo_items P q)"

definition is_fifo_sub :: "('k, 'u) memory \<Rightarrow> ptr \<Rightarrow> bool" where
  "is_fifo_sub s x \<longleftrightarrow> (\<exists>su q. subscribers s x = Some su \<and> rx_type su = PUB_SUB_RX_TYPE_FIFO \<and>
     rx_queue su = Rx_fifo q)"

definition sub_lock_depth :: "('k, 'u) platform \<Rightarrow> ('k, 'u) memory \<Rightarrow> ptr \<Rightarrow> nat option" where
  "sub_lock_depth P s b = map_option (\<lambda>br. mutex_depth P (sub_list_mutex br)) (brokers s b)"

text \<open>A message that can be put into a FIFO and can take one more reference.\<close>

definition msg_free :: "('k, 'u) memory \<Rightarrow> ptr \<Rightarrow> bool" where
  "msg_free s msg \<longleftrightarrow> msg \<noteq> NULL \<and> ref_cnt s msg < 255 \<and>
     (\<exists>m. messages s msg = Some m \<and> \<not> fifo_reserved m)"

text \<open>Taking a reference for a FIFO subscriber and putting the message into its FIFO.\<close>

definition hand_over :: "('k, 'u) platform \<Rightarrow> ptr \<Rightarrow> ptr \<Rightarrow> ('k, 'u) memory \<Rightarrow> ('k, 'u) memory" where
  "hand_over P y msg s =
     (case (messages s msg, fifo_at (Sub_fifo y) s) of
        (Some m, Inr q) \<Rightarrow> set_fifo (Sub_fifo y) (k_fifo_put P q msg)
          (set_fifo_reserved msg True (set_atomic_data msg (atomic_data m + 1) s))
      | _ \<Rightarrow> s)"

lemma is_fifo_subE:
  assumes "is_fifo_sub s y"
  obtains su q where "subscribers s y = Some su" and "rx_type su = PUB_SUB_RX_TYPE_FIFO"
    and "rx_queue su = Rx_fifo q" and "fifo_at (Sub_fifo y) s = Inr q"
  using assms by (auto simp: is_fifo_sub_def)

lemma msg_freeE:
  assumes "msg_free s msg"
  obtains m where "messages s msg = Some m" and "msg \<noteq> NULL" and "\<not> fifo_reserved m"
    and "ref_of (atomic_data m) \<noteq> UINT8_MAX" and "ref_cnt s msg = unat (ref_of (atomic_data m))"
    and "ref_cnt s msg < 255"
  using assms by (auto simp: msg_free_def ref_cnt_def unat_less_UINT8_MAX)

lemma hand_over_run:
  assumes "header_laws P" and "msg_free s msg" and "is_fifo_sub s y"
  shows "thenM (pub_sub_acquire_msg P msg) (pub_sub_msg_fifo_put P (Sub_fifo y) msg) s =
    Inr ((), hand_over P y msg s)"
proof -
  obtain m where m: "messages s msg = Some m" "msg \<noteq> NULL" "\<not> fifo_reserved m"
    "ref_of (atomic_data m) \<noteq> UINT8_MAX" using assms(2) by (rule msg_freeE)
  obtain q where q: "fifo_at (Sub_fifo y) s = Inr q" using assms(3) by (rule is_fifo_subE)
  have q': "fifo_at (Sub_fifo y) (set_atomic_data msg w s) = Inr q" for w using q by simp
  show ?thesis
    using m q by (simp add: acquire_run [OF assms(1)] fifo_put_run [OF _ _ q'] hand_over_def
        del: fifo_at.simps)
qed

lemma brokers_set_Sub_fifo: "brokers (set_fifo (Sub_fifo y) q s) = brokers s"
  by simp

lemma hand_over_frame [simp]:
  "brokers (hand_over P y msg s) = brokers s"
  "callback_msgs (hand_over P y msg s) = callback_msgs s"
  "allocator_objs (hand_over P y msg s) = allocator_objs s"
  "g_runtime_allocators (hand_over P y msg s) = g_runtime_allocators s"
  "mem_slabs (hand_over P y msg s) = mem_slabs s"
  "msgqs (hand_over P y msg s) = msgqs s"
  "slists (hand_over P y msg s) = slists s"
  "hsms (hand_over P y msg s) = hsms s"
  "app (hand_over P y msg s) = app s"
  "sub_ok (hand_over P y msg s) = sub_ok s"
  "subscriptions P' (hand_over P y msg s) = subscriptions P' s"
  "sub_list P' (hand_over P y msg s) = sub_list P' s"
  by (simp_all add: hand_over_def brokers_set_Sub_fifo del: fifo_at.simps set_fifo.simps split: option.split sum.split)

lemma hand_over_effect:
  assumes "fifo_laws P" and "msg_free s msg" and "is_fifo_sub s y"
  shows "fifo_of P (hand_over P y msg s) = (fifo_of P s)(y := fifo_of P s y @ [msg])"
    and "ref_cnt (hand_over P y msg s) = (ref_cnt s)(msg := ref_cnt s msg + 1)"
    and "msg_ident (hand_over P y msg s) = msg_ident s"
    and "is_fifo_sub (hand_over P y msg s) = is_fifo_sub s"
    and "map_option fifo_reserved (messages (hand_over P y msg s) msg) = Some True"
proof -
  obtain m where m: "messages s msg = Some m" "msg \<noteq> NULL" "\<not> fifo_reserved m"
    "ref_of (atomic_data m) \<noteq> UINT8_MAX" "ref_cnt s msg = unat (ref_of (atomic_data m))"
    "ref_cnt s msg < 255" using assms(2) by (rule msg_freeE)
  obtain su q where q: "subscribers s y = Some su" "rx_queue su = Rx_fifo q"
    "fifo_at (Sub_fifo y) s = Inr q" using assms(3) by (rule is_fifo_subE)
  let ?s = "set_fifo_reserved msg True (set_atomic_data msg (atomic_data m + 1) s)"
  have e: "hand_over P y msg s = set_fifo (Sub_fifo y) (k_fifo_put P q msg) ?s"
    using m(1) q(3) by (simp add: hand_over_def del: fifo_at.simps set_fifo.simps)
  have p: "fifo_items P (k_fifo_put P q msg) = fifo_items P q @ [msg]"
    using assms(1) by (simp add: fifo_laws_def)
  have ms: "messages (hand_over P y msg s) =
      (messages s)(msg \<mapsto> m\<lparr>atomic_data := atomic_data m + 1, fifo_reserved := True\<rparr>)"
    using m(1) by (simp add: e del: set_fifo.simps)
  have u: "unat (ref_of (atomic_data m) + 1) = unat (ref_of (atomic_data m)) + 1"
    using m(5,6) by (simp add: unat_inc)
  show "fifo_of P (hand_over P y msg s) = (fifo_of P s)(y := fifo_of P s y @ [msg])"
    using q p by (auto simp: e fifo_of_def fun_eq_iff split: option.splits)
  show "ref_cnt (hand_over P y msg s) = (ref_cnt s)(msg := ref_cnt s msg + 1)"
    using m fields_inc [OF m(4)] u by (auto simp: ref_cnt_def ms fun_eq_iff)
  show "msg_ident (hand_over P y msg s) = msg_ident s"
    using m fields_inc [OF m(4)] by (auto simp: msg_ident_def ms fun_eq_iff)
  show "is_fifo_sub (hand_over P y msg s) = is_fifo_sub s"
    using q by (auto simp: e is_fifo_sub_def fun_eq_iff)
  show "map_option fifo_reserved (messages (hand_over P y msg s) msg) = Some True"
    by (simp add: ms)
qed

text \<open>\<open>send_to_next_fifo_subscriber\<close> as a function on memories.\<close>

definition sub_lock :: "('k, 'u) platform \<Rightarrow> ptr \<Rightarrow> ('k, 'u) memory \<Rightarrow> ('k, 'u) memory" where
  "sub_lock P b = upd_broker b (\<lambda>br. br\<lparr>sub_list_mutex := k_mutex_lock P (sub_list_mutex br)\<rparr>)"

definition sub_unlock :: "('k, 'u) platform \<Rightarrow> ptr \<Rightarrow> ('k, 'u) memory \<Rightarrow> ('k, 'u) memory" where
  "sub_unlock P b = upd_broker b (\<lambda>br. br\<lparr>sub_list_mutex := k_mutex_unlock P (sub_list_mutex br)\<rparr>)"

lemma sub_lock_views [simp]:
  "msg_free (sub_lock P b s) = msg_free s" "is_fifo_sub (sub_lock P b s) = is_fifo_sub s"
  "fifo_of P' (sub_lock P b s) = fifo_of P' s" "ref_cnt (sub_lock P b s) = ref_cnt s"
  "msg_ident (sub_lock P b s) = msg_ident s" "messages (sub_lock P b s) = messages s"
  "app (sub_lock P b s) = app s" "subscriptions P' (sub_lock P b s) = subscriptions P' s"
  "msg_free (sub_unlock P b s) = msg_free s" "is_fifo_sub (sub_unlock P b s) = is_fifo_sub s"
  "fifo_of P' (sub_unlock P b s) = fifo_of P' s" "ref_cnt (sub_unlock P b s) = ref_cnt s"
  "msg_ident (sub_unlock P b s) = msg_ident s" "messages (sub_unlock P b s) = messages s"
  "app (sub_unlock P b s) = app s" "subscriptions P' (sub_unlock P b s) = subscriptions P' s"
  by (simp_all add: sub_lock_def sub_unlock_def msg_free_def is_fifo_sub_def fifo_of_def
      ref_cnt_def msg_ident_def fun_eq_iff)

lemma send_to_next_run:
  assumes "header_laws P" and "slist_laws P" and "sub_list P s b (us @ x # ys)"
    and "subscribers s x = Some su" and "broker su = b" and "length ys < fuel P"
    and "msg_free s msg" and "\<forall>y \<in> set ys. is_fifo_sub s y"
  shows "send_to_next_fifo_subscriber P x i msg s = Inr ((), sub_unlock P b
    (case find (\<lambda>y. i \<in> subscriptions P s y) ys of
       None \<Rightarrow> sub_lock P b s
     | Some y \<Rightarrow> hand_over P y msg (sub_lock P b s)))"
proof -
  let ?s = "sub_lock P b s"
  obtain br where br: "brokers s b = Some br" using assms(3) by (auto simp: sub_list_def)
  have l: "sub_list P ?s b ((us @ [x]) @ ys)" "sub_list P ?s b (us @ x # ys)"
    using assms(3) by (simp_all add: sub_lock_def)
  have f: "is_fifo_sub ?s y" if "find (\<lambda>y. i \<in> subscriptions P s y) ys = Some y" for y
    using that assms(8) by (auto simp: find_Some_iff)
  have br1: "brokers ?s b \<noteq> None" using br by (simp add: sub_lock_def)
  have lp: "next_fifo_loop (fuel P) P (case ys of [] \<Rightarrow> NULL | y # _ \<Rightarrow> y) i msg ?s = Inr ((),
      case find (\<lambda>y. i \<in> subscriptions P s y) ys of None \<Rightarrow> ?s | Some y \<Rightarrow> hand_over P y msg ?s)"
    using next_fifo_loop_run [OF assms(2) l(1) assms(6)] hand_over_run [OF assms(1) _ f] assms(7)
    by (simp split: option.split del: thenM_run)
  have lock: "lock_sub_list P b s = Inr ((), ?s)" using br by (simp add: lock_run sub_lock_def)
  have un: "unlock_sub_list P b s' = Inr ((), sub_unlock P b s')" if "brokers s' b \<noteq> None" for s'
    using that by (auto simp: unlock_run sub_unlock_def)
  show ?thesis
    using assms(4,5) lock lp un br1 peek_next_run [OF assms(2) l(2)]
    by (simp add: send_to_next_fifo_subscriber_def sub_run Let_def split: option.split)
qed

text \<open>What the operations on FIFOs leave alone: everything but the contents of the FIFOs of
  subscribers, the headers of messages, the locks and the application's memory.\<close>

definition only_fifos :: "('k, 'u) memory \<Rightarrow> ('k, 'u) memory \<Rightarrow> bool" where
  "only_fifos s s' \<longleftrightarrow> bitarrays s' = bitarrays s \<and> slists s' = slists s \<and> msgqs s' = msgqs s \<and>
     delayable_msgs s' = delayable_msgs s \<and> g_runtime_allocators s' = g_runtime_allocators s \<and>
     allocator_objs s' = allocator_objs s \<and> mem_slabs s' = mem_slabs s \<and>
     (\<forall>c. map_option msg_publish_fifo (brokers s' c) = map_option msg_publish_fifo (brokers s c)) \<and>
     (\<forall>z. subscribers s' z = subscribers s z \<or>
        (\<exists>su q q'. subscribers s z = Some su \<and> rx_type su = PUB_SUB_RX_TYPE_FIFO \<and> rx_queue su = Rx_fifo q \<and>
           subscribers s' z = Some (su\<lparr>rx_queue := Rx_fifo q'\<rparr>)))"

lemma only_fifos_refl: "only_fifos s s"
  by (simp add: only_fifos_def)

lemma only_fifos_trans:
  assumes "only_fifos s s1" and "only_fifos s1 s2"
  shows "only_fifos s s2"
proof -
  have "subscribers s2 z = subscribers s z \<or>
        (\<exists>su q q'. subscribers s z = Some su \<and> rx_type su = PUB_SUB_RX_TYPE_FIFO \<and> rx_queue su = Rx_fifo q \<and>
           subscribers s2 z = Some (su\<lparr>rx_queue := Rx_fifo q'\<rparr>))" for z
  proof (cases "subscribers s2 z = subscribers s1 z")
    case True
    then show ?thesis using assms(1) by (auto simp: only_fifos_def)
  next
    case False
    then obtain su1 q q' where 1: "subscribers s1 z = Some su1" "rx_type su1 = PUB_SUB_RX_TYPE_FIFO"
      "rx_queue su1 = Rx_fifo q" "subscribers s2 z = Some (su1\<lparr>rx_queue := Rx_fifo q'\<rparr>)"
      using assms(2) unfolding only_fifos_def by blast
    show ?thesis
    proof (cases "subscribers s1 z = subscribers s z")
      case True
      then have "subscribers s z = Some su1" using 1(1) by simp
      then show ?thesis using 1 by blast
    next
      case False
      then obtain su p where "subscribers s z = Some su" "rx_type su = PUB_SUB_RX_TYPE_FIFO"
        "rx_queue su = Rx_fifo p" "\<exists>p'. subscribers s1 z = Some (su\<lparr>rx_queue := Rx_fifo p'\<rparr>)"
        using assms(1) unfolding only_fifos_def by blast
      then show ?thesis using 1 by auto
    qed
  qed
  then show ?thesis using assms by (simp add: only_fifos_def)
qed

lemma only_fifos_locks [simp]:
  "only_fifos s (sub_lock P b s1) = only_fifos s s1" "only_fifos s (sub_unlock P b s1) = only_fifos s s1"
  by (auto simp: only_fifos_def sub_lock_def sub_unlock_def option.map_comp comp_def)

lemma only_fifos_headers [simp]:
  "only_fifos s (set_atomic_data m w s1) = only_fifos s s1"
  "only_fifos s (set_fifo_reserved m r s1) = only_fifos s s1"
  "only_fifos s (s1\<lparr>app := a\<rparr>) = only_fifos s s1"
  by (simp_all add: only_fifos_def)

lemma only_fifos_set_fifo:
  assumes "is_fifo_sub s x"
  shows "only_fifos s (set_fifo (Sub_fifo x) q s)"
  using assms by (auto simp: only_fifos_def is_fifo_sub_def)

lemma only_fifos_hand_over: "is_fifo_sub s x \<Longrightarrow> only_fifos s (hand_over P x m s)"
  unfolding hand_over_def
  by (auto simp del: set_fifo.simps fifo_at.simps simp: only_fifos_refl split: option.split sum.split
      intro!: only_fifos_trans [OF _ only_fifos_set_fifo])
    (simp_all add: only_fifos_refl is_fifo_sub_def)

text \<open>Whether a message is linked in a FIFO.\<close>

definition link_flag :: "('k, 'u) memory \<Rightarrow> ptr \<Rightarrow> bool option" where
  "link_flag s m = map_option fifo_reserved (messages s m)"

lemma link_flag_frames [simp]:
  "link_flag (set_atomic_data m w s) = link_flag s" "link_flag (s\<lparr>app := a\<rparr>) = link_flag s"
  "link_flag (sub_lock P b s) = link_flag s" "link_flag (sub_unlock P b s) = link_flag s"
  "link_flag (set_fifo f q s) = link_flag s"
  "link_flag (set_fifo_reserved m r s) = (link_flag s)(m := map_option (\<lambda>_. r) (link_flag s m))"
  by (auto simp: link_flag_def fun_eq_iff set_atomic_data_def set_fifo_reserved_def option.map_comp comp_def)

lemma link_flag_hand_over:
  assumes "msg_free s m" and "is_fifo_sub s y"
  shows "link_flag (hand_over P y m s) = (link_flag s)(m := Some True)"
proof -
  obtain h where h: "messages s m = Some h" using assms(1) by (auto simp: msg_free_def)
  obtain q where q: "fifo_at (Sub_fifo y) s = Inr q" using assms(2) by (rule is_fifo_subE)
  have "hand_over P y m s = set_fifo (Sub_fifo y) (k_fifo_put P q m)
      (set_fifo_reserved m True (set_atomic_data m (atomic_data h + 1) s))"
    using h q by (simp add: hand_over_def del: set_fifo.simps fifo_at.simps)
  then show ?thesis using h by (simp add: link_flag_def [of s m] fun_eq_iff del: set_fifo.simps)
qed

text \<open>Handlers that note what they are called with, and do nothing else.\<close>

definition quiet_handlers ::
  "('k, 'u) platform \<Rightarrow> ('u \<Rightarrow> (nat \<times> uint16 \<times> ptr \<times> ptr) list) \<Rightarrow> bool" where
  "quiet_handlers P log \<longleftrightarrow> (\<forall>f i m d s. \<exists>a. user_handler P f i m d s = Inr ((), s\<lparr>app := a\<rparr>) \<and>
     log a = log (app s) @ [(f, i, m, d)])"

lemma fifo_at_app [simp]: "fifo_at g (s\<lparr>app := a\<rparr>) = fifo_at g s"
  by (cases g) simp_all

lemma app_update_views [simp]:
  "fifo_of P (s\<lparr>app := a\<rparr>) = fifo_of P s" "ref_cnt (s\<lparr>app := a\<rparr>) = ref_cnt s"
  "msg_ident (s\<lparr>app := a\<rparr>) = msg_ident s" "is_fifo_sub (s\<lparr>app := a\<rparr>) = is_fifo_sub s"
  by (simp_all add: fifo_of_def ref_cnt_def msg_ident_def is_fifo_sub_def fun_eq_iff)

lemma fifo_of_set_atomic_data [simp]: "fifo_of P (set_atomic_data m w s) = fifo_of P s"
  by (simp add: fifo_of_def fun_eq_iff)

text \<open>Taking the head of a subscriber's FIFO.\<close>

lemma fifo_get_effect:
  assumes "fifo_laws P" and "is_fifo_sub s x" and "fifo_of P s x = m # ms" and "m \<noteq> NULL"
    and "messages s m = Some h"
  shows "\<exists>s1. pub_sub_msg_fifo_get P (Sub_fifo x) t s = Inr (m, s1) \<and>
    fifo_of P s1 = (fifo_of P s)(x := ms) \<and> ref_cnt s1 = ref_cnt s \<and> msg_ident s1 = msg_ident s \<and>
    is_fifo_sub s1 = is_fifo_sub s \<and> sub_list P s1 = sub_list P s \<and>
    subscriptions P s1 = subscriptions P s \<and> app s1 = app s \<and>
    delayable_msgs s1 = delayable_msgs s \<and> g_runtime_allocators s1 = g_runtime_allocators s \<and>
    messages s1 = (messages s)(m \<mapsto> h\<lparr>fifo_reserved := False\<rparr>) \<and> only_fifos s s1 \<and>
    (\<forall>su. subscribers s x = Some su \<longrightarrow> (\<exists>q'. subscribers s1 x = Some (su\<lparr>rx_queue := Rx_fifo q'\<rparr>)))"
proof -
  obtain su q where q: "subscribers s x = Some su" "rx_queue su = Rx_fifo q" "fifo_at (Sub_fifo x) s = Inr q"
    using assms(2) by (rule is_fifo_subE)
  have i: "fifo_items P q = m # ms" using assms(3) q(3) by (simp add: fifo_of_def)
  obtain q' where q': "fifo_items P q' = ms" "pub_sub_msg_fifo_get P (Sub_fifo x) t s =
      Inr (m, set_fifo (Sub_fifo x) q' (set_fifo_reserved m False s))"
    using fifo_get_run [OF assms(1) q(3) i, of t] assms(4) by auto
  let ?s = "set_fifo (Sub_fifo x) q' (set_fifo_reserved m False s)"
  have ms: "messages ?s = (messages s)(m \<mapsto> h\<lparr>fifo_reserved := False\<rparr>)" using assms(5) by simp
  have v: "ref_cnt ?s = ref_cnt s" "msg_ident ?s = msg_ident s"
    unfolding ref_cnt_def [abs_def] msg_ident_def [abs_def] ms using assms(5) by (auto simp: fun_eq_iff)
  have f: "fifo_of P ?s = (fifo_of P s)(x := ms)" "is_fifo_sub ?s = is_fifo_sub s"
    using q q'(1) by (auto simp: fifo_of_def is_fifo_sub_def fun_eq_iff)
  have l: "sub_list P ?s = sub_list P s" "subscriptions P ?s = subscriptions P s"
    by (simp_all del: set_fifo.simps)
  have o: "only_fifos s ?s"
    by (rule only_fifos_trans [OF _ only_fifos_set_fifo])
      (use assms(2) in \<open>simp_all add: only_fifos_refl is_fifo_sub_def\<close>)
  show ?thesis
    by (rule exI [of _ ?s]) (use q'(2) ms v f l o in auto)
qed

text \<open>Releasing a reference, in terms of the views.\<close>

lemma release_effect:
  assumes "header_laws P" and "valid_msg s m" and "0 < ref_cnt s m" and "msg_ident s m = Some (i, aid)"
    and "num_allocators (g_runtime_allocators s) \<le> length (allocators (g_runtime_allocators s))"
  shows "\<exists>s1 w. s1 = set_atomic_data m w s \<and> ref_cnt s1 = (ref_cnt s)(m := ref_cnt s m - 1) \<and>
    msg_ident s1 = msg_ident s \<and>
    pub_sub_release_msg P m s = (if ref_cnt s m = 1 then free_by_id P m aid s1 else Inr ((), s1))"
proof -
  obtain h where h: "messages s m = Some h" "m \<noteq> NULL" using assms(2) by (rule valid_msgE)
  let ?r = "ref_of (atomic_data h)"
  have r: "?r \<noteq> 0" and c: "ref_cnt s m = unat ?r" using assms(3) h(1) by (auto simp: ref_cnt_def)
  have a: "alloc_of (atomic_data h) = aid" "id_of (atomic_data h) = i"
    using assms(4) h(1) by (auto simp: msg_ident_def)
  have u: "unat (?r - 1) = unat ?r - 1" using r by (simp add: unat_minus_one)
  have one: "?r = 1 \<longleftrightarrow> ref_cnt s m = 1" by (simp add: c word_unat_eq_iff)
  let ?s = "set_atomic_data m (atomic_data h - 1) s"
  have "ref_cnt ?s = (ref_cnt s)(m := ref_cnt s m - 1)" "msg_ident ?s = msg_ident s"
    using h(1) fields_dec [OF r] u c a by (auto simp: valid_set_atomic_data msg_ident_def fun_eq_iff)
  moreover have "pub_sub_release_msg P m s = (if ref_cnt s m = 1 then free_by_id P m aid ?s else Inr ((), ?s))"
    using release_run [OF assms(1) h assms(5)] r one a(1) by (simp add: Let_def)
  ultimately show ?thesis by blast
qed

lemma valid_by_ident: "valid_msg s m \<longleftrightarrow> m \<noteq> NULL \<and> msg_ident s m \<noteq> None"
  by (simp add: valid_msg_def msg_ident_def)

lemma hand_over_handler_data:
  "map_option handler_data (subscribers (hand_over P y msg s) x) = map_option handler_data (subscribers s x)"
  by (auto simp: hand_over_def option.map_comp comp_def split: option.split sum.split)

lemma sub_handle_quiet:
  assumes "quiet_handlers P log"
    and "map_option handler_data (subscribers s x) = Some \<lparr>msg_handler = User_handler f, user_data = d\<rparr>"
  shows "\<exists>a. sub_handle P x i m s = Inr ((), s\<lparr>app := a\<rparr>) \<and> log a = log (app s) @ [(f, i, m, d)]"
proof -
  obtain su where "subscribers s x = Some su" "handler_data su = \<lparr>msg_handler = User_handler f, user_data = d\<rparr>"
    using assms(2) by auto
  then show ?thesis using assms(1) by (simp add: sub_handle_def sub_run quiet_handlers_def)
qed

lemma fifo_relay_run:
  assumes "header_laws P" and "fifo_laws P" and "slist_laws P" and "quiet_handlers P log"
    and "sub_list P s b (us @ x # ys)" and "length ys < fuel P"
    and "num_allocators (g_runtime_allocators s) \<le> length (allocators (g_runtime_allocators s))"
    and "\<forall>y \<in> set (x # ys). is_fifo_sub s y"
    and "subscribers s x = Some su" and "broker su = b" and "i \<le> max_pub_msg_id su"
    and "handler_data su = \<lparr>msg_handler = User_handler f, user_data = d\<rparr>"
    and "fifo_of P s x = m # ms" and "valid_msg s m" and "msg_ident s m = Some (i, aid)"
    and "0 < ref_cnt s m" and "ref_cnt s m < 255"
  shows "\<exists>s1. log (app s1) = log (app s) @ [(f, i, m, d)] \<and>
    (case find (\<lambda>y. i \<in> subscriptions P s y) ys of
       None \<Rightarrow> fifo_of P s1 = (fifo_of P s)(x := ms) \<and> ref_cnt s1 = (ref_cnt s)(m := ref_cnt s m - 1)
     | Some y \<Rightarrow> fifo_of P s1 = (fifo_of P s)(x := ms, y := fifo_of P s y @ [m]) \<and> ref_cnt s1 = ref_cnt s) \<and>
    pub_sub_handle_queued_msg P x t s =
      (if ref_cnt s1 m = 0 then thenM (free_by_id P m aid) (ret 0) s1 else Inr (0, s1)) \<and>
    msg_ident s1 = msg_ident s \<and> only_fifos s s1 \<and>
    link_flag s1 = (link_flag s)(m := Some (find (\<lambda>y. i \<in> subscriptions P s y) ys \<noteq> None))"
proof -
  obtain h where h: "messages s m = Some h" "m \<noteq> NULL" using assms(14) by (rule valid_msgE)
  have xf: "is_fifo_sub s x" using assms(8) by simp
  have ti: "rx_type su = PUB_SUB_RX_TYPE_FIFO" using xf assms(9) by (auto simp: is_fifo_sub_def)
  have "sub_ok s x" using sub_list_sub_ok [OF assms(5)] by simp
  then have x0: "x \<noteq> NULL" by (rule sub_ok_not_NULL)
  obtain sa q' where sa: "pub_sub_msg_fifo_get P (Sub_fifo x) t s = Inr (m, sa)"
    "fifo_of P sa = (fifo_of P s)(x := ms)" "ref_cnt sa = ref_cnt s" "msg_ident sa = msg_ident s"
    "is_fifo_sub sa = is_fifo_sub s" "sub_list P sa = sub_list P s" "subscriptions P sa = subscriptions P s"
    "app sa = app s" "g_runtime_allocators sa = g_runtime_allocators s"
    "messages sa = (messages s)(m \<mapsto> h\<lparr>fifo_reserved := False\<rparr>)"
    "subscribers sa x = Some (su\<lparr>rx_queue := Rx_fifo q'\<rparr>)" "only_fifos s sa"
    using fifo_get_effect [OF assms(2) xf assms(13) h(2,1), of t] assms(9) by blast
  have id: "id_of (atomic_data h) = i" "alloc_of (atomic_data h) = aid"
    using assms(15) h(1) by (auto simp: msg_ident_def)
  have gid: "pub_sub_msg_get_msg_id P m sa = Inr (i, sa)"
    using get_msg_id_run [OF assms(1), of sa m "h\<lparr>fifo_reserved := False\<rparr>"] sa(10) h(2) id by simp
  have free: "msg_free sa m" using sa(3,10) h(2) assms(17) by (simp add: msg_free_def)
  define y where "y = find (\<lambda>y. i \<in> subscriptions P s y) ys"
  define sb where "sb = sub_unlock P b (case y of None \<Rightarrow> sub_lock P b sa | Some y \<Rightarrow> hand_over P y m (sub_lock P b sa))"
  have send: "send_to_next_fifo_subscriber P x i m sa = Inr ((), sb)"
    using send_to_next_run [OF assms(1,3), of sa b us x ys _ m i] sa(5,6,7,11) assms(5,6,8,10) free
    by (simp add: sb_def y_def)
  have yf: "is_fifo_sub sa z" "x \<noteq> z" if "y = Some z" for z
  proof -
    have "z \<in> set ys" using that by (auto simp: y_def find_Some_iff)
    then show "is_fifo_sub sa z" "x \<noteq> z"
      using sub_list_distinct [OF assms(5)] assms(8) sa(5) by auto
  qed
  have vb: "fifo_of P sb = (case y of None \<Rightarrow> fifo_of P sa | Some z \<Rightarrow> (fifo_of P sa)(z := fifo_of P sa z @ [m]))"
    "ref_cnt sb = (case y of None \<Rightarrow> ref_cnt sa | Some z \<Rightarrow> (ref_cnt sa)(m := ref_cnt sa m + 1))"
    "msg_ident sb = msg_ident sa"
    using hand_over_effect [OF assms(2), of "sub_lock P b sa" m] yf free
    by (auto simp: sb_def split: option.split)
  then have "valid_msg sb m" using sa(4) assms(15) h(2) by (simp add: valid_by_ident)
  note vb = vb this
  have hb: "map_option handler_data (subscribers sb x) = Some (handler_data su)" "app sb = app s"
    "g_runtime_allocators sb = g_runtime_allocators s"
    using sa(8,9,11) hand_over_handler_data [of P _ m "sub_lock P b sa" x]
    by (auto simp: sb_def sub_lock_def sub_unlock_def split: option.split)
  obtain a where a: "sub_handle P x i m sb = Inr ((), sb\<lparr>app := a\<rparr>)"
    "log a = log (app s) @ [(f, i, m, d)]"
    using sub_handle_quiet [OF assms(4), of sb x f d i m] hb(1,2) assms(12) by auto
  let ?sc = "sb\<lparr>app := a\<rparr>"
  have pos: "0 < ref_cnt ?sc m" using vb(2) sa(3) assms(16) by (simp split: option.split)
  obtain s1 w where s1: "s1 = set_atomic_data m w ?sc" "ref_cnt s1 = (ref_cnt ?sc)(m := ref_cnt ?sc m - 1)"
    "pub_sub_release_msg P m ?sc = (if ref_cnt ?sc m = 1 then free_by_id P m aid s1 else Inr ((), s1))"
    "msg_ident s1 = msg_ident ?sc"
    using release_effect [OF assms(1) _ pos, of i aid] vb(3,4) sa(4) assms(7,15) hb(3)
    by (auto simp: valid_msg_def)
  have "pub_sub_handle_queued_msg P x t s =
      (if ref_cnt s1 m = 0 then thenM (free_by_id P m aid) (ret 0) s1 else Inr (0, s1))"
    using x0 assms(9,11,12) ti sa(1,11) h(2) gid send a(1) s1(2,3) pos
    by (simp add: pub_sub_handle_queued_msg_def sub_run assert_handler_def)
  moreover have "log (app s1) = log (app s) @ [(f, i, m, d)]" using s1(1) a(2) by simp
  moreover have "case y of
       None \<Rightarrow> fifo_of P s1 = (fifo_of P s)(x := ms) \<and> ref_cnt s1 = (ref_cnt s)(m := ref_cnt s m - 1)
     | Some z \<Rightarrow> fifo_of P s1 = (fifo_of P s)(x := ms, z := fifo_of P s z @ [m]) \<and> ref_cnt s1 = ref_cnt s"
    using s1(1,2) vb(1,2) sa(2,3) yf(2) by (auto split: option.split)
  moreover have "msg_ident s1 = msg_ident s" using s1(4) vb(3) sa(4) by simp
  moreover have "only_fifos s s1"
    using only_fifos_trans [OF sa(12)] only_fifos_trans [of sa "sub_lock P b sa"] yf(1)
      only_fifos_hand_over [of "sub_lock P b sa"] sa(12)
    by (auto simp: s1(1) sb_def only_fifos_refl split: option.split)
  moreover have "link_flag sa = (link_flag s)(m := Some False)" by (simp add: link_flag_def sa(10) fun_eq_iff)
  then have "link_flag s1 = (link_flag s)(m := Some (y \<noteq> None))"
    using link_flag_hand_over [of "sub_lock P b sa" m] yf(1) free
    by (auto simp: s1(1) sb_def split: option.split)
  ultimately show ?thesis unfolding y_def by blast
qed

lemma handle_private_run:
  assumes "header_laws P" and "fifo_laws P" and "quiet_handlers P log" and "is_fifo_sub s x" and "x \<noteq> NULL"
    and "subscribers s x = Some su" and "handler_data su = \<lparr>msg_handler = User_handler f, user_data = d\<rparr>"
    and "max_pub_msg_id su < i" and "fifo_of P s x = m # ms" and "valid_msg s m"
    and "msg_ident s m = Some (i, aid)" and "0 < ref_cnt s m"
    and "num_allocators (g_runtime_allocators s) \<le> length (allocators (g_runtime_allocators s))"
  shows "\<exists>s1. log (app s1) = log (app s) @ [(f, i, m, d)] \<and> fifo_of P s1 = (fifo_of P s)(x := ms) \<and>
    ref_cnt s1 = (ref_cnt s)(m := ref_cnt s m - 1) \<and> msg_ident s1 = msg_ident s \<and>
    pub_sub_handle_queued_msg P x t s =
      (if ref_cnt s m = 1 then thenM (free_by_id P m aid) (ret 0) s1 else Inr (0, s1)) \<and>
    link_flag s1 = (link_flag s)(m := Some False) \<and> only_fifos s s1 \<and> delayable_msgs s1 = delayable_msgs s \<and>
    g_runtime_allocators s1 = g_runtime_allocators s \<and> is_fifo_sub s1 = is_fifo_sub s \<and>
    (\<exists>q'. subscribers s1 x = Some (su\<lparr>rx_queue := Rx_fifo q'\<rparr>))"
proof -
  obtain h where h: "messages s m = Some h" "m \<noteq> NULL" using assms(10) by (rule valid_msgE)
  have ti: "rx_type su = PUB_SUB_RX_TYPE_FIFO" using assms(4,6) by (auto simp: is_fifo_sub_def)
  obtain sa q' where sa: "pub_sub_msg_fifo_get P (Sub_fifo x) t s = Inr (m, sa)"
    "fifo_of P sa = (fifo_of P s)(x := ms)" "ref_cnt sa = ref_cnt s" "msg_ident sa = msg_ident s"
    "is_fifo_sub sa = is_fifo_sub s" "app sa = app s" "delayable_msgs sa = delayable_msgs s"
    "g_runtime_allocators sa = g_runtime_allocators s"
    "messages sa = (messages s)(m \<mapsto> h\<lparr>fifo_reserved := False\<rparr>)"
    "subscribers sa x = Some (su\<lparr>rx_queue := Rx_fifo q'\<rparr>)" "only_fifos s sa"
    using fifo_get_effect [OF assms(2,4,9) h(2,1), of t] assms(6) by blast
  have id: "id_of (atomic_data h) = i" using assms(11) h(1) by (auto simp: msg_ident_def)
  have gid: "pub_sub_msg_get_msg_id P m sa = Inr (i, sa)"
    using get_msg_id_run [OF assms(1), of sa m "h\<lparr>fifo_reserved := False\<rparr>"] sa(9) h(2) id by simp
  obtain a where a: "sub_handle P x i m sa = Inr ((), sa\<lparr>app := a\<rparr>)" "log a = log (app s) @ [(f, i, m, d)]"
    using sub_handle_quiet [OF assms(3), of sa x f d i m] sa(6,10) assms(7) by auto
  let ?sc = "sa\<lparr>app := a\<rparr>"
  have v: "valid_msg ?sc m" using sa(9) h(2) by (simp add: valid_msg_def)
  obtain s1 w where s1: "s1 = set_atomic_data m w ?sc" "ref_cnt s1 = (ref_cnt ?sc)(m := ref_cnt ?sc m - 1)"
    "msg_ident s1 = msg_ident ?sc"
    "pub_sub_release_msg P m ?sc = (if ref_cnt ?sc m = 1 then free_by_id P m aid s1 else Inr ((), s1))"
    using release_effect [OF assms(1) v, of i aid] assms(11-13) sa(3,4,8) by auto
  have pv: "\<not> i \<le> max_pub_msg_id su" using assms(8) by simp
  have "pub_sub_handle_queued_msg P x t s =
      (if ref_cnt s m = 1 then thenM (free_by_id P m aid) (ret 0) s1 else Inr (0, s1))"
    using pv assms(5-7) ti sa(1,3,10) h(2) gid a(1) s1(4)
    by (simp add: pub_sub_handle_queued_msg_def sub_run assert_handler_def)
  moreover have "log (app s1) = log (app s) @ [(f, i, m, d)]" "fifo_of P s1 = (fifo_of P s)(x := ms)"
    "ref_cnt s1 = (ref_cnt s)(m := ref_cnt s m - 1)" "msg_ident s1 = msg_ident s"
    using s1(1-3) a(2) sa(2-4) by simp_all
  moreover have "link_flag s1 = (link_flag s)(m := Some False)" "only_fifos s s1"
    using s1(1) sa(11) by (simp_all add: link_flag_def sa(9) fun_eq_iff)
  moreover have "delayable_msgs s1 = delayable_msgs s"
    "g_runtime_allocators s1 = g_runtime_allocators s" "is_fifo_sub s1 = is_fifo_sub s"
    "subscribers s1 x = Some (su\<lparr>rx_queue := Rx_fifo q'\<rparr>)"
    using s1(1) sa(5,7-10) by (simp_all add: is_fifo_sub_def fun_eq_iff)
  ultimately show ?thesis by blast
qed

lemma publish_private_run:
  assumes "header_laws P" and "fifo_laws P" and "msgq_laws P" and "subscribers s x = Some su"
    and "x \<noteq> NULL" and "messages s m = Some h" and "m \<noteq> NULL"
    and "max_pub_msg_id su < id_of (atomic_data h)"
    and "msg_handler (handler_data su) \<noteq> Handler_NULL"
    and "rx_type su = PUB_SUB_RX_TYPE_MSGQ \<longrightarrow> rx_queue su = Rx_msgq q \<and> msgqs s q = Some k"
    and "rx_type su = PUB_SUB_RX_TYPE_FIFO \<longrightarrow> is_fifo_sub s x \<and> \<not> fifo_reserved h"
  shows "case rx_type su of
      PUB_SUB_RX_TYPE_CALLBACK \<Rightarrow> pub_sub_publish_to_subscriber P x m s =
        thenM (call_handler P (msg_handler (handler_data su)) (id_of (atomic_data h)) m
                 (user_data (handler_data su))) (pub_sub_release_msg P m) s
    | PUB_SUB_RX_TYPE_MSGQ \<Rightarrow>
        if length (msgq_items P k) < msgq_max P k
        then \<exists>k'. pub_sub_publish_to_subscriber P x m s = Inr ((), write_msgq q k' s) \<and>
          msgq_items P k' = msgq_items P k @ [m] \<and> msgq_max P k' = msgq_max P k
        else pub_sub_publish_to_subscriber P x m s = Inl Blocked
    | PUB_SUB_RX_TYPE_FIFO \<Rightarrow> \<exists>s'. pub_sub_publish_to_subscriber P x m s = Inr ((), s') \<and>
        fifo_of P s' = (fifo_of P s)(x := fifo_of P s x @ [m]) \<and> ref_cnt s' = ref_cnt s \<and>
        msg_ident s' = msg_ident s \<and> only_fifos s s' \<and> link_flag s' = (link_flag s)(m := Some True) \<and>
        app s' = app s"
proof -
  have a: "z_assertM P (bindM (pub_sub_msg_get_msg_id P m) (\<lambda>i. ret (i > max_pub_msg_id su))) s = Inr ((), s)"
    using get_msg_id_run [OF assms(1,6,7)] assms(8) by (simp add: z_assertM_def)
  have g: "pub_sub_msg_get_msg_id P m s = Inr (id_of (atomic_data h), s)"
    using get_msg_id_run [OF assms(1,6,7)] .
  show ?thesis
  proof (cases "rx_type su")
    case PUB_SUB_RX_TYPE_CALLBACK
    then show ?thesis using assms(4,5,9) a g
      by (simp add: pub_sub_publish_to_subscriber_def sub_run assert_handler_def sub_handle_def)
  next
    case PUB_SUB_RX_TYPE_MSGQ
    then have q: "rx_queue su = Rx_msgq q" "msgqs s q = Some k" using assms(10) by auto
    have e: "pub_sub_publish_to_subscriber P x m s = discard (msgq_put P x m K_FOREVER) s"
      using PUB_SUB_RX_TYPE_MSGQ assms(4,5) a by (simp add: pub_sub_publish_to_subscriber_def sub_run)
    show ?thesis
    proof (cases "length (msgq_items P k) < msgq_max P k")
      case True
      then show ?thesis
        using msgq_put_run(1) [OF assms(3,4) q True, of m K_FOREVER] PUB_SUB_RX_TYPE_MSGQ e by auto
    next
      case False
      then have "msgq_put P x m K_FOREVER s = Inl Blocked"
        by (intro msgq_put_run(2) [OF assms(3,4) q]) simp
      then show ?thesis using PUB_SUB_RX_TYPE_MSGQ e False by simp
    qed
next
    case PUB_SUB_RX_TYPE_FIFO
    then obtain q where q: "subscribers s x = Some su" "rx_queue su = Rx_fifo q" "fifo_at (Sub_fifo x) s = Inr q"
      using assms(4,11) by (auto simp: is_fifo_sub_def)
    let ?s = "set_fifo (Sub_fifo x) (k_fifo_put P q m) (set_fifo_reserved m True s)"
    have "pub_sub_publish_to_subscriber P x m s = Inr ((), ?s)"
      using PUB_SUB_RX_TYPE_FIFO assms(4,5,11) a fifo_put_run [OF assms(6,7) q(3)]
      by (simp add: pub_sub_publish_to_subscriber_def sub_run)
    moreover have "fifo_items P (k_fifo_put P q m) = fifo_items P q @ [m]"
      using assms(2) by (simp add: fifo_laws_def)
    then have "fifo_of P ?s = (fifo_of P s)(x := fifo_of P s x @ [m])"
      using q by (auto simp: fifo_of_def fun_eq_iff)
    moreover have "ref_cnt ?s = ref_cnt s"
      using assms(6) by (auto simp: ref_cnt_def fun_eq_iff)
    moreover have "msg_ident ?s = msg_ident s" "link_flag ?s = (link_flag s)(m := Some True)"
      using assms(6) by (auto simp: msg_ident_def link_flag_def fun_eq_iff)
    moreover have "only_fifos s ?s"
      by (rule only_fifos_trans [OF _ only_fifos_set_fifo])
        (use PUB_SUB_RX_TYPE_FIFO assms(4,11) in \<open>simp_all add: only_fifos_refl is_fifo_sub_def\<close>)
    ultimately show ?thesis using PUB_SUB_RX_TYPE_FIFO by (simp del: set_fifo.simps)
  qed
qed

section \<open>Properties\<close>

text \<open>C14. A FIFO subscriber that handles a public message first passes it on to the next subscriber
  in the broker's list that has subscribed to it, and only to that one; then its handler is
  called, once; then its reference is released, so that the message has moved from one FIFO to
  the other with its reference count unchanged. With no further subscriber the count drops by
  one, and a message without references is given back to its allocator.\<close>

theorem fifo_relay:
  assumes "header_laws P" and "fifo_laws P" and "slist_laws P" and "quiet_handlers P log"
    and "sub_list P s b (us @ x # ys)" and "length ys < fuel P"
    and "num_allocators (g_runtime_allocators s) \<le> length (allocators (g_runtime_allocators s))"
    and "\<forall>y \<in> set (x # ys). is_fifo_sub s y"
    and "subscribers s x = Some su" and "broker su = b" and "i \<le> max_pub_msg_id su"
    and "handler_data su = \<lparr>msg_handler = User_handler f, user_data = d\<rparr>"
    and "fifo_of P s x = m # ms" and "valid_msg s m" and "msg_ident s m = Some (i, aid)"
    and "0 < ref_cnt s m" and "ref_cnt s m < 255"
  shows "\<exists>s1. log (app s1) = log (app s) @ [(f, i, m, d)] \<and>
    (case find (\<lambda>y. i \<in> subscriptions P s y) ys of
       None \<Rightarrow> fifo_of P s1 = (fifo_of P s)(x := ms) \<and> ref_cnt s1 = (ref_cnt s)(m := ref_cnt s m - 1)
     | Some y \<Rightarrow> fifo_of P s1 = (fifo_of P s)(x := ms, y := fifo_of P s y @ [m]) \<and> ref_cnt s1 = ref_cnt s) \<and>
    pub_sub_handle_queued_msg P x t s =
      (if ref_cnt s1 m = 0 then thenM (free_by_id P m aid) (ret 0) s1 else Inr (0, s1))"
  using fifo_relay_run [OF assms] by blast

text \<open>C34. When there is nothing to handle: a callback subscriber is refused with \<open>-EPERM\<close>, an empty FIFO and an
  empty message queue asked without waiting answer \<open>-ENOMSG\<close>, and an empty message queue whose waiting
  period is over answers \<open>-EAGAIN\<close> (where the comment in subscriber.h promises \<open>-ENOMSG\<close>). Nothing in memory
  changes but the kernel's object of the subscriber's own queue, which is still empty and as large as before:
  no other subscriber or queue, no message, and nothing of the application.\<close>

theorem handle_queued_nothing:
  assumes "fifo_laws P" and "msgq_laws P" and "subscribers s x = Some su" and "x \<noteq> NULL"
    and "case rx_type su of PUB_SUB_RX_TYPE_CALLBACK \<Rightarrow> True
      | PUB_SUB_RX_TYPE_MSGQ \<Rightarrow> t \<noteq> K_FOREVER \<and>
          (\<exists>q k. rx_queue su = Rx_msgq q \<and> msgqs s q = Some k \<and> msgq_items P k = [])
      | PUB_SUB_RX_TYPE_FIFO \<Rightarrow> t \<noteq> K_FOREVER \<and> is_fifo_sub s x \<and> fifo_of P s x = []"
  shows "\<exists>s'. pub_sub_handle_queued_msg P x t s = Inr (case rx_type su of
        PUB_SUB_RX_TYPE_CALLBACK \<Rightarrow> - EPERM
      | PUB_SUB_RX_TYPE_MSGQ \<Rightarrow> (if t = K_NO_WAIT then - ENOMSG else - EAGAIN)
      | PUB_SUB_RX_TYPE_FIFO \<Rightarrow> - ENOMSG, s') \<and>
    (case rx_type su of
        PUB_SUB_RX_TYPE_CALLBACK \<Rightarrow> s' = s
      | PUB_SUB_RX_TYPE_MSGQ \<Rightarrow> (\<exists>q k k'. rx_queue su = Rx_msgq q \<and> msgqs s q = Some k \<and> msgq_items P k' = [] \<and>
          msgq_max P k' = msgq_max P k \<and> s' = s\<lparr>msgqs := (msgqs s)(q \<mapsto> k')\<rparr>)
      | PUB_SUB_RX_TYPE_FIFO \<Rightarrow> (\<exists>q'. fifo_items P q' = [] \<and>
          s' = s\<lparr>subscribers := (subscribers s)(x \<mapsto> su\<lparr>rx_queue := Rx_fifo q'\<rparr>)\<rparr>))"
proof (cases "rx_type su")
  case PUB_SUB_RX_TYPE_CALLBACK
  then show ?thesis using assms(3,4) by (simp add: pub_sub_handle_queued_msg_def sub_run)
next
  case PUB_SUB_RX_TYPE_MSGQ
  then obtain q k where q: "rx_queue su = Rx_msgq q" "msgqs s q = Some k" "msgq_items P k = []"
    and t: "t \<noteq> K_FOREVER"
    using assms(5) by auto
  obtain y k' where k': "msgq_get P x t s =
      Inr ((if t = K_NO_WAIT then - ENOMSG else - EAGAIN, y), write_msgq q k' s)"
    "msgq_items P k' = []" "msgq_max P k' = msgq_max P k"
    using msgq_get_run(2) [OF assms(2,3) q(1,2,3) t] by blast
  have "pub_sub_handle_queued_msg P x t s = Inr (if t = K_NO_WAIT then - ENOMSG else - EAGAIN, write_msgq q k' s)"
    using PUB_SUB_RX_TYPE_MSGQ assms(3,4) k'(1) by (auto simp: pub_sub_handle_queued_msg_def sub_run)
  then show ?thesis using PUB_SUB_RX_TYPE_MSGQ q k'(2,3) by (auto simp: write_msgq_def)
next
  case PUB_SUB_RX_TYPE_FIFO
  then have f: "is_fifo_sub s x" "fifo_of P s x = []" "t \<noteq> K_FOREVER" using assms(5) by auto
  obtain q where q: "fifo_at (Sub_fifo x) s = Inr q" using f(1) by (rule is_fifo_subE)
  have "fifo_items P q = []" using f(2) q by (simp add: fifo_of_def)
  then obtain q' where "fifo_items P q' = []" "pub_sub_msg_fifo_get P (Sub_fifo x) t s = Inr (NULL, set_fifo (Sub_fifo x) q' s)"
    using fifo_get_empty [OF assms(1) q _ f(3)] by blast
  then show ?thesis
    using PUB_SUB_RX_TYPE_FIFO assms(3,4) by (auto simp: pub_sub_handle_queued_msg_def sub_run)
qed

text \<open>The head of a message queue is taken out of it and given to the handler together with its
  id and the subscriber's data; then the subscriber's reference is released; the result is 0.\<close>

lemma handle_queued_msgq:
  assumes "header_laws P" and "msgq_laws P" and "subscribers s x = Some su" and "x \<noteq> NULL"
    and "rx_type su = PUB_SUB_RX_TYPE_MSGQ" and "rx_queue su = Rx_msgq q" and "msgqs s q = Some k"
    and "msgq_items P k = m # ms" and "messages s m = Some h" and "m \<noteq> NULL"
    and "msg_handler (handler_data su) \<noteq> Handler_NULL"
  shows "\<exists>k'. msgq_items P k' = ms \<and> pub_sub_handle_queued_msg P x t s =
    thenM (call_handler P (msg_handler (handler_data su)) (id_of (atomic_data h)) m (user_data (handler_data su)))
      (thenM (pub_sub_release_msg P m) (ret 0)) (write_msgq q k' s)"
proof -
  obtain k' where k': "msgq_get P x t s = Inr ((0, m), write_msgq q k' s)" "msgq_items P k' = ms"
    using msgq_get_run(1) [OF assms(2,3,6,7,8)] by blast
  have "pub_sub_msg_get_msg_id P m (write_msgq q k' s) = Inr (id_of (atomic_data h), write_msgq q k' s)"
    using get_msg_id_run [OF assms(1) _ assms(10)] assms(9) by simp
  then show ?thesis
    using assms(3-5,11) k'
    by (intro exI [of _ k']) (simp add: pub_sub_handle_queued_msg_def sub_run assert_handler_def sub_handle_def)
qed

text \<open>A private message published to one subscriber is handled and released at once by a
  callback subscriber, appended to the message queue of a message queue subscriber (the
  publisher waits for ever when the queue is full), and appended to the FIFO of a FIFO
  subscriber.\<close>

lemma publish_private:
  assumes "header_laws P" and "fifo_laws P" and "msgq_laws P" and "subscribers s x = Some su"
    and "x \<noteq> NULL" and "messages s m = Some h" and "m \<noteq> NULL"
    and "max_pub_msg_id su < id_of (atomic_data h)"
    and "msg_handler (handler_data su) \<noteq> Handler_NULL"
    and "rx_type su = PUB_SUB_RX_TYPE_MSGQ \<longrightarrow> rx_queue su = Rx_msgq q \<and> msgqs s q = Some k"
    and "rx_type su = PUB_SUB_RX_TYPE_FIFO \<longrightarrow> is_fifo_sub s x \<and> \<not> fifo_reserved h"
  shows "case rx_type su of
      PUB_SUB_RX_TYPE_CALLBACK \<Rightarrow> pub_sub_publish_to_subscriber P x m s =
        thenM (call_handler P (msg_handler (handler_data su)) (id_of (atomic_data h)) m
                 (user_data (handler_data su))) (pub_sub_release_msg P m) s
    | PUB_SUB_RX_TYPE_MSGQ \<Rightarrow>
        if length (msgq_items P k) < msgq_max P k
        then \<exists>k'. pub_sub_publish_to_subscriber P x m s = Inr ((), write_msgq q k' s) \<and>
          msgq_items P k' = msgq_items P k @ [m]
        else pub_sub_publish_to_subscriber P x m s = Inl Blocked
    | PUB_SUB_RX_TYPE_FIFO \<Rightarrow> \<exists>s'. pub_sub_publish_to_subscriber P x m s = Inr ((), s') \<and>
        fifo_of P s' = (fifo_of P s)(x := fifo_of P s x @ [m]) \<and> ref_cnt s' = ref_cnt s"
  using publish_private_run [OF assms] by (cases "rx_type su") (auto split: if_splits)

text \<open>A private message in a FIFO is for its subscriber alone: handling it calls the handler once
  and releases the reference that the FIFO held, and no other FIFO changes; with the last
  reference gone the message is given back to its allocator.\<close>

lemma handle_private:
  assumes "header_laws P" and "fifo_laws P" and "quiet_handlers P log" and "is_fifo_sub s x" and "x \<noteq> NULL"
    and "subscribers s x = Some su" and "handler_data su = \<lparr>msg_handler = User_handler f, user_data = d\<rparr>"
    and "max_pub_msg_id su < i" and "fifo_of P s x = m # ms" and "valid_msg s m"
    and "msg_ident s m = Some (i, aid)" and "0 < ref_cnt s m"
    and "num_allocators (g_runtime_allocators s) \<le> length (allocators (g_runtime_allocators s))"
  shows "\<exists>s1. log (app s1) = log (app s) @ [(f, i, m, d)] \<and> fifo_of P s1 = (fifo_of P s)(x := ms) \<and>
    ref_cnt s1 = (ref_cnt s)(m := ref_cnt s m - 1) \<and> msg_ident s1 = msg_ident s \<and>
    pub_sub_handle_queued_msg P x t s =
      (if ref_cnt s m = 1 then thenM (free_by_id P m aid) (ret 0) s1 else Inr (0, s1))"
  using handle_private_run [OF assms] by blast

text \<open>C38. A FIFO subscriber that was removed from its broker while a public message was waiting in
  its FIFO cannot handle the message: it follows the \<open>NULL\<close> pointer of its broker.\<close>

theorem handle_after_removal:
  assumes "header_laws P" and "fifo_laws P" and "is_fifo_sub s x" and "x \<noteq> NULL"
    and "subscribers s x = Some su" and "broker su = NULL" and "brokers s NULL = None"
    and "msg_handler (handler_data su) \<noteq> Handler_NULL"
    and "fifo_of P s x = m # ms" and "valid_msg s m" and "msg_ident s m = Some (i, aid)"
    and "i \<le> max_pub_msg_id su"
  shows "pub_sub_handle_queued_msg P x t s = Inl Bad_pointer"
proof -
  obtain h where h: "messages s m = Some h" "m \<noteq> NULL" using assms(10) by (rule valid_msgE)
  have ti: "rx_type su = PUB_SUB_RX_TYPE_FIFO" using assms(3,5) by (auto simp: is_fifo_sub_def)
  have id: "id_of (atomic_data h) = i" using assms(11) h(1) by (auto simp: msg_ident_def)
  obtain q where q: "fifo_at (Sub_fifo x) s = Inr q" using assms(3) by (rule is_fifo_subE)
  have "fifo_items P q = m # ms" using assms(9) q by (simp add: fifo_of_def)
  then obtain q' where g: "pub_sub_msg_fifo_get P (Sub_fifo x) t s =
      Inr (m, set_fifo (Sub_fifo x) q' (set_fifo_reserved m False s))"
    using fifo_get_run [OF assms(2) q, of m ms t] h(2) by auto
  let ?s = "set_fifo (Sub_fifo x) q' (set_fifo_reserved m False s)"
  have "pub_sub_msg_get_msg_id P m ?s = Inr (i, ?s)"
    using get_msg_id_run [OF assms(1), of ?s m "h\<lparr>fifo_reserved := False\<rparr>"] h id by (simp del: set_fifo.simps)
  moreover have "send_to_next_fifo_subscriber P x i m ?s = Inl Bad_pointer"
    using assms(5-7)
    by (simp add: send_to_next_fifo_subscriber_def read_sub_def Let_def lock_sub_list_def read_broker_def)
  ultimately show ?thesis
    using assms(4,5,8,12) ti g h(2)
    by (simp add: pub_sub_handle_queued_msg_def read_sub_def assert_handler_def)
qed

text \<open>Polling: a poll event for a message queue or FIFO subscriber watches that subscriber's
  queue for data; a callback subscriber has nothing to poll and leaves the event alone.\<close>

lemma populate_poll_event:
  assumes "poll_laws P" and "subscribers s x = Some su" and "x \<noteq> NULL" and "e \<noteq> NULL"
    and "rx_type su = PUB_SUB_RX_TYPE_MSGQ \<longrightarrow> rx_queue su = Rx_msgq q"
  shows "\<exists>s'. pub_sub_populate_poll_evt P x e s =
      Inr (if rx_type su = PUB_SUB_RX_TYPE_CALLBACK then - EPERM else 0, s') \<and>
    map_option (poll_event_of P) (poll_events s' e) = (case rx_type su of
        PUB_SUB_RX_TYPE_CALLBACK \<Rightarrow> map_option (poll_event_of P) (poll_events s e)
      | PUB_SUB_RX_TYPE_MSGQ \<Rightarrow> Some (K_POLL_TYPE_MSGQ_DATA_AVAILABLE, Msgq_at q)
      | PUB_SUB_RX_TYPE_FIFO \<Rightarrow> Some (K_POLL_TYPE_FIFO_DATA_AVAILABLE, Rx_fifo_of x))"
  using assms
  by (cases "rx_type su") (auto simp: pub_sub_populate_poll_evt_def sub_run poll_laws_def)

section \<open>Examples\<close>

text \<open>A platform whose handlers note their arguments, and a broker, number 9, with two FIFO
  subscribers, 4 and 6, both subscribed to message id 3; message 2 has this id and waits in the
  first FIFO.\<close>

definition noting_platform :: "(kobj, (nat \<times> uint16 \<times> ptr \<times> ptr) list) platform" where
  "noting_platform = ref_platform\<lparr>user_handler := \<lambda>f i m d. modifyM (\<lambda>s. s\<lparr>app := app s @ [(f, i, m, d)]\<rparr>)\<rparr>"

lemma noting_laws:
  "header_laws noting_platform" "fifo_laws noting_platform" "msgq_laws noting_platform"
  "slist_laws noting_platform" "mutex_laws noting_platform" "quiet_handlers noting_platform (\<lambda>u. u)"
  by (simp_all add: noting_platform_def header_laws_def ref_laws quiet_handlers_def)

definition a_subscriber :: "pub_sub_rx_type \<Rightarrow> kobj rx_queue \<Rightarrow> ptr \<Rightarrow> nat \<Rightarrow> uint8 \<Rightarrow> kobj pub_sub_subscriber" where
  "a_subscriber k queue bits f prio =
     \<lparr>broker = 9, handler_data = \<lparr>msg_handler = User_handler f, user_data = NULL\<rparr>, rx_queue = queue,
      subs_bitarray = bits, rx_type = k, max_pub_msg_id = 9, priority = prio\<rparr>"

definition a_world ::
  "bool \<Rightarrow> uint32 \<Rightarrow> (ptr \<rightharpoonup> kobj pub_sub_subscriber) \<Rightarrow> ptr list \<Rightarrow>
   (kobj, (nat \<times> uint16 \<times> ptr \<times> ptr) list) memory" where
  "a_world linked w subs xs = (ref_memory [])\<lparr>
     messages := [2 \<mapsto> \<lparr>fifo_reserved = linked, atomic_data = w\<rparr>],
     subscribers := subs,
     bitarrays := [5 \<mapsto> [8], 7 \<mapsto> [8], 11 \<mapsto> [8]],
     brokers := [9 \<mapsto> \<lparr>msg_publish_fifo = kobj0, sub_list_mutex = kobj0, publish_work = kobj0,
       publish_work_poll_event = kobj0\<rparr>],
     slists := kobj0\<lparr>k_lists := [(9, xs)]\<rparr>\<rparr>"

lemma a_world_sel [simp]:
  "messages (a_world linked w subs xs) = [2 \<mapsto> \<lparr>fifo_reserved = linked, atomic_data = w\<rparr>]"
  "subscribers (a_world linked w subs xs) = subs"
  "bitarrays (a_world linked w subs xs) = [5 \<mapsto> [8], 7 \<mapsto> [8], 11 \<mapsto> [8]]"
  "brokers (a_world linked w subs xs) = [9 \<mapsto> \<lparr>msg_publish_fifo = kobj0, sub_list_mutex = kobj0,
     publish_work = kobj0, publish_work_poll_event = kobj0\<rparr>]"
  "slists (a_world linked w subs xs) = kobj0\<lparr>k_lists := [(9, xs)]\<rparr>"
  "g_runtime_allocators (a_world linked w subs xs) = \<lparr>allocators = [], num_allocators = 0, mutex = kobj0\<rparr>"
  "app (a_world linked w subs xs) = []"
  by (simp_all add: a_world_def ref_memory_def)

lemma a_word:
  "id_of 0x0003FE01 = 3" "alloc_of 0x0003FE01 = PUB_SUB_ALLOC_ID_STATIC_MSG" "ref_of 0x0003FE01 = 1"
  by (simp_all add: word_unat_eq_iff unat_id_of unat_alloc_of unat_ref_of alloc_id_defs)

lemma a_world_msg:
  "valid_msg (a_world linked 0x0003FE01 subs xs) 2"
  "msg_ident (a_world linked 0x0003FE01 subs xs) 2 = Some (3, PUB_SUB_ALLOC_ID_STATIC_MSG)"
  "ref_cnt (a_world linked 0x0003FE01 subs xs) 2 = 1"
  by (simp_all add: valid_msg_def msg_ident_def ref_cnt_def a_word)

lemma noting_sel [simp]:
  "fifo_items noting_platform = k_items" "msgq_items noting_platform = k_items"
  "msgq_max noting_platform = k_cap" "slist_nodes noting_platform = ref_nodes"
  "fuel noting_platform = 20"
  "atomic_test_bit noting_platform = (\<lambda>a i. bit (a ! (i div 32)) (i mod 32))"
  by (simp_all add: noting_platform_def)

definition two_fifos :: "(kobj, (nat \<times> uint16 \<times> ptr \<times> ptr) list) memory" where
  "two_fifos = a_world True 0x0003FE01
     [4 \<mapsto> a_subscriber PUB_SUB_RX_TYPE_FIFO (Rx_fifo (kobj0\<lparr>k_items := [2]\<rparr>)) 5 0 0,
      6 \<mapsto> a_subscriber PUB_SUB_RX_TYPE_FIFO (Rx_fifo kobj0) 7 1 0] [4, 6]"

theorem fifo_relay_witness:
  "\<exists>s1. pub_sub_handle_queued_msg noting_platform 4 K_NO_WAIT two_fifos = Inr (0, s1) \<and>
     app s1 = [(0, 3, 2, NULL)] \<and> fifo_of noting_platform s1 4 = [] \<and>
     fifo_of noting_platform s1 6 = [2] \<and> ref_cnt s1 2 = 1"
proof -
  have sl: "sub_list noting_platform two_fifos 9 ([] @ 4 # [6])"
    by (auto simp: sub_list_def slist_ok_def two_fifos_def ref_nodes_def sub_ok_def a_subscriber_def)
  have fs: "\<forall>y \<in> set [4, 6]. is_fifo_sub two_fifos y"
    by (simp add: is_fifo_sub_def two_fifos_def a_subscriber_def)
  have su: "subscribers two_fifos 4 = Some (a_subscriber PUB_SUB_RX_TYPE_FIFO (Rx_fifo (kobj0\<lparr>k_items := [2]\<rparr>)) 5 0 0)"
    by (simp add: two_fifos_def)
  have f: "fifo_of noting_platform two_fifos 4 = 2 # []" "fifo_of noting_platform two_fifos 6 = []"
    by (simp_all add: fifo_of_def two_fifos_def a_subscriber_def kobj0_def)
  have sb: "3 \<in> subscriptions noting_platform two_fifos 6"
    by (simp add: subscriptions_def two_fifos_def a_subscriber_def bit_numeral_rec)
  have m: "valid_msg two_fifos 2" "msg_ident two_fifos 2 = Some (3, PUB_SUB_ALLOC_ID_STATIC_MSG)"
    "ref_cnt two_fifos 2 = 1"
    by (simp_all add: two_fifos_def a_world_msg)
  obtain s1 where "app s1 = app two_fifos @ [(0, 3, 2, NULL)] \<and>
    (case find (\<lambda>y. 3 \<in> subscriptions noting_platform two_fifos y) [6] of
       None \<Rightarrow> fifo_of noting_platform s1 = (fifo_of noting_platform two_fifos)(4 := []) \<and>
         ref_cnt s1 = (ref_cnt two_fifos)(2 := ref_cnt two_fifos 2 - 1)
     | Some y \<Rightarrow> fifo_of noting_platform s1 = (fifo_of noting_platform two_fifos)(4 := [],
           y := fifo_of noting_platform two_fifos y @ [2]) \<and> ref_cnt s1 = ref_cnt two_fifos) \<and>
    pub_sub_handle_queued_msg noting_platform 4 K_NO_WAIT two_fifos =
      (if ref_cnt s1 2 = 0 then thenM (free_by_id noting_platform 2 PUB_SUB_ALLOC_ID_STATIC_MSG) (ret 0) s1
       else Inr (0, s1))"
    using fifo_relay [OF noting_laws(1,2,4,6) sl _ _ fs su _ _ _ f(1) m(1,2), of 0 NULL K_NO_WAIT] m(3)
    by (auto simp: a_subscriber_def two_fifos_def)
  then show ?thesis using sb f(2) m(3) by (auto simp: two_fifos_def)
qed

theorem handle_queued_nothing_witness:
  "\<exists>s'. pub_sub_handle_queued_msg ref_platform 4 K_NO_WAIT (one_sub PUB_SUB_RX_TYPE_FIFO (Rx_fifo kobj0) 0) =
     Inr (- ENOMSG, s') \<and> messages s' = messages (one_sub PUB_SUB_RX_TYPE_FIFO (Rx_fifo kobj0) 0)"
proof -
  let ?s = "one_sub PUB_SUB_RX_TYPE_FIFO (Rx_fifo kobj0) 0"
  obtain su where su: "subscribers ?s 4 = Some su" "rx_type su = PUB_SUB_RX_TYPE_FIFO"
    "is_fifo_sub ?s 4" "fifo_of ref_platform ?s 4 = []"
    by (simp add: one_sub_def is_fifo_sub_def fifo_of_def kobj0_def)
  show ?thesis
    using handle_queued_nothing [OF ref_fifo_laws ref_msgq_laws su(1), of K_NO_WAIT] su(2-4) by auto
qed

definition one_msgq :: "uint32 \<Rightarrow> ptr list \<Rightarrow> (kobj, unit) memory" where
  "one_msgq w items = (one_sub PUB_SUB_RX_TYPE_MSGQ (Rx_msgq 8) 0)\<lparr>
     messages := [2 \<mapsto> \<lparr>fifo_reserved = False, atomic_data = w\<rparr>],
     msgqs := [8 \<mapsto> kobj0\<lparr>k_items := items, k_cap := 2\<rparr>]\<rparr>"

lemma publish_private_example:
  "\<exists>k'. pub_sub_publish_to_subscriber ref_platform 4 2 (one_msgq 0x000AFE01 [3]) =
     Inr ((), write_msgq 8 k' (one_msgq 0x000AFE01 [3])) \<and> msgq_items ref_platform k' = [3, 2]"
proof -
  let ?s = "one_msgq 0x000AFE01 [3]" and ?k = "kobj0\<lparr>k_items := [3], k_cap := 2\<rparr>"
  obtain su where su: "subscribers ?s 4 = Some su" "rx_type su = PUB_SUB_RX_TYPE_MSGQ"
    "rx_queue su = Rx_msgq 8" "msg_handler (handler_data su) \<noteq> Handler_NULL" "max_pub_msg_id su = 9"
    by (simp add: one_msgq_def one_sub_def)
  have m: "messages ?s 2 = Some \<lparr>fifo_reserved = False, atomic_data = 0x000AFE01\<rparr>"
    and q: "msgqs ?s 8 = Some ?k"
    by (simp_all add: one_msgq_def)
  have i: "id_of 0x000AFE01 = 10" by (simp add: word_unat_eq_iff unat_id_of)
  show ?thesis
    using publish_private [OF ref_header_laws ref_fifo_laws ref_msgq_laws su(1) _ m _ _ su(4), of 8 ?k]
      su(2,3,5) q i by simp
qed

lemma handle_private_example:
  "\<exists>s1. pub_sub_handle_queued_msg noting_platform 4 K_NO_WAIT (a_world True 0x000AFE02
       [4 \<mapsto> a_subscriber PUB_SUB_RX_TYPE_FIFO (Rx_fifo (kobj0\<lparr>k_items := [2]\<rparr>)) 5 0 0] [4]) = Inr (0, s1) \<and>
     app s1 = [(0, 10, 2, NULL)] \<and> ref_cnt s1 2 = 1"
proof -
  let ?su = "a_subscriber PUB_SUB_RX_TYPE_FIFO (Rx_fifo (kobj0\<lparr>k_items := [2]\<rparr>)) 5 0 0"
  let ?s = "a_world True 0x000AFE02 [4 \<mapsto> ?su] [4]"
  have w: "id_of 0x000AFE02 = 10" "ref_of 0x000AFE02 = 2"
    by (simp_all add: word_unat_eq_iff unat_id_of unat_ref_of)
  have v: "is_fifo_sub ?s 4" "subscribers ?s 4 = Some ?su"
    "handler_data ?su = \<lparr>msg_handler = User_handler 0, user_data = NULL\<rparr>"
    "max_pub_msg_id ?su < 10" "fifo_of noting_platform ?s 4 = 2 # []" "valid_msg ?s 2"
    "msg_ident ?s 2 = Some (10, alloc_of 0x000AFE02)" "ref_cnt ?s 2 = 2"
    by (simp_all add: is_fifo_sub_def a_subscriber_def fifo_of_def kobj0_def valid_msg_def msg_ident_def
        ref_cnt_def w)
  show ?thesis
    using handle_private [OF noting_laws(1,2,6) v(1) _ v(2-7), of K_NO_WAIT] v(8) by auto
qed

theorem handle_after_removal_witness:
  "pub_sub_handle_queued_msg ref_platform 4 K_NO_WAIT
     (one_sub PUB_SUB_RX_TYPE_FIFO (Rx_fifo (kobj0\<lparr>k_items := [2]\<rparr>)) 0) = Inl Bad_pointer"
proof -
  let ?s = "one_sub PUB_SUB_RX_TYPE_FIFO (Rx_fifo (kobj0\<lparr>k_items := [2]\<rparr>)) 0"
  obtain su where su: "subscribers ?s 4 = Some su" "broker su = NULL" "max_pub_msg_id su = 9"
    "msg_handler (handler_data su) \<noteq> Handler_NULL"
    by (simp add: one_sub_def)
  have v: "is_fifo_sub ?s 4" "fifo_of ref_platform ?s 4 = 2 # []" "valid_msg ?s 2" "brokers ?s NULL = None"
    "msg_ident ?s 2 = Some (id_of 0, alloc_of 0)"
    by (simp_all add: one_sub_def is_fifo_sub_def fifo_of_def valid_msg_def msg_ident_def one_msg_def
        ref_memory_def)
  have i: "id_of 0 = 0" by (simp add: word_unat_eq_iff unat_id_of)
  show ?thesis
    by (rule handle_after_removal [OF ref_header_laws ref_fifo_laws v(1) _ su(1,2) v(4) su(4) v(2,3,5)])
      (simp_all add: i)
qed

end
