(* ===== verification/Broker.thy ===== *)
theory Broker imports Subscriber begin

text \<open>
  The broker, \<open>include/pub_sub/broker.h\<close> and \<open>lib/pub_sub/broker.c\<close>: its list of
  subscribers, the FIFO of published messages, and the work item that distributes them. This
  theory holds all operations, and the results on the order of the list of subscribers: groups
  of the same type stay together and sorted by priority, but the order of the groups that the
  code relies on is kept only under a condition. Theory Delivery has the results on messages.
\<close>

section \<open>The operations\<close>

definition set_slists :: "('k \<Rightarrow> 'k) \<Rightarrow> ('k, 'u) memory \<Rightarrow> ('k, 'u) memory" where
  "set_slists f s = s\<lparr>slists := f (slists s)\<rparr>"

definition pub_sub_init_broker :: "('k, 'u) platform \<Rightarrow> ptr \<Rightarrow> (('k, 'u) memory, unit) prog" where
  "pub_sub_init_broker P b =
     thenM (z_assert P (b \<noteq> NULL))
    (thenM (read_broker b)
    (thenM (modifyM (upd_broker b (\<lambda>br. br\<lparr>msg_publish_fifo := k_fifo_init P\<rparr>)))
    (thenM (modifyM (upd_broker b (\<lambda>br. br\<lparr>publish_work := k_work_poll_init P\<rparr>)))
    (thenM (modifyM (upd_broker b (\<lambda>br. br\<lparr>sub_list_mutex := k_mutex_init P\<rparr>)))
    (thenM (modifyM (set_slists (\<lambda>l. sys_slist_init P l b)))
    (thenM (modifyM (upd_broker b (\<lambda>br. br\<lparr>publish_work_poll_event :=
       k_poll_event_init P K_POLL_TYPE_FIFO_DATA_AVAILABLE K_POLL_MODE_NOTIFY_ONLY (Publish_fifo_of b)\<rparr>)))
     (modifyM (upd_broker b (\<lambda>br. br\<lparr>publish_work :=
       k_work_poll_submit P (publish_work br) (publish_work_poll_event br) K_FOREVER\<rparr>)))))))))"

text \<open>\<open>SYS_SLIST_PEEK_NEXT_CONTAINER\<close>, which is \<open>NULL\<close> after \<open>NULL\<close>.\<close>

definition peek_next_container :: "('k, 'u) platform \<Rightarrow> ptr \<Rightarrow> (('k, 'u) memory, ptr) prog" where
  "peek_next_container P x =
     (if x = NULL then ret NULL else getsM (\<lambda>s. sys_slist_peek_next P (slists s) x))"

text \<open>The two loops of \<open>pub_sub_add_subscriber_to_broker\<close>; each returns \<open>prev_node\<close> and
  \<open>current\<close>. The first argument is the fuel.\<close>

fun find_rx_type ::
  "nat \<Rightarrow> ('k, 'u) platform \<Rightarrow> pub_sub_rx_type \<Rightarrow> ptr \<Rightarrow> ptr \<Rightarrow> (('k, 'u) memory, ptr \<times> ptr) prog" where
  "find_rx_type 0 P k prev_node current = raise Out_of_fuel"
| "find_rx_type (Suc n) P k prev_node current =
     (if current = NULL then ret (prev_node, current)
      else bindM (read_sub current) (\<lambda>cu.
        if rx_type cu = k then ret (prev_node, current)
        else bindM (peek_next_container P current) (\<lambda>next.
          find_rx_type n P k current next)))"

fun find_priority ::
  "nat \<Rightarrow> ('k, 'u) platform \<Rightarrow> pub_sub_rx_type \<Rightarrow> uint8 \<Rightarrow> ptr \<Rightarrow> ptr \<Rightarrow> (('k, 'u) memory, ptr \<times> ptr) prog" where
  "find_priority 0 P k prio prev_node current = raise Out_of_fuel"
| "find_priority (Suc n) P k prio prev_node current =
     (if current = NULL then ret (prev_node, current)
      else bindM (read_sub current) (\<lambda>cu.
        if priority cu > prio \<or> rx_type cu \<noteq> k then ret (prev_node, current)
        else bindM (peek_next_container P current) (\<lambda>next.
          find_priority n P k prio current next)))"

definition pub_sub_add_subscriber_to_broker ::
  "('k, 'u) platform \<Rightarrow> ptr \<Rightarrow> ptr \<Rightarrow> (('k, 'u) memory, unit) prog" where
  "pub_sub_add_subscriber_to_broker P b sub =
     thenM (z_assert P (b \<noteq> NULL))
    (thenM (z_assert P (sub \<noteq> NULL))
    (thenM (assert_handler P sub)
    (bindM (read_sub sub) (\<lambda>su.
     thenM (z_assert P (broker su = NULL))
    (thenM (modifyM (upd_sub sub (\<lambda>su. su\<lparr>broker := b\<rparr>)))
    (thenM (lock_sub_list P b)
    (bindM (getsM (\<lambda>s. sys_slist_peek_head P (slists s) b)) (\<lambda>head.
     bindM (find_rx_type (fuel P) P (rx_type su) NULL head) (\<lambda>(prev1, current1).
     bindM (find_priority (fuel P) P (rx_type su) (priority su) prev1 current1) (\<lambda>(prev2, current2).
     thenM (modifyM (set_slists (\<lambda>l. sys_slist_insert P l b prev2 sub)))
     (unlock_sub_list P b)))))))))))"

definition pub_sub_subscriber_remove_broker ::
  "('k, 'u) platform \<Rightarrow> ptr \<Rightarrow> (('k, 'u) memory, unit) prog" where
  "pub_sub_subscriber_remove_broker P sub =
     thenM (z_assert P (sub \<noteq> NULL))
    (bindM (read_sub sub) (\<lambda>su.
     thenM (z_assert P (broker su \<noteq> NULL))
    (let b = broker su in
     thenM (lock_sub_list P b)
    (thenM (modifyM (set_slists (\<lambda>l. sys_slist_find_and_remove P l b sub)))
    (thenM (unlock_sub_list P b)
     (modifyM (upd_sub sub (\<lambda>su. su\<lparr>broker := NULL\<rparr>))))))))"

definition pub_sub_publish_to_broker :: "('k, 'u) platform \<Rightarrow> ptr \<Rightarrow> ptr \<Rightarrow> (('k, 'u) memory, unit) prog" where
  "pub_sub_publish_to_broker P b msg =
     thenM (z_assert P (b \<noteq> NULL))
    (thenM (z_assert P (msg \<noteq> NULL))
     (pub_sub_msg_fifo_put P (Msg_publish_fifo b) msg))"

text \<open>The body of the \<open>switch\<close> in \<open>process_msg\<close>: what a subscriber of each type gets, and
  the new value of \<open>fifo_sub_handled\<close>.\<close>

definition deliver_to ::
  "('k, 'u) platform \<Rightarrow> ptr \<Rightarrow> uint16 \<Rightarrow> ptr \<Rightarrow> bool \<Rightarrow> (('k, 'u) memory, bool) prog" where
  "deliver_to P sub msg_id msg fifo_sub_handled =
     bindM (read_sub sub) (\<lambda>su.
     case rx_type su of
       PUB_SUB_RX_TYPE_CALLBACK \<Rightarrow>
         thenM (assert_handler P sub)
        (thenM (sub_handle P sub msg_id msg)
         (ret fifo_sub_handled))
     | PUB_SUB_RX_TYPE_MSGQ \<Rightarrow>
         thenM (pub_sub_acquire_msg P msg)
        (thenM (discard (msgq_put P sub msg K_FOREVER))
         (ret fifo_sub_handled))
     | PUB_SUB_RX_TYPE_FIFO \<Rightarrow>
         if \<not> fifo_sub_handled then
           thenM (pub_sub_acquire_msg P msg)
          (thenM (pub_sub_msg_fifo_put P (Sub_fifo sub) msg)
           (ret True))
         else ret fifo_sub_handled)"

text \<open>\<open>SYS_SLIST_FOR_EACH_CONTAINER_SAFE\<close>: the successor \<open>tmp\<close> is read before the body
  runs.\<close>

fun process_loop ::
  "nat \<Rightarrow> ('k, 'u) platform \<Rightarrow> ptr \<Rightarrow> ptr \<Rightarrow> uint16 \<Rightarrow> ptr \<Rightarrow> bool \<Rightarrow> (('k, 'u) memory, unit) prog" where
  "process_loop 0 P sub tmp msg_id msg fifo_sub_handled = raise Out_of_fuel"
| "process_loop (Suc n) P sub tmp msg_id msg fifo_sub_handled =
     (if sub = NULL then ret ()
      else bindM (is_subscribed P sub msg_id) (\<lambda>wanted.
        bindM (if wanted then deliver_to P sub msg_id msg fifo_sub_handled else ret False) (\<lambda>handled.
        if wanted \<and> handled then ret ()
        else bindM (peek_next_container P tmp) (\<lambda>tmp'.
          process_loop n P tmp tmp' msg_id msg (if wanted then handled else fifo_sub_handled)))))"

definition process_msg ::
  "('k, 'u) platform \<Rightarrow> ptr \<Rightarrow> uint16 \<Rightarrow> ptr \<Rightarrow> (('k, 'u) memory, unit) prog" where
  "process_msg P b msg_id msg =
     thenM (lock_sub_list P b)
    (bindM (getsM (\<lambda>s. sys_slist_peek_head P (slists s) b)) (\<lambda>head.
     bindM (peek_next_container P head) (\<lambda>tmp.
     thenM (process_loop (fuel P) P head tmp msg_id msg False)
    (thenM (unlock_sub_list P b)
     (pub_sub_release_msg P msg)))))"

text \<open>The loop of \<open>publish_work_handler\<close>; the first argument is the fuel.\<close>

fun publish_loop :: "nat \<Rightarrow> ('k, 'u) platform \<Rightarrow> ptr \<Rightarrow> ptr \<Rightarrow> (('k, 'u) memory, unit) prog" where
  "publish_loop 0 P b msg = raise Out_of_fuel"
| "publish_loop (Suc n) P b msg =
     (if msg = NULL then ret ()
      else bindM (pub_sub_msg_get_msg_id P msg) (\<lambda>msg_id.
        thenM (process_msg P b msg_id msg)
       (bindM (pub_sub_msg_fifo_get P (Msg_publish_fifo b) K_NO_WAIT) (\<lambda>msg'.
        publish_loop n P b msg'))))"

definition publish_work_handler :: "('k, 'u) platform \<Rightarrow> ptr \<Rightarrow> (('k, 'u) memory, unit) prog" where
  "publish_work_handler P b =
     bindM (pub_sub_msg_fifo_get P (Msg_publish_fifo b) K_NO_WAIT) (\<lambda>msg.
     thenM (publish_loop (fuel P) P b msg)
    (thenM (modifyM (upd_broker b (\<lambda>br. br\<lparr>publish_work_poll_event :=
       poll_event_set_state P K_POLL_STATE_NOT_READY (publish_work_poll_event br)\<rparr>)))
     (modifyM (upd_broker b (\<lambda>br. br\<lparr>publish_work :=
       k_work_poll_submit P (publish_work br) (publish_work_poll_event br) K_FOREVER\<rparr>)))))"

text \<open>The default broker is one particular object.\<close>

definition g_pub_sub_default_broker :: ptr where
  "g_pub_sub_default_broker = 1"

definition pub_sub_init_default_broker :: "('k, 'u) platform \<Rightarrow> (('k, 'u) memory, int) prog" where
  "pub_sub_init_default_broker P = thenM (pub_sub_init_broker P g_pub_sub_default_broker) (ret 0)"

definition pub_sub_add_subscriber :: "('k, 'u) platform \<Rightarrow> ptr \<Rightarrow> (('k, 'u) memory, unit) prog" where
  "pub_sub_add_subscriber P sub = pub_sub_add_subscriber_to_broker P g_pub_sub_default_broker sub"

definition pub_sub_publish :: "('k, 'u) platform \<Rightarrow> ptr \<Rightarrow> (('k, 'u) memory, unit) prog" where
  "pub_sub_publish P msg = pub_sub_publish_to_broker P g_pub_sub_default_broker msg"

section \<open>Ordered lists of subscribers\<close>

text \<open>What sorts a subscriber: its type and its priority.\<close>

type_synonym sort_key = "pub_sub_rx_type \<times> uint8"

definition key_of :: "('k, 'u) memory \<Rightarrow> ptr \<Rightarrow> sort_key" where
  "key_of s x = (case subscribers s x of None \<Rightarrow> (PUB_SUB_RX_TYPE_CALLBACK, 0)
                 | Some su \<Rightarrow> (rx_type su, priority su))"

text \<open>Where the code puts a new subscriber: into the first run of its type, behind those of the
  run that have no larger priority value; at the end when there is no such run.\<close>

definition insert_subscriber :: "('a \<Rightarrow> sort_key) \<Rightarrow> 'a \<Rightarrow> 'a list \<Rightarrow> 'a list" where
  "insert_subscriber key x xs =
     (let us = takeWhile (\<lambda>y. fst (key y) \<noteq> fst (key x)) xs;
          vs = dropWhile (\<lambda>y. fst (key y) \<noteq> fst (key x)) xs;
          before = (\<lambda>y. \<not> (snd (key y) > snd (key x) \<or> fst (key y) \<noteq> fst (key x)))
      in us @ takeWhile before vs @ x # dropWhile before vs)"

text \<open>The order the comment in the code describes: by type first, then by priority value.\<close>

fun key_le :: "sort_key \<Rightarrow> sort_key \<Rightarrow> bool" where
  "key_le (k, p) (k', p') \<longleftrightarrow> k < k' \<or> k = k' \<and> p \<le> p'"

definition documented_order :: "('a \<Rightarrow> sort_key) \<Rightarrow> 'a list \<Rightarrow> bool" where
  "documented_order key xs \<longleftrightarrow> sorted_wrt (\<lambda>x y. key_le (key x) (key y)) xs"

text \<open>What the code guarantees of any list: when a later subscriber has the type of an earlier
  one, it has no smaller priority value, and the next one has that type too. So the subscribers
  of one type stand together, sorted by priority value.\<close>

fun grouped_order :: "('a \<Rightarrow> sort_key) \<Rightarrow> 'a list \<Rightarrow> bool" where
  "grouped_order key [] \<longleftrightarrow> True"
| "grouped_order key (x # xs) \<longleftrightarrow> grouped_order key xs \<and>
     (\<forall>y \<in> set xs. fst (key y) = fst (key x) \<longrightarrow>
        snd (key x) \<le> snd (key y) \<and> fst (key (hd xs)) = fst (key x))"

section \<open>The loops find the place\<close>

definition hd0 :: "ptr list \<Rightarrow> ptr" where
  "hd0 xs = (case xs of [] \<Rightarrow> NULL | x # _ \<Rightarrow> x)"

definition last0 :: "ptr list \<Rightarrow> ptr" where
  "last0 xs = (if xs = [] then NULL else last xs)"

lemma hd0_simps [simp]: "hd0 [] = NULL" "hd0 (x # xs) = x"
  by (simp_all add: hd0_def)

lemma last0_snoc [simp]: "last0 [] = NULL" "last0 (xs @ [x]) = x"
  by (simp_all add: last0_def)

lemma peek_next_container_run:
  assumes "slist_laws P" and "sub_list P s b (us @ y # ys)"
  shows "peek_next_container P y s = Inr (hd0 ys, s)"
  using peek_next_run [OF assms] sub_list_sub_ok [OF assms(2), of y] sub_ok_not_NULL [of s y]
  by (simp add: peek_next_container_def hd0_def)

lemma sub_ok_Some: "sub_ok s y \<Longrightarrow> \<exists>su. subscribers s y = Some su"
  by (auto simp: sub_ok_def)

lemma find_rx_type_run:
  assumes "slist_laws P"
  shows "sub_list P s b (us @ ys) \<Longrightarrow> length ys < n \<Longrightarrow>
    find_rx_type n P k (last0 us) (hd0 ys) s =
      Inr ((last0 (us @ takeWhile (\<lambda>y. fst (key_of s y) \<noteq> k) ys),
            hd0 (dropWhile (\<lambda>y. fst (key_of s y) \<noteq> k) ys)), s)"
proof (induction ys arbitrary: us n)
  case Nil
  then show ?case by (cases n) auto
next
  case (Cons y ys)
  obtain j where j: "n = Suc j" "length ys < j" using Cons.prems(2) by (cases n) auto
  have o: "sub_ok s y" using sub_list_sub_ok [OF Cons.prems(1)] by simp
  obtain su where su: "subscribers s y = Some su" using sub_ok_Some [OF o] by blast
  show ?case
    using Cons.IH [of "us @ [y]" j] Cons.prems(1) j peek_next_container_run [OF assms Cons.prems(1)]
      sub_ok_not_NULL [OF o] su
    by (simp add: sub_run key_of_def)
qed

lemma find_priority_run:
  assumes "slist_laws P"
  shows "sub_list P s b (us @ ys) \<Longrightarrow> length ys < n \<Longrightarrow>
    find_priority n P k p (last0 us) (hd0 ys) s =
      (let before = (\<lambda>y. \<not> (snd (key_of s y) > p \<or> fst (key_of s y) \<noteq> k)) in
       Inr ((last0 (us @ takeWhile before ys), hd0 (dropWhile before ys)), s))"
proof (induction ys arbitrary: us n)
  case Nil
  then show ?case by (cases n) auto
next
  case (Cons y ys)
  obtain j where j: "n = Suc j" "length ys < j" using Cons.prems(2) by (cases n) auto
  have o: "sub_ok s y" using sub_list_sub_ok [OF Cons.prems(1)] by simp
  obtain su where su: "subscribers s y = Some su" using sub_ok_Some [OF o] by blast
  show ?case
    using Cons.IH [of "us @ [y]" j] Cons.prems(1) j peek_next_container_run [OF assms Cons.prems(1)]
      sub_ok_not_NULL [OF o] su
    by (simp add: sub_run key_of_def Let_def)
qed

lemma insert_after_last:
  "distinct (us @ vs) \<Longrightarrow> NULL \<notin> set us \<Longrightarrow> insert_after (last0 us) x (us @ vs) = us @ x # vs"
proof (induction us)
  case Nil
  then show ?case by (cases vs) auto
next
  case (Cons u us)
  show ?case
  proof (cases us rule: rev_cases)
    case Nil
    then show ?thesis using Cons.prems by (simp add: last0_def)
  next
    case (snoc us' l)
    then have "last0 (u # us) = last0 us" "last0 us \<noteq> u" "last0 us \<noteq> NULL"
      using Cons.prems by (auto simp: last0_def)
    then show ?thesis using Cons.IH Cons.prems by simp
  qed
qed

lemma insert_subscriber_split:
  obtains us vs where "insert_subscriber key x xs = us @ x # vs" and "xs = us @ vs"
proof -
  let ?Q = "\<lambda>y. fst (key y) \<noteq> fst (key x)"
  let ?R = "\<lambda>y. \<not> (snd (key y) > snd (key x) \<or> fst (key y) \<noteq> fst (key x))"
  show ?thesis
    by (rule that [of "takeWhile ?Q xs @ takeWhile ?R (dropWhile ?Q xs)" "dropWhile ?R (dropWhile ?Q xs)"])
      (simp_all add: insert_subscriber_def Let_def)
qed

lemma set_insert_subscriber [simp]: "set (insert_subscriber key x xs) = insert x (set xs)"
  by (rule insert_subscriber_split [of key x xs]) auto

lemma distinct_insert_subscriber:
  "distinct xs \<Longrightarrow> x \<notin> set xs \<Longrightarrow> distinct (insert_subscriber key x xs)"
  by (rule insert_subscriber_split [of key x xs]) auto

lemma set_slists_frame [simp]:
  "slists (set_slists f s) = f (slists s)"
  "messages (set_slists f s) = messages s"
  "msgqs (set_slists f s) = msgqs s"
  "bitarrays (set_slists f s) = bitarrays s"
  "subscribers (set_slists f s) = subscribers s"
  "brokers (set_slists f s) = brokers s"
  "app (set_slists f s) = app s"
  "g_runtime_allocators (set_slists f s) = g_runtime_allocators s"
  "allocator_objs (set_slists f s) = allocator_objs s" "mem_slabs (set_slists f s) = mem_slabs s"
  by (simp_all add: set_slists_def)

lemma upd_sub_broker_fields [simp]:
  "map_option subs_bitarray (subscribers (upd_sub x (\<lambda>su. su\<lparr>broker := b\<rparr>) s) y) =
     map_option subs_bitarray (subscribers s y)"
  "map_option max_pub_msg_id (subscribers (upd_sub x (\<lambda>su. su\<lparr>broker := b\<rparr>) s) y) =
     map_option max_pub_msg_id (subscribers s y)"
  "map_option rx_type (subscribers (upd_sub x (\<lambda>su. su\<lparr>broker := b\<rparr>) s) y) =
     map_option rx_type (subscribers s y)"
  "map_option priority (subscribers (upd_sub x (\<lambda>su. su\<lparr>broker := b\<rparr>) s) y) =
     map_option priority (subscribers s y)"
  by (simp_all add: option.map_comp comp_def)

lemma sub_ok_set_slists [simp]: "sub_ok (set_slists f s) = sub_ok s"
  by (rule sub_views_cong) simp_all

lemma sub_ok_upd_broker_field [simp]: "sub_ok (upd_sub x (\<lambda>su. su\<lparr>broker := b\<rparr>) s) = sub_ok s"
  unfolding fun_eq_iff sub_ok_by_fields upd_sub_broker_fields upd_sub_frame by simp

lemma key_of_cong:
  "map_option rx_type (subscribers s' x) = map_option rx_type (subscribers s x) \<Longrightarrow>
   map_option priority (subscribers s' x) = map_option priority (subscribers s x) \<Longrightarrow>
   key_of s' x = key_of s x"
  by (auto simp: key_of_def split: option.splits)

text \<open>The list operations on the list of a broker.\<close>

lemma slist_ok_upd:
  assumes "slist_ok P l" and "slist_nodes P l' = (slist_nodes P l)(b := ys)" and "distinct ys"
    and "NULL \<notin> set ys" and "\<forall>h. h \<noteq> b \<longrightarrow> set ys \<inter> set (slist_nodes P l h) = {}"
  shows "slist_ok P l'"
  using assms unfolding slist_ok_def by (metis (no_types, lifting) fun_upd_apply inf_commute)

lemma slist_insert_law:
  assumes "slist_laws P" and "slist_ok P l" and "p = NULL \<or> p \<in> set (slist_nodes P l h)"
    and "x \<noteq> NULL" and "\<forall>h'. x \<notin> set (slist_nodes P l h')"
  shows "slist_nodes P (sys_slist_insert P l h p x) =
    (slist_nodes P l)(h := insert_after p x (slist_nodes P l h))"
  using assms unfolding slist_laws_def by blast

lemma slist_remove_law:
  assumes "slist_laws P" and "slist_ok P l"
  shows "slist_nodes P (sys_slist_find_and_remove P l h x) =
    (slist_nodes P l)(h := remove1 x (slist_nodes P l h))"
  using assms unfolding slist_laws_def by blast

lemma add_subscriber_run:
  assumes "slist_laws P" and "sub_list P s b xs" and "b \<noteq> NULL" and "sub_ok s x"
    and "subscribers s x = Some su" and "msg_handler (handler_data su) \<noteq> Handler_NULL"
    and "broker su = NULL" and "\<forall>h. x \<notin> set (slist_nodes P (slists s) h)" and "length xs < fuel P"
  shows "\<exists>prev. slist_nodes P (sys_slist_insert P (slists s) b prev x) =
      (slist_nodes P (slists s))(b := insert_subscriber (key_of s) x xs) \<and>
    pub_sub_add_subscriber_to_broker P b x s = Inr ((), sub_unlock P b
      (set_slists (\<lambda>l. sys_slist_insert P l b prev x)
        (sub_lock P b (upd_sub x (\<lambda>su. su\<lparr>broker := b\<rparr>) s))))"
proof -
  let ?k = "rx_type su" and ?p = "priority su"
  let ?Q = "\<lambda>y. fst (key_of s y) \<noteq> ?k" and ?R = "\<lambda>y. \<not> (snd (key_of s y) > ?p \<or> fst (key_of s y) \<noteq> ?k)"
  let ?us = "takeWhile ?Q xs" and ?vs = "dropWhile ?Q xs"
  let ?s = "sub_lock P b (upd_sub x (\<lambda>su. su\<lparr>broker := b\<rparr>) s)"
  have xk: "key_of s x = (?k, ?p)" using assms(5) by (simp add: key_of_def)
  have l: "sub_list P ?s b ([] @ xs)"
    using assms(2) by (simp add: sub_list_def sub_lock_def)
  have kk: "key_of ?s = key_of s"
    by (rule ext, rule key_of_cong) (simp_all add: sub_lock_def option.map_comp comp_def)
  have r1: "find_rx_type (fuel P) P ?k NULL (hd0 xs) ?s = Inr ((last0 ?us, hd0 ?vs), ?s)"
    using find_rx_type_run [OF assms(1) l, of "fuel P" ?k] assms(9) by (simp add: kk)
  have l2: "sub_list P ?s b (?us @ ?vs)" using l by simp
  have lv: "length ?vs < fuel P" using assms(9) length_dropWhile_le [of ?Q xs] by linarith
  let ?prev = "last0 (?us @ takeWhile ?R ?vs)"
  have r2: "find_priority (fuel P) P ?k ?p (last0 ?us) (hd0 ?vs) ?s =
      Inr ((?prev, hd0 (dropWhile ?R ?vs)), ?s)"
    using find_priority_run [OF assms(1) l2 lv, of ?k ?p] by (simp add: kk Let_def)
  have hd: "sys_slist_peek_head P (slists ?s) b = hd0 xs"
    using peek_head_run [OF assms(1) l] by (simp add: hd0_def)
  have sp: "xs = (?us @ takeWhile ?R ?vs) @ dropWhile ?R ?vs"
    and ins: "insert_subscriber (key_of s) x xs = (?us @ takeWhile ?R ?vs) @ x # dropWhile ?R ?vs"
    by (simp_all add: insert_subscriber_def xk Let_def)
  have ok: "slist_ok P (slists s)" "slist_nodes P (slists s) b = xs" "NULL \<notin> set xs" "distinct xs"
    using assms(2) by (auto simp: sub_list_def slist_ok_def)
  have "last0 us = NULL \<or> last0 us \<in> set xs" and "insert_after (last0 us) x xs = us @ x # vs"
    if "xs = us @ vs" for us vs
    using that ok(3,4) insert_after_last [of us vs x] by (auto simp: last0_def)
  note q = this [OF sp]
  have pin: "?prev = NULL \<or> ?prev \<in> set xs" by (rule q(1))
  have "insert_after ?prev x xs = insert_subscriber (key_of s) x xs" unfolding ins by (rule q(2))
  then have nodes: "slist_nodes P (sys_slist_insert P (slists s) b ?prev x) =
      (slist_nodes P (slists s))(b := insert_subscriber (key_of s) x xs)"
    using slist_insert_law [OF assms(1) ok(1) _ _ assms(8), of "?prev" b] ok(2) pin
      sub_ok_not_NULL [OF assms(4)] by simp
  obtain br where br: "brokers s b = Some br" using assms(2) by (auto simp: sub_list_def)
  have lk: "lock_sub_list P b (upd_sub x (\<lambda>su. su\<lparr>broker := b\<rparr>) s) = Inr ((), ?s)"
    using br by (simp add: lock_run sub_lock_def)
  have un: "unlock_sub_list P b s' = Inr ((), sub_unlock P b s')" if "brokers s' b \<noteq> None" for s'
    using that by (auto simp: unlock_run sub_unlock_def)
  have "pub_sub_add_subscriber_to_broker P b x s =
      Inr ((), sub_unlock P b (set_slists (\<lambda>l. sys_slist_insert P l b ?prev x) ?s))"
    using assms(3,5-7) sub_ok_not_NULL [OF assms(4)] lk hd r1 r2 un br
    by (simp add: pub_sub_add_subscriber_to_broker_def assert_handler_def sub_run) (simp add: sub_lock_def)
  then show ?thesis using nodes by blast
qed

section \<open>Orders under insertion\<close>

fun insert_run :: "('a \<Rightarrow> sort_key) \<Rightarrow> 'a \<Rightarrow> 'a list \<Rightarrow> 'a list" where
  "insert_run key x [] = [x]"
| "insert_run key x (y # ys) =
     (if snd (key y) > snd (key x) \<or> fst (key y) \<noteq> fst (key x) then x # y # ys
      else y # insert_run key x ys)"

lemma insert_run_eq:
  "insert_run key x ys =
    (let before = (\<lambda>y. \<not> (snd (key y) > snd (key x) \<or> fst (key y) \<noteq> fst (key x)))
     in takeWhile before ys @ x # dropWhile before ys)"
  by (induction ys) (auto simp: Let_def)

lemma insert_subscriber_simps [simp]:
  "insert_subscriber key x [] = [x]"
  "insert_subscriber key x (y # ys) =
    (if fst (key y) \<noteq> fst (key x) then y # insert_subscriber key x ys else insert_run key x (y # ys))"
  by (auto simp: insert_subscriber_def insert_run_eq Let_def)

lemma set_insert_run [simp]: "set (insert_run key x ys) = insert x (set ys)"
  by (induction ys) auto

lemma grouped_insert_run:
  assumes "grouped_order key ys"
    and "(\<exists>y \<in> set ys. fst (key y) = fst (key x)) \<longrightarrow> fst (key (hd ys)) = fst (key x)"
  shows "grouped_order key (insert_run key x ys)"
  using assms
proof (induction ys)
  case Nil
  then show ?case by simp
next
  case (Cons y ys)
  show ?case
  proof (cases "snd (key y) > snd (key x) \<or> fst (key y) \<noteq> fst (key x)")
    case True
    then show ?thesis using Cons.prems by force
  next
    case False
    have "fst (key (hd (insert_run key x ys))) = fst (key y)"
      using False by (cases ys) (use Cons.prems(1) in auto)
    moreover have "grouped_order key (insert_run key x ys)"
      using Cons.IH Cons.prems False by auto
    ultimately show ?thesis using False Cons.prems(1) by auto
  qed
qed

lemma grouped_insert_subscriber:
  "grouped_order key xs \<Longrightarrow> grouped_order key (insert_subscriber key x xs)"
proof (induction xs)
  case Nil
  then show ?case by simp
next
  case (Cons y ys)
  show ?case
  proof (cases "fst (key y) = fst (key x)")
    case True
    then show ?thesis using grouped_insert_run [of key "y # ys" x] Cons.prems by simp
  next
    case False
    have "fst (key (hd (insert_subscriber key x ys))) = fst (key y)"
      if "\<exists>z \<in> set ys. fst (key z) = fst (key y)"
      using that Cons.prems False by (cases ys) auto
    then show ?thesis using False Cons by auto
  qed
qed

lemma key_le_trans: "key_le a b \<Longrightarrow> key_le b c \<Longrightarrow> key_le a c"
  by (cases a; cases b; cases c) auto

lemma documented_insert_run:
  assumes "documented_order key ys" and "\<forall>y \<in> set ys. fst (key x) \<le> fst (key y)"
  shows "documented_order key (insert_run key x ys)"
  using assms
proof (induction ys)
  case Nil
  then show ?case by (simp add: documented_order_def)
next
  case (Cons y ys)
  obtain k p k' p' where k: "key x = (k, p)" "key y = (k', p')" by (cases "key x"; cases "key y")
  show ?case
  proof (cases "snd (key y) > snd (key x) \<or> fst (key y) \<noteq> fst (key x)")
    case True
    then have "key_le (key x) (key y)" using Cons.prems(2) k by auto
    then show ?thesis using True Cons.prems(1) key_le_trans by (auto simp: documented_order_def)
  next
    case False
    then have "key_le (key y) (key x)" using k by auto
    then show ?thesis using False Cons by (auto simp: documented_order_def)
  qed
qed

lemma key_le_fst: "key_le a b \<Longrightarrow> fst a \<le> fst b"
  by (cases a; cases b) auto

lemma documented_insert_subscriber:
  assumes "documented_order key xs"
    and "(\<exists>y \<in> set xs. fst (key y) = fst (key x)) \<or> (\<forall>y \<in> set xs. fst (key y) < fst (key x))"
  shows "documented_order key (insert_subscriber key x xs)"
  using assms
proof (induction xs)
  case Nil
  then show ?case by (simp add: documented_order_def)
next
  case (Cons y ys)
  have s: "\<forall>z \<in> set ys. key_le (key y) (key z)" "documented_order key ys"
    using Cons.prems(1) by (auto simp: documented_order_def)
  show ?case
  proof (cases "fst (key y) = fst (key x)")
    case True
    then show ?thesis
      using documented_insert_run [OF Cons.prems(1), of x] s(1) key_le_fst by fastforce
  next
    case False
    have "fst (key y) < fst (key x)"
      using Cons.prems(2) False s(1) key_le_fst by fastforce
    then have "key_le (key y) (key x)" by (cases "key y"; cases "key x") auto
    then show ?thesis using False Cons s by (auto simp: documented_order_def)
  qed
qed

lemma insert_subscriber_at_end:
  "\<forall>y \<in> set xs. fst (key y) \<noteq> fst (key x) \<Longrightarrow> insert_subscriber key x xs = xs @ [x]"
  by (induction xs) auto

lemma remove_insert_subscriber:
  "x \<notin> set xs \<Longrightarrow> remove1 x (insert_subscriber key x xs) = xs"
  by (rule insert_subscriber_split [of key x xs]) (auto simp: remove1_append)

text \<open>The types alone stay in their order under the same condition.\<close>

lemma sorted_insert_run:
  assumes "sorted (map (\<lambda>y. fst (key y)) ys)" and "\<forall>y \<in> set ys. fst (key x) \<le> fst (key y)"
  shows "sorted (map (\<lambda>y. fst (key y)) (insert_run key x ys))"
  using assms by (induction ys) auto

lemma sorted_insert_subscriber:
  assumes "sorted (map (\<lambda>y. fst (key y)) xs)"
    and "(\<exists>y \<in> set xs. fst (key y) = fst (key x)) \<or> (\<forall>y \<in> set xs. fst (key y) < fst (key x))"
  shows "sorted (map (\<lambda>y. fst (key y)) (insert_subscriber key x xs))"
  using assms
proof (induction xs)
  case (Cons y ys)
  show ?case
  proof (cases "fst (key y) = fst (key x)")
    case True
    then have "\<forall>z \<in> set (y # ys). fst (key x) \<le> fst (key z)" using Cons.prems(1) by auto
    with Cons.prems(1) have "sorted (map (\<lambda>y. fst (key y)) (insert_run key x (y # ys)))" by (rule sorted_insert_run)
    then show ?thesis using True by (simp only: insert_subscriber_simps if_False simp_thms)
  next
    case False
    then have "fst (key y) < fst (key x)" using Cons.prems by fastforce
    then show ?thesis using False Cons by auto
  qed
qed simp

section \<open>The operations in terms of the list\<close>

text \<open>A subscriber that can be added: set up, with a handler, in no list.\<close>

definition addable :: "('k, 'u) platform \<Rightarrow> ('k, 'u) memory \<Rightarrow> ptr \<Rightarrow> bool" where
  "addable P s x \<longleftrightarrow> sub_ok s x \<and>
     (\<exists>su. subscribers s x = Some su \<and> msg_handler (handler_data su) \<noteq> Handler_NULL \<and> broker su = NULL) \<and>
     (\<forall>h. x \<notin> set (slist_nodes P (slists s) h))"

lemma sub_list_upd:
  assumes "sub_list P s b xs" and "slist_nodes P l = (slist_nodes P (slists s))(b := ys)"
    and "distinct ys" and "\<forall>y \<in> set ys. y \<in> set xs \<or> (\<forall>h. y \<notin> set (slist_nodes P (slists s) h))"
    and "slists s' = l" and "\<forall>y \<in> set ys. sub_ok s' y" and "brokers s' b \<noteq> None"
  shows "sub_list P s' b ys"
proof -
  have o: "slist_ok P (slists s)" "slist_nodes P (slists s) b = xs" using assms(1) by (auto simp: sub_list_def)
  have "slist_ok P l"
  proof (rule slist_ok_upd [OF o(1) assms(2,3)])
    show "NULL \<notin> set ys" using assms(6) by (auto simp: sub_ok_def)
    show "\<forall>h. h \<noteq> b \<longrightarrow> set ys \<inter> set (slist_nodes P (slists s) h) = {}"
      using assms(4) o unfolding slist_ok_def by blast
  qed
  then show ?thesis using assms(2,5-7) by (simp add: sub_list_def)
qed

lemma sub_lock_depth_balanced:
  assumes "mutex_laws P" and "brokers s' = brokers (sub_lock P b s)"
  shows "sub_lock_depth P (sub_unlock P b s') = sub_lock_depth P s"
  using assms
  by (auto simp: sub_lock_depth_def sub_lock_def sub_unlock_def mutex_laws_def fun_eq_iff
      option.map_comp comp_def)

text \<open>A subscriber has got another broker; except for the list and its mutex, nothing else has changed.\<close>

definition relisted :: "ptr \<Rightarrow> ptr \<Rightarrow> ('k, 'u) memory \<Rightarrow> ('k, 'u) memory \<Rightarrow> bool" where
  "relisted x b s s' \<longleftrightarrow>
     subscribers s' = (subscribers s)(x := map_option (\<lambda>su. su\<lparr>broker := b\<rparr>) (subscribers s x)) \<and>
     bitarrays s' = bitarrays s \<and> messages s' = messages s \<and> msgqs s' = msgqs s \<and> app s' = app s \<and>
     g_runtime_allocators s' = g_runtime_allocators s \<and> allocator_objs s' = allocator_objs s \<and>
     mem_slabs s' = mem_slabs s \<and>
     (\<forall>d. map_option msg_publish_fifo (brokers s' d) = map_option msg_publish_fifo (brokers s d))"

lemma add_subscriber_effect:
  assumes "slist_laws P" and "mutex_laws P" and "sub_list P s b xs" and "b \<noteq> NULL"
    and "addable P s x" and "length xs < fuel P"
  shows "\<exists>s'. pub_sub_add_subscriber_to_broker P b x s = Inr ((), s') \<and>
    slist_nodes P (slists s') = (slist_nodes P (slists s))(b := insert_subscriber (key_of s) x xs) \<and>
    sub_list P s' b (insert_subscriber (key_of s) x xs) \<and> key_of s' = key_of s \<and>
    subscribers s' = (subscribers s)(x := map_option (\<lambda>su. su\<lparr>broker := b\<rparr>) (subscribers s x)) \<and>
    sub_lock_depth P s' = sub_lock_depth P s \<and> relisted x b s s'"
proof -
  obtain su where su: "sub_ok s x" "subscribers s x = Some su"
    "msg_handler (handler_data su) \<noteq> Handler_NULL" "broker su = NULL"
    "\<forall>h. x \<notin> set (slist_nodes P (slists s) h)"
    using assms(5) by (auto simp: addable_def)
  obtain prev where prev: "slist_nodes P (sys_slist_insert P (slists s) b prev x) =
      (slist_nodes P (slists s))(b := insert_subscriber (key_of s) x xs)"
    "pub_sub_add_subscriber_to_broker P b x s = Inr ((), sub_unlock P b
      (set_slists (\<lambda>l. sys_slist_insert P l b prev x)
        (sub_lock P b (upd_sub x (\<lambda>su. su\<lparr>broker := b\<rparr>) s))))"
    using add_subscriber_run [OF assms(1,3,4) su assms(6)] by blast
  let ?s = "sub_unlock P b (set_slists (\<lambda>l. sys_slist_insert P l b prev x)
        (sub_lock P b (upd_sub x (\<lambda>su. su\<lparr>broker := b\<rparr>) s)))"
  have xs: "slist_nodes P (slists s) b = xs" "brokers s b \<noteq> None" "\<forall>y \<in> set xs. sub_ok s y"
    using assms(3) by (auto simp: sub_list_def)
  have d: "distinct (insert_subscriber (key_of s) x xs)"
    using distinct_insert_subscriber sub_list_distinct [OF assms(3)] su(5) xs(1) by metis
  have sl: "slists ?s = sys_slist_insert P (slists s) b prev x"
    by (simp add: sub_lock_def sub_unlock_def)
  have ok: "sub_ok ?s = sub_ok s" by (simp add: sub_lock_def sub_unlock_def)
  have "sub_list P ?s b (insert_subscriber (key_of s) x xs)"
    by (rule sub_list_upd [OF assms(3) prev(1) d _ sl])
      (use su(1,5) xs(2,3) in \<open>auto simp: ok, auto simp: sub_lock_def sub_unlock_def\<close>)
  moreover have "key_of ?s = key_of s"
    by (rule ext, rule key_of_cong) (simp_all add: sub_lock_def sub_unlock_def option.map_comp comp_def)
  moreover have "sub_lock_depth P ?s = sub_lock_depth P s"
    using sub_lock_depth_balanced [OF assms(2), of "set_slists (\<lambda>l. sys_slist_insert P l b prev x)
        (sub_lock P b (upd_sub x (\<lambda>su. su\<lparr>broker := b\<rparr>) s))" b "upd_sub x (\<lambda>su. su\<lparr>broker := b\<rparr>) s"]
    by (simp add: sub_lock_depth_def fun_eq_iff)
  moreover have "subscribers ?s = (subscribers s)(x := map_option (\<lambda>su. su\<lparr>broker := b\<rparr>) (subscribers s x))"
    by (simp add: sub_lock_def sub_unlock_def)
  moreover have "relisted x b s ?s"
    by (simp add: relisted_def sub_lock_def sub_unlock_def option.map_comp comp_def)
  ultimately show ?thesis using prev sl by metis
qed

lemma remove_run:
  assumes "slist_laws P" and "mutex_laws P" and "sub_list P s b xs" and "b \<noteq> NULL"
    and "sub_ok s x" and "subscribers s x = Some su" and "broker su = b"
  shows "\<exists>s'. pub_sub_subscriber_remove_broker P x s = Inr ((), s') \<and>
    slist_nodes P (slists s') = (slist_nodes P (slists s))(b := remove1 x xs) \<and>
    sub_list P s' b (remove1 x xs) \<and> key_of s' = key_of s \<and>
    subscribers s' = (subscribers s)(x \<mapsto> su\<lparr>broker := NULL\<rparr>) \<and>
    sub_lock_depth P s' = sub_lock_depth P s \<and> relisted x NULL s s'"
proof -
  let ?s1 = "sub_unlock P b (set_slists (\<lambda>l. sys_slist_find_and_remove P l b x) (sub_lock P b s))"
  let ?s = "upd_sub x (\<lambda>su. su\<lparr>broker := NULL\<rparr>) ?s1"
  obtain br where br: "brokers s b = Some br" using assms(3) by (auto simp: sub_list_def)
  have xs: "slist_nodes P (slists s) b = xs" "slist_ok P (slists s)" "\<forall>y \<in> set xs. sub_ok s y"
    using assms(3) by (auto simp: sub_list_def)
  have n: "slist_nodes P (sys_slist_find_and_remove P (slists s) b x) =
      (slist_nodes P (slists s))(b := remove1 x xs)"
    using slist_remove_law [OF assms(1) xs(2)] xs(1) by simp
  have e: "pub_sub_subscriber_remove_broker P x s = Inr ((), ?s)"
    using assms(4,6,7) sub_ok_not_NULL [OF assms(5)] br
    by (simp add: pub_sub_subscriber_remove_broker_def sub_run Let_def sub_lock_def sub_unlock_def)
  have sl: "slists ?s = sys_slist_find_and_remove P (slists s) b x"
    by (simp add: sub_lock_def sub_unlock_def)
  have ok: "sub_ok ?s = sub_ok s" by (simp add: sub_lock_def sub_unlock_def)
  have "sub_list P ?s b (remove1 x xs)"
    by (rule sub_list_upd [OF assms(3) n _ _ sl])
      (use xs br sub_list_distinct [OF assms(3)] in \<open>auto simp: ok sub_lock_def sub_unlock_def dest: notin_set_remove1 set_remove1_subset [THEN subsetD]\<close>)
  moreover have "key_of ?s = key_of s"
    by (rule ext, rule key_of_cong) (simp_all add: sub_lock_def sub_unlock_def option.map_comp comp_def)
  moreover have "sub_lock_depth P ?s = sub_lock_depth P s"
    using sub_lock_depth_balanced [OF assms(2), of "set_slists (\<lambda>l. sys_slist_find_and_remove P l b x)
        (sub_lock P b s)" b s]
    by (simp add: sub_lock_depth_def fun_eq_iff)
  moreover have "subscribers ?s = (subscribers s)(x \<mapsto> su\<lparr>broker := NULL\<rparr>)"
    using assms(6) by (simp add: sub_lock_def sub_unlock_def)
  moreover have "relisted x NULL s ?s"
    using assms(6) by (simp add: relisted_def sub_lock_def sub_unlock_def option.map_comp comp_def)
  ultimately show ?thesis using e n sl by metis
qed

section \<open>Properties\<close>

text \<open>C17. Adding a subscriber to a broker puts it into the broker's list behind all subscribers of
  its type with a priority value that is not larger (at the end of the list when its type has no
  subscribers yet), points it at the broker, and leaves the mutex of the list as it was found;
  the subscribers of each type stay together and sorted by priority value, first come first
  served among equals.\<close>

theorem add_subscriber_order:
  assumes "slist_laws P" and "mutex_laws P" and "sub_list P s b xs" and "b \<noteq> NULL"
    and "addable P s x" and "length xs < fuel P" and "grouped_order (key_of s) xs"
  shows "\<exists>s'. pub_sub_add_subscriber_to_broker P b x s = Inr ((), s') \<and>
    (let ys = slist_nodes P (slists s') b in
       ys = insert_subscriber (key_of s) x xs \<and> sub_list P s' b ys \<and> grouped_order (key_of s') ys) \<and>
    map_option broker (subscribers s' x) = Some b \<and> sub_lock_depth P s' = sub_lock_depth P s"
proof -
  obtain su where "subscribers s x = Some su" using assms(5) by (auto simp: addable_def)
  then show ?thesis
    using add_subscriber_effect [OF assms(1-6)] grouped_insert_subscriber [OF assms(7), of x]
    by (fastforce simp: Let_def)
qed

text \<open>When no subscriber of its type is in the list, but one of a later type is, the new one is appended to
  the end of the list.\<close>

lemma add_subscriber_breaks_order:
  assumes "slist_laws P" and "mutex_laws P" and "sub_list P s b xs" and "b \<noteq> NULL"
    and "addable P s x" and "length xs < fuel P"
    and "\<forall>y \<in> set xs. fst (key_of s y) \<noteq> fst (key_of s x)"
    and "z \<in> set xs" and "fst (key_of s x) < fst (key_of s z)"
  shows "\<exists>s'. pub_sub_add_subscriber_to_broker P b x s = Inr ((), s') \<and>
    slist_nodes P (slists s') b = xs @ [x] \<and>
    \<not> documented_order (key_of s') (slist_nodes P (slists s') b)"
proof -
  have "\<not> key_le (key_of s z) (key_of s x)" using key_le_fst assms(9) by fastforce
  then have "\<not> documented_order (key_of s) (xs @ [x])"
    using assms(8) by (auto simp: documented_order_def sorted_wrt_append)
  then show ?thesis
    using add_subscriber_effect [OF assms(1-6)] insert_subscriber_at_end [OF assms(7)] by fastforce
qed

text \<open>C31. The order that process\_msg and send\_to\_next\_fifo\_subscriber rely on, callbacks before
  message queues before FIFOs and each sorted by priority value, is kept by adding a subscriber exactly
  when its type is already in the list or comes after all types in the list. In all other cases
  the new one is appended to the end of the list, so a callback that is added after a FIFO subscriber stands
  behind it.\<close>

theorem add_subscriber_documented_order:
  assumes "slist_laws P" and "mutex_laws P" and "sub_list P s b xs" and "b \<noteq> NULL"
    and "addable P s x" and "length xs < fuel P" and "documented_order (key_of s) xs"
    and "fits_in = ((\<exists>y \<in> set xs. fst (key_of s y) = fst (key_of s x)) \<or>
         (\<forall>y \<in> set xs. fst (key_of s y) < fst (key_of s x)))"
  shows "\<exists>s'. pub_sub_add_subscriber_to_broker P b x s = Inr ((), s') \<and>
    set (slist_nodes P (slists s') b) = insert x (set xs) \<and>
    (documented_order (key_of s') (slist_nodes P (slists s') b) \<longleftrightarrow> fits_in) \<and>
    (\<not> fits_in \<longrightarrow> slist_nodes P (slists s') b = xs @ [x])"
proof (cases fits_in)
  case True
  then show ?thesis
    using add_subscriber_effect [OF assms(1-6)] documented_insert_subscriber [OF assms(7), of x] assms(8) by fastforce
next
  case False
  then obtain z where n: "\<forall>y \<in> set xs. fst (key_of s y) \<noteq> fst (key_of s x)" and z: "z \<in> set xs"
    "fst (key_of s x) < fst (key_of s z)"
    using assms(8) by (metis neqE)
  show ?thesis using add_subscriber_breaks_order [OF assms(1-6) n z] False by auto
qed

text \<open>C28. A subscriber that has been added can be removed again: the broker's list is then what it
  was before, in the same order, the subscriber has no broker, and the mutex of the list is as
  it was found.\<close>

theorem add_remove_roundtrip:
  assumes "slist_laws P" and "mutex_laws P" and "sub_list P s b xs" and "b \<noteq> NULL"
    and "addable P s x" and "length xs < fuel P"
  shows "\<exists>s1 s2. pub_sub_add_subscriber_to_broker P b x s = Inr ((), s1) \<and>
    pub_sub_subscriber_remove_broker P x s1 = Inr ((), s2) \<and>
    slist_nodes P (slists s2) = slist_nodes P (slists s) \<and> sub_list P s2 b xs \<and>
    subscribers s2 = subscribers s \<and> sub_lock_depth P s2 = sub_lock_depth P s"
proof -
  obtain su where su: "subscribers s x = Some su" "broker su = NULL"
    and nx: "\<forall>h. x \<notin> set (slist_nodes P (slists s) h)"
    using assms(5) by (auto simp: addable_def)
  have xb: "slist_nodes P (slists s) b = xs" using assms(3) by (auto simp: sub_list_def)
  then have x: "x \<notin> set xs" using nx by metis
  let ?ys = "insert_subscriber (key_of s) x xs"
  obtain s1 where s1: "pub_sub_add_subscriber_to_broker P b x s = Inr ((), s1)"
    "slist_nodes P (slists s1) = (slist_nodes P (slists s))(b := ?ys)" "sub_list P s1 b ?ys"
    "subscribers s1 = (subscribers s)(x \<mapsto> su\<lparr>broker := b\<rparr>)" "sub_lock_depth P s1 = sub_lock_depth P s"
    using add_subscriber_effect [OF assms(1-6)] su(1) by auto
  have o: "sub_ok s1 x" using sub_list_sub_ok [OF s1(3)] by simp
  obtain s2 where s2: "pub_sub_subscriber_remove_broker P x s1 = Inr ((), s2)"
    "slist_nodes P (slists s2) = (slist_nodes P (slists s1))(b := remove1 x ?ys)"
    "sub_list P s2 b (remove1 x ?ys)"
    "subscribers s2 = (subscribers s1)(x \<mapsto> (su\<lparr>broker := b\<rparr>)\<lparr>broker := NULL\<rparr>)"
    "sub_lock_depth P s2 = sub_lock_depth P s1"
    using remove_run [OF assms(1,2) s1(3) assms(4) o, of "su\<lparr>broker := b\<rparr>"] s1(4) by auto
  have r: "remove1 x ?ys = xs" using remove_insert_subscriber [OF x] .
  have "su\<lparr>broker := NULL\<rparr> = su" using su(2) by (cases su) simp
  then have "subscribers s2 = subscribers s" using s2(4) s1(4) su(1) by (auto simp: fun_eq_iff)
  moreover have "slist_nodes P (slists s2) = slist_nodes P (slists s)"
    using s2(2) s1(2) r xb by (auto simp: fun_eq_iff)
  ultimately show ?thesis using s1(1,5) s2(1,3,5) r by auto
qed

text \<open>A broker that has been initialised has no subscribers and no published messages, its list
  is not locked, and its work item waits for messages in its own FIFO; nothing else is touched.\<close>

lemma init_broker_run:
  assumes "slist_laws P" and "fifo_laws P" and "mutex_laws P" and "poll_laws P"
    and "b \<noteq> NULL" and "brokers s b = Some br"
  shows "\<exists>s' br'. pub_sub_init_broker P b s = Inr ((), s') \<and> brokers s' = (brokers s)(b \<mapsto> br') \<and>
    slists s' = sys_slist_init P (slists s) b \<and> s' = s\<lparr>brokers := brokers s', slists := slists s'\<rparr> \<and>
    fifo_items P (msg_publish_fifo br') = [] \<and> mutex_depth P (sub_list_mutex br') = 0 \<and>
    work_pending P (publish_work br') \<and>
    poll_event_of P (publish_work_poll_event br') = (K_POLL_TYPE_FIFO_DATA_AVAILABLE, Publish_fifo_of b)"
  using assms
  by (auto simp: pub_sub_init_broker_def sub_run slist_laws_def fifo_laws_def mutex_laws_def poll_laws_def
      upd_broker_def set_slists_def)

section \<open>Examples\<close>

text \<open>A broker with the FIFO subscriber 4, to which the subscriber 6 can be added.\<close>

definition one_and_one :: "pub_sub_rx_type \<Rightarrow> uint8 \<Rightarrow> (kobj, (nat \<times> uint16 \<times> ptr \<times> ptr) list) memory" where
  "one_and_one k prio = a_world False 0x0003FE01
     [4 \<mapsto> a_subscriber PUB_SUB_RX_TYPE_FIFO (Rx_fifo kobj0) 5 0 2,
      6 \<mapsto> (a_subscriber k (Rx_fifo kobj0) 7 1 prio)\<lparr>broker := NULL\<rparr>] [4]"

lemma one_and_one_ok:
  "sub_list noting_platform (one_and_one k prio) 9 [4]" "addable noting_platform (one_and_one k prio) 6"
  "key_of (one_and_one k prio) 4 = (PUB_SUB_RX_TYPE_FIFO, 2)" "key_of (one_and_one k prio) 6 = (k, prio)"
  by (auto simp: sub_list_def slist_ok_def addable_def one_and_one_def ref_nodes_def sub_ok_def
      a_subscriber_def key_of_def)

theorem add_subscriber_order_witness:
  "\<exists>s'. pub_sub_add_subscriber_to_broker noting_platform 9 6 (one_and_one PUB_SUB_RX_TYPE_FIFO 1) = Inr ((), s') \<and>
     slist_nodes noting_platform (slists s') 9 = [6, 4]"
  using add_subscriber_order [OF noting_laws(4,5) one_and_one_ok(1) _ one_and_one_ok(2),
      of PUB_SUB_RX_TYPE_FIFO 1] by (auto simp: one_and_one_ok(3,4) Let_def)

theorem add_subscriber_documented_order_witness:
  "\<exists>s'. pub_sub_add_subscriber_to_broker noting_platform 9 6 (one_and_one PUB_SUB_RX_TYPE_CALLBACK 0) = Inr ((), s') \<and>
     slist_nodes noting_platform (slists s') 9 = [4, 6] \<and>
     \<not> documented_order (key_of s') (slist_nodes noting_platform (slists s') 9)"
  using add_subscriber_documented_order [OF noting_laws(4,5) one_and_one_ok(1) _ one_and_one_ok(2) _ _ refl,
      of PUB_SUB_RX_TYPE_CALLBACK 0]
  by (auto simp: one_and_one_ok(3,4) documented_order_def less_pub_sub_rx_type_def)

theorem add_remove_roundtrip_witness:
  "\<exists>s1 s2. pub_sub_add_subscriber_to_broker noting_platform 9 6 (one_and_one PUB_SUB_RX_TYPE_MSGQ 1) = Inr ((), s1) \<and>
     pub_sub_subscriber_remove_broker noting_platform 6 s1 = Inr ((), s2) \<and>
     slist_nodes noting_platform (slists s2) 9 = [4]"
  using add_remove_roundtrip [OF noting_laws(4,5) one_and_one_ok(1) _ one_and_one_ok(2),
      of PUB_SUB_RX_TYPE_MSGQ 1] by (fastforce simp: one_and_one_def ref_nodes_def)

end
