(* ===== verification/Delivery.thy ===== *)
theory Delivery imports Broker begin

text \<open>
  What the broker does with a published message: who gets it, in what order, how many references
  are taken, and that the work item empties the FIFO of published messages in order of
  publication. The operations are those of theory Broker; here they are related to the views of
  a subscriber (its type, handler, message queue and FIFO).
\<close>

section \<open>Views of a subscriber\<close>

definition type_of :: "('k, 'u) memory \<Rightarrow> ptr \<Rightarrow> pub_sub_rx_type" where
  "type_of s x = fst (key_of s x)"

definition handler_of :: "('k, 'u) memory \<Rightarrow> ptr \<Rightarrow> nat \<times> ptr" where
  "handler_of s x = (case subscribers s x of None \<Rightarrow> (0, NULL)
     | Some su \<Rightarrow> (case msg_handler (handler_data su) of
         User_handler f \<Rightarrow> (f, user_data (handler_data su)) | _ \<Rightarrow> (0, NULL)))"

definition msgq_ptr :: "('k, 'u) memory \<Rightarrow> ptr \<Rightarrow> ptr option" where
  "msgq_ptr s x = (case subscribers s x of None \<Rightarrow> None
     | Some su \<Rightarrow> (case rx_queue su of Rx_msgq q \<Rightarrow> Some q | _ \<Rightarrow> None))"

definition msgq_of :: "('k, 'u) platform \<Rightarrow> ('k, 'u) memory \<Rightarrow> ptr \<Rightarrow> ptr list" where
  "msgq_of P s x = (case msgq_ptr s x of None \<Rightarrow> []
     | Some q \<Rightarrow> (case msgqs s q of None \<Rightarrow> [] | Some k \<Rightarrow> msgq_items P k))"

definition msgq_cap :: "('k, 'u) platform \<Rightarrow> ('k, 'u) memory \<Rightarrow> ptr \<Rightarrow> nat option" where
  "msgq_cap P s x = (case msgq_ptr s x of None \<Rightarrow> None | Some q \<Rightarrow> map_option (msgq_max P) (msgqs s q))"

definition user_handled :: "('k, 'u) memory \<Rightarrow> ptr \<Rightarrow> bool" where
  "user_handled s x \<longleftrightarrow>
     (\<exists>f d. map_option handler_data (subscribers s x) = Some \<lparr>msg_handler = User_handler f, user_data = d\<rparr>)"

text \<open>A subscriber that can take one more message: a callback with an application handler, a
  message queue with room, or a FIFO.\<close>

definition can_receive :: "('k, 'u) platform \<Rightarrow> ('k, 'u) memory \<Rightarrow> ptr \<Rightarrow> bool" where
  "can_receive P s x \<longleftrightarrow> (\<exists>su. subscribers s x = Some su \<and> (case rx_type su of
       PUB_SUB_RX_TYPE_CALLBACK \<Rightarrow> (\<exists>f d. handler_data su = \<lparr>msg_handler = User_handler f, user_data = d\<rparr>)
     | PUB_SUB_RX_TYPE_MSGQ \<Rightarrow> (\<exists>q k. rx_queue su = Rx_msgq q \<and> msgqs s q = Some k \<and>
         length (msgq_items P k) < msgq_max P k)
     | PUB_SUB_RX_TYPE_FIFO \<Rightarrow> (\<exists>q. rx_queue su = Rx_fifo q)))"

text \<open>No two subscribers share a message queue.\<close>

definition own_msgqs :: "('k, 'u) memory \<Rightarrow> bool" where
  "own_msgqs s \<longleftrightarrow> (\<forall>x y q. msgq_ptr s x = Some q \<and> msgq_ptr s y = Some q \<longrightarrow> x = y)"

definition broker_of :: "('k, 'u) memory \<Rightarrow> ptr \<Rightarrow> ptr option" where
  "broker_of s x = map_option broker (subscribers s x)"

text \<open>Whether the union of a subscriber holds a FIFO.\<close>

definition has_fifo :: "('k, 'u) memory \<Rightarrow> ptr \<Rightarrow> bool" where
  "has_fifo s x \<longleftrightarrow> (\<exists>su q. subscribers s x = Some su \<and> rx_queue su = Rx_fifo q)"

lemma no_fifo_empty: "\<not> has_fifo s x \<Longrightarrow> fifo_of P s x = []"
  by (auto simp: has_fifo_def fifo_of_def split: option.split rx_queue.split)

text \<open>The messages that have been published to a broker and not been distributed yet.\<close>

definition published :: "('k, 'u) platform \<Rightarrow> ('k, 'u) memory \<Rightarrow> ptr \<Rightarrow> ptr list" where
  "published P s b = (case brokers s b of None \<Rightarrow> [] | Some br \<Rightarrow> fifo_items P (msg_publish_fifo br))"

lemma by_brokers:
  assumes "brokers s' = brokers s"
  shows "published P s' = published P s" and "sub_lock_depth P s' = sub_lock_depth P s"
  by (simp_all add: assms published_def fun_eq_iff sub_lock_depth_def)

lemma views_by_subscribers:
  assumes "subscribers s' = subscribers s"
  shows "key_of s' = key_of s" and "handler_of s' = handler_of s" and "msgq_ptr s' = msgq_ptr s"
    and "is_fifo_sub s' = is_fifo_sub s" and "fifo_of P s' = fifo_of P s" and "own_msgqs s' = own_msgqs s"
    and "type_of s' = type_of s"
  by (simp_all add: assms type_of_def [abs_def] key_of_def [abs_def] handler_of_def [abs_def] msgq_ptr_def [abs_def]
      is_fifo_sub_def [abs_def] fifo_of_def [abs_def] own_msgqs_def)

lemma sub_list_by_subscribers:
  assumes "subscribers s' = subscribers s" and "bitarrays s' = bitarrays s"
    and "slists s' = slists s" and "brokers s' = brokers s"
  shows "sub_list P s' = sub_list P s" and "subscriptions P s' = subscriptions P s"
  using sub_views_cong [OF assms(1,2)] assms(3,4) by (simp_all add: sub_list_def fun_eq_iff)

lemma msgq_of_by_queues:
  assumes "msgq_ptr s' = msgq_ptr s" and "msgqs s' = msgqs s"
  shows "msgq_of P s' = msgq_of P s"
  unfolding msgq_of_def [abs_def] assms by (rule refl)

text \<open>The views that no delivery changes.\<close>

definition sub_views where
  "sub_views P s = (sub_list P s, subscriptions P s, type_of s, handler_of s, msgq_ptr s, msgq_cap P s,
     is_fifo_sub s, user_handled s, broker_of s, has_fifo s, key_of s, max_id_of s)"

lemma sub_viewsD:
  assumes "sub_views P s' = sub_views P s"
  shows "sub_list P s' = sub_list P s" "subscriptions P s' = subscriptions P s" "type_of s' = type_of s"
    "handler_of s' = handler_of s" "msgq_ptr s' = msgq_ptr s" "msgq_cap P s' = msgq_cap P s"
    "is_fifo_sub s' = is_fifo_sub s" "user_handled s' = user_handled s"
    "broker_of s' = broker_of s" "has_fifo s' = has_fifo s" "key_of s' = key_of s" "max_id_of s' = max_id_of s"
  using assms by (simp_all add: sub_views_def)

lemma sub_views_cong_mem:
  assumes "subscribers s' = subscribers s" and "bitarrays s' = bitarrays s"
    and "slists s' = slists s" and "sub_list P s' = sub_list P s" and "msgq_cap P s' = msgq_cap P s"
  shows "sub_views P s' = sub_views P s"
  using views_by_subscribers [OF assms(1)] sub_views_cong(2) [OF assms(1,2)] assms(1,4,5)
  by (simp add: sub_views_def user_handled_def [abs_def] broker_of_def [abs_def] has_fifo_def [abs_def]
      max_id_of_def [abs_def])

lemma msgq_cap_by_queues:
  assumes "msgq_ptr s' = msgq_ptr s" and "msgqs s' = msgqs s"
  shows "msgq_cap P s' = msgq_cap P s"
  unfolding msgq_cap_def [abs_def] assms by (rule refl)

text \<open>A subscriber that can take \<open>n\<close> more messages, by its views.\<close>

definition can_take :: "('k, 'u) platform \<Rightarrow> nat \<Rightarrow> ('k, 'u) memory \<Rightarrow> ptr \<Rightarrow> bool" where
  "can_take P n s x \<longleftrightarrow> (case type_of s x of
       PUB_SUB_RX_TYPE_CALLBACK \<Rightarrow> user_handled s x
     | PUB_SUB_RX_TYPE_MSGQ \<Rightarrow> (\<exists>c. msgq_cap P s x = Some c \<and> length (msgq_of P s x) + n \<le> c)
     | PUB_SUB_RX_TYPE_FIFO \<Rightarrow> is_fifo_sub s x)"

lemma can_take_receive:
  assumes "sub_ok s x" and "can_take P (Suc n) s x"
  shows "can_receive P s x"
proof -
  obtain su where su: "subscribers s x = Some su" using sub_ok_Some [OF assms(1)] by blast
  then show ?thesis using assms(2)
    by (cases "rx_type su"; cases "rx_queue su") (auto simp: can_take_def can_receive_def type_of_def
        key_of_def user_handled_def msgq_cap_def msgq_of_def msgq_ptr_def is_fifo_sub_def)
qed

lemma can_take_cong:
  assumes "type_of s' = type_of s" and "user_handled s' = user_handled s"
    and "msgq_cap P s' = msgq_cap P s" and "msgq_of P s' = msgq_of P s" and "is_fifo_sub s' = is_fifo_sub s"
  shows "can_take P n s' = can_take P n s"
  unfolding can_take_def [abs_def] assms by (rule refl)

lemma can_take_mono:
  assumes "sub_views P s' = sub_views P s" and "can_take P (Suc n) s x"
    and "length (msgq_of P s' x) \<le> Suc (length (msgq_of P s x))"
  shows "can_take P n s' x"
  using assms(2,3) sub_viewsD [OF assms(1)] by (auto simp: can_take_def split: pub_sub_rx_type.splits)

section \<open>One delivery\<close>

text \<open>The parts of the memory that the delivery to a callback or a message queue leaves alone.\<close>

definition same_subs :: "('k, 'u) memory \<Rightarrow> ('k, 'u) memory \<Rightarrow> bool" where
  "same_subs s s' \<longleftrightarrow> subscribers s' = subscribers s \<and> bitarrays s' = bitarrays s \<and>
     slists s' = slists s \<and> brokers s' = brokers s \<and>
     g_runtime_allocators s' = g_runtime_allocators s \<and> allocator_objs s' = allocator_objs s \<and>
     mem_slabs s' = mem_slabs s \<and> msg_ident s' = msg_ident s"

lemma deliver_callback:
  assumes "quiet_handlers P log" and "can_receive P s x" and "type_of s x = PUB_SUB_RX_TYPE_CALLBACK"
  shows "\<exists>s1. deliver_to P x i m handled s = Inr (handled, s1) \<and> same_subs s s1 \<and>
    log (app s1) = log (app s) @ [(fst (handler_of s x), i, m, snd (handler_of s x))] \<and>
    msgqs s1 = msgqs s \<and> messages s1 = messages s"
proof -
  obtain su f d where su: "subscribers s x = Some su" "rx_type su = PUB_SUB_RX_TYPE_CALLBACK"
    "handler_data su = \<lparr>msg_handler = User_handler f, user_data = d\<rparr>"
    using assms(2,3) by (auto simp: can_receive_def type_of_def key_of_def)
  obtain a where "sub_handle P x i m s = Inr ((), s\<lparr>app := a\<rparr>)" "log a = log (app s) @ [(f, i, m, d)]"
    using sub_handle_quiet [OF assms(1), of s x f d i m] su by auto
  then show ?thesis
    using su by (auto simp: deliver_to_def sub_run assert_handler_def same_subs_def handler_of_def)
qed

lemma deliver_msgq:
  assumes "header_laws P" and "msgq_laws P" and "can_receive P s x"
    and "type_of s x = PUB_SUB_RX_TYPE_MSGQ" and "msg_free s m"
  shows "\<exists>s1 q k k'. deliver_to P x i m handled s = Inr (handled, s1) \<and> same_subs s s1 \<and> app s1 = app s \<and>
    msgq_ptr s x = Some q \<and> msgqs s q = Some k \<and> msgqs s1 = (msgqs s)(q \<mapsto> k') \<and>
    msgq_items P k' = msgq_items P k @ [m] \<and> msgq_max P k' = msgq_max P k \<and>
    ref_cnt s1 = (ref_cnt s)(m := ref_cnt s m + 1) \<and>
    (ref_cnt s m + 1 < 255 \<longrightarrow> msg_free s1 m) \<and> link_flag s1 = link_flag s"
proof -
  obtain su q k where su: "subscribers s x = Some su" "rx_type su = PUB_SUB_RX_TYPE_MSGQ"
    "rx_queue su = Rx_msgq q" "msgqs s q = Some k" "length (msgq_items P k) < msgq_max P k"
    using assms(3,4) by (auto simp: can_receive_def type_of_def key_of_def)
  obtain h where h: "messages s m = Some h" "m \<noteq> NULL" "\<not> fifo_reserved h"
    "ref_of (atomic_data h) \<noteq> UINT8_MAX" "ref_cnt s m = unat (ref_of (atomic_data h))"
    "ref_cnt s m < 255" using assms(5) by (rule msg_freeE)
  let ?s = "set_atomic_data m (atomic_data h + 1) s"
  have a: "pub_sub_acquire_msg P m s = Inr ((), ?s)"
    using acquire_run [OF assms(1) h(1,2)] h(4) by simp
  have u: "unat (ref_of (atomic_data h) + 1) = unat (ref_of (atomic_data h)) + 1"
    using h(5,6) by (simp add: unat_inc)
  have su': "subscribers ?s x = Some su" "msgqs ?s q = Some k" using su by simp_all
  obtain k' where k': "msgq_put P x m K_FOREVER ?s = Inr (0, write_msgq q k' ?s)"
    "msgq_items P k' = msgq_items P k @ [m]" "msgq_max P k' = msgq_max P k"
    using msgq_put_run(1) [OF assms(2) su'(1) su(3) su'(2) su(5)] by blast
  let ?s1 = "write_msgq q k' ?s"
  have ms: "messages ?s1 = (messages s)(m \<mapsto> h\<lparr>atomic_data := atomic_data h + 1\<rparr>)" using h(1) by simp
  have r: "ref_cnt ?s1 = (ref_cnt s)(m := ref_cnt s m + 1)"
    using h fields_inc [OF h(4)] u by (auto simp: ref_cnt_def ms fun_eq_iff)
  have i: "msg_ident ?s1 = msg_ident s"
    using h fields_inc [OF h(4)] by (auto simp: msg_ident_def ms fun_eq_iff)
  have "msg_free ?s1 m" if "ref_cnt s m + 1 < 255"
    using that h ms r by (simp add: msg_free_def)
  moreover have "link_flag ?s1 = link_flag s" using h(1) by (simp add: link_flag_def ms fun_eq_iff del: write_msgq_frame)
  ultimately show ?thesis
    using su a k' r i
    by (intro exI [of _ ?s1] exI [of _ q] exI [of _ k] exI [of _ k'])
      (simp add: deliver_to_def sub_run same_subs_def msgq_ptr_def)
qed

lemma deliver_fifo:
  assumes "header_laws P" and "can_receive P s x"
    and "type_of s x = PUB_SUB_RX_TYPE_FIFO" and "msg_free s m"
  shows "deliver_to P x i m False s = Inr (True, hand_over P x m s)" and "is_fifo_sub s x"
proof -
  obtain su q where su: "subscribers s x = Some su" "rx_type su = PUB_SUB_RX_TYPE_FIFO"
    "rx_queue su = Rx_fifo q"
    using assms(2,3) by (auto simp: can_receive_def type_of_def key_of_def)
  then show f: "is_fifo_sub s x" by (simp add: is_fifo_sub_def)
  have "thenM (pub_sub_acquire_msg P m) (pub_sub_msg_fifo_put P (Sub_fifo x) m) s = Inr ((), hand_over P x m s)"
    using hand_over_run [OF assms(1,4) f] .
  then show "deliver_to P x i m False s = Inr (True, hand_over P x m s)"
    using su by (auto simp: deliver_to_def sub_run split: sum.splits)
qed

section \<open>The loop over the subscribers\<close>

text \<open>The subscribers of a list that want a message, by type.\<close>

definition wanting :: "('k, 'u) platform \<Rightarrow> ('k, 'u) memory \<Rightarrow> uint16 \<Rightarrow> pub_sub_rx_type \<Rightarrow> ptr list \<Rightarrow> ptr list" where
  "wanting P s i k xs = filter (\<lambda>x. i \<in> subscriptions P s x \<and> type_of s x = k) xs"

lemma wanting_simps [simp]:
  "wanting P s i k [] = []"
  "wanting P s i k (x # xs) =
     (if i \<in> subscriptions P s x \<and> type_of s x = k then x # wanting P s i k xs else wanting P s i k xs)"
  by (simp_all add: wanting_def)

lemma wanting_same_subs: "same_subs s s1 \<Longrightarrow> wanting P s1 = wanting P s"
proof -
  assume "same_subs s s1"
  then have e: "key_of s1 = key_of s" "subscriptions P s1 = subscriptions P s"
    using views_by_subscribers(1) [of s1 s] sub_list_by_subscribers(2) [of s1 s]
    by (auto simp: same_subs_def)
  show ?thesis unfolding wanting_def [abs_def] type_of_def e by (rule refl)
qed

lemma can_receive_cong:
  assumes "subscribers s1 = subscribers s" and "msgqs s1 = msgqs s"
  shows "can_receive P s1 = can_receive P s"
  unfolding can_receive_def [abs_def] assms by (rule refl)

lemma can_receive_other_msgq:
  assumes "same_subs s s1" and "msgqs s1 = (msgqs s)(q \<mapsto> k')" and "can_receive P s x"
    and "msgq_ptr s x \<noteq> Some q"
  shows "can_receive P s1 x"
proof -
  obtain su where su: "subscribers s x = Some su" using assms(3) by (auto simp: can_receive_def)
  then have "rx_queue su \<noteq> Rx_msgq q" using assms(4) by (auto simp: msgq_ptr_def)
  then show ?thesis using assms(1-3) su
    by (auto simp: can_receive_def same_subs_def split: pub_sub_rx_type.splits)
qed

text \<open>What the delivery of \<open>m\<close> to the subscribers \<open>zs\<close> amounts to: the calls of handlers, the
  message queues, the FIFOs and the reference count; \<open>r\<close> references have been released.\<close>

definition delivered ::
  "('k, 'u) platform \<Rightarrow> ('u \<Rightarrow> (nat \<times> uint16 \<times> ptr \<times> ptr) list) \<Rightarrow> uint16 \<Rightarrow> ptr \<Rightarrow> ptr list \<Rightarrow>
   nat \<Rightarrow> ('k, 'u) memory \<Rightarrow> ('k, 'u) memory \<Rightarrow> bool" where
  "delivered P log i m zs r s s' \<longleftrightarrow>
     log (app s') = log (app s) @
       map (\<lambda>x. (fst (handler_of s x), i, m, snd (handler_of s x))) (wanting P s i PUB_SUB_RX_TYPE_CALLBACK zs) \<and>
     (\<forall>x. msgq_of P s' x = msgq_of P s x @ (if x \<in> set (wanting P s i PUB_SUB_RX_TYPE_MSGQ zs) then [m] else [])) \<and>
     fifo_of P s' = (case wanting P s i PUB_SUB_RX_TYPE_FIFO zs of
       [] \<Rightarrow> fifo_of P s | y # _ \<Rightarrow> (fifo_of P s)(y := fifo_of P s y @ [m])) \<and>
     ref_cnt s' = (ref_cnt s)(m := ref_cnt s m + length (wanting P s i PUB_SUB_RX_TYPE_MSGQ zs) +
       (if wanting P s i PUB_SUB_RX_TYPE_FIFO zs = [] then 0 else 1) - r) \<and>
     msg_ident s' = msg_ident s \<and> published P s' = published P s \<and>
     sub_lock_depth P s' = sub_lock_depth P s \<and>
     g_runtime_allocators s' = g_runtime_allocators s \<and> allocator_objs s' = allocator_objs s \<and>
     mem_slabs s' = mem_slabs s \<and> sub_views P s' = sub_views P s \<and>
     link_flag s' = (if wanting P s i PUB_SUB_RX_TYPE_FIFO zs = [] then link_flag s
       else (link_flag s)(m := Some True))"

lemma hand_over_msgq_of: "is_fifo_sub s y \<Longrightarrow> msgq_of P (hand_over P y m s) = msgq_of P s"
proof -
  assume f: "is_fifo_sub s y"
  obtain su q where q: "subscribers s y = Some su" "rx_queue su = Rx_fifo q"
    "fifo_at (Sub_fifo y) s = Inr q" using f by (rule is_fifo_subE)
  have "msgq_ptr (hand_over P y m s) x = msgq_ptr s x" for x
    using q by (cases "x = y"; cases "messages s m") (auto simp: msgq_ptr_def hand_over_def)
  then show ?thesis by (intro msgq_of_by_queues) (simp_all add: fun_eq_iff)
qed

lemma hand_over_views:
  assumes "is_fifo_sub s y"
  shows "sub_views P (hand_over P y m s) = sub_views P s"
proof -
  obtain su q where q: "subscribers s y = Some su" "rx_type su = PUB_SUB_RX_TYPE_FIFO"
    "rx_queue su = Rx_fifo q" "fifo_at (Sub_fifo y) s = Inr q" using assms by (rule is_fifo_subE)
  have "type_of (hand_over P y m s) x = type_of s x \<and> handler_of (hand_over P y m s) x = handler_of s x \<and>
      msgq_ptr (hand_over P y m s) x = msgq_ptr s x \<and> user_handled (hand_over P y m s) x = user_handled s x \<and>
      is_fifo_sub (hand_over P y m s) x = is_fifo_sub s x \<and> broker_of (hand_over P y m s) x = broker_of s x \<and>
      has_fifo (hand_over P y m s) x = has_fifo s x \<and> key_of (hand_over P y m s) x = key_of s x \<and>
      max_id_of (hand_over P y m s) x = max_id_of s x" for x
    using q by (cases "x = y"; cases "messages s m")
      (auto simp: msgq_ptr_def hand_over_def type_of_def key_of_def handler_of_def user_handled_def is_fifo_sub_def
        broker_of_def has_fifo_def max_id_of_def split: pub_sub_handler_fn.split)
  then have v: "type_of (hand_over P y m s) = type_of s" "handler_of (hand_over P y m s) = handler_of s"
      "msgq_ptr (hand_over P y m s) = msgq_ptr s" "user_handled (hand_over P y m s) = user_handled s"
      "is_fifo_sub (hand_over P y m s) = is_fifo_sub s" "broker_of (hand_over P y m s) = broker_of s"
      "has_fifo (hand_over P y m s) = has_fifo s" "key_of (hand_over P y m s) = key_of s"
      "max_id_of (hand_over P y m s) = max_id_of s"
    by (simp_all add: fun_eq_iff)
  have "msgq_cap P (hand_over P y m s) = msgq_cap P s" by (rule msgq_cap_by_queues [OF v(3)]) simp
  then show "sub_views P (hand_over P y m s) = sub_views P s" using v by (simp add: sub_views_def)
qed

lemma process_loop_run:
  assumes "header_laws P" and "msgq_laws P" and "fifo_laws P" and "slist_laws P" and "quiet_handlers P log"
  shows "sub_list P s b (us @ zs) \<Longrightarrow> length zs < n \<Longrightarrow> sorted (map (type_of s) zs) \<Longrightarrow>
    (\<forall>x \<in> set zs. i \<in> subscriptions P s x \<longrightarrow> can_receive P s x) \<Longrightarrow> own_msgqs s \<Longrightarrow>
    msg_free s m \<Longrightarrow> ref_cnt s m + length zs < 255 \<Longrightarrow>
    \<exists>s'. process_loop n P (hd0 zs) (hd0 (tl zs)) i m False s = Inr ((), s') \<and> delivered P log i m zs 0 s s'"
proof (induction zs arbitrary: us n s)
  case Nil
  then show ?case by (cases n) (auto simp: delivered_def)
next
  case (Cons z zs)
  obtain j where j: "n = Suc j" "length zs < j" using Cons.prems(2) by (cases n) auto
  have o: "sub_ok s z" using sub_list_sub_ok [OF Cons.prems(1)] by simp
  have z0: "z \<noteq> NULL" using sub_ok_not_NULL [OF o] .
  have zn: "z \<notin> set zs" using sub_list_distinct [OF Cons.prems(1)] by simp
  have nxt: "peek_next_container P (hd0 zs) s1 = Inr (hd0 (tl zs), s1)"
    if "sub_list P s1 b ((us @ [z]) @ zs)" for s1
  proof (cases zs)
    case Nil
    then show ?thesis by (simp add: peek_next_container_def)
  next
    case (Cons y ys)
    then show ?thesis using peek_next_container_run [OF assms(4), of s1 b "us @ [z]" y ys] that by simp
  qed
  have r: "length zs < j" "sorted (map (type_of s) zs)" using j Cons.prems(3) by simp_all
  show ?case
  proof (cases "i \<in> subscriptions P s z")
    case False
    have l: "sub_list P s b ((us @ [z]) @ zs)" using Cons.prems(1) by simp
    obtain s' where s': "process_loop j P (hd0 zs) (hd0 (tl zs)) i m False s = Inr ((), s')"
      "delivered P log i m zs 0 s s'"
      using Cons.IH [OF l r] Cons.prems(4-7) by auto
    have "process_loop n P (hd0 (z # zs)) (hd0 (tl (z # zs))) i m False s = Inr ((), s')"
      using False z0 s'(1) nxt [OF l] by (simp add: j(1) is_subscribed_run [OF o])
    then show ?thesis using s'(2) False by (auto simp: delivered_def)
  next
    case True
    have cr: "can_receive P s z" using Cons.prems(4) True by simp
    show ?thesis
    proof (cases "type_of s z")
      case PUB_SUB_RX_TYPE_CALLBACK
      obtain s1 where s1: "deliver_to P z i m False s = Inr (False, s1)" "same_subs s s1"
        "log (app s1) = log (app s) @ [(fst (handler_of s z), i, m, snd (handler_of s z))]"
        "msgqs s1 = msgqs s" "messages s1 = messages s"
        using deliver_callback [OF assms(5) cr PUB_SUB_RX_TYPE_CALLBACK] by blast
      note sb = s1(2) [unfolded same_subs_def]
      note v = views_by_subscribers [of s1 s, OF conjunct1 [OF sb]]
      have sl: "sub_list P s1 = sub_list P s" "subscriptions P s1 = subscriptions P s"
        using sub_list_by_subscribers [of s1 s] sb by auto
      have mv: "msgq_of P s1 = msgq_of P s" "ref_cnt s1 = ref_cnt s" "msg_free s1 m"
        using msgq_of_by_queues [OF v(3) s1(4)] s1(5) Cons.prems(6)
        by (simp_all add: fun_eq_iff ref_cnt_def msg_free_def)
      have l: "sub_list P s1 b ((us @ [z]) @ zs)" using Cons.prems(1) sl by simp
      have "\<forall>x \<in> set zs. i \<in> subscriptions P s1 x \<longrightarrow> can_receive P s1 x"
        using Cons.prems(4) can_receive_cong [OF conjunct1 [OF sb] s1(4)] sl(2) by simp
      then obtain s' where s': "process_loop j P (hd0 zs) (hd0 (tl zs)) i m False s1 = Inr ((), s')"
        "delivered P log i m zs 0 s1 s'"
        using Cons.IH [OF l r(1)] r(2) v(6,7) Cons.prems(5,7) mv(2,3) by auto
      have "process_loop n P (hd0 (z # zs)) (hd0 (tl (z # zs))) i m False s = Inr ((), s')"
        using True z0 s'(1) s1(1) nxt [OF l] by (simp add: j(1) is_subscribed_run [OF o])
      moreover have lf: "link_flag s1 = link_flag s" using s1(5) by (simp add: link_flag_def fun_eq_iff)
      moreover have "sub_views P s1 = sub_views P s"
        using sub_views_cong_mem [of s1 s P] msgq_cap_by_queues [OF v(3) s1(4), of P] sl sb by simp
      then have "delivered P log i m (z # zs) 0 s s'"
        using s'(2) True PUB_SUB_RX_TYPE_CALLBACK s1(3) lf v mv sb wanting_same_subs [OF s1(2), of P]
        by (auto simp: delivered_def by_brokers [of s1 s] split: list.split)
      ultimately show ?thesis by blast
    next
      case PUB_SUB_RX_TYPE_MSGQ
      obtain s1 q k k' where s1: "deliver_to P z i m False s = Inr (False, s1)" "same_subs s s1"
        "app s1 = app s" "msgq_ptr s z = Some q" "msgqs s q = Some k" "msgqs s1 = (msgqs s)(q \<mapsto> k')"
        "msgq_items P k' = msgq_items P k @ [m]"
        "ref_cnt s1 = (ref_cnt s)(m := ref_cnt s m + 1)" "ref_cnt s m + 1 < 255 \<longrightarrow> msg_free s1 m"
        "msgq_max P k' = msgq_max P k" "link_flag s1 = link_flag s"
        using deliver_msgq [OF assms(1,2) cr PUB_SUB_RX_TYPE_MSGQ Cons.prems(6)] by blast
      note sb = s1(2) [unfolded same_subs_def]
      note v = views_by_subscribers [of s1 s, OF conjunct1 [OF sb]]
      have sl: "sub_list P s1 = sub_list P s" "subscriptions P s1 = subscriptions P s"
        using sub_list_by_subscribers [of s1 s] sb by auto
      have l: "sub_list P s1 b ((us @ [z]) @ zs)" using Cons.prems(1) sl by simp
      have oth: "msgq_ptr s x \<noteq> Some q" if "x \<noteq> z" for x
        using that Cons.prems(5) s1(4) by (auto simp: own_msgqs_def)
      have mq: "msgq_of P s1 = (msgq_of P s)(z := msgq_of P s z @ [m])"
        using v(3) s1(4-7) oth by (auto simp: fun_eq_iff msgq_of_def split: option.split)
      have "can_receive P s1 x" if "x \<in> set zs" "i \<in> subscriptions P s x" for x
        using can_receive_other_msgq [OF s1(2,6)] that oth Cons.prems(4) zn by (metis list.set_intros(2))
      then have "\<forall>x \<in> set zs. i \<in> subscriptions P s1 x \<longrightarrow> can_receive P s1 x" by (simp add: sl(2))
      moreover have "ref_cnt s1 m + length zs < 255" "msg_free s1 m" using s1(8,9) Cons.prems(7) by simp_all
      ultimately obtain s' where s': "process_loop j P (hd0 zs) (hd0 (tl zs)) i m False s1 = Inr ((), s')"
        "delivered P log i m zs 0 s1 s'"
        using Cons.IH [OF l r(1)] r(2) v(6,7) Cons.prems(5) by auto
      have "process_loop n P (hd0 (z # zs)) (hd0 (tl (z # zs))) i m False s = Inr ((), s')"
        using True z0 s'(1) s1(1) nxt [OF l] by (simp add: j(1) is_subscribed_run [OF o])
      moreover have zw: "z \<notin> set (wanting P s i PUB_SUB_RX_TYPE_MSGQ zs)" using zn by (simp add: wanting_def)
      have "msgq_cap P s1 = msgq_cap P s"
        using v(3) s1(4-6,10) oth by (auto simp: fun_eq_iff msgq_cap_def split: option.split)
      then have "sub_views P s1 = sub_views P s" using sub_views_cong_mem [of s1 s P] sl sb by simp
      then have "delivered P log i m (z # zs) 0 s s'"
        using zw s'(2) True PUB_SUB_RX_TYPE_MSGQ s1(3,8,11) v mq sb wanting_same_subs [OF s1(2), of P]
        by (auto simp: delivered_def by_brokers [of s1 s] split: list.split)
      ultimately show ?thesis by blast
    next
      case PUB_SUB_RX_TYPE_FIFO
      note d = deliver_fifo [OF assms(1) cr PUB_SUB_RX_TYPE_FIFO Cons.prems(6)]
      have "type_of s x = PUB_SUB_RX_TYPE_FIFO" if "x \<in> set zs" for x
        using that Cons.prems(3) PUB_SUB_RX_TYPE_FIFO by (auto intro: antisym)
      then have w: "wanting P s i PUB_SUB_RX_TYPE_CALLBACK zs = []" "wanting P s i PUB_SUB_RX_TYPE_MSGQ zs = []"
        by (auto simp: wanting_def filter_empty_conv)
      have "process_loop n P (hd0 (z # zs)) (hd0 (tl (z # zs))) i m False s = Inr ((), hand_over P z m s)"
        using True z0 d(1) by (simp add: j(1) is_subscribed_run [OF o])
      moreover have "delivered P log i m (z # zs) 0 s (hand_over P z m s)"
        using True PUB_SUB_RX_TYPE_FIFO w hand_over_effect [OF assms(3) Cons.prems(6) d(2)]
          by_brokers [of "hand_over P z m s" s] hand_over_msgq_of [OF d(2), of P m] hand_over_views [OF d(2)] link_flag_hand_over [OF Cons.prems(6) d(2), of P]
        by (simp add: delivered_def)
      ultimately show ?thesis by blast
    qed
  qed
qed

section \<open>Processing a message\<close>

lemma documented_order_sorted: "documented_order (key_of s) xs \<Longrightarrow> sorted (map (type_of s) xs)"
proof (induction xs)
  case (Cons x xs)
  have "type_of s x \<le> type_of s y" if "y \<in> set xs" for y
    using Cons.prems that by (cases "key_of s x"; cases "key_of s y")
      (fastforce simp: documented_order_def type_of_def)
  then show ?case using Cons by (simp add: documented_order_def)
qed simp

lemma msgq_ptr_frames [simp]:
  "msgq_ptr (upd_broker b f s) = msgq_ptr s" "msgq_ptr (set_atomic_data m w s) = msgq_ptr s"
  by (simp_all add: msgq_ptr_def [abs_def])

lemma msgq_of_frames [simp]:
  "msgq_of P (upd_broker b f s) = msgq_of P s" "msgq_of P (set_atomic_data m w s) = msgq_of P s"
  by (rule msgq_of_by_queues; simp)+

lemma can_receive_upd_broker [simp]: "can_receive P (upd_broker b f s) = can_receive P s"
  by (rule can_receive_cong) simp_all

lemma handler_of_upd_broker [simp]: "handler_of (upd_broker b f s) = handler_of s"
  and type_of_upd_broker [simp]: "type_of (upd_broker b f s) = type_of s"
  and own_msgqs_upd_broker [simp]: "own_msgqs (upd_broker b f s) = own_msgqs s"
  by (rule views_by_subscribers; simp)+

lemma msgq_cap_frames [simp]:
  "msgq_cap P (upd_broker b f s) = msgq_cap P s" "msgq_cap P (set_atomic_data m w s) = msgq_cap P s"
  by (rule msgq_cap_by_queues; simp)+

lemma sub_views_frames [simp]:
  "sub_views P (upd_broker b f s) = sub_views P s" "sub_views P (set_atomic_data m w s) = sub_views P s"
  by (rule sub_views_cong_mem; simp)+

lemma wanting_by_views: "sub_views P s' = sub_views P s \<Longrightarrow> wanting P s' = wanting P s"
  using sub_viewsD(2,3) [of P s' s] by (simp add: wanting_def [abs_def])

text \<open>The lock around the loop.\<close>

lemma delivered_unlocked:
  assumes "mutex_laws P" and "delivered P log i m xs 0 (sub_lock P b s) s1"
  shows "delivered P log i m xs 0 s (sub_unlock P b s1)"
proof -
  have w: "wanting P (sub_lock P b s) = wanting P s"
    by (rule wanting_by_views) (simp add: sub_lock_def)
  have f: "handler_of (sub_lock P b s) = handler_of s" "msgq_of P (sub_lock P b s) = msgq_of P s"
    "sub_views P (sub_lock P b s) = sub_views P s" "g_runtime_allocators (sub_lock P b s) = g_runtime_allocators s"
    "msgq_of P (sub_unlock P b s1) = msgq_of P s1" "sub_views P (sub_unlock P b s1) = sub_views P s1"
    "g_runtime_allocators (sub_unlock P b s1) = g_runtime_allocators s1"
    "allocator_objs (sub_lock P b s) = allocator_objs s" "allocator_objs (sub_unlock P b s1) = allocator_objs s1"
    "mem_slabs (sub_lock P b s) = mem_slabs s" "mem_slabs (sub_unlock P b s1) = mem_slabs s1"
    by (simp_all add: sub_lock_def sub_unlock_def)
  have lf: "link_flag (sub_lock P b s) = link_flag s" "link_flag (sub_unlock P b s1) = link_flag s1" by simp_all
  have p: "published P (sub_lock P b s) = published P s" "published P (sub_unlock P b s1) = published P s1"
    by (auto simp: published_def fun_eq_iff sub_lock_def sub_unlock_def split: option.split)
  have "sub_lock_depth P (sub_unlock P b s1) = sub_lock_depth P s"
  proof (rule ext)
    fix c
    have "map_option (\<lambda>br. mutex_depth P (sub_list_mutex br)) (brokers s1 c) =
        map_option (\<lambda>br. mutex_depth P (sub_list_mutex br)) (brokers (sub_lock P b s) c)"
      using assms(2) by (simp add: delivered_def sub_lock_depth_def fun_eq_iff)
    then show "sub_lock_depth P (sub_unlock P b s1) c = sub_lock_depth P s c"
      using assms(1) by (cases "brokers s c"; cases "brokers s1 c")
        (auto simp: sub_lock_depth_def sub_lock_def sub_unlock_def mutex_laws_def split: if_splits)
  qed
  then show ?thesis using assms(2) by (simp add: delivered_def w f p lf cong: list.case_cong)
qed

lemma delivered_released:
  assumes "delivered P log i m xs 0 s s1" and "s2 = set_atomic_data m w s1"
    and "ref_cnt s2 = (ref_cnt s1)(m := ref_cnt s1 m - 1)" and "msg_ident s2 = msg_ident s1"
  shows "delivered P log i m xs 1 s s2"
proof -
  have "published P s2 = published P s1" "sub_lock_depth P s2 = sub_lock_depth P s1"
    by (rule by_brokers; simp add: assms(2))+
  moreover have "link_flag s2 = link_flag s1" by (simp add: assms(2))
  ultimately show ?thesis using assms by (auto simp: delivered_def)
qed

text \<open>\<open>process_msg\<close>: the loop in its lock, then the release of the publisher's reference.\<close>

lemma process_msg_run:
  assumes "header_laws P" and "msgq_laws P" and "fifo_laws P" and "slist_laws P" and "mutex_laws P"
    and "quiet_handlers P log" and "sub_list P s b xs" and "length xs < fuel P"
    and "sorted (map (type_of s) xs)" and "own_msgqs s"
    and "\<forall>x \<in> set xs. i \<in> subscriptions P s x \<longrightarrow> can_receive P s x"
    and "msg_free s m" and "0 < ref_cnt s m" and "ref_cnt s m + length xs < 255"
    and "msg_ident s m = Some (i, aid)"
    and "num_allocators (g_runtime_allocators s) \<le> length (allocators (g_runtime_allocators s))"
  shows "\<exists>s1. delivered P log i m xs 1 s s1 \<and>
    process_msg P b i m s = (if ref_cnt s1 m = 0 then free_by_id P m aid s1 else Inr ((), s1))"
proof -
  obtain br where br: "brokers s b = Some br" using assms(7) by (auto simp: sub_list_def)
  let ?l = "sub_lock P b s"
  have l: "sub_list P ?l b ([] @ xs)" "sorted (map (type_of ?l) xs)" "own_msgqs ?l"
    "\<forall>x \<in> set xs. i \<in> subscriptions P ?l x \<longrightarrow> can_receive P ?l x"
    "slists ?l = slists s" "brokers ?l b \<noteq> None"
    using assms(7,9-11) br by (simp_all add: sub_lock_def)
  obtain s1 where s1: "process_loop (fuel P) P (hd0 xs) (hd0 (tl xs)) i m False ?l = Inr ((), s1)"
    "delivered P log i m xs 0 ?l s1"
    using process_loop_run [OF assms(1-4,6) l(1) assms(8) l(2,4,3)] assms(12,14) by auto
  have "sub_lock_depth P s1 b = sub_lock_depth P ?l b" using s1(2) by (simp add: delivered_def)
  then obtain br1 where br1: "brokers s1 b = Some br1" using l(6) by (auto simp: sub_lock_depth_def)
  have h: "sys_slist_peek_head P (slists ?l) b = hd0 xs"
    using peek_head_run [OF assms(4) l(1)] by (simp add: hd0_def)
  have t: "peek_next_container P (hd0 xs) ?l = Inr (hd0 (tl xs), ?l)"
  proof (cases xs)
    case Nil
    then show ?thesis by (simp add: peek_next_container_def)
  next
    case (Cons y ys)
    then show ?thesis using peek_next_container_run [OF assms(4), of ?l b "[]" y ys] l(1) by simp
  qed
  let ?u = "sub_unlock P b s1"
  have u: "delivered P log i m xs 0 s ?u" by (rule delivered_unlocked [OF assms(5) s1(2)])
  have v: "valid_msg ?u m" "0 < ref_cnt ?u m" "msg_ident ?u m = Some (i, aid)"
    using u assms(12,13,15) by (auto simp: delivered_def valid_by_ident msg_free_def)
  have g: "num_allocators (g_runtime_allocators ?u) \<le> length (allocators (g_runtime_allocators ?u))"
    using u assms(16) by (simp add: delivered_def)
  obtain s2 w where s2: "s2 = set_atomic_data m w ?u" "ref_cnt s2 = (ref_cnt ?u)(m := ref_cnt ?u m - 1)"
    "msg_ident s2 = msg_ident ?u"
    "pub_sub_release_msg P m ?u = (if ref_cnt ?u m = 1 then free_by_id P m aid s2 else Inr ((), s2))"
    using release_effect [OF assms(1) v g] by blast
  have "process_msg P b i m s = pub_sub_release_msg P m ?u"
    using br br1 h t s1(1) by (simp add: process_msg_def sub_run sub_lock_def sub_unlock_def)
  then have "process_msg P b i m s = (if ref_cnt s2 m = 0 then free_by_id P m aid s2 else Inr ((), s2))"
    using s2(2,4) v(2) by auto
  then show ?thesis using delivered_released [OF u s2(1-3)] by blast
qed

section \<open>Emptying the FIFO of published messages\<close>

lemma set_publish_fifo_views:
  assumes "s' = set_fifo (Msg_publish_fifo b) q s"
  shows "sub_views P s' = sub_views P s" "msgq_of P s' = msgq_of P s" "fifo_of P s' = fifo_of P s"
    "ref_cnt s' = ref_cnt s" "msg_ident s' = msg_ident s" "sub_lock_depth P s' = sub_lock_depth P s"
    "brokers s b = Some br \<Longrightarrow> published P s' = (published P s)(b := fifo_items P q)"
    "messages s' = messages s" "app s' = app s" "g_runtime_allocators s' = g_runtime_allocators s"
    "allocator_objs s' = allocator_objs s" "mem_slabs s' = mem_slabs s"
proof -
  have s: "subscribers s' = subscribers s" "bitarrays s' = bitarrays s" "slists s' = slists s"
    "msgqs s' = msgqs s" "messages s' = messages s"
    by (simp_all add: assms)
  note v = views_by_subscribers [OF s(1)]
  have l: "sub_list P s' = sub_list P s" unfolding assms by (rule sub_list_set_fifo)
  show "sub_views P s' = sub_views P s"
    by (rule sub_views_cong_mem [OF s(1-3) l msgq_cap_by_queues [OF v(3) s(4)]])
  show "msgq_of P s' = msgq_of P s" by (rule msgq_of_by_queues [OF v(3) s(4)])
  show "fifo_of P s' = fifo_of P s" by (rule v(5))
  show "ref_cnt s' = ref_cnt s" "msg_ident s' = msg_ident s"
    unfolding ref_cnt_def [abs_def] msg_ident_def [abs_def] s(5) by (rule refl)+
  show "sub_lock_depth P s' = sub_lock_depth P s"
    by (auto simp: assms sub_lock_depth_def fun_eq_iff option.map_comp comp_def)
  show "brokers s b = Some br \<Longrightarrow> published P s' = (published P s)(b := fifo_items P q)"
    by (auto simp: assms published_def fun_eq_iff)
qed (simp_all add: assms)

lemma set_fifo_reserved_views:
  assumes "s' = set_fifo_reserved m r s"
  shows "sub_views P s' = sub_views P s" "msgq_of P s' = msgq_of P s" "fifo_of P s' = fifo_of P s"
    "ref_cnt s' = ref_cnt s" "msg_ident s' = msg_ident s" "sub_lock_depth P s' = sub_lock_depth P s"
    "published P s' = published P s" "brokers s' = brokers s"
    "app s' = app s" "g_runtime_allocators s' = g_runtime_allocators s"
    "allocator_objs s' = allocator_objs s" "mem_slabs s' = mem_slabs s"
proof -
  have s: "subscribers s' = subscribers s" "bitarrays s' = bitarrays s" "slists s' = slists s"
    "msgqs s' = msgqs s" "brokers s' = brokers s"
    by (simp_all add: assms)
  note v = views_by_subscribers [OF s(1)]
  have l: "sub_list P s' = sub_list P s" by (simp add: assms)
  show "sub_views P s' = sub_views P s"
    by (rule sub_views_cong_mem [OF s(1-3) l msgq_cap_by_queues [OF v(3) s(4)]])
  show "msgq_of P s' = msgq_of P s" by (rule msgq_of_by_queues [OF v(3) s(4)])
  show "fifo_of P s' = fifo_of P s" by (rule v(5))
  show "ref_cnt s' = ref_cnt s" "msg_ident s' = msg_ident s"
    by (auto simp: assms set_fifo_reserved_def ref_cnt_def msg_ident_def fun_eq_iff option.map_comp comp_def
        split: option.split)
  show "published P s' = published P s" "sub_lock_depth P s' = sub_lock_depth P s"
    by (rule by_brokers [OF s(5)])+
qed (simp_all add: assms)

text \<open>Taking the oldest published message leaves everything else as it was.\<close>

definition taken :: "('k, 'u) platform \<Rightarrow> ptr \<Rightarrow> ptr list \<Rightarrow> ('k, 'u) memory \<Rightarrow> ('k, 'u) memory \<Rightarrow> bool" where
  "taken P b ms s s1 \<longleftrightarrow> published P s1 = (published P s)(b := ms) \<and> sub_views P s1 = sub_views P s \<and>
     msgq_of P s1 = msgq_of P s \<and> fifo_of P s1 = fifo_of P s \<and> ref_cnt s1 = ref_cnt s \<and>
     msg_ident s1 = msg_ident s \<and> sub_lock_depth P s1 = sub_lock_depth P s \<and> app s1 = app s \<and>
     g_runtime_allocators s1 = g_runtime_allocators s \<and> allocator_objs s1 = allocator_objs s \<and>
     mem_slabs s1 = mem_slabs s"

lemma publish_get:
  assumes "fifo_laws P" and "brokers s b \<noteq> None"
  shows "published P s b = [] \<Longrightarrow> \<exists>s1. pub_sub_msg_fifo_get P (Msg_publish_fifo b) K_NO_WAIT s = Inr (NULL, s1) \<and>
      taken P b [] s s1 \<and> messages s1 = messages s"
    and "published P s b = m # ms \<Longrightarrow> m \<noteq> NULL \<Longrightarrow> messages s m = Some h \<Longrightarrow>
      \<exists>s1. pub_sub_msg_fifo_get P (Msg_publish_fifo b) K_NO_WAIT s = Inr (m, s1) \<and>
      taken P b ms s s1 \<and> messages s1 = (messages s)(m \<mapsto> h\<lparr>fifo_reserved := False\<rparr>)"
proof -
  obtain br where br: "brokers s b = Some br" using assms(2) by auto
  then have f: "fifo_at (Msg_publish_fifo b) s = Inr (msg_publish_fifo br)" by simp
  show "\<exists>s1. pub_sub_msg_fifo_get P (Msg_publish_fifo b) K_NO_WAIT s = Inr (NULL, s1) \<and>
      taken P b [] s s1 \<and> messages s1 = messages s" if "published P s b = []"
  proof -
    from that have "fifo_items P (msg_publish_fifo br) = []" by (simp add: published_def br)
    then obtain q where q: "fifo_items P q = []" "pub_sub_msg_fifo_get P (Msg_publish_fifo b) K_NO_WAIT s =
        Inr (NULL, set_fifo (Msg_publish_fifo b) q s)"
      using fifo_get_empty [OF assms(1) f] by blast
    note v = set_publish_fifo_views [OF refl, where b = b and q = q and s = s]
    show ?thesis
      by (rule exI [of _ "set_fifo (Msg_publish_fifo b) q s"])
        (use q v(1-6,8-12) v(7) [OF br] in \<open>simp add: taken_def del: set_fifo.simps\<close>)
  qed
  show "\<exists>s1. pub_sub_msg_fifo_get P (Msg_publish_fifo b) K_NO_WAIT s = Inr (m, s1) \<and>
      taken P b ms s s1 \<and> messages s1 = (messages s)(m \<mapsto> h\<lparr>fifo_reserved := False\<rparr>)"
    if "published P s b = m # ms" "m \<noteq> NULL" "messages s m = Some h"
  proof -
    from that(1) have "fifo_items P (msg_publish_fifo br) = m # ms" by (simp add: published_def br)
    from fifo_get_run [OF assms(1) f this, of K_NO_WAIT] that(2) obtain q where q: "fifo_items P q = ms"
      "pub_sub_msg_fifo_get P (Msg_publish_fifo b) K_NO_WAIT s =
        Inr (m, set_fifo (Msg_publish_fifo b) q (set_fifo_reserved m False s))"
      by auto
    let ?r = "set_fifo_reserved m False s"
    note v = set_publish_fifo_views [OF refl, where b = b and q = q and s = ?r]
    note r = set_fifo_reserved_views [OF refl, where m = m and r = False and s = s]
    have "brokers ?r b = Some br" using br by simp
    note p = v(7) [OF this]
    show ?thesis
      by (rule exI [of _ "set_fifo (Msg_publish_fifo b) q ?r"])
        (use q v(1-6,8-12) p r that(3) in \<open>simp add: taken_def del: set_fifo.simps\<close>)
  qed
qed

text \<open>A message that belongs to no allocator: releasing its last reference calls nothing.\<close>

definition unowned :: "('k, 'u) platform \<Rightarrow> ('k, 'u) memory \<Rightarrow> ptr \<Rightarrow> bool" where
  "unowned P s m \<longleftrightarrow> (\<exists>i aid. msg_ident s m = Some (i, aid) \<and>
     \<not> aid \<le> PUB_SUB_ALLOC_ID_LINK_SECTION_MAX_ID \<and> aid \<noteq> PUB_SUB_ALLOC_ID_CALLBACK_MSG \<and>
     allocator_at P s aid = None)"

lemma unowned_free:
  "unowned P s m \<Longrightarrow> msg_ident s m = Some (i, aid) \<Longrightarrow> free_by_id P m aid s = Inr ((), s)"
  by (auto simp: unowned_def free_by_id_def)

lemma unowned_cong:
  "msg_ident s' = msg_ident s \<Longrightarrow> g_runtime_allocators s' = g_runtime_allocators s \<Longrightarrow>
   unowned P s' = unowned P s"
  by (simp add: unowned_def [abs_def] allocator_at_def)

text \<open>A message whose allocator, found through the id in its header, works on the slab \<open>q\<close>.\<close>

definition slab_owned :: "('k, 'u) platform \<Rightarrow> ('k, 'u) memory \<Rightarrow> ptr \<Rightarrow> ptr \<Rightarrow> bool" where
  "slab_owned P s m q \<longleftrightarrow> m \<noteq> NULL \<and> (\<exists>n. slab_fits P s q n) \<and>
     (\<exists>i aid alloc a. msg_ident s m = Some (i, aid) \<and> allocator_at P s aid = Some alloc \<and>
        allocator_objs s alloc = Some a \<and> free a = Free_for_mem_slab \<and> impl a = q)"

definition freeable :: "('k, 'u) platform \<Rightarrow> ('k, 'u) memory \<Rightarrow> ptr \<Rightarrow> bool" where
  "freeable P s m \<longleftrightarrow> unowned P s m \<or> (\<exists>q. slab_owned P s m q)"

text \<open>Giving a message back: nothing happens to a static one, and a block of a slab becomes one of its
  free blocks again.\<close>

definition gave_back :: "('k, 'u) platform \<Rightarrow> ptr \<Rightarrow> ('k, 'u) memory \<Rightarrow> ('k, 'u) memory \<Rightarrow> bool" where
  "gave_back P m s s' \<longleftrightarrow> unowned P s m \<and> s' = s \<or>
     (\<exists>q k. slab_owned P s m q \<and> s' = write_slab q k s \<and> slab_fits P s' = slab_fits P s \<and>
        slab_pool P s' = (slab_pool P s)(q := insert m (slab_pool P s q)))"

lemma free_gives_back:
  assumes "slab_laws P" and "freeable P s m" and "msg_ident s m = Some (i, aid)"
  shows "\<exists>s'. free_by_id P m aid s = Inr ((), s') \<and> gave_back P m s s'"
proof (cases "unowned P s m")
  case True
  then show ?thesis using unowned_free [OF _ assms(3)] by (intro exI [of _ s]) (simp add: gave_back_def)
next
  case False
  then obtain q where q: "slab_owned P s m q" using assms(2) by (auto simp: freeable_def)
  then obtain n alloc a where a: "slab_fits P s q n" "m \<noteq> NULL" "allocator_at P s aid = Some alloc"
    "allocator_objs s alloc = Some a" "free a = Free_for_mem_slab" "impl a = q"
    using assms(3) by (auto simp: slab_owned_def)
  obtain s' where s': "pub_sub_free_for_mem_slab P q m s = Inr ((), s')"
    "slab_pool P s' = (slab_pool P s)(q := insert m (slab_pool P s q))" "slab_fits P s' = slab_fits P s"
    using slab.put_spec [OF assms(1) a(1,2)] by blast
  have "s' = write_slab q (k_mem_slab_free P (the (mem_slabs s q)) m) s"
    using s'(1) free_run [OF a(1,2)] by simp
  moreover have "free_by_id P m aid s = Inr ((), s')"
    using a s'(1) by (simp add: free_by_id_def msg_run)
  ultimately show ?thesis using q s'(2,3) by (auto simp: gave_back_def)
qed

text \<open>What no change of a slab touches.\<close>

lemma write_slab_views [simp]:
  "sub_views P (write_slab q k s) = sub_views P s" "msgq_of P (write_slab q k s) = msgq_of P s"
  "fifo_of P (write_slab q k s) = fifo_of P s" "published P (write_slab q k s) = published P s"
  "ref_cnt (write_slab q k s) = ref_cnt s" "msg_ident (write_slab q k s) = msg_ident s"
  "link_flag (write_slab q k s) = link_flag s" "sub_lock_depth P (write_slab q k s) = sub_lock_depth P s"
proof -
  let ?s = "write_slab q k s"
  note v = views_by_subscribers [of ?s s, simplified]
  have l: "sub_list P ?s = sub_list P s" by (rule sub_list_by_subscribers) simp_all
  have c: "msgq_cap P ?s = msgq_cap P s" by (rule msgq_cap_by_queues [OF v(3)]) simp
  show "sub_views P ?s = sub_views P s" by (rule sub_views_cong_mem) (simp_all add: l c)
  show "msgq_of P ?s = msgq_of P s" by (rule msgq_of_by_queues [OF v(3)]) simp
  show "fifo_of P ?s = fifo_of P s" by (rule v(5))
  show "published P ?s = published P s" "sub_lock_depth P ?s = sub_lock_depth P s" by (rule by_brokers; simp)+
qed (simp_all add: ref_cnt_def msg_ident_def link_flag_def fun_eq_iff)

definition freed :: "('k, 'u) platform \<Rightarrow> ptr \<Rightarrow> ('k, 'u) memory \<Rightarrow> ('k, 'u) memory \<Rightarrow> bool" where
  "freed P m s s' \<longleftrightarrow> (if ref_cnt s m = 0 then gave_back P m s s' else s' = s)"

lemma freed_views:
  assumes "freed P m s s'"
  shows "sub_views P s' = sub_views P s" and "msgq_of P s' = msgq_of P s" and "fifo_of P s' = fifo_of P s"
    and "published P s' = published P s" and "ref_cnt s' = ref_cnt s" and "msg_ident s' = msg_ident s"
    and "link_flag s' = link_flag s" and "sub_lock_depth P s' = sub_lock_depth P s" and "app s' = app s"
    and "g_runtime_allocators s' = g_runtime_allocators s" and "allocator_objs s' = allocator_objs s"
    and "slab_fits P s' = slab_fits P s"
  using assms by (auto simp: freed_def gave_back_def split: if_splits)

lemma allocator_at_cong: "g_runtime_allocators s' = g_runtime_allocators s \<Longrightarrow> allocator_at P s' = allocator_at P s"
  by (simp add: allocator_at_def fun_eq_iff)

lemma slab_fits_cong: "mem_slabs s' = mem_slabs s \<Longrightarrow> slab_fits P s' = slab_fits P s"
  by (simp add: slab_fits_def fun_eq_iff)

lemma slab_pool_cong: "mem_slabs s' = mem_slabs s \<Longrightarrow> slab_pool P s' = slab_pool P s"
  by (simp add: slab_pool_def fun_eq_iff)

lemma slab_owned_cong:
  assumes "msg_ident s' m = msg_ident s m" and "g_runtime_allocators s' = g_runtime_allocators s"
    and "allocator_objs s' = allocator_objs s" and "slab_fits P s' = slab_fits P s"
  shows "slab_owned P s' m = slab_owned P s m"
  unfolding slab_owned_def [abs_def] assms allocator_at_cong [OF assms(2)] by (rule refl)

lemma freeable_cong:
  assumes "msg_ident s' = msg_ident s" and "g_runtime_allocators s' = g_runtime_allocators s"
    and "allocator_objs s' = allocator_objs s" and "slab_fits P s' = slab_fits P s"
  shows "freeable P s' = freeable P s"
proof (rule ext)
  fix m
  have "slab_owned P s' m = slab_owned P s m" using assms by (intro slab_owned_cong) simp_all
  then show "freeable P s' m = freeable P s m" using unowned_cong [OF assms(1,2), of P] by (simp add: freeable_def)
qed

definition msg_id_of :: "('k, 'u) memory \<Rightarrow> ptr \<Rightarrow> uint16" where
  "msg_id_of s m = (case msg_ident s m of None \<Rightarrow> 0 | Some x \<Rightarrow> fst x)"

definition first_fifo :: "('k, 'u) platform \<Rightarrow> ('k, 'u) memory \<Rightarrow> uint16 \<Rightarrow> ptr list \<Rightarrow> ptr option" where
  "first_fifo P s i xs =
     (case wanting P s i PUB_SUB_RX_TYPE_FIFO xs of [] \<Rightarrow> None | y # _ \<Rightarrow> Some y)"

text \<open>What the distribution of the messages \<open>ms\<close>, in this order, to the subscribers \<open>xs\<close> amounts
  to.\<close>

definition handler_calls ::
  "('k, 'u) platform \<Rightarrow> ('k, 'u) memory \<Rightarrow> ptr list \<Rightarrow> ptr \<Rightarrow> (nat \<times> uint16 \<times> ptr \<times> ptr) list" where
  "handler_calls P s xs m = map (\<lambda>x. (fst (handler_of s x), msg_id_of s m, m, snd (handler_of s x)))
     (wanting P s (msg_id_of s m) PUB_SUB_RX_TYPE_CALLBACK xs)"

definition wanted_by_msgq :: "('k, 'u) platform \<Rightarrow> ('k, 'u) memory \<Rightarrow> ptr list \<Rightarrow> ptr \<Rightarrow> ptr set" where
  "wanted_by_msgq P s xs m = set (wanting P s (msg_id_of s m) PUB_SUB_RX_TYPE_MSGQ xs)"

definition new_refs :: "('k, 'u) platform \<Rightarrow> ('k, 'u) memory \<Rightarrow> ptr list \<Rightarrow> ptr \<Rightarrow> nat" where
  "new_refs P s xs m = length (wanting P s (msg_id_of s m) PUB_SUB_RX_TYPE_MSGQ xs) +
     (if first_fifo P s (msg_id_of s m) xs = None then 0 else 1)"

definition distributed ::
  "('k, 'u) platform \<Rightarrow> ('u \<Rightarrow> (nat \<times> uint16 \<times> ptr \<times> ptr) list) \<Rightarrow> ptr list \<Rightarrow> ptr list \<Rightarrow>
   ('k, 'u) memory \<Rightarrow> ('k, 'u) memory \<Rightarrow> bool" where
  "distributed P log ms xs s s' \<longleftrightarrow>
     log (app s') = log (app s) @ concat (map (handler_calls P s xs) ms) \<and>
     (\<forall>x. msgq_of P s' x = msgq_of P s x @ filter (\<lambda>m. x \<in> wanted_by_msgq P s xs m) ms) \<and>
     (\<forall>x. fifo_of P s' x = fifo_of P s x @ filter (\<lambda>m. first_fifo P s (msg_id_of s m) xs = Some x) ms) \<and>
     (\<forall>m. ref_cnt s' m = (if m \<in> set ms then ref_cnt s m + new_refs P s xs m - 1 else ref_cnt s m)) \<and>
     msg_ident s' = msg_ident s \<and> sub_views P s' = sub_views P s \<and>
     sub_lock_depth P s' = sub_lock_depth P s \<and> g_runtime_allocators s' = g_runtime_allocators s"

lemma spec_by_views:
  assumes "sub_views P s' = sub_views P s" and "msg_ident s' = msg_ident s"
  shows "handler_calls P s' = handler_calls P s" and "wanted_by_msgq P s' = wanted_by_msgq P s"
    and "first_fifo P s' = first_fifo P s" and "new_refs P s' = new_refs P s" and "msg_id_of s' = msg_id_of s"
  using wanting_by_views [OF assms(1)] sub_viewsD(4) [OF assms(1)] assms(2)
  by (simp_all add: handler_calls_def [abs_def] wanted_by_msgq_def [abs_def] first_fifo_def [abs_def]
      new_refs_def [abs_def] msg_id_of_def [abs_def])

lemma distributed_Nil: "taken P b ms' s s' \<Longrightarrow> distributed P log [] xs s s'"
  by (simp add: distributed_def taken_def)

lemma distributed_Cons:
  assumes "taken P b ms s s1" and "delivered P log (msg_id_of s m) m xs 1 s1 s2"
    and "distributed P log ms xs s2 s'" and "m \<notin> set ms"
  shows "distributed P log (m # ms) xs s s'"
proof -
  note t = assms(1) [unfolded taken_def] and d = assms(2) [unfolded delivered_def]
    and r = assms(3) [unfolded distributed_def]
  have v1: "sub_views P s1 = sub_views P s" "msg_ident s1 = msg_ident s" using t by auto
  have v2: "sub_views P s2 = sub_views P s" "msg_ident s2 = msg_ident s" using t d by auto
  note e = spec_by_views [OF v2]
  have w: "wanting P s1 = wanting P s" "handler_of s1 = handler_of s"
    using wanting_by_views [OF v1(1)] sub_viewsD(4) [OF v1(1)] by auto
  have f: "fifo_of P s2 x = fifo_of P s x @ (if first_fifo P s (msg_id_of s m) xs = Some x then [m] else [])" for x
    using t d w by (auto simp: first_fifo_def split: list.splits)
  have q: "msgq_of P s2 x = msgq_of P s x @ (if x \<in> wanted_by_msgq P s xs m then [m] else [])" for x
    using t d w by (simp add: wanted_by_msgq_def)
  have l: "log (app s2) = log (app s) @ handler_calls P s xs m"
    using t d w by (simp add: handler_calls_def)
  have c: "ref_cnt s2 = (ref_cnt s)(m := ref_cnt s m + new_refs P s xs m - 1)"
    using t d w by (simp add: new_refs_def first_fifo_def fun_eq_iff split: list.split)
  have g: "sub_lock_depth P s2 = sub_lock_depth P s" "g_runtime_allocators s2 = g_runtime_allocators s"
    using t d by auto
  show ?thesis unfolding distributed_def
    using r assms(4) by (auto simp: e f q l c g v2)
qed

text \<open>A published message that can be distributed: it has a reference and room for one more for
  each subscriber, and when no reference is left it can be given back.\<close>

definition deliverable :: "('k, 'u) platform \<Rightarrow> ('k, 'u) memory \<Rightarrow> ptr list \<Rightarrow> ptr \<Rightarrow> bool" where
  "deliverable P s xs m \<longleftrightarrow> valid_msg s m \<and> 0 < ref_cnt s m \<and> ref_cnt s m + length xs < 255 \<and>
     (1 < ref_cnt s m \<or> freeable P s m)"

lemma process_deliverable:
  assumes "header_laws P" and "msgq_laws P" and "fifo_laws P" and "slist_laws P" and "mutex_laws P"
    and "quiet_handlers P log" and "slab_laws P" and "sub_list P s b xs" and "length xs < fuel P"
    and "sorted (map (type_of s) xs)" and "own_msgqs s"
    and "\<forall>x \<in> set xs. can_take P (Suc n) s x" and "deliverable P s xs m"
    and "messages s m = Some h" and "\<not> fifo_reserved h"
    and "num_allocators (g_runtime_allocators s) \<le> length (allocators (g_runtime_allocators s))"
  shows "\<exists>s1 s2. delivered P log (msg_id_of s m) m xs 1 s s1 \<and> freed P m s1 s2 \<and>
    bindM (pub_sub_msg_get_msg_id P m) (\<lambda>i. process_msg P b i m) s = Inr ((), s2)"
proof -
  have m: "m \<noteq> NULL" "0 < ref_cnt s m" "ref_cnt s m + length xs < 255" "1 < ref_cnt s m \<or> freeable P s m"
    using assms(13) by (auto simp: deliverable_def valid_msg_def)
  have id: "msg_ident s m = Some (msg_id_of s m, alloc_of (atomic_data h))" "msg_id_of s m = id_of (atomic_data h)"
    using assms(14) by (auto simp: msg_ident_def msg_id_of_def)
  have cr: "\<forall>x \<in> set xs. msg_id_of s m \<in> subscriptions P s x \<longrightarrow> can_receive P s x"
    using assms(12) can_take_receive sub_list_sub_ok [OF assms(8)] by blast
  have fr: "msg_free s m" using m assms(14,15) by (simp add: msg_free_def)
  obtain s1 where s1: "delivered P log (msg_id_of s m) m xs 1 s s1"
    "process_msg P b (msg_id_of s m) m s =
      (if ref_cnt s1 m = 0 then free_by_id P m (alloc_of (atomic_data h)) s1 else Inr ((), s1))"
    using process_msg_run [OF assms(1-6,8-11) cr fr m(2,3) id(1) assms(16)] by blast
  have d: "msg_ident s1 = msg_ident s" "g_runtime_allocators s1 = g_runtime_allocators s"
    "allocator_objs s1 = allocator_objs s" "mem_slabs s1 = mem_slabs s" "ref_cnt s m - 1 \<le> ref_cnt s1 m"
    using s1(1) by (auto simp: delivered_def)
  obtain s2 where s2: "process_msg P b (msg_id_of s m) m s = Inr ((), s2)" "freed P m s1 s2"
  proof (cases "ref_cnt s1 m = 0")
    case True
    then have "freeable P s m" using m(2,4) d(5) by auto
    then have "freeable P s1 m" using freeable_cong [OF d(1-3) slab_fits_cong [OF d(4)]] by simp
    then obtain s2 where "free_by_id P m (alloc_of (atomic_data h)) s1 = Inr ((), s2)" "gave_back P m s1 s2"
      using free_gives_back [OF assms(7)] id(1) d(1) by metis
    then show ?thesis using that True s1(2) by (simp add: freed_def)
  next
    case False
    then show ?thesis using that [of s1] s1(2) by (simp add: freed_def)
  qed
  moreover have "pub_sub_msg_get_msg_id P m s = Inr (msg_id_of s m, s)"
    using get_msg_id_run [OF assms(1,14) m(1)] id(2) by simp
  ultimately show ?thesis using s1(1) by auto
qed

lemma distributed_freed:
  assumes "distributed P log ms xs s2 s'" and "freed P m s1 s2"
  shows "distributed P log ms xs s1 s'"
proof -
  note f = freed_views [OF assms(2)]
  show ?thesis using assms(1) unfolding distributed_def spec_by_views [OF f(1,6)] f .
qed

lemma drain_run:
  assumes "header_laws P" and "msgq_laws P" and "fifo_laws P" and "slist_laws P" and "mutex_laws P"
    and "quiet_handlers P log" and "slab_laws P" and "length xs < fuel P"
  shows "published P s b = ms \<Longrightarrow> length ms < n \<Longrightarrow> distinct ms \<Longrightarrow> sub_list P s b xs \<Longrightarrow>
    sorted (map (type_of s) xs) \<Longrightarrow> own_msgqs s \<Longrightarrow> \<forall>x \<in> set xs. can_take P (length ms) s x \<Longrightarrow>
    \<forall>m \<in> set ms. deliverable P s xs m \<Longrightarrow>
    num_allocators (g_runtime_allocators s) \<le> length (allocators (g_runtime_allocators s)) \<Longrightarrow>
    \<exists>s'. bindM (pub_sub_msg_fifo_get P (Msg_publish_fifo b) K_NO_WAIT) (publish_loop n P b) s = Inr ((), s') \<and>
      distributed P log ms xs s s' \<and> published P s' = (published P s)(b := [])"
proof (induction ms arbitrary: s n)
  case Nil
  obtain j where j: "n = Suc j" using Nil.prems(2) by (cases n) auto
  have b: "brokers s b \<noteq> None" using Nil.prems(4) by (simp add: sub_list_def)
  from publish_get(1) [OF assms(3) b Nil.prems(1)] obtain s1 where
    s1: "pub_sub_msg_fifo_get P (Msg_publish_fifo b) K_NO_WAIT s = Inr (NULL, s1)" "taken P b [] s s1"
    by blast
  then show ?case using j distributed_Nil [OF s1(2)] by (auto simp: taken_def)
next
  case (Cons m ms)
  obtain j where j: "n = Suc j" "length ms < j" using Cons.prems(2) by (cases n) auto
  have b: "brokers s b \<noteq> None" using Cons.prems(4) by (simp add: sub_list_def)
  have dm: "deliverable P s xs m" using Cons.prems(8) by simp
  then obtain h where h: "messages s m = Some h" "m \<noteq> NULL" by (auto simp: deliverable_def valid_msg_def)
  from publish_get(2) [OF assms(3) b Cons.prems(1) h(2,1)] obtain s1 where
    s1: "pub_sub_msg_fifo_get P (Msg_publish_fifo b) K_NO_WAIT s = Inr (m, s1)" "taken P b ms s s1"
      "messages s1 = (messages s)(m \<mapsto> h\<lparr>fifo_reserved := False\<rparr>)"
    by blast
  note t = s1(2) [unfolded taken_def]
  have v1: "sub_views P s1 = sub_views P s" using t by simp
  note w1 = sub_viewsD [OF v1]
  have u1: "freeable P s1 = freeable P s" using t by (intro freeable_cong slab_fits_cong) auto
  have dl1: "deliverable P s1 xs = deliverable P s xs"
    using t u1 by (simp add: deliverable_def [abs_def] valid_by_ident)
  have ct1: "can_take P k s1 = can_take P k s" for k
    using t w1 by (intro can_take_cong) auto
  have a1: "sub_list P s1 b xs" "sorted (map (type_of s1) xs)" "own_msgqs s1"
    "\<forall>x \<in> set xs. can_take P (Suc (length ms)) s1 x" "deliverable P s1 xs m"
    using Cons.prems(4-8) w1 ct1 dl1 dm by (simp_all add: own_msgqs_def)
  have a2: "messages s1 m = Some (h\<lparr>fifo_reserved := False\<rparr>)" "\<not> fifo_reserved (h\<lparr>fifo_reserved := False\<rparr>)"
    "num_allocators (g_runtime_allocators s1) \<le> length (allocators (g_runtime_allocators s1))"
    using s1(3) t Cons.prems(9) by simp_all
  have mi: "msg_id_of s1 m = msg_id_of s m" using t by (simp add: msg_id_of_def)
  from process_deliverable [OF assms(1-7) a1(1) assms(8) a1(2-5) a2] obtain s2 s3 where
    s2: "delivered P log (msg_id_of s m) m xs 1 s1 s2" "freed P m s2 s3"
      "bindM (pub_sub_msg_get_msg_id P m) (\<lambda>i. process_msg P b i m) s1 = Inr ((), s3)"
    unfolding mi by blast
  note d = s2(1) [unfolded delivered_def] and f = freed_views [OF s2(2)]
  have v2: "sub_views P s3 = sub_views P s1" using d f by simp
  note w2 = sub_viewsD [OF v2]
  have "slab_fits P s2 = slab_fits P s1" by (rule slab_fits_cong) (use d in simp)
  then have u2: "freeable P s3 = freeable P s1" using d f by (intro freeable_cong) auto
  have dl: "\<forall>m' \<in> set ms. deliverable P s3 xs m'"
  proof
    fix m' assume m': "m' \<in> set ms"
    then have "m' \<noteq> m" using Cons.prems(3) by auto
    moreover have "deliverable P s1 xs m'" using m' Cons.prems(8) dl1 by simp
    ultimately show "deliverable P s3 xs m'" using d f u2 by (simp add: deliverable_def valid_by_ident)
  qed
  have ct: "\<forall>x \<in> set xs. can_take P (length ms) s3 x"
    using a1(4) d f(2) by (auto intro!: can_take_mono [OF v2])
  have p2: "published P s3 b = ms" using d t f by simp
  have dms: "distinct ms" using Cons.prems(3) by simp
  have a3: "sub_list P s3 b xs" "sorted (map (type_of s3) xs)" "own_msgqs s3"
    "num_allocators (g_runtime_allocators s3) \<le> length (allocators (g_runtime_allocators s3))"
    using a1(1-3) a2(3) w2 d f by (simp_all add: own_msgqs_def)
  obtain s' where s': "bindM (pub_sub_msg_fifo_get P (Msg_publish_fifo b) K_NO_WAIT) (publish_loop j P b) s3 = Inr ((), s')"
    "distributed P log ms xs s3 s'" "published P s' = (published P s3)(b := [])"
    using Cons.IH [OF p2 j(2) dms a3(1-3) ct dl a3(4)] by blast
  have "bindM (pub_sub_msg_fifo_get P (Msg_publish_fifo b) K_NO_WAIT) (publish_loop n P b) s = Inr ((), s')"
    using s1(1) s2(3) s'(1) h(2) by (auto simp: j(1) split: sum.splits prod.splits)
  moreover have "distributed P log (m # ms) xs s s'"
    using distributed_Cons [OF s1(2) s2(1) distributed_freed [OF s'(2) s2(2)]] Cons.prems(3) by simp
  moreover have "published P s' = (published P s)(b := [])" using s'(3) d t f by simp
  ultimately show ?case by blast
qed

text \<open>Publishing puts a message at the end of the FIFO of published messages.\<close>

lemma publish_run:
  assumes "fifo_laws P" and "b \<noteq> NULL" and "brokers s b = Some br" and "messages s m = Some h"
    and "m \<noteq> NULL" and "\<not> fifo_reserved h"
  shows "\<exists>s1. pub_sub_publish_to_broker P b m s = Inr ((), s1) \<and>
    taken P b (published P s b @ [m]) s s1 \<and> brokers s1 b \<noteq> None \<and>
    (\<forall>x. x \<noteq> m \<longrightarrow> messages s1 x = messages s x) \<and> link_flag s1 = (link_flag s)(m := Some True)"
proof -
  have f: "fifo_at (Msg_publish_fifo b) s = Inr (msg_publish_fifo br)" using assms(3) by simp
  let ?r = "set_fifo_reserved m True s"
  let ?s = "set_fifo (Msg_publish_fifo b) (k_fifo_put P (msg_publish_fifo br) m) ?r"
  note v = set_publish_fifo_views [OF refl, where b = b and q = "k_fifo_put P (msg_publish_fifo br) m" and s = ?r]
  note r = set_fifo_reserved_views [OF refl, where m = m and r = True and s = s]
  have "brokers ?r b = Some br" using assms(3) by simp
  note p = v(7) [OF this]
  have "fifo_items P (k_fifo_put P (msg_publish_fifo br) m) = published P s b @ [m]"
    using assms(1,3) by (simp add: fifo_laws_def published_def)
  then have t: "taken P b (published P s b @ [m]) s ?s"
    using v(1-6,8-12) p r by (simp add: taken_def del: set_fifo.simps)
  have "pub_sub_publish_to_broker P b m s = Inr ((), ?s)"
    using assms(2,5,6) fifo_put_run [OF assms(4,5) f, of P]
    by (simp add: pub_sub_publish_to_broker_def del: set_fifo.simps fifo_at.simps)
  moreover have "\<forall>x. x \<noteq> m \<longrightarrow> messages ?s x = messages s x"
    by (simp add: set_fifo_reserved_def)
  moreover have "link_flag ?s = (link_flag s)(m := Some True)"
    using assms(4) by (simp add: link_flag_def [of s m] fun_eq_iff del: set_fifo.simps)
  ultimately show ?thesis using t assms(3) by (intro exI [of _ ?s]) simp
qed

lemma taken_trans: "taken P b ms s s1 \<Longrightarrow> taken P b ms' s1 s2 \<Longrightarrow> taken P b ms' s s2"
  by (simp add: taken_def)

lemma publish_all_run:
  assumes "fifo_laws P" and "b \<noteq> NULL"
  shows "brokers s b \<noteq> None \<Longrightarrow> distinct ms \<Longrightarrow>
    \<forall>m \<in> set ms. m \<noteq> NULL \<and> (\<exists>h. messages s m = Some h \<and> \<not> fifo_reserved h) \<Longrightarrow>
    \<exists>s1. run_all (map (pub_sub_publish_to_broker P b) ms) s = Inr ((), s1) \<and>
      taken P b (published P s b @ ms) s s1"
proof (induction ms arbitrary: s)
  case Nil
  then show ?case by (simp add: taken_def)
next
  case (Cons m ms)
  obtain br h where bh: "brokers s b = Some br" "messages s m = Some h" "m \<noteq> NULL" "\<not> fifo_reserved h"
    using Cons.prems(1,3) by auto
  obtain s1 where s1: "pub_sub_publish_to_broker P b m s = Inr ((), s1)"
    "taken P b (published P s b @ [m]) s s1" "brokers s1 b \<noteq> None" "\<forall>x. x \<noteq> m \<longrightarrow> messages s1 x = messages s x"
    using publish_run [OF assms bh] by blast
  have "\<forall>m' \<in> set ms. m' \<noteq> NULL \<and> (\<exists>h. messages s1 m' = Some h \<and> \<not> fifo_reserved h)"
    using Cons.prems(2,3) s1(4) by auto
  then obtain s2 where s2: "run_all (map (pub_sub_publish_to_broker P b) ms) s1 = Inr ((), s2)"
    "taken P b (published P s1 b @ ms) s1 s2"
    using Cons.IH [OF s1(3)] Cons.prems(2) by auto
  have "published P s1 b = published P s b @ [m]" using s1(2) by (simp add: taken_def)
  then show ?case using s1(1) s2 taken_trans [OF s1(2) s2(2)] by simp
qed

lemma work_handler_run:
  assumes "poll_laws P"
    and "bindM (pub_sub_msg_fifo_get P (Msg_publish_fifo b) K_NO_WAIT) (publish_loop (fuel P) P b) s = Inr ((), s1)"
    and "distributed P log ms xs s s1" and "published P s1 = (published P s)(b := [])" and "brokers s b \<noteq> None"
  shows "\<exists>s' br. publish_work_handler P b s = Inr ((), s') \<and> distributed P log ms xs s s' \<and>
    published P s' = (published P s)(b := []) \<and> brokers s' b = Some br \<and> work_pending P (publish_work br) \<and>
    (\<forall>br0. brokers s1 b = Some br0 \<longrightarrow>
       poll_event_of P (publish_work_poll_event br) = poll_event_of P (publish_work_poll_event br0))"
proof -
  let ?s = "upd_broker b (\<lambda>br. br\<lparr>publish_work :=
       k_work_poll_submit P (publish_work br) (publish_work_poll_event br) K_FOREVER\<rparr>)
     (upd_broker b (\<lambda>br. br\<lparr>publish_work_poll_event :=
       poll_event_set_state P K_POLL_STATE_NOT_READY (publish_work_poll_event br)\<rparr>) s1)"
  have "sub_lock_depth P s1 b = sub_lock_depth P s b" using assms(3) by (simp add: distributed_def)
  then obtain br1 where br1: "brokers s1 b = Some br1" using assms(5) by (auto simp: sub_lock_depth_def)
  have p: "published P ?s = published P s1" "sub_lock_depth P ?s = sub_lock_depth P s1"
    by (auto simp: published_def sub_lock_depth_def fun_eq_iff br1)
  have f: "fifo_of P ?s = fifo_of P s1" "ref_cnt ?s = ref_cnt s1" "msg_ident ?s = msg_ident s1"
    "msgq_of P ?s = msgq_of P s1" "sub_views P ?s = sub_views P s1" "app ?s = app s1"
    "g_runtime_allocators ?s = g_runtime_allocators s1"
    by (simp_all add: fifo_of_def fun_eq_iff ref_cnt_def msg_ident_def)
  have "distributed P log ms xs s ?s" using assms(3) unfolding distributed_def f p .
  moreover have "publish_work_handler P b s = Inr ((), ?s)"
    using assms(2) by (auto simp: publish_work_handler_def split: sum.splits)
  ultimately show ?thesis
    using assms(1,4) p(1) br1 by (intro exI [of _ ?s]) (auto simp: poll_laws_def)
qed

section \<open>Properties\<close>

text \<open>C13. Processing a public message delivers it to all subscribers of the broker that have
  subscribed to its id, when the list has its documented order and every message queue concerned
  has room: the handlers of the callback subscribers are called once each, in the order of the
  list; the message is appended to every message queue concerned, and to the FIFO of the first
  FIFO subscriber concerned and of no other. One reference is taken for each queue and FIFO and
  the publisher's reference is released, and a message left without references is given back to
  its allocator. The lock of the list is as it was found.\<close>

theorem process_msg_delivers:
  assumes "header_laws P" and "msgq_laws P" and "fifo_laws P" and "slist_laws P" and "mutex_laws P"
    and "quiet_handlers P log" and "sub_list P s b xs" and "length xs < fuel P"
    and "documented_order (key_of s) xs" and "own_msgqs s"
    and "\<forall>x \<in> set xs. i \<in> subscriptions P s x \<longrightarrow> can_receive P s x"
    and "msg_free s m" and "0 < ref_cnt s m" and "ref_cnt s m + length xs < 255"
    and "msg_ident s m = Some (i, aid)"
    and "num_allocators (g_runtime_allocators s) \<le> length (allocators (g_runtime_allocators s))"
  shows "\<exists>s1. process_msg P b i m s = (if ref_cnt s1 m = 0 then free_by_id P m aid s1 else Inr ((), s1)) \<and>
    log (app s1) = log (app s) @ map (\<lambda>x. (fst (handler_of s x), i, m, snd (handler_of s x)))
       (wanting P s i PUB_SUB_RX_TYPE_CALLBACK xs) \<and>
    (\<forall>x. msgq_of P s1 x =
       msgq_of P s x @ (if x \<in> set (wanting P s i PUB_SUB_RX_TYPE_MSGQ xs) then [m] else [])) \<and>
    (\<forall>x. fifo_of P s1 x = fifo_of P s x @ (if first_fifo P s i xs = Some x then [m] else [])) \<and>
    ref_cnt s1 = (ref_cnt s)(m := ref_cnt s m + length (wanting P s i PUB_SUB_RX_TYPE_MSGQ xs) +
       (if first_fifo P s i xs = None then 0 else 1) - 1) \<and>
    msg_ident s1 = msg_ident s \<and> sub_lock_depth P s1 = sub_lock_depth P s"
proof -
  obtain s1 where s1: "delivered P log i m xs 1 s s1"
    "process_msg P b i m s = (if ref_cnt s1 m = 0 then free_by_id P m aid s1 else Inr ((), s1))"
    using process_msg_run [OF assms(1-8) documented_order_sorted [OF assms(9)] assms(10-16)] by blast
  then show ?thesis
    by (intro exI [of _ s1]) (auto simp: delivered_def first_fifo_def split: list.split)
qed

text \<open>C12. Messages are distributed in the order in which they were published: when the messages
  \<open>ms\<close> are published to a broker one after the other and then its work item runs, all of them
  are taken out of the broker's FIFO; each callback subscriber is called with the messages it has
  subscribed to, in the order of publication, each message queue and FIFO gets those meant for it
  in that order, and each message's references are those of the queues it is in, less the
  publisher's. At the end the work item waits again for messages in the broker's FIFO.\<close>

theorem publish_order:
  assumes "header_laws P" and "msgq_laws P" and "fifo_laws P" and "slist_laws P" and "mutex_laws P"
    and "poll_laws P" and "quiet_handlers P log" and "slab_laws P" and "sub_list P s b xs" and "length xs < fuel P"
    and "length ms < fuel P" and "b \<noteq> NULL" and "published P s b = []"
    and "documented_order (key_of s) xs" and "own_msgqs s" and "distinct ms"
    and "\<forall>x \<in> set xs. can_take P (length ms) s x"
    and "\<forall>m \<in> set ms. deliverable P s xs m \<and> map_option fifo_reserved (messages s m) = Some False"
    and "num_allocators (g_runtime_allocators s) \<le> length (allocators (g_runtime_allocators s))"
  shows "\<exists>s1 s2 br. run_all (map (pub_sub_publish_to_broker P b) ms) s = Inr ((), s1) \<and>
    published P s1 b = ms \<and> publish_work_handler P b s1 = Inr ((), s2) \<and> published P s2 b = [] \<and>
    log (app s2) = log (app s) @ concat (map (handler_calls P s xs) ms) \<and>
    (\<forall>x. msgq_of P s2 x = msgq_of P s x @ filter (\<lambda>m. x \<in> wanted_by_msgq P s xs m) ms) \<and>
    (\<forall>x. fifo_of P s2 x = fifo_of P s x @ filter (\<lambda>m. first_fifo P s (msg_id_of s m) xs = Some x) ms) \<and>
    (\<forall>m \<in> set ms. ref_cnt s2 m = ref_cnt s m + new_refs P s xs m - 1) \<and>
    brokers s2 b = Some br \<and> work_pending P (publish_work br)"
proof -
  have b: "brokers s b \<noteq> None" using assms(9) by (simp add: sub_list_def)
  have "\<forall>m \<in> set ms. m \<noteq> NULL \<and> (\<exists>h. messages s m = Some h \<and> \<not> fifo_reserved h)"
    using assms(18) by (auto simp: deliverable_def valid_msg_def)
  then obtain s1 where s1: "run_all (map (pub_sub_publish_to_broker P b) ms) s = Inr ((), s1)" "taken P b ms s s1"
    using publish_all_run [OF assms(3,12) b assms(16)] assms(13) by auto
  note t = s1(2) [unfolded taken_def]
  have v: "sub_views P s1 = sub_views P s" using t by simp
  note w = sub_viewsD [OF v]
  have p: "published P s1 b = ms" using t by simp
  have u: "freeable P s1 = freeable P s" using t by (intro freeable_cong slab_fits_cong) auto
  have ct: "can_take P k s1 = can_take P k s" for k using t w by (intro can_take_cong) auto
  have a: "sub_list P s1 b xs" "sorted (map (type_of s1) xs)" "own_msgqs s1"
    "\<forall>x \<in> set xs. can_take P (length ms) s1 x" "\<forall>m \<in> set ms. deliverable P s1 xs m"
    "num_allocators (g_runtime_allocators s1) \<le> length (allocators (g_runtime_allocators s1))"
    using assms(9,15,17-19) documented_order_sorted [OF assms(14)] w ct t u
    by (simp_all add: own_msgqs_def deliverable_def valid_by_ident)
  obtain s2 where s2: "bindM (pub_sub_msg_fifo_get P (Msg_publish_fifo b) K_NO_WAIT) (publish_loop (fuel P) P b) s1 = Inr ((), s2)"
    "distributed P log ms xs s1 s2" "published P s2 = (published P s1)(b := [])"
    using drain_run [OF assms(1-5,7,8,10) p assms(11,16) a] by blast
  have b1: "brokers s1 b \<noteq> None" using a(1) by (simp add: sub_list_def)
  obtain s3 br where s3: "publish_work_handler P b s1 = Inr ((), s3)" "distributed P log ms xs s1 s3"
    "published P s3 = (published P s1)(b := [])" "brokers s3 b = Some br" "work_pending P (publish_work br)"
    using work_handler_run [OF assms(6) s2 b1] by blast
  have e: "msg_ident s1 = msg_ident s" using t by simp
  show ?thesis
    using s1(1) p s3 t spec_by_views [OF v e] by (intro exI [of _ s1] exI [of _ s3] exI [of _ br])
      (auto simp: distributed_def)
qed

section \<open>Examples\<close>

text \<open>Broker 9 has a callback, a message queue and two FIFO subscribers, all subscribed to id 3;
  message 2 is static, has this id and one reference.\<close>

definition all_kinds :: "(kobj, (nat \<times> uint16 \<times> ptr \<times> ptr) list) memory" where
  "all_kinds = (a_world False 0x0003FE01
     [4 \<mapsto> a_subscriber PUB_SUB_RX_TYPE_CALLBACK Rx_unset 5 0 0,
      6 \<mapsto> a_subscriber PUB_SUB_RX_TYPE_MSGQ (Rx_msgq 8) 7 1 0,
      10 \<mapsto> a_subscriber PUB_SUB_RX_TYPE_FIFO (Rx_fifo kobj0) 11 2 0] [4, 6, 10])
     \<lparr>msgqs := [8 \<mapsto> kobj0\<lparr>k_cap := 2\<rparr>]\<rparr>"

lemma all_kinds_sel [simp]:
  "messages all_kinds = [2 \<mapsto> \<lparr>fifo_reserved = False, atomic_data = 0x0003FE01\<rparr>]"
  "subscribers all_kinds = [4 \<mapsto> a_subscriber PUB_SUB_RX_TYPE_CALLBACK Rx_unset 5 0 0,
      6 \<mapsto> a_subscriber PUB_SUB_RX_TYPE_MSGQ (Rx_msgq 8) 7 1 0,
      10 \<mapsto> a_subscriber PUB_SUB_RX_TYPE_FIFO (Rx_fifo kobj0) 11 2 0]"
  "bitarrays all_kinds = [5 \<mapsto> [8], 7 \<mapsto> [8], 11 \<mapsto> [8]]"
  "slists all_kinds = kobj0\<lparr>k_lists := [(9, [4, 6, 10])]\<rparr>"
  "msgqs all_kinds = [8 \<mapsto> kobj0\<lparr>k_cap := 2\<rparr>]"
  "g_runtime_allocators all_kinds = \<lparr>allocators = [], num_allocators = 0, mutex = kobj0\<rparr>"
  "app all_kinds = []"
  by (simp_all add: all_kinds_def)

lemma all_kinds_brokers [simp]: "brokers all_kinds 9 =
    Some \<lparr>msg_publish_fifo = kobj0, sub_list_mutex = kobj0, publish_work = kobj0, publish_work_poll_event = kobj0\<rparr>"
  by (simp add: all_kinds_def)

lemma all_kinds_subs:
  "sub_list noting_platform all_kinds 9 [4, 6, 10]"
  "documented_order (key_of all_kinds) [4, 6, 10]" "own_msgqs all_kinds"
  "\<forall>x \<in> set [4, 6, 10]. 3 \<in> subscriptions noting_platform all_kinds x"
  by (auto simp: sub_list_def slist_ok_def ref_nodes_def sub_ok_def a_subscriber_def documented_order_def
      key_of_def own_msgqs_def msgq_ptr_def subscriptions_def bit_numeral_rec split: if_splits)

lemma all_kinds_views:
  "type_of all_kinds 4 = PUB_SUB_RX_TYPE_CALLBACK" "type_of all_kinds 6 = PUB_SUB_RX_TYPE_MSGQ"
  "type_of all_kinds 10 = PUB_SUB_RX_TYPE_FIFO" "handler_of all_kinds 4 = (0, NULL)"
  "msgq_of noting_platform all_kinds 6 = []" "fifo_of noting_platform all_kinds 10 = []"
  "published noting_platform all_kinds 9 = []"
  by (simp_all add: type_of_def key_of_def a_subscriber_def handler_of_def msgq_of_def msgq_ptr_def
      fifo_of_def published_def kobj0_def)

lemma all_kinds_msg:
  "msg_ident all_kinds 2 = Some (3, PUB_SUB_ALLOC_ID_STATIC_MSG)" "ref_cnt all_kinds 2 = 1"
  "valid_msg all_kinds 2" "msg_free all_kinds 2" "msg_id_of all_kinds 2 = 3"
  "unowned noting_platform all_kinds 2"
  by (simp_all add: msg_ident_def ref_cnt_def valid_msg_def msg_free_def msg_id_of_def unowned_def
      allocator_at_def a_word alloc_id_defs noting_platform_def)

lemma all_kinds_wanting:
  "wanting noting_platform all_kinds 3 PUB_SUB_RX_TYPE_CALLBACK [4, 6, 10] = [4]"
  "wanting noting_platform all_kinds 3 PUB_SUB_RX_TYPE_MSGQ [4, 6, 10] = [6]"
  "wanting noting_platform all_kinds 3 PUB_SUB_RX_TYPE_FIFO [4, 6, 10] = [10]"
  using all_kinds_subs(4) by (simp_all add: all_kinds_views)

theorem process_msg_delivers_witness:
  "\<exists>s1. process_msg noting_platform 9 3 2 all_kinds = Inr ((), s1) \<and> app s1 = [(0, 3, 2, NULL)] \<and>
     msgq_of noting_platform s1 6 = [2] \<and> fifo_of noting_platform s1 10 = [2] \<and> ref_cnt s1 2 = 2"
proof -
  have cr: "\<forall>x \<in> set [4, 6, 10]. 3 \<in> subscriptions noting_platform all_kinds x \<longrightarrow> can_receive noting_platform all_kinds x"
    by (simp add: can_receive_def a_subscriber_def kobj0_def)
  show ?thesis
    using process_msg_delivers [OF noting_laws(1,3,2,4,5,6) all_kinds_subs(1) _ all_kinds_subs(2,3) cr
        all_kinds_msg(4) _ _ all_kinds_msg(1)]
      all_kinds_subs(4)
    by (auto simp: all_kinds_wanting first_fifo_def all_kinds_views all_kinds_msg)
qed

theorem publish_order_witness:
  "\<exists>s1 s2. run_all (map (pub_sub_publish_to_broker noting_platform 9) [2]) all_kinds = Inr ((), s1) \<and>
     publish_work_handler noting_platform 9 s1 = Inr ((), s2) \<and> app s2 = [(0, 3, 2, NULL)] \<and>
     published noting_platform s2 9 = [] \<and> fifo_of noting_platform s2 10 = [2] \<and> ref_cnt s2 2 = 2"
proof -
  have pl: "poll_laws noting_platform" and sl: "slab_laws noting_platform" by (simp_all add: noting_platform_def ref_laws)
  have ct: "\<forall>x \<in> set [4, 6, 10]. can_take noting_platform (length [2]) all_kinds x"
    by (simp add: can_take_def all_kinds_views user_handled_def a_subscriber_def msgq_cap_def msgq_ptr_def
        kobj0_def is_fifo_sub_def)
  have dl: "\<forall>m \<in> set [2]. deliverable noting_platform all_kinds [4, 6, 10] m \<and>
      map_option fifo_reserved (messages all_kinds m) = Some False"
    by (simp add: deliverable_def freeable_def all_kinds_msg)
  have sp: "first_fifo noting_platform all_kinds 3 [4, 6, 10] = Some 10"
    "handler_calls noting_platform all_kinds [4, 6, 10] 2 = [(0, 3, 2, NULL)]"
    "new_refs noting_platform all_kinds [4, 6, 10] 2 = 2"
    using all_kinds_wanting by (simp_all add: first_fifo_def handler_calls_def new_refs_def all_kinds_msg all_kinds_views)
  obtain s1 s2 where r: "run_all (map (pub_sub_publish_to_broker noting_platform 9) [2]) all_kinds = Inr ((), s1)"
    "publish_work_handler noting_platform 9 s1 = Inr ((), s2)" "published noting_platform s2 9 = []"
    "app s2 = app all_kinds @ concat (map (handler_calls noting_platform all_kinds [4, 6, 10]) [2])"
    "\<forall>x. fifo_of noting_platform s2 x = fifo_of noting_platform all_kinds x @
       filter (\<lambda>m. first_fifo noting_platform all_kinds (msg_id_of all_kinds m) [4, 6, 10] = Some x) [2]"
    "\<forall>m \<in> set [2]. ref_cnt s2 m = ref_cnt all_kinds m + new_refs noting_platform all_kinds [4, 6, 10] m - 1"
    using publish_order [OF noting_laws(1,3,2,4,5) pl noting_laws(6) sl all_kinds_subs(1) _ _ _ all_kinds_views(7)
        all_kinds_subs(2,3) _ ct dl] by auto
  have "fifo_of noting_platform s2 10 = [2]" using r(5) sp(1) by (simp add: all_kinds_msg all_kinds_views)
  moreover have "ref_cnt s2 2 = 2" using r(6) sp(3) by (simp add: all_kinds_msg)
  moreover have "app s2 = [(0, 3, 2, NULL)]" using r(4) sp(2) by simp
  ultimately show ?thesis using r(1-3) by blast
qed

end
