(* ===== verification/System.thy ===== *)
theory System imports Delivery begin

text \<open>
  The parts together: one broker, its subscribers and a set of messages, with all operations that
  move references interleaved in any order. The invariant of this system is that the reference
  counter of a message is the number of references the application owns plus the number of places
  in which the library holds the message; that a block of a memory slab is free exactly when this
  number is 0; and that a message is linked in one FIFO at most.
\<close>

section \<open>What the operations leave alone\<close>

lemma only_fifos_views:
  assumes "only_fifos s s'"
  shows "sub_views P s' = sub_views P s" and "msgq_of P s' = msgq_of P s"
    and "published P s' = published P s"
proof -
  note o = assms [unfolded only_fifos_def]
  have c: "subscribers s' z = subscribers s z \<or>
      (\<exists>su q q'. subscribers s z = Some su \<and> rx_type su = PUB_SUB_RX_TYPE_FIFO \<and> rx_queue su = Rx_fifo q \<and>
        subscribers s' z = Some (su\<lparr>rx_queue := Rx_fifo q'\<rparr>))" for z using o by blast
  have f: "map_option subs_bitarray (subscribers s' z) = map_option subs_bitarray (subscribers s z)"
    "map_option max_pub_msg_id (subscribers s' z) = map_option max_pub_msg_id (subscribers s z)"
    "type_of s' z = type_of s z" "handler_of s' z = handler_of s z" "msgq_ptr s' z = msgq_ptr s z"
    "is_fifo_sub s' z = is_fifo_sub s z" "user_handled s' z = user_handled s z" "broker_of s' z = broker_of s z"
    "has_fifo s' z = has_fifo s z" "key_of s' z = key_of s z" "max_id_of s' z = max_id_of s z" for z
  proof -
    let ?v = "\<lambda>t. (map_option subs_bitarray (subscribers t z), map_option max_pub_msg_id (subscribers t z),
      type_of t z, handler_of t z, msgq_ptr t z, is_fifo_sub t z, user_handled t z, broker_of t z, has_fifo t z,
      key_of t z, max_id_of t z)"
    have "?v s' = ?v s"
    proof (cases "subscribers s' z = subscribers s z")
      case True
      then show ?thesis by (simp add: type_of_def key_of_def handler_of_def msgq_ptr_def is_fifo_sub_def
          user_handled_def broker_of_def has_fifo_def max_id_of_def)
    next
      case False
      then obtain su q q' where "subscribers s z = Some su" "rx_type su = PUB_SUB_RX_TYPE_FIFO"
        "rx_queue su = Rx_fifo q" "subscribers s' z = Some (su\<lparr>rx_queue := Rx_fifo q'\<rparr>)"
        using c [of z] by blast
      then show ?thesis by (simp add: type_of_def key_of_def handler_of_def msgq_ptr_def is_fifo_sub_def
          user_handled_def broker_of_def has_fifo_def max_id_of_def split: pub_sub_handler_fn.split)
    qed
    then show "map_option subs_bitarray (subscribers s' z) = map_option subs_bitarray (subscribers s z)"
      "map_option max_pub_msg_id (subscribers s' z) = map_option max_pub_msg_id (subscribers s z)"
      "type_of s' z = type_of s z" "handler_of s' z = handler_of s z" "msgq_ptr s' z = msgq_ptr s z"
      "is_fifo_sub s' z = is_fifo_sub s z" "user_handled s' z = user_handled s z" "broker_of s' z = broker_of s z"
      "has_fifo s' z = has_fifo s z" "key_of s' z = key_of s z" "max_id_of s' z = max_id_of s z"
      by simp_all
  qed
  have sb: "sub_ok s' = sub_ok s" "subscriptions P s' = subscriptions P s"
    unfolding fun_eq_iff sub_ok_by_fields subscriptions_by_fields f(1,2) conjunct1 [OF o] by simp_all
  have br: "(brokers s' d = None) = (brokers s d = None)" for d
    using o by (metis map_option_is_None)
  have sl: "sub_list P s' = sub_list P s"
    using o sb(1) br by (simp add: sub_list_def fun_eq_iff)
  have mp: "msgq_ptr s' = msgq_ptr s" "msgqs s' = msgqs s" using f(5) o by auto
  show "msgq_of P s' = msgq_of P s" by (rule msgq_of_by_queues [OF mp])
  show "sub_views P s' = sub_views P s"
    using sb(2) sl f msgq_cap_by_queues [OF mp] by (simp add: sub_views_def fun_eq_iff)
  have "map_option msg_publish_fifo (brokers s' d) = map_option msg_publish_fifo (brokers s d)" for d
    using o by blast
  then have p: "map_option msg_publish_fifo (brokers s' d) = map_option msg_publish_fifo (brokers s d)" for d .
  have "published P s' d = published P s d" for d
    using p [of d] by (cases "brokers s d"; cases "brokers s' d") (simp_all add: published_def)
  then show "published P s' = published P s" by (rule ext)
qed

lemma write_msgq_views:
  assumes "own_msgqs s" and "msgq_ptr s x = Some q" and "msgqs s q = Some k" and "msgq_max P k' = msgq_max P k"
  shows "sub_views P (write_msgq q k' s) = sub_views P s"
    and "msgq_of P (write_msgq q k' s) = (msgq_of P s)(x := msgq_items P k')"
    and "published P (write_msgq q k' s) = published P s" and "fifo_of P (write_msgq q k' s) = fifo_of P s"
    and "ref_cnt (write_msgq q k' s) = ref_cnt s" and "msg_ident (write_msgq q k' s) = msg_ident s"
    and "link_flag (write_msgq q k' s) = link_flag s"
proof -
  let ?s = "write_msgq q k' s"
  note v = views_by_subscribers [of ?s s, simplified]
  have u: "msgq_ptr s z = Some q \<longleftrightarrow> z = x" for z using assms(1,2) by (auto simp: own_msgqs_def)
  have c: "msgq_cap P ?s = msgq_cap P s"
  proof (rule ext)
    fix z
    show "msgq_cap P ?s z = msgq_cap P s z"
      using assms(3,4) by (cases "msgq_ptr s z") (auto simp: msgq_cap_def v(3))
  qed
  show "sub_views P ?s = sub_views P s" by (rule sub_views_cong_mem) (simp_all add: c)
  show "msgq_of P ?s = (msgq_of P s)(x := msgq_items P k')"
  proof (rule ext)
    fix z
    show "msgq_of P ?s z = ((msgq_of P s)(x := msgq_items P k')) z"
      using assms(2) u [of z] by (cases "msgq_ptr s z") (auto simp: msgq_of_def v(3))
  qed
  show "published P ?s = published P s" by (rule by_brokers) simp
  show "fifo_of P ?s = fifo_of P s" using v(5) by simp
  show "ref_cnt ?s = ref_cnt s" "msg_ident ?s = msg_ident s" "link_flag ?s = link_flag s"
    by (simp_all add: ref_cnt_def msg_ident_def link_flag_def fun_eq_iff)
qed

lemma app_views:
  "sub_views P (s\<lparr>app := a\<rparr>) = sub_views P s" "msgq_of P (s\<lparr>app := a\<rparr>) = msgq_of P s"
  "published P (s\<lparr>app := a\<rparr>) = published P s"
  by (rule only_fifos_views; simp add: only_fifos_refl)+

lemma set_atomic_data_views:
  "published P (set_atomic_data m w s) = published P s"
  by (rule by_brokers) simp

lemma slab_frames [simp]:
  "slab_fits P (write_msgq q k s) = slab_fits P s" "slab_pool P (write_msgq q k s) = slab_pool P s"
  "slab_fits P (s\<lparr>app := a\<rparr>) = slab_fits P s" "slab_pool P (s\<lparr>app := a\<rparr>) = slab_pool P s"
  by (rule slab_fits_cong slab_pool_cong; simp)+

section \<open>Places\<close>

text \<open>How often a family of queues holds each message.\<close>

definition held :: "ptr list \<Rightarrow> (ptr \<Rightarrow> ptr list) \<Rightarrow> ptr \<Rightarrow> nat" where
  "held xs f m = (\<Sum>x \<in> set xs. count_list (f x) m)"

lemma held_upd:
  assumes "y \<in> set xs"
  shows "held xs (f(y := ys)) k + count_list (f y) k = held xs f k + count_list ys k"
proof -
  have "(\<Sum>x \<in> set xs - {y}. count_list ((f(y := ys)) x) k) = (\<Sum>x \<in> set xs - {y}. count_list (f x) k)"
    by (rule sum.cong) auto
  then show ?thesis using assms by (simp add: held_def sum.remove [of "set xs" y])
qed

lemma held_push:
  assumes "y \<in> set xs"
  shows "held xs (f(y := f y @ [m])) = (held xs f)(m := held xs f m + 1)"
  using held_upd [OF assms, of f "f y @ [m]"] by (auto simp: fun_eq_iff)

lemma held_pop:
  assumes "y \<in> set xs" and "f y = m # ms"
  shows "held xs (f(y := ms)) = (held xs f)(m := held xs f m - 1)" and "0 < held xs f m"
proof -
  have u: "held xs (f(y := ms)) k + (if m = k then 1 else 0) = held xs f k" for k
    using held_upd [OF assms(1), of f ms k] assms(2) by (auto split: if_splits)
  then show "0 < held xs f m" by (metis add_gr_0 zero_less_one)
  show "held xs (f(y := ms)) = (held xs f)(m := held xs f m - 1)"
  proof (rule ext)
    fix k
    show "held xs (f(y := ms)) k = ((held xs f)(m := held xs f m - 1)) k"
      using u [of k] by (cases "m = k") auto
  qed
qed

lemma held_all:
  assumes "W \<subseteq> set xs"
  shows "held xs (\<lambda>x. f x @ (if x \<in> W then [m] else [])) = (held xs f)(m := held xs f m + card W)"
proof (rule ext)
  fix k
  have "held xs (\<lambda>x. f x @ (if x \<in> W then [m] else [])) k =
      held xs f k + (\<Sum>x \<in> set xs. if x \<in> W then (if k = m then 1 else 0) else 0)"
    unfolding held_def sum.distrib [symmetric] by (rule sum.cong) auto
  also have "(\<Sum>x \<in> set xs. if x \<in> W then (if k = m then 1 else (0::nat)) else 0) = (\<Sum>x \<in> W. if k = m then 1 else 0)"
    using assms by (simp add: sum.inter_restrict [symmetric] Int_absorb1)
  finally show "held xs (\<lambda>x. f x @ (if x \<in> W then [m] else [])) k = ((held xs f)(m := held xs f m + card W)) k"
    by simp
qed

lemma held_pos: "0 < held xs f m \<longleftrightarrow> (\<exists>x \<in> set xs. m \<in> set (f x))"
  by (auto simp: held_def count_list_0_iff simp flip: neq0_conv)

text \<open>How often the library holds a message: in the FIFO of published messages, and in the FIFOs
  and message queues of the subscribers. \<open>linked\<close> counts the FIFOs only.\<close>

definition linked :: "('k, 'u) platform \<Rightarrow> ptr \<Rightarrow> ptr list \<Rightarrow> ('k, 'u) memory \<Rightarrow> ptr \<Rightarrow> nat" where
  "linked P b xs s m = count_list (published P s b) m + held xs (fifo_of P s) m"

definition places :: "('k, 'u) platform \<Rightarrow> ptr \<Rightarrow> ptr list \<Rightarrow> ('k, 'u) memory \<Rightarrow> ptr \<Rightarrow> nat" where
  "places P b xs s m = linked P b xs s m + held xs (msgq_of P s) m"

lemma linked_by:
  "published P s' b = ps \<Longrightarrow> fifo_of P s' = f \<Longrightarrow>
   linked P b xs s' = (\<lambda>k. count_list ps k + held xs f k)"
  by (simp add: linked_def [abs_def])

section \<open>The invariant\<close>

text \<open>A subscriber of broker \<open>b\<close> that is set up, with a handler of the application.\<close>

definition ready_sub :: "('k, 'u) platform \<Rightarrow> ptr \<Rightarrow> ('k, 'u) memory \<Rightarrow> ptr \<Rightarrow> bool" where
  "ready_sub P b s x \<longleftrightarrow> user_handled s x \<and> broker_of s x = Some b \<and>
     (type_of s x = PUB_SUB_RX_TYPE_MSGQ \<longrightarrow> msgq_cap P s x \<noteq> None) \<and>
     (type_of s x = PUB_SUB_RX_TYPE_FIFO \<longrightarrow> is_fifo_sub s x) \<and>
     (type_of s x \<noteq> PUB_SUB_RX_TYPE_MSGQ \<longrightarrow> msgq_ptr s x = None) \<and>
     (type_of s x \<noteq> PUB_SUB_RX_TYPE_FIFO \<longrightarrow> \<not> has_fifo s x)"

lemma ready_queues:
  assumes "ready_sub P b s x"
  shows "type_of s x \<noteq> PUB_SUB_RX_TYPE_MSGQ \<Longrightarrow> msgq_of P s x = []"
    and "type_of s x \<noteq> PUB_SUB_RX_TYPE_FIFO \<Longrightarrow> fifo_of P s x = []"
  using assms no_fifo_empty [of s x P] by (auto simp: ready_sub_def msgq_of_def)

text \<open>The world: the broker's list has its documented order, its subscribers are ready, with message
  queues of their own. \<open>home\<close> gives for each message the slab it comes from; the others
  are static.\<close>

definition sys_world ::
  "('k, 'u) platform \<Rightarrow> ptr \<Rightarrow> ptr list \<Rightarrow> ptr set \<Rightarrow> (ptr \<rightharpoonup> ptr) \<Rightarrow> ('k, 'u) memory \<Rightarrow> bool" where
  "sys_world P b xs Ms home s \<longleftrightarrow> b \<noteq> NULL \<and> length xs < fuel P \<and> sub_list P s b xs \<and>
     sorted (map (type_of s) xs) \<and> own_msgqs s \<and> (\<forall>x \<in> set xs. ready_sub P b s x) \<and>
     (\<forall>m \<in> Ms. valid_msg s m \<and> (home m = None \<longrightarrow> unowned P s m)) \<and> runtime_ok P s"

definition same_world :: "('k, 'u) platform \<Rightarrow> ('k, 'u) memory \<Rightarrow> ('k, 'u) memory \<Rightarrow> bool" where
  "same_world P s s' \<longleftrightarrow> sub_views P s' = sub_views P s \<and> msg_ident s' = msg_ident s \<and>
     g_runtime_allocators s' = g_runtime_allocators s \<and> allocator_objs s' = allocator_objs s \<and>
     slab_fits P s' = slab_fits P s"

lemma same_world_refl [simp]: "same_world P s s"
  by (simp add: same_world_def)

lemma same_world_trans: "same_world P s s1 \<Longrightarrow> same_world P s1 s2 \<Longrightarrow> same_world P s s2"
  by (simp add: same_world_def)

lemma sys_world_cong:
  assumes "same_world P s s'"
  shows "sys_world P b xs Ms home s' = sys_world P b xs Ms home s"
proof -
  have w: "sub_views P s' = sub_views P s" "msg_ident s' = msg_ident s"
    "g_runtime_allocators s' = g_runtime_allocators s" "allocator_objs s' = allocator_objs s"
    using assms by (simp_all add: same_world_def)
  show ?thesis using sub_viewsD [OF w(1)] w(2-4) unowned_cong [OF w(2,3), of P]
    by (simp add: sys_world_def ready_sub_def own_msgqs_def valid_by_ident runtime_ok_def)
qed

text \<open>The references: \<open>own\<close> says how many the application owns of each message. A message is in
  use when it has a reference, or is static; its counter is then the number of references. A block
  of a slab is free exactly when it has no reference.\<close>

definition refs :: "('k, 'u) platform \<Rightarrow> ptr \<Rightarrow> ptr list \<Rightarrow> (ptr \<Rightarrow> nat) \<Rightarrow> ('k, 'u) memory \<Rightarrow> ptr \<Rightarrow> nat" where
  "refs P b xs own s m = own m + places P b xs s m"

definition slab_inv ::
  "('k, 'u) platform \<Rightarrow> ptr set \<Rightarrow> (ptr \<rightharpoonup> ptr) \<Rightarrow> (ptr \<Rightarrow> nat) \<Rightarrow> ('k, 'u) memory \<Rightarrow> bool" where
  "slab_inv P Ms home n s \<longleftrightarrow> (\<forall>q \<in> ran home. slab_pool P s q \<subseteq> {m \<in> Ms. home m = Some q}) \<and>
     (\<forall>m \<in> Ms. \<forall>q. home m = Some q \<longrightarrow>
        (if n m = 0 then m \<in> slab_pool P s q else m \<notin> slab_pool P s q \<and> slab_owned P s m q)) \<and>
     (\<forall>m \<in> Ms. home m = None \<or> 0 < n m \<longrightarrow> ref_cnt s m = n m)"

definition ref_inv ::
  "('k, 'u) platform \<Rightarrow> ptr \<Rightarrow> ptr list \<Rightarrow> ptr set \<Rightarrow> (ptr \<rightharpoonup> ptr) \<Rightarrow> (ptr \<Rightarrow> nat) \<Rightarrow> ('k, 'u) memory \<Rightarrow> bool" where
  "ref_inv P b xs Ms home own s \<longleftrightarrow> sys_world P b xs Ms home s \<and>
     (\<forall>m. 0 < places P b xs s m \<longrightarrow> m \<in> Ms) \<and> slab_inv P Ms home (refs P b xs own s) s \<and>
     (\<forall>m \<in> Ms. linked P b xs s m \<le> 1 \<and> link_flag s m = Some (linked P b xs s m = 1))"

definition in_use :: "(ptr \<rightharpoonup> ptr) \<Rightarrow> (ptr \<Rightarrow> nat) \<Rightarrow> ptr \<Rightarrow> bool" where
  "in_use home n m \<longleftrightarrow> home m = None \<or> 0 < n m"

lemma ref_invD:
  assumes "ref_inv P b xs Ms home own s"
  shows "sys_world P b xs Ms home s" and "m \<in> Ms \<Longrightarrow> valid_msg s m"
    and "m \<in> Ms \<Longrightarrow> in_use home (refs P b xs own s) m \<Longrightarrow> freeable P s m"
    and "num_allocators (g_runtime_allocators s) \<le> length (allocators (g_runtime_allocators s))"
    and "m \<in> Ms \<Longrightarrow> in_use home (refs P b xs own s) m \<Longrightarrow> ref_cnt s m = refs P b xs own s m"
    and "m \<in> Ms \<Longrightarrow> linked P b xs s m \<le> 1"
    and "m \<in> Ms \<Longrightarrow> link_flag s m = Some (linked P b xs s m = 1)"
    and "0 < places P b xs s m \<Longrightarrow> m \<in> Ms"
    and "slab_inv P Ms home (refs P b xs own s) s"
proof -
  show "m \<in> Ms \<Longrightarrow> in_use home (refs P b xs own s) m \<Longrightarrow> freeable P s m"
    using assms by (cases "home m") (auto simp: ref_inv_def sys_world_def freeable_def slab_inv_def in_use_def)
  show "num_allocators (g_runtime_allocators s) \<le> length (allocators (g_runtime_allocators s))"
    using assms by (simp add: ref_inv_def sys_world_def runtime_ok_def Let_def)
  show "m \<in> Ms \<Longrightarrow> in_use home (refs P b xs own s) m \<Longrightarrow> ref_cnt s m = refs P b xs own s m"
    using assms unfolding ref_inv_def slab_inv_def in_use_def by blast
qed (use assms in \<open>simp_all add: ref_inv_def sys_world_def slab_inv_def in_use_def\<close>)

lemma slab_owned_inj: "slab_owned P s m q \<Longrightarrow> slab_owned P s m q' \<Longrightarrow> q' = q"
  and slab_owned_unowned: "slab_owned P s m q \<Longrightarrow> \<not> unowned P s m"
  by (auto simp: slab_owned_def unowned_def)

text \<open>The references of one message change; when none is left, it is given back.\<close>

lemma slab_inv_freed:
  assumes "slab_inv P Ms home n s" and "\<forall>m \<in> Ms. home m = None \<longrightarrow> unowned P s m" and "m \<in> Ms" and "in_use home n m"
    and "same_world P s s1" and "slab_pool P s1 = slab_pool P s"
    and "ref_cnt s1 m = c" and "\<And>k. k \<noteq> m \<Longrightarrow> ref_cnt s1 k = ref_cnt s k" and "freed P m s1 s'"
  shows "slab_inv P Ms home (n(m := c)) s'"
proof -
  have sw: "msg_ident s1 = msg_ident s" "g_runtime_allocators s1 = g_runtime_allocators s"
    "allocator_objs s1 = allocator_objs s" "slab_fits P s1 = slab_fits P s"
    using assms(5) by (simp_all add: same_world_def)
  note f = freed_views [OF assms(9)]
  have so: "slab_owned P s1 = slab_owned P s" "slab_owned P s' = slab_owned P s"
    using slab_owned_cong [of s1 _ s P] slab_owned_cong [of s' _ s P] sw f by (simp_all add: fun_eq_iff)
  have un: "unowned P s1 = unowned P s" using unowned_cong [OF sw(1,2)] .
  have own: "home m = Some q \<Longrightarrow> slab_owned P s m q" for q
    using assms(1,3,4) by (auto simp: slab_inv_def in_use_def split: if_splits)
  show ?thesis
  proof (cases "c = 0")
    case False
    then have "s' = s1" using assms(7,9) by (simp add: freed_def)
    then show ?thesis using assms(1,3,4,6-8) own so False
      by (auto simp: slab_inv_def in_use_def split: if_splits)
  next
    case True
    then have g: "gave_back P m s1 s'" using assms(7,9) by (simp add: freed_def)
    have p: "slab_pool P s' = (case home m of None \<Rightarrow> slab_pool P s
        | Some q \<Rightarrow> (slab_pool P s)(q := insert m (slab_pool P s q)))"
    proof (cases "home m")
      case None
      then have "unowned P s m" using assms(2,3) by simp
      then have "s' = s1" using g slab_owned_unowned [of P s m] by (auto simp: gave_back_def so)
      then show ?thesis using None assms(6) by simp
    next
      case (Some q)
      then have "slab_owned P s m q" "\<not> unowned P s m" using own slab_owned_unowned by blast+
      then have "slab_pool P s' = (slab_pool P s1)(q := insert m (slab_pool P s1 q))"
        using g slab_owned_inj [of P s m q] unfolding gave_back_def so un by blast
      then show ?thesis using Some assms(6) by simp
    qed
    show ?thesis
    proof (cases "home m")
      case None
      then show ?thesis using assms(1,3,7,8) True p f(5) so by (auto simp: slab_inv_def)
    next
      case (Some q)
      then show ?thesis using assms(1,3,7,8) True p f(5) so by (auto simp: slab_inv_def split: if_splits)
    qed
  qed
qed

lemma ref_inv_step:
  assumes "ref_inv P b xs Ms home own s" and "same_world P s s1" and "slab_pool P s1 = slab_pool P s"
    and "m \<in> Ms" and "in_use home (refs P b xs own s) m"
    and "linked P b xs s1 = (linked P b xs s)(m := l)" and "l \<le> 1"
    and "link_flag s1 = (link_flag s)(m := Some (l = 1))"
    and "held xs (msgq_of P s1) = (held xs (msgq_of P s))(m := h)"
    and "ref_cnt s1 m = n + l + h" and "\<And>k. k \<noteq> m \<Longrightarrow> ref_cnt s1 k = ref_cnt s k"
    and "freed P m s1 s'"
  shows "ref_inv P b xs Ms home (own(m := n)) s'" and "same_world P s s'"
proof -
  note f = freed_views [OF assms(12)]
  show sw: "same_world P s s'" using assms(2) f by (simp add: same_world_def)
  have l: "linked P b xs s' = (linked P b xs s)(m := l)" using assms(6) by (simp add: linked_def [abs_def] f)
  have p: "places P b xs s' = (places P b xs s)(m := l + h)"
    using l assms(9) by (simp add: places_def f fun_eq_iff)
  have r: "refs P b xs (own(m := n)) s' = (refs P b xs own s)(m := n + l + h)"
    by (simp add: refs_def p fun_eq_iff)
  have "slab_inv P Ms home ((refs P b xs own s)(m := n + l + h)) s'"
    by (rule slab_inv_freed [OF _ _ assms(4,5,2,3,10,11,12)]) (use assms(1) in \<open>simp_all add: ref_inv_def sys_world_def\<close>)
  then show "ref_inv P b xs Ms home (own(m := n)) s'"
    using assms(1,4,7,8) sys_world_cong [OF sw, of b xs Ms home]
    by (auto simp: ref_inv_def p l r f(7))
qed

text \<open>A step that changes no reference.\<close>

lemma ref_inv_by:
  assumes "ref_inv P b xs Ms home own s" and "sys_world P b xs Ms home s'" and "slab_pool P s' = slab_pool P s"
    and "slab_owned P s' = slab_owned P s" and "linked P b xs s' = linked P b xs s"
    and "held xs (msgq_of P s') = held xs (msgq_of P s)" and "ref_cnt s' = ref_cnt s" and "link_flag s' = link_flag s"
  shows "ref_inv P b xs Ms home own s'"
proof -
  have p: "places P b xs s' = places P b xs s" using assms(5,6) by (simp add: places_def fun_eq_iff)
  then have "refs P b xs own s' = refs P b xs own s" by (simp add: refs_def fun_eq_iff)
  then show ?thesis using assms p by (simp add: ref_inv_def slab_inv_def)
qed

lemma ref_inv_same:
  assumes "ref_inv P b xs Ms home own s" and "same_world P s s'" and "slab_pool P s' = slab_pool P s"
    and "linked P b xs s' = linked P b xs s" and "held xs (msgq_of P s') = held xs (msgq_of P s)"
    and "ref_cnt s' = ref_cnt s" and "link_flag s' = link_flag s"
  shows "ref_inv P b xs Ms home own s'"
proof -
  have "slab_owned P s' = slab_owned P s"
    using slab_owned_cong [of s' _ s P] assms(2) by (simp add: same_world_def fun_eq_iff)
  then show ?thesis
    using ref_invD(1) [OF assms(1)] sys_world_cong [OF assms(2), of b xs Ms home]
    by (intro ref_inv_by [OF assms(1)]) (simp_all add: assms(3-7))
qed

end
