(* ===== verification/Steps.thy ===== *)
theory Steps imports System begin

text \<open>
  Each operation that the application, the broker's work item or a subscriber can perform in the
  system of theory System: it returns, what it does to the queues, and that it keeps the invariant.
\<close>

section \<open>The steps keep it\<close>

text \<open>A step that leaves all queues alone.\<close>

definition still :: "('k, 'u) platform \<Rightarrow> ('k, 'u) memory \<Rightarrow> ('k, 'u) memory \<Rightarrow> bool" where
  "still P s s' \<longleftrightarrow> published P s' = published P s \<and> fifo_of P s' = fifo_of P s \<and> msgq_of P s' = msgq_of P s \<and>
     same_world P s s'"

lemma still_trans: "still P s s1 \<Longrightarrow> still P s1 s2 \<Longrightarrow> still P s s2"
  using same_world_trans [of P s s1 s2] by (simp add: still_def)

text \<open>The laws of what the operations are built from, without and with those of the handlers.\<close>

definition core_laws :: "('k, 'u) platform \<Rightarrow> bool" where
  "core_laws P \<longleftrightarrow> header_laws P \<and> msgq_laws P \<and> fifo_laws P \<and> slist_laws P \<and> mutex_laws P \<and> slab_laws P"

definition system_laws where
  "system_laws P log \<longleftrightarrow> core_laws P \<and> quiet_handlers P log"

lemma system_core: "system_laws P log \<Longrightarrow> core_laws P"
  by (simp add: system_laws_def)

lemma acquire_effect:
  assumes "header_laws P" and "valid_msg s m" and "ref_cnt s m < 255"
  shows "\<exists>w. pub_sub_acquire_msg P m s = Inr ((), set_atomic_data m w s) \<and>
    ref_cnt (set_atomic_data m w s) = (ref_cnt s)(m := ref_cnt s m + 1) \<and>
    msg_ident (set_atomic_data m w s) = msg_ident s"
proof -
  obtain h where h: "messages s m = Some h" "m \<noteq> NULL" using assms(2) by (rule valid_msgE)
  have r: "ref_of (atomic_data h) \<noteq> UINT8_MAX" "ref_cnt s m = unat (ref_of (atomic_data h))"
    using h(1) assms(3) by (auto simp: ref_cnt_def unat_less_UINT8_MAX)
  then have "unat (ref_of (atomic_data h) + 1) = unat (ref_of (atomic_data h)) + 1"
    using assms(3) by (simp add: unat_inc)
  then have "ref_cnt (set_atomic_data m (atomic_data h + 1) s) = (ref_cnt s)(m := ref_cnt s m + 1)"
    "msg_ident (set_atomic_data m (atomic_data h + 1) s) = msg_ident s"
    using h fields_inc [OF r(1)] r(2)
    by (auto simp: ref_cnt_def [of s] ref_cnt_def [of "set_atomic_data m (atomic_data h + 1) s"] msg_ident_def fun_eq_iff)
  then show ?thesis
    using acquire_run [OF assms(1) h] r(1) by (intro exI [of _ "atomic_data h + 1"]) simp
qed

lemma release_freeable:
  assumes "header_laws P" and "slab_laws P" and "valid_msg s m" and "0 < ref_cnt s m" and "freeable P s m"
    and "num_allocators (g_runtime_allocators s) \<le> length (allocators (g_runtime_allocators s))"
  shows "\<exists>w s'. pub_sub_release_msg P m s = Inr ((), s') \<and> freed P m (set_atomic_data m w s) s' \<and>
    ref_cnt (set_atomic_data m w s) = (ref_cnt s)(m := ref_cnt s m - 1) \<and>
    msg_ident (set_atomic_data m w s) = msg_ident s"
proof -
  obtain i aid where i: "msg_ident s m = Some (i, aid)" using assms(3) by (auto simp: valid_by_ident)
  obtain s1 w where s1: "s1 = set_atomic_data m w s" "ref_cnt s1 = (ref_cnt s)(m := ref_cnt s m - 1)"
    "msg_ident s1 = msg_ident s"
    "pub_sub_release_msg P m s = (if ref_cnt s m = 1 then free_by_id P m aid s1 else Inr ((), s1))"
    using release_effect [OF assms(1,3,4) i assms(6)] by blast
  have g: "g_runtime_allocators s1 = g_runtime_allocators s" "allocator_objs s1 = allocator_objs s"
    "slab_fits P s1 = slab_fits P s"
    by (simp_all add: s1(1))
  have "freeable P s1 m" using freeable_cong [OF s1(3) g] assms(5) by simp
  then obtain s2 where s2: "free_by_id P m aid s1 = Inr ((), s2)" "gave_back P m s1 s2"
    using free_gives_back [OF assms(2)] i s1(3) by metis
  have "\<exists>s'. pub_sub_release_msg P m s = Inr ((), s') \<and> freed P m s1 s'"
    using s1(2,4) s2 assms(4) by (cases "ref_cnt s m = 1") (auto simp: freed_def)
  then show ?thesis using s1(1-3) by blast
qed

lemma set_atomic_data_step:
  assumes "msg_ident (set_atomic_data m w s) = msg_ident s"
  shows "same_world P s (set_atomic_data m w s)"
    and "linked P b xs (set_atomic_data m w s) = linked P b xs s"
    and "msgq_of P (set_atomic_data m w s) = msgq_of P s"
  using assms by (simp_all add: same_world_def linked_def [abs_def] set_atomic_data_views)

lemma in_useI:
  "0 < own m \<Longrightarrow> in_use home (refs P b xs own s) m"
  "0 < places P b xs s m \<Longrightarrow> in_use home (refs P b xs own s) m"
  by (simp_all add: in_use_def refs_def)

lemma acquire_step:
  assumes "core_laws P" and "ref_inv P b xs Ms home own s" and "m \<in> Ms" and "home m = None \<or> 0 < own m"
    and "ref_cnt s m < 255"
  shows "\<exists>s'. pub_sub_acquire_msg P m s = Inr ((), s') \<and> still P s s' \<and> app s' = app s \<and>
    ref_inv P b xs Ms home (own(m := own m + 1)) s'"
proof -
  note d = ref_invD [OF assms(2)]
  have u: "in_use home (refs P b xs own s) m" using assms(4) by (auto simp: in_use_def refs_def)
  have hl: "header_laws P" using assms(1) by (simp add: core_laws_def)
  obtain w where w: "pub_sub_acquire_msg P m s = Inr ((), set_atomic_data m w s)"
    "ref_cnt (set_atomic_data m w s) = (ref_cnt s)(m := ref_cnt s m + 1)"
    "msg_ident (set_atomic_data m w s) = msg_ident s"
    using acquire_effect [OF hl d(2) [OF assms(3)] assms(5)] by blast
  note v = set_atomic_data_step [OF w(3), of P]
  have "ref_inv P b xs Ms home (own(m := own m + 1)) (set_atomic_data m w s)"
    by (rule ref_inv_step [OF assms(2) v(1) _ assms(3) u, where l = "linked P b xs s m"
          and h = "held xs (msgq_of P s) m"])
      (use d(5) [OF assms(3) u] d(6,7) [OF assms(3)] in
        \<open>simp_all add: v w(2) refs_def places_def fun_upd_idem freed_def\<close>)
  then show ?thesis using w(1) v(1,3) by (simp add: set_atomic_data_views still_def)
qed

lemma release_step:
  assumes "core_laws P" and "ref_inv P b xs Ms home own s" and "m \<in> Ms" and "0 < own m"
  shows "\<exists>s'. pub_sub_release_msg P m s = Inr ((), s') \<and> still P s s' \<and> app s' = app s \<and>
    ref_inv P b xs Ms home (own(m := own m - 1)) s'"
proof -
  note d = ref_invD [OF assms(2)] and u = in_useI(1) [of own m home P b xs s, OF assms(4)]
  have l: "header_laws P" "slab_laws P" using assms(1) by (simp_all add: core_laws_def)
  have r: "0 < ref_cnt s m" using d(5) [OF assms(3) u] assms(4) by (simp add: refs_def)
  obtain w s' where w: "pub_sub_release_msg P m s = Inr ((), s')" "freed P m (set_atomic_data m w s) s'"
    "ref_cnt (set_atomic_data m w s) = (ref_cnt s)(m := ref_cnt s m - 1)"
    "msg_ident (set_atomic_data m w s) = msg_ident s"
    using release_freeable [OF l d(2) [OF assms(3)] r d(3) [OF assms(3) u] d(4)] by blast
  note v = set_atomic_data_step [OF w(4), of P]
  have "same_world P s s'" using v(1) freed_views [OF w(2)] by (simp add: same_world_def)
  moreover have "ref_inv P b xs Ms home (own(m := own m - 1)) s'"
    by (rule ref_inv_step [OF assms(2) v(1) _ assms(3) u _ _ _ _ _ _ w(2), where l = "linked P b xs s m"
          and h = "held xs (msgq_of P s) m" and n = "own m - 1"];
      use d(5) [OF assms(3) u] d(6,7) [OF assms(3)] assms(4) in
        \<open>simp_all add: v w(3) refs_def places_def fun_upd_idem\<close>)
  moreover have "published P s' = published P s" "fifo_of P s' = fifo_of P s" "msgq_of P s' = msgq_of P s" "app s' = app s"
    using freed_views [OF w(2)] v(3) by (simp_all add: set_atomic_data_views)
  ultimately show ?thesis using w(1) by (auto simp: still_def)
qed

lemma publish_step:
  assumes "core_laws P" and "ref_inv P b xs Ms home own s" and "m \<in> Ms" and "0 < own m"
    and "linked P b xs s m = 0"
  shows "\<exists>s'. pub_sub_publish_to_broker P b m s = Inr ((), s') \<and>
    published P s' b = published P s b @ [m] \<and> fifo_of P s' = fifo_of P s \<and> msgq_of P s' = msgq_of P s \<and>
    ref_cnt s' = ref_cnt s \<and> app s' = app s \<and> linked P b xs s' = (linked P b xs s)(m := 1) \<and> same_world P s s' \<and>
    ref_inv P b xs Ms home (own(m := own m - 1)) s'"
proof -
  note d = ref_invD [OF assms(2)] and u = in_useI(1) [of own m home P b xs s, OF assms(4)]
  have l: "fifo_laws P" "b \<noteq> NULL" using assms(1) d(1) by (simp_all add: core_laws_def sys_world_def)
  obtain br where br: "brokers s b = Some br" using d(1) by (auto simp: sys_world_def sub_list_def)
  have f: "link_flag s m = Some False" using d(7) [OF assms(3)] assms(5) by simp
  then obtain h where h: "messages s m = Some h" "\<not> fifo_reserved h" by (auto simp: link_flag_def)
  have m0: "m \<noteq> NULL" using d(2) [OF assms(3)] by (simp add: valid_msg_def)
  obtain s1 where s1: "pub_sub_publish_to_broker P b m s = Inr ((), s1)"
    "taken P b (published P s b @ [m]) s s1" "link_flag s1 = (link_flag s)(m := Some True)"
    using publish_run [OF l br h(1) m0 h(2)] by blast
  note t = s1(2) [unfolded taken_def]
  have lk: "linked P b xs s1 = (linked P b xs s)(m := 1)"
    using linked_by [of P s1 b "published P s b @ [m]" "fifo_of P s" xs] t assms(5)
    by (intro ext) (auto simp: linked_def)
  have sf: "slab_fits P s1 = slab_fits P s" "slab_pool P s1 = slab_pool P s"
    using t slab_fits_cong [of s1 s P] slab_pool_cong [of s1 s P] by simp_all
  then have sw: "same_world P s s1" using t by (simp add: same_world_def)
  have "ref_inv P b xs Ms home (own(m := own m - 1)) s1"
    by (rule ref_inv_step [OF assms(2) sw sf(2) assms(3) u lk, where h = "held xs (msgq_of P s) m"])
      (use t d(5) [OF assms(3) u] assms(4,5) s1(3) in \<open>simp_all add: refs_def places_def fun_upd_idem freed_def\<close>)
  then show ?thesis using s1(1) t lk sw by auto
qed

text \<open>A message is allocated. The block has no reference before, so it is in no queue either.\<close>

lemma slab_pool_home:
  "ref_inv P b xs Ms home own s \<Longrightarrow> q \<in> ran home \<Longrightarrow> m \<in> slab_pool P s q \<Longrightarrow> m \<in> Ms \<and> home m = Some q"
  unfolding ref_inv_def slab_inv_def by blast

lemma slab_allocator_world:
  assumes "ref_inv P b xs Ms home own s" and "q \<in> ran home" and "alloc \<noteq> NULL" and "allocator_objs s alloc = Some a"
    and "allocate a = Allocate_from_mem_slab" and "free a = Free_for_mem_slab" and "impl a = q" and "slab_fits P s q n"
  shows "slab_allocator P s alloc q n"
proof -
  have "\<forall>m \<in> slab_pool P s q. valid_msg s m"
    using ref_invD(2) [OF assms(1)] slab_pool_home [OF assms(1,2)] by blast
  then show ?thesis using assms(3-8) by (auto simp: slab_allocator_def valid_msg_def)
qed

lemma new_step:
  assumes "core_laws P" and "ref_inv P b xs Ms home own s" and "runtime_max_ok P"
    and "CONFIG_PUB_SUB_RUNTIME_ALLOCATORS P" and "q \<in> ran home" and "slab_allocator P s alloc q n"
    and "assigned_id P s alloc aid"
  shows "slab_pool P s q \<noteq> {} \<Longrightarrow> \<exists>m s'. pub_sub_new_msg P alloc i n t s = Inr (m, s') \<and> m \<noteq> NULL \<and> m \<in> Ms \<and>
      home m = Some q \<and> own m = 0 \<and> refs P b xs own s m = 0 \<and> msg_ident s' = (msg_ident s)(m \<mapsto> (i, aid)) \<and> app s' = app s \<and>
      published P s' = published P s \<and> fifo_of P s' = fifo_of P s \<and> msgq_of P s' = msgq_of P s \<and>
      sub_views P s' = sub_views P s \<and> ref_inv P b xs Ms home (own(m := 1)) s'"
    and "slab_pool P s q = {} \<Longrightarrow> t \<noteq> K_FOREVER \<Longrightarrow> pub_sub_new_msg P alloc i n t s = Inr (NULL, s)"
proof -
  note d = ref_invD [OF assms(2)]
  have l: "header_laws P" "slab_laws P" using assms(1) by (simp_all add: core_laws_def)
  have rt: "runtime_ok P s" using d(1) by (simp add: sys_world_def)
  obtain a where a: "allocator_objs s alloc = Some a" "allocate a = Allocate_from_mem_slab"
    "free a = Free_for_mem_slab" "impl a = q" "alloc \<noteq> NULL" "slab_fits P s q n"
    using assms(6) by (auto simp: slab_allocator_def)
  show "pub_sub_new_msg P alloc i n t s = Inr (NULL, s)" if "slab_pool P s q = {}" "t \<noteq> K_FOREVER"
    using new_msg_null [OF a(1,5) assigned_id_valid [OF rt assms(3,7) a(1)]] allocate_run_none [OF l(2) a(6) that] a(2,4)
    by simp
  show "\<exists>m s'. pub_sub_new_msg P alloc i n t s = Inr (m, s') \<and> m \<noteq> NULL \<and> m \<in> Ms \<and>
      home m = Some q \<and> own m = 0 \<and> refs P b xs own s m = 0 \<and> msg_ident s' = (msg_ident s)(m \<mapsto> (i, aid)) \<and> app s' = app s \<and>
      published P s' = published P s \<and> fifo_of P s' = fifo_of P s \<and> msgq_of P s' = msgq_of P s \<and>
      sub_views P s' = sub_views P s \<and> ref_inv P b xs Ms home (own(m := 1)) s'" if ne: "slab_pool P s q \<noteq> {}"
  proof -
    let ?w = "PUB_SUB_MSG_ATOMIC_DATA_INIT P i aid"
    obtain m h k s' where n: "pub_sub_new_msg P alloc i n t s = Inr (m, s')" "m \<in> slab_pool P s q" "m \<noteq> NULL"
      "messages s m = Some h" "slab_free_blocks P k = slab_pool P s q - {m}"
      "slab_fits P (write_slab q k s) = slab_fits P s"
      "s' = set_atomic_data m (?w + 1) (set_atomic_data m ?w (write_slab q k s))"
      using slab_new_msg_run [OF l rt assms(3,6,7) ne] by blast
    have mM: "m \<in> Ms" "home m = Some q" using slab_pool_home [OF assms(2,5) n(2)] by simp_all
    then have r0: "refs P b xs own s m = 0" using d(9) n(2) by (auto simp: slab_inv_def split: if_splits)
    then have o: "own m = 0" "places P b xs s m = 0" by (simp_all add: refs_def)
    have ms: "messages s' = (messages s)(m \<mapsto> h\<lparr>atomic_data := ?w + 1\<rparr>)" using n(4) by (simp add: n(7))
    have id: "msg_ident s' = (msg_ident s)(m \<mapsto> (i, aid))"
      using header_init_inc(2,3) [OF l(1), of i aid] by (auto simp: msg_ident_def ms fun_eq_iff)
    have rc: "ref_cnt s' = (ref_cnt s)(m := 1)"
      using header_init_inc(1) [OF l(1), of i aid] by (auto simp: ref_cnt_def ms fun_eq_iff)
    have v: "sub_views P s' = sub_views P s" "msgq_of P s' = msgq_of P s" "fifo_of P s' = fifo_of P s"
      "published P s' = published P s" "link_flag s' = link_flag s" "app s' = app s"
      "g_runtime_allocators s' = g_runtime_allocators s" "allocator_objs s' = allocator_objs s"
      "slab_fits P s' = slab_fits P s"
      using n(6) by (simp_all add: n(7) set_atomic_data_views)
    obtain k0 where k0: "mem_slabs s q = Some k0" using a(6) by (rule slab_fitsE)
    have pool: "slab_pool P s' = (slab_pool P s)(q := slab_pool P s q - {m})"
      using write_slab_pool(1) [OF k0] n(5) by (simp add: n(7))
    have pl: "places P b xs s' = places P b xs s" "linked P b xs s' = linked P b xs s"
      by (simp_all add: fun_eq_iff places_def linked_def v)
    have rf: "refs P b xs (own(m := 1)) s' = (refs P b xs own s)(m := 1)"
      using o by (simp add: refs_def pl fun_eq_iff)
    have so: "slab_owned P s' m q"
      using a assigned_id_found(1) [OF rt assms(3,4,7)] n(3) allocator_at_cong [OF v(7), of P]
      by (auto simp: slab_owned_def v(8,9) id)
    have so': "slab_owned P s' z = slab_owned P s z" if "z \<noteq> m" for z
      using that by (intro slab_owned_cong) (simp_all add: v id)
    have un: "unowned P s' z = unowned P s z" if "z \<noteq> m" for z
      using that by (simp add: unowned_def id allocator_at_cong [OF v(7), of P])
    have "slab_inv P Ms home (refs P b xs (own(m := 1)) s') s'"
      using d(9) mM so so' rc pool rf by (auto simp: slab_inv_def split: if_splits)
    moreover have "sys_world P b xs Ms home s'"
      using d(1) mM sub_viewsD [OF v(1)] v(7,8) un
      by (auto simp: sys_world_def ready_sub_def own_msgqs_def valid_by_ident runtime_ok_def id)
    ultimately have "ref_inv P b xs Ms home (own(m := 1)) s'"
      using assms(2) by (simp add: ref_inv_def pl v(5))
    then show ?thesis using n(1,3) mM o(1) r0 id v by auto
  qed
qed

text \<open>One round of the loop of \<open>publish_work_handler\<close>: taking the oldest published message and
  processing it.\<close>

definition distribute_one :: "('k, 'u) platform \<Rightarrow> ptr \<Rightarrow> (('k, 'u) memory, unit) prog" where
  "distribute_one P b =
     bindM (pub_sub_msg_fifo_get P (Msg_publish_fifo b) K_NO_WAIT) (\<lambda>msg.
     bindM (pub_sub_msg_get_msg_id P msg) (\<lambda>msg_id. process_msg P b msg_id msg))"

lemma publish_loop_round:
  assumes "pub_sub_msg_fifo_get P (Msg_publish_fifo b) K_NO_WAIT s = Inr (m, s1)" and "m \<noteq> NULL"
  shows "bindM (pub_sub_msg_fifo_get P (Msg_publish_fifo b) K_NO_WAIT) (publish_loop (Suc n) P b) s =
    thenM (distribute_one P b)
      (bindM (pub_sub_msg_fifo_get P (Msg_publish_fifo b) K_NO_WAIT) (publish_loop n P b)) s"
  using assms by (simp add: distribute_one_def split: sum.split)

definition has_room :: "('k, 'u) platform \<Rightarrow> ('k, 'u) memory \<Rightarrow> ptr \<Rightarrow> bool" where
  "has_room P s x \<longleftrightarrow> (type_of s x = PUB_SUB_RX_TYPE_MSGQ \<longrightarrow>
     (\<exists>c. msgq_cap P s x = Some c \<and> length (msgq_of P s x) < c))"

lemma ready_can_take: "ready_sub P b s x \<Longrightarrow> has_room P s x \<Longrightarrow> can_take P (Suc 0) s x"
  by (cases "type_of s x") (auto simp: ready_sub_def has_room_def can_take_def)

lemma sys_worldD:
  assumes "sys_world P b xs Ms home s"
  shows "b \<noteq> NULL" and "length xs < fuel P" and "sub_list P s b xs" and "sorted (map (type_of s) xs)"
    and "own_msgqs s" and "x \<in> set xs \<Longrightarrow> ready_sub P b s x" and "brokers s b \<noteq> None" and "distinct xs"
  using assms sub_list_distinct [of P s b xs] by (auto simp: sys_world_def sub_list_def)

lemma count_hd:
  assumes "count_list (m # ms) m + n \<le> 1"
  shows "count_list ms m = 0" and "n = 0"
  using assms by simp_all

lemma distribute_step:
  assumes "system_laws P log" and "ref_inv P b xs Ms home own s" and "published P s b = m # ms"
    and "\<forall>x \<in> set xs. has_room P s x" and "ref_cnt s m + length xs < 255"
  shows "\<exists>s1 s2 s'. distribute_one P b s = Inr ((), s') \<and> taken P b ms s s1 \<and>
    delivered P log (msg_id_of s m) m xs 1 s1 s2 \<and> freed P m s2 s' \<and> same_world P s s' \<and>
    ref_inv P b xs Ms home own s'"
proof -
  note d = ref_invD [OF assms(2)]
  note w = sys_worldD [OF d(1)]
  have l: "header_laws P" "msgq_laws P" "fifo_laws P" "slist_laws P" "mutex_laws P" "quiet_handlers P log" "slab_laws P"
    using assms(1) by (simp_all add: system_laws_def core_laws_def)
  have "0 < linked P b xs s m" using assms(3) by (simp add: linked_def)
  then have mM: "m \<in> Ms" and "0 < places P b xs s m" by (auto intro: d(8) simp: places_def)
  then have u: "in_use home (refs P b xs own s) m" by (rule_tac in_useI(2))
  have lk: "count_list ms m = 0" "held xs (fifo_of P s) m = 0" "linked P b xs s m = 1"
    using d(6) [OF mM] assms(3) by (simp_all add: linked_def)
  obtain h where h: "messages s m = Some h" "m \<noteq> NULL" using d(2) [OF mM] by (rule valid_msgE)
  obtain s1 where s1: "pub_sub_msg_fifo_get P (Msg_publish_fifo b) K_NO_WAIT s = Inr (m, s1)"
    "taken P b ms s s1" "messages s1 = (messages s)(m \<mapsto> h\<lparr>fifo_reserved := False\<rparr>)"
    using publish_get(2) [OF l(3) w(7) assms(3) h(2,1)] by blast
  note t = s1(2) [unfolded taken_def]
  have sf: "slab_fits P s1 = slab_fits P s" "slab_pool P s1 = slab_pool P s"
    using t slab_fits_cong [of s1 s P] slab_pool_cong [of s1 s P] by simp_all
  have sw1: "same_world P s s1" using t sf by (simp add: same_world_def)
  note w1 = sys_worldD [OF d(1) [folded sys_world_cong [OF sw1, of b xs Ms home]]]
  have ct: "\<forall>x \<in> set xs. can_take P (Suc 0) s1 x"
    using ready_can_take [OF w1(6)] assms(4) t sub_viewsD [of P s1 s] by (simp add: has_room_def)
  have "freeable P s1 m" using freeable_cong [of s1 s P] d(3) [OF mM u] t sf by simp
  then have dl: "deliverable P s1 xs m"
    using t d(2) [OF mM] assms(5) d(5) [OF mM u] lk(3)
    by (simp add: deliverable_def valid_by_ident refs_def places_def)
  have na: "num_allocators (g_runtime_allocators s1) \<le> length (allocators (g_runtime_allocators s1))"
    using d(4) t by simp
  have mi: "msg_id_of s1 m = msg_id_of s m" using t by (simp add: msg_id_of_def)
  obtain s2 s' where s2: "delivered P log (msg_id_of s m) m xs 1 s1 s2" "freed P m s2 s'"
    "bindM (pub_sub_msg_get_msg_id P m) (\<lambda>i. process_msg P b i m) s1 = Inr ((), s')"
    using process_deliverable [OF l w1(3) w(2) w1(4,5) ct dl _ _ na] s1(3) unfolding mi by fastforce
  note dv = s2(1) [unfolded delivered_def]
  let ?W = "wanting P s1 (msg_id_of s m) PUB_SUB_RX_TYPE_MSGQ xs"
  let ?F = "wanting P s1 (msg_id_of s m) PUB_SUB_RX_TYPE_FIFO xs"
  have W: "set ?W \<subseteq> set xs" "card (set ?W) = length ?W" "set ?F \<subseteq> set xs"
    using w(8) distinct_card [of ?W] by (auto simp: wanting_def)
  have q: "msgq_of P s2 = (\<lambda>x. msgq_of P s x @ (if x \<in> set ?W then [m] else []))" using dv t by auto
  have f: "held xs (fifo_of P s2) = (held xs (fifo_of P s))(m := if ?F = [] then 0 else 1)"
  proof (cases ?F)
    case Nil
    then have "fifo_of P s2 = fifo_of P s" using dv t by simp
    then show ?thesis using Nil lk(2) by (simp add: fun_upd_idem)
  next
    case (Cons y ys)
    then have "fifo_of P s2 = (fifo_of P s)(y := fifo_of P s y @ [m])" "y \<in> set xs" using dv t W(3) by auto
    then show ?thesis using held_push [of y xs "fifo_of P s" m] Cons lk(2) by simp
  qed
  have lk': "linked P b xs s2 = (linked P b xs s)(m := if ?F = [] then 0 else 1)"
  proof (rule ext)
    fix k
    have "published P s2 b = ms" using dv t by simp
    then show "linked P b xs s2 k = ((linked P b xs s)(m := if ?F = [] then 0 else 1)) k"
      using f lk(1) assms(3) by (simp add: linked_def)
  qed
  have fl: "link_flag s2 = (link_flag s)(m := Some ((if ?F = [] then 0 else 1) = (1::nat)))"
    using dv by (auto simp: link_flag_def s1(3) fun_eq_iff)
  have sf2: "slab_fits P s2 = slab_fits P s" "slab_pool P s2 = slab_pool P s"
    using dv sf slab_fits_cong [of s2 s1 P] slab_pool_cong [of s2 s1 P] by simp_all
  have sw: "same_world P s s2" using dv t sf2 by (simp add: same_world_def)
  have c: "ref_cnt s2 m = own m + (if ?F = [] then 0 else 1) + (held xs (msgq_of P s) m + length ?W)"
    using dv t d(5) [OF mM u] lk(3) by (simp add: refs_def places_def)
  have hq: "held xs (msgq_of P s2) = (held xs (msgq_of P s))(m := held xs (msgq_of P s) m + length ?W)"
    unfolding q held_all [OF W(1)] W(2) by (rule refl)
  have r: "ref_cnt s2 k = ref_cnt s k" if "k \<noteq> m" for k using dv t that by simp
  have "(if ?F = [] then 0 else 1) \<le> (1::nat)" by simp
  note st = ref_inv_step [OF assms(2) sw sf2(2) mM u lk' this fl hq c r s2(2)]
  have "distribute_one P b s = Inr ((), s')" using s1(1) s2(3) by (simp add: distribute_one_def)
  moreover have "ref_inv P b xs Ms home own s'" using st(1) by simp
  ultimately show ?thesis using s1(2) s2(1,2) st(2) by blast
qed

text \<open>A subscriber handles what waits in its queue.\<close>

lemma only_fifos_same_world:
  assumes "only_fifos s s'" and "msg_ident s' = msg_ident s"
  shows "same_world P s s'" and "published P s' = published P s" and "msgq_of P s' = msgq_of P s"
    and "slab_pool P s' = slab_pool P s"
  using only_fifos_views [OF assms(1), of P] assms slab_fits_cong [of s' s P] slab_pool_cong [of s' s P]
  by (simp_all add: same_world_def only_fifos_def)

text \<open>The end of \<open>pub_sub_handle_queued_msg\<close>: a message without references is given back.\<close>

lemma free_finishes:
  assumes "slab_laws P" and "freeable P s m" and "msg_ident s m = Some (i, aid)"
  shows "\<exists>s'. (if ref_cnt s m = 0 then thenM (free_by_id P m aid) (ret r) s else Inr (r, s)) = Inr (r, s') \<and>
    freed P m s s'"
  using free_gives_back [OF assms] by (cases "ref_cnt s m = 0") (auto simp: freed_def)

lemma ready_subE:
  assumes "ready_sub P b s x"
  obtains su f d where "subscribers s x = Some su" and "broker su = b"
    and "handler_data su = \<lparr>msg_handler = User_handler f, user_data = d\<rparr>" and "type_of s x = rx_type su"
    and "rx_type su = PUB_SUB_RX_TYPE_FIFO \<Longrightarrow> is_fifo_sub s x"
    and "rx_type su = PUB_SUB_RX_TYPE_MSGQ \<Longrightarrow>
      \<exists>q k. rx_queue su = Rx_msgq q \<and> msgq_ptr s x = Some q \<and> msgqs s q = Some k \<and>
        msgq_of P s x = msgq_items P k \<and> msgq_cap P s x = Some (msgq_max P k)"
proof -
  obtain su f d where su: "subscribers s x = Some su" "broker su = b"
    "handler_data su = \<lparr>msg_handler = User_handler f, user_data = d\<rparr>"
  proof -
    have "user_handled s x" "broker_of s x = Some b" using assms by (simp_all add: ready_sub_def)
    then show ?thesis using that by (auto simp: user_handled_def broker_of_def)
  qed
  have t: "type_of s x = rx_type su" using su(1) by (simp add: type_of_def key_of_def)
  have m: "\<exists>q k. rx_queue su = Rx_msgq q \<and> msgq_ptr s x = Some q \<and> msgqs s q = Some k \<and>
      msgq_of P s x = msgq_items P k \<and> msgq_cap P s x = Some (msgq_max P k)"
    if "rx_type su = PUB_SUB_RX_TYPE_MSGQ"
    using assms that su(1) t by (auto simp: ready_sub_def msgq_cap_def msgq_ptr_def msgq_of_def split: option.splits rx_queue.splits)
  show ?thesis using that [OF su t _ m] assms t by (simp add: ready_sub_def)
qed

lemma handle_empty_step:
  assumes "core_laws P" and "ref_inv P b xs Ms home own s" and "x \<in> set xs"
    and "fifo_of P s x = [] \<or> type_of s x \<noteq> PUB_SUB_RX_TYPE_FIFO" and "msgq_of P s x = []"
  shows "\<exists>r s'. pub_sub_handle_queued_msg P x K_NO_WAIT s = Inr (r, s') \<and> r < 0 \<and> still P s s' \<and>
    app s' = app s \<and> ref_inv P b xs Ms home own s'"
proof -
  note d = ref_invD [OF assms(2)]
  note w = sys_worldD [OF d(1)]
  have l: "fifo_laws P" "msgq_laws P" using assms(1) by (simp_all add: core_laws_def)
  have x0: "x \<noteq> NULL" using sub_list_sub_ok [OF w(3) assms(3)] by (rule sub_ok_not_NULL)
  obtain su where su: "subscribers s x = Some su" "type_of s x = rx_type su"
    "rx_type su = PUB_SUB_RX_TYPE_FIFO \<Longrightarrow> is_fifo_sub s x"
    "rx_type su = PUB_SUB_RX_TYPE_MSGQ \<Longrightarrow>
      \<exists>q k. rx_queue su = Rx_msgq q \<and> msgq_ptr s x = Some q \<and> msgqs s q = Some k \<and>
        msgq_of P s x = msgq_items P k \<and> msgq_cap P s x = Some (msgq_max P k)"
    using w(6) [OF assms(3)] by (rule ready_subE) blast
  show ?thesis
  proof (cases "rx_type su")
    case PUB_SUB_RX_TYPE_CALLBACK
    then show ?thesis using su(1) x0 assms(2) by (simp add: pub_sub_handle_queued_msg_def sub_run still_def)
  next
    case PUB_SUB_RX_TYPE_MSGQ
    then obtain q k where q: "rx_queue su = Rx_msgq q" "msgq_ptr s x = Some q" "msgqs s q = Some k"
      "msgq_items P k = []"
      using su(4) assms(5) by auto
    obtain y k' where k': "msgq_get P x K_NO_WAIT s = Inr ((- ENOMSG, y), write_msgq q k' s)"
      "msgq_items P k' = []" "msgq_max P k' = msgq_max P k"
      using msgq_get_run(2) [OF l(2) su(1) q(1,3,4), of K_NO_WAIT] by auto
    note v = write_msgq_views [OF w(5) q(2,3) k'(3)]
    have st: "still P s (write_msgq q k' s)"
      using v k'(2) assms(5) by (simp add: still_def same_world_def fun_upd_idem)
    then have "ref_inv P b xs Ms home own (write_msgq q k' s)"
      by (intro ref_inv_same [OF assms(2)]) (use v in \<open>simp_all add: still_def linked_def [abs_def]\<close>)
    then show ?thesis
      using st su(1) x0 PUB_SUB_RX_TYPE_MSGQ k'(1) by (simp add: pub_sub_handle_queued_msg_def sub_run)
  next
    case PUB_SUB_RX_TYPE_FIFO
    then have xf: "is_fifo_sub s x" and e: "fifo_of P s x = []" using su(2,3) assms(4) by auto
    obtain q where q: "rx_queue su = Rx_fifo q" "fifo_at (Sub_fifo x) s = Inr q"
      using is_fifo_subE [OF xf] su(1) by (metis option.inject)
    have "fifo_items P q = []" using e q(2) by (simp add: fifo_of_def)
    then obtain q' where q': "fifo_items P q' = []"
      "pub_sub_msg_fifo_get P (Sub_fifo x) K_NO_WAIT s = Inr (NULL, set_fifo (Sub_fifo x) q' s)"
      using fifo_get_empty [OF l(1) q(2)] by blast
    let ?s = "set_fifo (Sub_fifo x) q' s"
    have mi: "msg_ident ?s = msg_ident s" "ref_cnt ?s = ref_cnt s"
      by (simp_all add: msg_ident_def ref_cnt_def fun_eq_iff)
    note v = only_fifos_same_world [OF only_fifos_set_fifo [OF xf] mi(1), of P]
    have fo: "fifo_of P ?s = fifo_of P s"
      using su(1) q e q'(1) by (auto simp: fifo_of_def fun_eq_iff)
    have "ref_inv P b xs Ms home own ?s"
      by (rule ref_inv_same [OF assms(2) v(1)]) (simp_all add: v mi fo linked_def [abs_def] del: set_fifo.simps)
    moreover have "still P s ?s" "app ?s = app s" using v fo by (simp_all add: still_def)
    ultimately show ?thesis
      using su(1) x0 PUB_SUB_RX_TYPE_FIFO q'(2) by (simp add: pub_sub_handle_queued_msg_def sub_run)
  qed
qed

lemma handle_msgq_step:
  assumes "system_laws P log" and "ref_inv P b xs Ms home own s" and "x \<in> set xs"
    and "type_of s x = PUB_SUB_RX_TYPE_MSGQ" and "msgq_of P s x = m # ms"
  shows "\<exists>s'. pub_sub_handle_queued_msg P x t s = Inr (0, s') \<and>
    log (app s') = log (app s) @ [(fst (handler_of s x), msg_id_of s m, m, snd (handler_of s x))] \<and>
    msgq_of P s' = (msgq_of P s)(x := ms) \<and> fifo_of P s' = fifo_of P s \<and> published P s' = published P s \<and>
    same_world P s s' \<and> ref_inv P b xs Ms home own s'"
proof -
  note d = ref_invD [OF assms(2)]
  note w = sys_worldD [OF d(1)]
  have l: "header_laws P" "msgq_laws P" "quiet_handlers P log" "slab_laws P" using assms(1) by (simp_all add: system_laws_def core_laws_def)
  have x0: "x \<noteq> NULL" using sub_list_sub_ok [OF w(3) assms(3)] by (rule sub_ok_not_NULL)
  have hp: "0 < held xs (msgq_of P s) m" using held_pop(2) [where f = "msgq_of P s", OF assms(3,5)] .
  then have pl: "0 < places P b xs s m" by (simp add: places_def)
  note mM = d(8) [OF pl] and u = in_useI(2) [OF pl, of home own]
  obtain h where h: "messages s m = Some h" "m \<noteq> NULL" using d(2) [OF mM] by (rule valid_msgE)
  have id: "msg_id_of s m = id_of (atomic_data h)" using h(1) by (simp add: msg_id_of_def msg_ident_def)
  obtain su f dt where su: "subscribers s x = Some su"
    "handler_data su = \<lparr>msg_handler = User_handler f, user_data = dt\<rparr>" "type_of s x = rx_type su"
    "rx_type su = PUB_SUB_RX_TYPE_MSGQ \<Longrightarrow>
      \<exists>q k. rx_queue su = Rx_msgq q \<and> msgq_ptr s x = Some q \<and> msgqs s q = Some k \<and>
        msgq_of P s x = msgq_items P k \<and> msgq_cap P s x = Some (msgq_max P k)"
    using w(6) [OF assms(3)] by (rule ready_subE) blast
  have hd: "handler_of s x = (f, dt)" using su(1,2) by (simp add: handler_of_def)
  obtain q k where q: "rx_queue su = Rx_msgq q" "msgq_ptr s x = Some q" "msgqs s q = Some k"
    "msgq_items P k = m # ms"
    using su(3,4) assms(4,5) by auto
  obtain k' where k': "msgq_get P x t s = Inr ((0, m), write_msgq q k' s)" "msgq_items P k' = ms"
    "msgq_max P k' = msgq_max P k"
    using msgq_get_run(1) [OF l(2) su(1) q(1,3,4)] by blast
  let ?sa = "write_msgq q k' s"
  note v = write_msgq_views [OF w(5) q(2,3) k'(3)]
  have gid: "pub_sub_msg_get_msg_id P m ?sa = Inr (msg_id_of s m, ?sa)"
    using get_msg_id_run [OF l(1) _ h(2), of ?sa h] h(1) id by simp
  obtain a where a: "sub_handle P x (msg_id_of s m) m ?sa = Inr ((), ?sa\<lparr>app := a\<rparr>)"
    "log a = log (app s) @ [(f, msg_id_of s m, m, dt)]"
    using sub_handle_quiet [OF l(3), of ?sa x f dt "msg_id_of s m" m] su(1,2) by auto
  let ?sb = "?sa\<lparr>app := a\<rparr>"
  have fz: "freeable P ?sb m" using freeable_cong [of ?sb s P] d(3) [OF mM u] v(6) by simp
  have vb: "valid_msg ?sb m" "0 < ref_cnt ?sb m"
    "num_allocators (g_runtime_allocators ?sb) \<le> length (allocators (g_runtime_allocators ?sb))"
    using d(2) [OF mM] d(5) [OF mM u] d(4) pl v(5,6) by (simp_all add: valid_by_ident refs_def)
  obtain c s' where c: "pub_sub_release_msg P m ?sb = Inr ((), s')" "freed P m (set_atomic_data m c ?sb) s'"
    "ref_cnt (set_atomic_data m c ?sb) = (ref_cnt ?sb)(m := ref_cnt ?sb m - 1)"
    "msg_ident (set_atomic_data m c ?sb) = msg_ident ?sb"
    using release_freeable [OF l(1,4) vb(1,2) fz vb(3)] by blast
  let ?sc = "set_atomic_data m c ?sb"
  note vs = set_atomic_data_step [OF c(4), of P] and f = freed_views [OF c(2)]
  have sw: "same_world P s ?sc" "slab_pool P ?sc = slab_pool P s" using c(4) v by (simp_all add: same_world_def app_views)
  have lk: "linked P b xs ?sc = (linked P b xs s)(m := linked P b xs s m)"
    unfolding vs(2) by (simp add: fun_eq_iff linked_def app_views v(3,4))
  have lf: "link_flag ?sc = (link_flag s)(m := Some (linked P b xs s m = 1))"
    using d(7) [OF mM] by (simp add: v(7) fun_upd_idem)
  have hq: "held xs (msgq_of P ?sc) = (held xs (msgq_of P s))(m := held xs (msgq_of P s) m - 1)"
    by (simp add: v(2) k'(2) app_views held_pop(1) [where f = "msgq_of P s", OF assms(3,5)])
  have rc: "ref_cnt ?sc m = own m + linked P b xs s m + (held xs (msgq_of P s) m - 1)"
    using d(5) [OF mM u] hp by (simp add: c(3) v(5) refs_def places_def)
  have rk: "ref_cnt ?sc k = ref_cnt s k" if "k \<noteq> m" for k using that by (simp add: c(3) v(5))
  note st = ref_inv_step [OF assms(2) sw mM u lk d(6) [OF mM] lf hq rc rk c(2)]
  have "msgq_of P s' = (msgq_of P s)(x := ms)" "fifo_of P s' = fifo_of P s"
    "published P s' = published P s"
    by (simp_all add: f v(2-4) k'(2) app_views set_atomic_data_views)
  then show ?thesis
    using st su x0 assms(4) k'(1) gid a c(1) f(9)
    by (simp add: pub_sub_handle_queued_msg_def sub_run assert_handler_def hd)
qed

text \<open>The next subscriber that a FIFO subscriber passes a message on to.\<close>

definition next_fifo ::
  "('k, 'u) platform \<Rightarrow> ('k, 'u) memory \<Rightarrow> ptr list \<Rightarrow> ptr \<Rightarrow> uint16 \<Rightarrow> ptr option" where
  "next_fifo P s xs x i = (if i \<le> max_id_of s x
     then find (\<lambda>y. i \<in> subscriptions P s y) (tl (dropWhile (\<lambda>y. y \<noteq> x) xs)) else None)"

definition relayed :: "(ptr \<Rightarrow> ptr list) \<Rightarrow> ptr \<Rightarrow> ptr \<Rightarrow> ptr list \<Rightarrow> ptr option \<Rightarrow> ptr \<Rightarrow> ptr list" where
  "relayed f x m ms y = (case y of None \<Rightarrow> f(x := ms) | Some z \<Rightarrow> f(x := ms, z := f z @ [m]))"

lemma held_relayed:
  assumes "x \<in> set xs" and "f x = m # ms" and "y \<noteq> Some x" and "set_option y \<subseteq> set xs"
  shows "held xs (relayed f x m ms y) = (held xs f)(m := held xs f m - (if y = None then 1 else 0))"
proof (cases y)
  case None
  then show ?thesis using held_pop(1) [where f = f, OF assms(1,2)] by (simp add: relayed_def)
next
  case (Some z)
  have z: "z \<in> set xs" "(f(x := ms)) z = f z" using assms(3,4) Some by auto
  have "held xs (f(x := ms, z := f z @ [m])) = (held xs (f(x := ms)))(m := held xs (f(x := ms)) m + 1)"
    using held_push [OF z(1), of "f(x := ms)" m] z(2) by simp
  then show ?thesis
    using held_pop [where f = f, OF assms(1,2)] Some by (simp add: relayed_def fun_upd_idem)
qed

lemma next_fifo_split:
  assumes "x \<notin> set us"
  shows "next_fifo P s (us @ x # ys) x i =
    (if i \<le> max_id_of s x then find (\<lambda>y. i \<in> subscriptions P s y) ys else None)"
proof -
  have "dropWhile (\<lambda>y. y \<noteq> x) (us @ x # ys) = x # ys" using assms by (induction us) auto
  then show ?thesis by (simp add: next_fifo_def)
qed

lemma next_fifo_in:
  assumes "distinct xs" and "x \<in> set xs" and "next_fifo P s xs x i = Some y"
  shows "y \<in> set xs" and "y \<noteq> x"
proof -
  obtain us ys where xs: "xs = us @ x # ys" using assms(2) by (auto dest: split_list)
  then have "x \<notin> set us" "x \<notin> set ys" using assms(1) by auto
  then have "y \<in> set ys" "x \<notin> set ys"
    using assms(3) next_fifo_split [of x us P s ys i] by (auto simp: xs find_Some_iff split: if_splits)
  then show "y \<in> set xs" "y \<noteq> x" using xs by auto
qed

lemma fifos_after:
  assumes "sorted (map (type_of s) (us @ x # ys))" and "type_of s x = PUB_SUB_RX_TYPE_FIFO" and "y \<in> set ys"
  shows "type_of s y = PUB_SUB_RX_TYPE_FIFO"
  using assms by (auto simp: sorted_append intro: antisym)

lemma first_fifo_find:
  assumes "\<forall>z \<in> set zs. type_of s z = PUB_SUB_RX_TYPE_FIFO"
  shows "first_fifo P s i zs = find (\<lambda>y. i \<in> subscriptions P s y) zs"
  using assms by (induction zs) (auto simp: first_fifo_def)

lemma first_fifo_in: "first_fifo P s i zs = Some x \<Longrightarrow> x \<in> set zs \<and> i \<in> subscriptions P s x"
  by (induction zs) (auto simp: first_fifo_def split: if_splits)

lemma handle_fifo_run:
  assumes "system_laws P log" and "ref_inv P b xs Ms home own s" and "x \<in> set xs"
    and "type_of s x = PUB_SUB_RX_TYPE_FIFO" and "fifo_of P s x = m # ms" and "ref_cnt s m < 255"
  shows "\<exists>s1 s'. pub_sub_handle_queued_msg P x t s = Inr (0, s') \<and> freed P m s1 s' \<and>
    log (app s1) = log (app s) @ [(fst (handler_of s x), msg_id_of s m, m, snd (handler_of s x))] \<and>
    fifo_of P s1 = relayed (fifo_of P s) x m ms (next_fifo P s xs x (msg_id_of s m)) \<and>
    ref_cnt s1 = (ref_cnt s)(m := ref_cnt s m - (if next_fifo P s xs x (msg_id_of s m) = None then 1 else 0)) \<and>
    link_flag s1 = (link_flag s)(m := Some (next_fifo P s xs x (msg_id_of s m) \<noteq> None)) \<and>
    msg_ident s1 = msg_ident s \<and> only_fifos s s1"
proof -
  note d = ref_invD [OF assms(2)]
  note w = sys_worldD [OF d(1)]
  have l: "header_laws P" "fifo_laws P" "slist_laws P" "quiet_handlers P log" and sl: "slab_laws P"
    using assms(1) by (simp_all add: system_laws_def core_laws_def)
  have "0 < held xs (fifo_of P s) m" using held_pop(2) [where f = "fifo_of P s", OF assms(3,5)] .
  then have mM: "m \<in> Ms" and pl: "0 < places P b xs s m" by (auto intro: d(8) simp: places_def linked_def)
  obtain i aid where id: "msg_ident s m = Some (i, aid)" "msg_id_of s m = i"
    using d(2) [OF mM] by (auto simp: valid_by_ident msg_id_of_def)
  obtain us ys where xs: "xs = us @ x # ys" using assms(3) by (auto dest: split_list)
  have xu: "x \<notin> set us" using w(8) by (simp add: xs)
  have fs: "\<forall>y \<in> set (x # ys). is_fifo_sub s y"
  proof
    fix y assume y: "y \<in> set (x # ys)"
    then have "type_of s y = PUB_SUB_RX_TYPE_FIFO" using fifos_after [OF w(4) [unfolded xs] assms(4)] assms(4) by auto
    then show "is_fifo_sub s y" using w(6) [of y] y by (auto simp: xs ready_sub_def)
  qed
  obtain su f dt where su: "subscribers s x = Some su" "broker su = b"
    "handler_data su = \<lparr>msg_handler = User_handler f, user_data = dt\<rparr>"
    using w(6) [OF assms(3)] by (rule ready_subE) blast
  have hd: "handler_of s x = (f, dt)" "max_id_of s x = max_pub_msg_id su"
    using su(1,3) by (simp_all add: handler_of_def max_id_of_def)
  have u: "in_use home (refs P b xs own s) m" by (rule in_useI(2) [OF pl])
  have v: "valid_msg s m" "0 < ref_cnt s m" using d(2) [OF mM] d(5) [OF mM u] pl by (simp_all add: refs_def)
  have free: "\<exists>s'. (if ref_cnt s1 m = 0 then thenM (free_by_id P m aid) (ret 0) s1 else Inr (0 :: int, s1)) = Inr (0, s') \<and>
      freed P m s1 s'" if s1: "msg_ident s1 = msg_ident s" "only_fifos s s1" for s1
  proof -
    have o: "g_runtime_allocators s1 = g_runtime_allocators s" "allocator_objs s1 = allocator_objs s"
      "slab_fits P s1 = slab_fits P s"
      using only_fifos_same_world(1) [OF s1(2,1), of P] by (simp_all add: same_world_def)
    have "freeable P s1 m" using freeable_cong [OF s1(1) o] d(3) [OF mM u] by simp
    moreover have "msg_ident s1 m = Some (i, aid)" using s1(1) id(1) by simp
    ultimately show ?thesis by (rule free_finishes [OF sl])
  qed
  show ?thesis
  proof (cases "i \<le> max_pub_msg_id su")
    case True
    have ly: "length ys < fuel P" using w(2) by (simp add: xs)
    obtain s' where s': "log (app s') = log (app s) @ [(f, i, m, dt)]"
      "case find (\<lambda>y. i \<in> subscriptions P s y) ys of
         None \<Rightarrow> fifo_of P s' = (fifo_of P s)(x := ms) \<and> ref_cnt s' = (ref_cnt s)(m := ref_cnt s m - 1)
       | Some y \<Rightarrow> fifo_of P s' = (fifo_of P s)(x := ms, y := fifo_of P s y @ [m]) \<and> ref_cnt s' = ref_cnt s"
      "pub_sub_handle_queued_msg P x t s =
        (if ref_cnt s' m = 0 then thenM (free_by_id P m aid) (ret 0) s' else Inr (0, s'))"
      "msg_ident s' = msg_ident s" "only_fifos s s'"
      "link_flag s' = (link_flag s)(m := Some (find (\<lambda>y. i \<in> subscriptions P s y) ys \<noteq> None))"
      using fifo_relay_run [OF l w(3) [unfolded xs] ly d(4) fs su(1,2) True su(3) assms(5) v(1) id(1) v(2) assms(6)]
      by blast
    have nx: "next_fifo P s xs x i = find (\<lambda>y. i \<in> subscriptions P s y) ys"
      using next_fifo_split [OF xu, of P s ys i] True hd(2) by (simp add: xs)
    obtain s'' where e: "pub_sub_handle_queued_msg P x t s = Inr (0, s'')" "freed P m s' s''"
      using free [OF s'(4,5)] s'(3) by auto
    have "fifo_of P s' = relayed (fifo_of P s) x m ms (next_fifo P s xs x i)"
      "ref_cnt s' = (ref_cnt s)(m := ref_cnt s m - (if next_fifo P s xs x i = None then 1 else 0))"
      using s'(2) by (auto simp: nx relayed_def split: option.splits)
    then show ?thesis
      by (intro exI [of _ s'] exI [of _ s'']) (use e s'(1,4-6) in \<open>simp add: hd(1) id(2) nx\<close>)
  next
    case False
    then have pv: "max_pub_msg_id su < i" by simp
    have x0: "x \<noteq> NULL" using sub_list_sub_ok [OF w(3) assms(3)] by (rule sub_ok_not_NULL)
    have xf: "is_fifo_sub s x" using fs by simp
    obtain s' where s': "log (app s') = log (app s) @ [(f, i, m, dt)]" "fifo_of P s' = (fifo_of P s)(x := ms)"
      "ref_cnt s' = (ref_cnt s)(m := ref_cnt s m - 1)" "msg_ident s' = msg_ident s"
      "pub_sub_handle_queued_msg P x t s =
        (if ref_cnt s m = 1 then thenM (free_by_id P m aid) (ret 0) s' else Inr (0, s'))"
      "link_flag s' = (link_flag s)(m := Some False)" "only_fifos s s'"
      using handle_private_run [OF l(1,2,4) xf x0 su(1,3) pv assms(5) v(1) id(1) v(2) d(4)] by blast
    have nx: "next_fifo P s xs x i = None"
      using next_fifo_split [OF xu, of P s ys i] False hd(2) by (simp add: xs)
    have "(ref_cnt s m = 1) = (ref_cnt s' m = 0)" using v(2) s'(3) by auto
    then obtain s'' where e: "pub_sub_handle_queued_msg P x t s = Inr (0, s'')" "freed P m s' s''"
      using free [OF s'(4,7)] s'(5) by auto
    show ?thesis
      by (intro exI [of _ s'] exI [of _ s'']) (use e s'(1-4,6,7) in \<open>simp add: hd(1) id(2) nx relayed_def\<close>)
  qed
qed

lemma handle_fifo_step:
  assumes "system_laws P log" and "ref_inv P b xs Ms home own s" and "x \<in> set xs"
    and "type_of s x = PUB_SUB_RX_TYPE_FIFO" and "fifo_of P s x = m # ms" and "ref_cnt s m < 255"
  shows "\<exists>s'. pub_sub_handle_queued_msg P x t s = Inr (0, s') \<and>
    log (app s') = log (app s) @ [(fst (handler_of s x), msg_id_of s m, m, snd (handler_of s x))] \<and>
    fifo_of P s' = relayed (fifo_of P s) x m ms (next_fifo P s xs x (msg_id_of s m)) \<and>
    published P s' = published P s \<and> msgq_of P s' = msgq_of P s \<and> (\<forall>k. ref_cnt s' k \<le> ref_cnt s k) \<and>
    same_world P s s' \<and> ref_inv P b xs Ms home own s'"
proof -
  note d = ref_invD [OF assms(2)]
  note w = sys_worldD [OF d(1)]
  let ?n = "next_fifo P s xs x (msg_id_of s m)"
  obtain s1 s' where s1: "pub_sub_handle_queued_msg P x t s = Inr (0, s')" "freed P m s1 s'"
    "log (app s1) = log (app s) @ [(fst (handler_of s x), msg_id_of s m, m, snd (handler_of s x))]"
    "fifo_of P s1 = relayed (fifo_of P s) x m ms ?n"
    "ref_cnt s1 = (ref_cnt s)(m := ref_cnt s m - (if ?n = None then 1 else 0))"
    "link_flag s1 = (link_flag s)(m := Some (?n \<noteq> None))" "msg_ident s1 = msg_ident s" "only_fifos s s1"
    using handle_fifo_run [OF assms] by blast
  note v = only_fifos_same_world [OF s1(8,7), of P] and f = freed_views [OF s1(2)]
  have hp: "0 < held xs (fifo_of P s) m" using held_pop(2) [where f = "fifo_of P s", OF assms(3,5)] .
  then have pl: "0 < places P b xs s m" by (simp add: places_def linked_def)
  note mM = d(8) [OF pl] and u = in_useI(2) [OF pl, of home own]
  have lk: "linked P b xs s m = 1" "held xs (fifo_of P s) m = 1"
    using d(6) [OF mM] hp by (auto simp: linked_def)
  have nx: "?n \<noteq> Some x" "set_option ?n \<subseteq> set xs"
    using next_fifo_in [OF w(8) assms(3), of P s "msg_id_of s m"] by (auto split: option.splits)
  have hl: "held xs (fifo_of P s1) = (held xs (fifo_of P s))(m := if ?n = None then 0 else 1)"
    using held_relayed [where f = "fifo_of P s", OF assms(3,5) nx] s1(4) lk(2) by auto
  have lk': "linked P b xs s1 = (linked P b xs s)(m := if ?n = None then 0 else 1)"
  proof (rule ext)
    fix k
    show "linked P b xs s1 k = ((linked P b xs s)(m := if ?n = None then 0 else 1)) k"
      using lk by (simp add: linked_def hl v(2))
  qed
  have c: "ref_cnt s1 m = own m + (if ?n = None then 0 else 1) + held xs (msgq_of P s) m"
    using d(5) [OF mM u] lk(1) s1(5) by (simp add: refs_def places_def)
  have "ref_inv P b xs Ms home (own(m := own m)) s' \<and> same_world P s s'"
    using ref_inv_step [OF assms(2) v(1,4) mM u lk' _ _ _ c _ s1(2)] s1(5,6) v(3) by (simp add: fun_upd_idem)
  then show ?thesis using s1(1,3-5) v f by auto
qed

text \<open>The application publishes a private message.\<close>

lemma private_callback_step:
  assumes "system_laws P log" and "ref_inv P b xs Ms home own s" and "x \<in> set xs" and "m \<in> Ms" and "0 < own m"
    and "max_id_of s x < msg_id_of s m" and "type_of s x = PUB_SUB_RX_TYPE_CALLBACK"
  shows "\<exists>s'. pub_sub_publish_to_subscriber P x m s = Inr ((), s') \<and>
    log (app s') = log (app s) @ [(fst (handler_of s x), msg_id_of s m, m, snd (handler_of s x))] \<and>
    still P s s' \<and> ref_inv P b xs Ms home (own(m := own m - 1)) s'"
proof -
  note d = ref_invD [OF assms(2)]
  note w = sys_worldD [OF d(1)]
  have l: "header_laws P" "fifo_laws P" "msgq_laws P" "quiet_handlers P log"
    using assms(1) by (simp_all add: system_laws_def core_laws_def)
  have x0: "x \<noteq> NULL" using sub_list_sub_ok [OF w(3) assms(3)] by (rule sub_ok_not_NULL)
  obtain h where h: "messages s m = Some h" "m \<noteq> NULL" using d(2) [OF assms(4)] by (rule valid_msgE)
  have id: "msg_id_of s m = id_of (atomic_data h)" using h(1) by (simp add: msg_id_of_def msg_ident_def)
  obtain su f dt where su: "subscribers s x = Some su"
    "handler_data su = \<lparr>msg_handler = User_handler f, user_data = dt\<rparr>" "type_of s x = rx_type su"
    using w(6) [OF assms(3)] by (rule ready_subE) blast
  have ty: "rx_type su = PUB_SUB_RX_TYPE_CALLBACK" using su(3) assms(7) by simp
  have pv: "max_pub_msg_id su < id_of (atomic_data h)" using assms(6) su(1) id by (simp add: max_id_of_def)
  have hd: "handler_of s x = (f, dt)" using su(1,2) by (simp add: handler_of_def)
  have r: "pub_sub_publish_to_subscriber P x m s =
      thenM (user_handler P f (msg_id_of s m) m dt) (pub_sub_release_msg P m) s"
    using publish_private_run [OF l(1-3) su(1) x0 h pv] su(2) ty id by simp
  obtain a where a: "user_handler P f (msg_id_of s m) m dt s = Inr ((), s\<lparr>app := a\<rparr>)"
    "log a = log (app s) @ [(f, msg_id_of s m, m, dt)]"
    using l(4) unfolding quiet_handlers_def by blast
  let ?sb = "s\<lparr>app := a\<rparr>"
  have sb: "still P s ?sb" by (simp add: still_def same_world_def app_views)
  then have ri: "ref_inv P b xs Ms home own ?sb"
    by (intro ref_inv_same [OF assms(2)]) (simp_all add: still_def linked_def [abs_def])
  obtain s' where "pub_sub_release_msg P m ?sb = Inr ((), s')" "app s' = a" "still P ?sb s'"
    "ref_inv P b xs Ms home (own(m := own m - 1)) s'"
    using release_step [OF system_core [OF assms(1)] ri assms(4,5)] by auto
  then show ?thesis using r a still_trans [OF sb] by (auto simp: hd)
qed

text \<open>A message that its owner puts into the queue of a subscriber: the owner's reference is the queue's then.\<close>

lemma put_msgq_step:
  assumes "core_laws P" and "ref_inv P b xs Ms home own s" and "x \<in> set xs" and "type_of s x = PUB_SUB_RX_TYPE_MSGQ"
  shows "m \<in> Ms \<Longrightarrow> 0 < own m \<Longrightarrow> has_room P s x \<Longrightarrow>
      \<exists>s'. msgq_put P x m K_FOREVER s = Inr (0, s') \<and> app s' = app s \<and> ref_cnt s' = ref_cnt s \<and>
        published P s' = published P s \<and> same_world P s s' \<and> msgq_of P s' = (msgq_of P s)(x := msgq_of P s x @ [m]) \<and>
        fifo_of P s' = fifo_of P s \<and> ref_inv P b xs Ms home (own(m := own m - 1)) s'"
    and "\<not> has_room P s x \<Longrightarrow> msgq_put P x m K_FOREVER s = Inl Blocked"
proof -
  note d = ref_invD [OF assms(2)]
  note w = sys_worldD [OF d(1)]
  have l: "msgq_laws P" using assms(1) by (simp add: core_laws_def)
  obtain su q k where q: "subscribers s x = Some su" "rx_queue su = Rx_msgq q" "msgq_ptr s x = Some q" "msgqs s q = Some k"
      "msgq_of P s x = msgq_items P k" "msgq_cap P s x = Some (msgq_max P k)"
    using w(6) [OF assms(3)] assms(4) by (elim ready_subE) auto
  show "msgq_put P x m K_FOREVER s = Inl Blocked" if "\<not> has_room P s x"
    using that assms(4) q(5,6) by (intro msgq_put_run(2) [OF l q(1,2,4)]) (simp add: has_room_def)
  assume mM: "m \<in> Ms" and o: "0 < own m" and rm: "has_room P s x"
  note u = in_useI(1) [of own m home P b xs s, OF o]
  have "length (msgq_items P k) < msgq_max P k" using rm assms(4) q(5,6) by (simp add: has_room_def)
  then obtain k' where k': "msgq_put P x m K_FOREVER s = Inr (0, write_msgq q k' s)"
    "msgq_items P k' = msgq_items P k @ [m]" "msgq_max P k' = msgq_max P k"
    using msgq_put_run(1) [OF l q(1,2,4)] by blast
  note v = write_msgq_views [OF w(5) q(3,4) k'(3)]
  have sw: "same_world P s (write_msgq q k' s)" using v by (simp add: same_world_def)
  have "ref_inv P b xs Ms home (own(m := own m - 1)) (write_msgq q k' s)"
    by (rule ref_inv_step [OF assms(2) sw _ mM u, where l = "linked P b xs s m"
          and h = "held xs (msgq_of P s) m + 1"])
      (use d(5) [OF mM u] d(6,7) [OF mM] o held_push [OF assms(3), of "msgq_of P s" m] in
        \<open>simp_all add: linked_def [abs_def] v k'(2) q(5) refs_def places_def fun_upd_idem freed_def\<close>)
  then show "\<exists>s'. msgq_put P x m K_FOREVER s = Inr (0, s') \<and> app s' = app s \<and> ref_cnt s' = ref_cnt s \<and>
      published P s' = published P s \<and> same_world P s s' \<and> msgq_of P s' = (msgq_of P s)(x := msgq_of P s x @ [m]) \<and>
      fifo_of P s' = fifo_of P s \<and> ref_inv P b xs Ms home (own(m := own m - 1)) s'"
    using k'(1,2) sw v q(5) by (intro exI [of _ "write_msgq q k' s"]) simp
qed

lemma put_fifo_step:
  assumes "core_laws P" and "ref_inv P b xs Ms home own s" and "x \<in> set xs" and "type_of s x = PUB_SUB_RX_TYPE_FIFO"
    and "m \<in> Ms" and "0 < own m" and "linked P b xs s m = 0"
  shows "\<exists>s'. pub_sub_msg_fifo_put P (Sub_fifo x) m s = Inr ((), s') \<and> app s' = app s \<and> ref_cnt s' = ref_cnt s \<and>
    published P s' = published P s \<and> same_world P s s' \<and> msgq_of P s' = msgq_of P s \<and>
    fifo_of P s' = (fifo_of P s)(x := fifo_of P s x @ [m]) \<and> linked P b xs s' = (linked P b xs s)(m := 1) \<and>
    ref_inv P b xs Ms home (own(m := own m - 1)) s'"
proof -
  note d = ref_invD [OF assms(2)] and u = in_useI(1) [of own m home P b xs s, OF assms(6)]
  note w = sys_worldD [OF d(1)]
  have l: "fifo_laws P" using assms(1) by (simp add: core_laws_def)
  obtain h where h: "messages s m = Some h" "m \<noteq> NULL" using d(2) [OF assms(5)] by (rule valid_msgE)
  have nr: "\<not> fifo_reserved h" using d(7) [OF assms(5)] assms(7) h(1) by (simp add: link_flag_def)
  have f: "is_fifo_sub s x" using w(6) [OF assms(3)] assms(4) by (simp add: ready_sub_def)
  then obtain su q where q: "subscribers s x = Some su" "rx_queue su = Rx_fifo q" "fifo_at (Sub_fifo x) s = Inr q"
    by (auto simp: is_fifo_sub_def split: option.splits)
  let ?s = "set_fifo (Sub_fifo x) (k_fifo_put P q m) (set_fifo_reserved m True s)"
  have "fifo_items P (k_fifo_put P q m) = fifo_items P q @ [m]" using l by (simp add: fifo_laws_def)
  then have fo: "fifo_of P ?s = (fifo_of P s)(x := fifo_of P s x @ [m])" using q by (auto simp: fifo_of_def fun_eq_iff)
  have e: "ref_cnt ?s = ref_cnt s" "msg_ident ?s = msg_ident s" "link_flag ?s = (link_flag s)(m := Some True)" "app ?s = app s"
    using h(1) by (auto simp: ref_cnt_def msg_ident_def link_flag_def fun_eq_iff)
  have "only_fifos s ?s"
    by (rule only_fifos_trans [OF _ only_fifos_set_fifo]) (use f in \<open>simp_all add: only_fifos_refl is_fifo_sub_def\<close>)
  note v = only_fifos_same_world [OF this e(2), of P]
  have lk: "linked P b xs ?s = (linked P b xs s)(m := 1)"
  proof (rule ext)
    fix k
    show "linked P b xs ?s k = ((linked P b xs s)(m := 1)) k"
      using assms(7) held_push [OF assms(3), of "fifo_of P s" m] by (simp add: linked_def fo v(2) del: set_fifo.simps)
  qed
  have "ref_inv P b xs Ms home (own(m := own m - 1)) ?s"
    by (rule ref_inv_step [OF assms(2) v(1,4) assms(5) u lk, where h = "held xs (msgq_of P s) m"])
      (use d(5) [OF assms(5) u] assms(6,7) e(1,3) in \<open>simp_all add: v(3) refs_def places_def fun_upd_idem freed_def del: set_fifo.simps\<close>)
  moreover have "pub_sub_msg_fifo_put P (Sub_fifo x) m s = Inr ((), ?s)" using fifo_put_run [OF h q(3)] nr by simp
  ultimately show ?thesis using fo e v(1-3) lk by (intro exI [of _ ?s]) (simp del: set_fifo.simps)
qed

text \<open>To publish a private message to a subscriber with a queue is to put it there.\<close>

lemma private_queue_put:
  assumes "core_laws P" and "ref_inv P b xs Ms home own s" and "x \<in> set xs" and "m \<in> Ms" and "max_id_of s x < msg_id_of s m"
  shows "type_of s x = PUB_SUB_RX_TYPE_MSGQ \<Longrightarrow> pub_sub_publish_to_subscriber P x m s = discard (msgq_put P x m K_FOREVER) s"
    and "type_of s x = PUB_SUB_RX_TYPE_FIFO \<Longrightarrow> pub_sub_publish_to_subscriber P x m s = pub_sub_msg_fifo_put P (Sub_fifo x) m s"
proof -
  note d = ref_invD [OF assms(2)]
  note w = sys_worldD [OF d(1)]
  have hl: "header_laws P" using assms(1) by (simp add: core_laws_def)
  have x0: "x \<noteq> NULL" using sub_list_sub_ok [OF w(3) assms(3)] by (rule sub_ok_not_NULL)
  obtain h where h: "messages s m = Some h" "m \<noteq> NULL" using d(2) [OF assms(4)] by (rule valid_msgE)
  obtain su where su: "subscribers s x = Some su" "type_of s x = rx_type su" using w(6) [OF assms(3)] by (rule ready_subE) blast
  have "max_pub_msg_id su < id_of (atomic_data h)" using assms(5) su(1) h(1) by (simp add: max_id_of_def msg_id_of_def msg_ident_def)
  then have "z_assertM P (bindM (pub_sub_msg_get_msg_id P m) (\<lambda>i. ret (i > max_pub_msg_id su))) s = Inr ((), s)"
    using get_msg_id_run [OF hl h] by (simp add: z_assertM_def)
  then show "type_of s x = PUB_SUB_RX_TYPE_MSGQ \<Longrightarrow> pub_sub_publish_to_subscriber P x m s = discard (msgq_put P x m K_FOREVER) s"
    and "type_of s x = PUB_SUB_RX_TYPE_FIFO \<Longrightarrow> pub_sub_publish_to_subscriber P x m s = pub_sub_msg_fifo_put P (Sub_fifo x) m s"
    using su x0 by (simp_all add: pub_sub_publish_to_subscriber_def sub_run)
qed

lemma private_queue_step:
  assumes "core_laws P" and "ref_inv P b xs Ms home own s" and "x \<in> set xs" and "m \<in> Ms" and "0 < own m"
    and "max_id_of s x < msg_id_of s m" and "has_room P s x" and "type_of s x \<noteq> PUB_SUB_RX_TYPE_CALLBACK"
    and "type_of s x = PUB_SUB_RX_TYPE_FIFO \<longrightarrow> linked P b xs s m = 0"
  shows "\<exists>s'. pub_sub_publish_to_subscriber P x m s = Inr ((), s') \<and> app s' = app s \<and>
    published P s' = published P s \<and> same_world P s s' \<and>
    msgq_of P s' = (if type_of s x = PUB_SUB_RX_TYPE_MSGQ then (msgq_of P s)(x := msgq_of P s x @ [m]) else msgq_of P s) \<and>
    fifo_of P s' = (if type_of s x = PUB_SUB_RX_TYPE_FIFO then (fifo_of P s)(x := fifo_of P s x @ [m]) else fifo_of P s) \<and>
    ref_inv P b xs Ms home (own(m := own m - 1)) s'"
proof (cases "type_of s x")
  case PUB_SUB_RX_TYPE_CALLBACK
  then show ?thesis using assms(8) by simp
next
  case PUB_SUB_RX_TYPE_MSGQ
  then show ?thesis using put_msgq_step(1) [OF assms(1-3) _ assms(4,5,7)] private_queue_put(1) [OF assms(1-4,6)] by auto
next
  case PUB_SUB_RX_TYPE_FIFO
  then show ?thesis using put_fifo_step [OF assms(1-3) _ assms(4,5)] private_queue_put(2) [OF assms(1-4,6)] assms(9) by auto
qed

section \<open>The list of subscribers changes\<close>

text \<open>A subscriber that can be added to the broker: it has a handler of the application and a queue of
  its own, which is empty.\<close>

definition joinable :: "('k, 'u) platform \<Rightarrow> ('k, 'u) memory \<Rightarrow> ptr \<Rightarrow> bool" where
  "joinable P s x \<longleftrightarrow> addable P s x \<and> user_handled s x \<and> fifo_of P s x = [] \<and> msgq_of P s x = [] \<and>
     (type_of s x = PUB_SUB_RX_TYPE_MSGQ \<longrightarrow> msgq_cap P s x \<noteq> None) \<and>
     (type_of s x = PUB_SUB_RX_TYPE_FIFO \<longrightarrow> is_fifo_sub s x) \<and>
     (type_of s x \<noteq> PUB_SUB_RX_TYPE_MSGQ \<longrightarrow> msgq_ptr s x = None) \<and>
     (type_of s x \<noteq> PUB_SUB_RX_TYPE_FIFO \<longrightarrow> \<not> has_fifo s x)"

lemma relisted_views:
  assumes "relisted x c s s'"
  shows "type_of s' = type_of s" and "msgq_ptr s' = msgq_ptr s" and "msgq_of P s' = msgq_of P s"
    and "msgq_cap P s' = msgq_cap P s" and "fifo_of P s' = fifo_of P s" and "user_handled s' = user_handled s"
    and "is_fifo_sub s' = is_fifo_sub s" and "has_fifo s' = has_fifo s" and "published P s' = published P s"
    and "z \<noteq> x \<Longrightarrow> broker_of s' z = broker_of s z"
    and "subscribers s x \<noteq> None \<Longrightarrow> broker_of s' x = Some c"
    and "ref_cnt s' = ref_cnt s" and "link_flag s' = link_flag s" and "msg_ident s' = msg_ident s"
    and "slab_pool P s' = slab_pool P s" and "slab_fits P s' = slab_fits P s"
    and "key_of s' = key_of s" and "handler_of s' = handler_of s" and "max_id_of s' = max_id_of s"
    and "subscriptions P s' = subscriptions P s"
proof -
  note r = assms [unfolded relisted_def]
  let ?v = "\<lambda>t z. (type_of t z, msgq_ptr t z, fifo_of P t z, user_handled t z, is_fifo_sub t z, has_fifo t z,
    key_of t z, handler_of t z, max_id_of t z, subscriptions P t z)"
  have "?v s' z = ?v s z" for z
    using r by (cases "z = x"; cases "subscribers s x")
      (simp_all add: type_of_def key_of_def msgq_ptr_def fifo_of_def user_handled_def is_fifo_sub_def has_fifo_def
        handler_of_def max_id_of_def subscriptions_def cong: pub_sub_handler_fn.case_cong option.case_cong)
  then show v: "type_of s' = type_of s" "msgq_ptr s' = msgq_ptr s" "fifo_of P s' = fifo_of P s"
    "user_handled s' = user_handled s" "is_fifo_sub s' = is_fifo_sub s" "has_fifo s' = has_fifo s"
    "key_of s' = key_of s" "handler_of s' = handler_of s" "max_id_of s' = max_id_of s"
    "subscriptions P s' = subscriptions P s"
    by (simp_all add: fun_eq_iff)
  have q: "msgqs s' = msgqs s" "mem_slabs s' = mem_slabs s" "messages s' = messages s" using r by simp_all
  show "msgq_of P s' = msgq_of P s" "msgq_cap P s' = msgq_cap P s"
    by (rule msgq_of_by_queues [OF v(2) q(1)], rule msgq_cap_by_queues [OF v(2) q(1)])
  show "slab_pool P s' = slab_pool P s" "slab_fits P s' = slab_fits P s"
    by (rule slab_pool_cong [OF q(2)], rule slab_fits_cong [OF q(2)])
  show "ref_cnt s' = ref_cnt s" "link_flag s' = link_flag s" "msg_ident s' = msg_ident s"
    using q(3) by (simp_all add: ref_cnt_def link_flag_def msg_ident_def fun_eq_iff)
  have "published P s' d = published P s d" for d
  proof -
    have "map_option msg_publish_fifo (brokers s' d) = map_option msg_publish_fifo (brokers s d)" using r by blast
    then show ?thesis by (cases "brokers s d"; cases "brokers s' d") (simp_all add: published_def)
  qed
  then show "published P s' = published P s" by (rule ext)
  show "z \<noteq> x \<Longrightarrow> broker_of s' z = broker_of s z" and "subscribers s x \<noteq> None \<Longrightarrow> broker_of s' x = Some c"
    using r by (auto simp: broker_of_def)
qed

text \<open>The list has other members, whose queues are the same; those that come or go have empty queues.\<close>

lemma held_members:
  assumes "\<forall>x. f x \<noteq> [] \<longrightarrow> (x \<in> set xs \<longleftrightarrow> x \<in> set ys)"
  shows "held ys f = held xs f"
proof (rule ext)
  fix m
  have z: "count_list (f x) m = 0" if "(x \<in> set xs) \<noteq> (x \<in> set ys)" for x
    using assms that by (cases "f x = []") auto
  have "(\<Sum>x \<in> set ys. count_list (f x) m) = (\<Sum>x \<in> set ys \<inter> set xs. count_list (f x) m)"
    using z by (intro sum.mono_neutral_right ballI) blast+
  also have "\<dots> = (\<Sum>x \<in> set xs. count_list (f x) m)"
    using z by (intro sum.mono_neutral_left ballI) blast+
  finally show "held ys f m = held xs f m" by (simp add: held_def)
qed

lemma ref_inv_relisted:
  assumes "ref_inv P b xs Ms home own s" and "relisted x c s s'" and "sub_list P s' b ys" and "length ys < fuel P"
    and "sorted (map (type_of s) ys)" and "\<forall>y \<in> set ys. ready_sub P b s' y" and "fifo_of P s x = []" and "msgq_of P s x = []"
    and "\<forall>y. y \<noteq> x \<longrightarrow> (y \<in> set xs \<longleftrightarrow> y \<in> set ys)"
  shows "ref_inv P b ys Ms home own s'"
proof -
  note v = relisted_views [OF assms(2)] and d = ref_invD [OF assms(1)]
  note r = assms(2) [unfolded relisted_def]
  have o: "slab_owned P s' = slab_owned P s"
    using slab_owned_cong [of s' _ s P] v(14,16) r by (simp add: fun_eq_iff)
  have "unowned P s' = unowned P s" using unowned_cong [of s' s P] v(14) r by simp
  then have w: "sys_world P b ys Ms home s'"
    using d(1) assms(3-6) v(1,2,14) r by (simp add: sys_world_def own_msgqs_def valid_by_ident runtime_ok_def)
  have "held ys (fifo_of P s) = held xs (fifo_of P s)" "held ys (msgq_of P s) = held xs (msgq_of P s)"
    by (rule held_members; use assms(7-9) in metis)+
  then have p: "linked P b ys s' = linked P b xs s" "places P b ys s' = places P b xs s"
    by (simp_all add: places_def linked_def fun_eq_iff v)
  then have "refs P b ys own s' = refs P b xs own s" by (simp add: refs_def fun_eq_iff)
  then show ?thesis using assms(1) w p o by (simp add: ref_inv_def slab_inv_def v)
qed

lemma add_step:
  assumes "system_laws P log" and "ref_inv P b xs Ms home own s" and "joinable P s x" and "Suc (length xs) < fuel P"
    and "(\<exists>y \<in> set xs. type_of s y = type_of s x) \<or> (\<forall>y \<in> set xs. type_of s y < type_of s x)"
  shows "\<exists>s'. pub_sub_add_subscriber_to_broker P b x s = Inr ((), s') \<and>
    slist_nodes P (slists s') b = insert_subscriber (key_of s) x xs \<and> relisted x b s s' \<and>
    ref_inv P b (insert_subscriber (key_of s) x xs) Ms home own s'"
proof -
  note d = ref_invD [OF assms(2)]
  note w = sys_worldD [OF d(1)]
  have l: "slist_laws P" "mutex_laws P" using assms(1) by (simp_all add: system_laws_def core_laws_def)
  have j: "addable P s x" "user_handled s x" "fifo_of P s x = []" "msgq_of P s x = []"
    using assms(3) by (simp_all add: joinable_def)
  have "length xs < fuel P" using assms(4) by simp
  then obtain s' where s': "pub_sub_add_subscriber_to_broker P b x s = Inr ((), s')"
    "slist_nodes P (slists s') b = insert_subscriber (key_of s) x xs"
    "sub_list P s' b (insert_subscriber (key_of s) x xs)" "relisted x b s s'"
    using add_subscriber_effect [OF l w(3,1) j(1)] by auto
  note v = relisted_views [OF s'(4)]
  let ?ys = "insert_subscriber (key_of s) x xs"
  have nx: "x \<notin> set xs" using j(1) w(3) by (auto simp: addable_def sub_list_def)
  have x: "subscribers s x \<noteq> None" using j(1) by (auto simp: addable_def)
  have ln: "length ?ys < fuel P" using assms(4) by (rule_tac insert_subscriber_split [of "key_of s" x xs]) simp
  have so: "sorted (map (type_of s) ?ys)"
    using sorted_insert_subscriber [of "key_of s" xs x] w(4) assms(5) by (simp add: type_of_def [abs_def])
  have rd: "\<forall>y \<in> set ?ys. ready_sub P b s' y"
  proof
    fix y assume y: "y \<in> set ?ys"
    show "ready_sub P b s' y"
    proof (cases "y = x")
      case True
      then show ?thesis using assms(3) v(11) [OF x] by (simp add: joinable_def ready_sub_def v)
    next
      case False
      then show ?thesis using w(6) [of y] y by (simp add: ready_sub_def v)
    qed
  qed
  have "\<forall>y. y \<noteq> x \<longrightarrow> (y \<in> set xs \<longleftrightarrow> y \<in> set ?ys)" by simp
  from ref_inv_relisted [OF assms(2) s'(4,3) ln so rd j(3,4) this] show ?thesis using s'(1,2,4) by blast
qed

lemma remove_step:
  assumes "system_laws P log" and "ref_inv P b xs Ms home own s" and "x \<in> set xs"
    and "fifo_of P s x = []" and "msgq_of P s x = []"
  shows "\<exists>s'. pub_sub_subscriber_remove_broker P x s = Inr ((), s') \<and>
    slist_nodes P (slists s') b = remove1 x xs \<and> relisted x NULL s s' \<and>
    ref_inv P b (remove1 x xs) Ms home own s'"
proof -
  note d = ref_invD [OF assms(2)]
  note w = sys_worldD [OF d(1)]
  have l: "slist_laws P" "mutex_laws P" using assms(1) by (simp_all add: system_laws_def core_laws_def)
  obtain su where su: "subscribers s x = Some su" "broker su = b"
    using w(6) [OF assms(3)] by (rule ready_subE) blast
  have ok: "sub_ok s x" by (rule sub_list_sub_ok [OF w(3) assms(3)])
  obtain s' where s': "pub_sub_subscriber_remove_broker P x s = Inr ((), s')"
    "slist_nodes P (slists s') b = remove1 x xs" "sub_list P s' b (remove1 x xs)" "relisted x NULL s s'"
    using remove_run [OF l w(3,1) ok su] by auto
  note v = relisted_views [OF s'(4)]
  have ln: "length (remove1 x xs) < fuel P" using w(2) length_remove1 [of x xs] by auto
  have so: "sorted (map (type_of s) (remove1 x xs))"
    using w(4) assms(3) by (auto dest!: split_list_first simp: remove1_append sorted_append)
  have rm: "set (remove1 x xs) = set xs - {x}" using w(8) by (rule set_remove1_eq)
  have rd: "\<forall>y \<in> set (remove1 x xs). ready_sub P b s' y" using w(6) by (simp add: rm ready_sub_def v)
  have "\<forall>y. y \<noteq> x \<longrightarrow> (y \<in> set xs \<longleftrightarrow> y \<in> set (remove1 x xs))" by (simp add: rm)
  from ref_inv_relisted [OF assms(2) s'(4,3) ln so rd assms(4,5) this] show ?thesis using s'(1,2,4) by blast
qed

section \<open>Subscriptions change\<close>

lemma write_bitarray_views:
  assumes "sub_ok (write_bitarray p c s) = sub_ok s"
  shows "sys_world P b xs Ms home (write_bitarray p c s) = sys_world P b xs Ms home s"
    and "linked P b xs (write_bitarray p c s) = linked P b xs s"
    and "msgq_of P (write_bitarray p c s) = msgq_of P s"
    and "slab_pool P (write_bitarray p c s) = slab_pool P s" and "slab_owned P (write_bitarray p c s) = slab_owned P s"
    and "ref_cnt (write_bitarray p c s) = ref_cnt s" and "link_flag (write_bitarray p c s) = link_flag s"
proof -
  let ?s = "write_bitarray p c s"
  note v = views_by_subscribers [of ?s s, simplified]
  have m: "msg_ident ?s = msg_ident s" "unowned P ?s = unowned P s"
    using unowned_cong [of ?s s P] by (simp_all add: msg_ident_def fun_eq_iff)
  have q: "msgq_of P ?s = msgq_of P s" "msgq_cap P ?s = msgq_cap P s"
    using msgq_of_by_queues [of ?s s P] msgq_cap_by_queues [of ?s s P] v(3) by simp_all
  have "sub_list P ?s = sub_list P s" using assms by (simp add: sub_list_def fun_eq_iff)
  then show "sys_world P b xs Ms home ?s = sys_world P b xs Ms home s"
    using v(4,6,7) q(2) m
    by (simp add: sys_world_def ready_sub_def user_handled_def broker_of_def has_fifo_def v(3) valid_by_ident runtime_ok_def)
  show "linked P b xs ?s = linked P b xs s"
    using v(5) by (simp add: linked_def [abs_def] by_brokers [of ?s s])
  show "msgq_of P ?s = msgq_of P s" by (rule q(1))
  show "slab_pool P ?s = slab_pool P s" by (rule slab_pool_cong) simp
  have "slab_owned P ?s z = slab_owned P s z" for z
    by (rule slab_owned_cong) (simp_all add: m(1) slab_fits_cong [of ?s s])
  then show "slab_owned P ?s = slab_owned P s" by (rule ext)
qed (simp_all add: ref_cnt_def link_flag_def fun_eq_iff)

lemma subscribe_run:
  assumes "bitmap_laws P" and "sub_ok s x" and "i \<le> max_id_of s x"
  shows "\<exists>p c. pub_sub_subscribe P x i s = Inr ((), write_bitarray p c s) \<and> sub_ok (write_bitarray p c s) = sub_ok s"
    and "\<exists>p c. pub_sub_unsubscribe P x i s = Inr ((), write_bitarray p c s) \<and> sub_ok (write_bitarray p c s) = sub_ok s"
proof -
  obtain su a where a: "x \<noteq> NULL" "subscribers s x = Some su" "subs_bitarray su \<noteq> NULL"
    "bitarrays s (subs_bitarray su) = Some a" "unat (max_pub_msg_id su) < 32 * length a"
    using assms(2) by (rule sub_okE)
  have i: "i \<le> max_pub_msg_id su" using assms(3) a(2) by (simp add: max_id_of_def)
  then have n: "unat i < 32 * length a" using a(5) by (simp add: word_le_nat_alt)
  have l: "length (atomic_set_bit P a (unat i)) = length a" "length (atomic_clear_bit P a (unat i)) = length a"
    using assms(1) by (simp_all add: bitmap_laws_def)
  show "\<exists>p c. pub_sub_subscribe P x i s = Inr ((), write_bitarray p c s) \<and> sub_ok (write_bitarray p c s) = sub_ok s"
    using a i n write_own_bitarray(1) [OF assms(2) a(2,4) l(1)]
    by (intro exI [of _ "subs_bitarray su"] exI [of _ "atomic_set_bit P a (unat i)"])
      (simp add: pub_sub_subscribe_def sub_run)
  show "\<exists>p c. pub_sub_unsubscribe P x i s = Inr ((), write_bitarray p c s) \<and> sub_ok (write_bitarray p c s) = sub_ok s"
    using a i n write_own_bitarray(1) [OF assms(2) a(2,4) l(2)]
    by (intro exI [of _ "subs_bitarray su"] exI [of _ "atomic_clear_bit P a (unat i)"])
      (simp add: pub_sub_unsubscribe_def sub_run)
qed

lemma ref_inv_write_bitarray:
  assumes "ref_inv P b xs Ms home own s" and "sub_ok (write_bitarray p c s) = sub_ok s"
  shows "ref_inv P b xs Ms home own (write_bitarray p c s)"
  by (rule ref_inv_by [OF assms(1)])
    (use ref_invD(1) [OF assms(1)] in \<open>simp_all add: write_bitarray_views [OF assms(2)]\<close>)

lemma subscriptions_max: "i \<in> subscriptions P s x \<Longrightarrow> i \<le> max_id_of s x"
  by (auto simp: subscriptions_def max_id_of_def split: option.splits)

text \<open>Only the set of one subscriber changes.\<close>

definition resubscribed ::
  "('k, 'u) platform \<Rightarrow> ptr \<Rightarrow> uint16 set \<Rightarrow> ('k, 'u) memory \<Rightarrow> ('k, 'u) memory \<Rightarrow> bool" where
  "resubscribed P x A s s' \<longleftrightarrow> subscriptions P s' = (subscriptions P s)(x := A) \<and> key_of s' = key_of s \<and>
     handler_of s' = handler_of s \<and> max_id_of s' = max_id_of s \<and> msg_ident s' = msg_ident s \<and>
     published P s' = published P s \<and> fifo_of P s' = fifo_of P s \<and> msgq_of P s' = msgq_of P s \<and> app s' = app s"

lemma write_bitarray_resubscribed:
  assumes "subscriptions P (write_bitarray p c s) = (subscriptions P s)(x := A)"
  shows "resubscribed P x A s (write_bitarray p c s)"
proof -
  let ?s = "write_bitarray p c s"
  note v = views_by_subscribers [of ?s s, simplified]
  have "published P ?s = published P s" by (rule by_brokers) simp
  moreover have "msgq_of P ?s = msgq_of P s" using msgq_of_by_queues [of ?s s P] v(3) by simp
  ultimately show ?thesis
    using assms v by (simp add: resubscribed_def msg_ident_def key_of_def max_id_of_def fun_eq_iff)
qed

lemma subscribe_step:
  assumes "bitmap_laws P" and "ref_inv P b xs Ms home own s" and "x \<in> set xs" and "i \<le> max_id_of s x"
  shows "\<exists>s'. pub_sub_subscribe P x i s = Inr ((), s') \<and> ref_inv P b xs Ms home own s' \<and>
      resubscribed P x (insert i (subscriptions P s x)) s s'"
    and "\<exists>s'. pub_sub_unsubscribe P x i s = Inr ((), s') \<and> ref_inv P b xs Ms home own s' \<and>
      resubscribed P x (subscriptions P s x - {i}) s s'"
proof -
  have ok: "sub_ok s x" using sys_worldD(3) [OF ref_invD(1) [OF assms(2)]] assms(3) by (rule sub_list_sub_ok)
  show "\<exists>s'. pub_sub_subscribe P x i s = Inr ((), s') \<and> ref_inv P b xs Ms home own s' \<and>
      resubscribed P x (insert i (subscriptions P s x)) s s'"
    using subscribe_run(1) [OF assms(1) ok assms(4)] ids.add_spec [OF assms(1) ok assms(4)]
      ref_inv_write_bitarray [OF assms(2)] write_bitarray_resubscribed by fastforce
  show "\<exists>s'. pub_sub_unsubscribe P x i s = Inr ((), s') \<and> ref_inv P b xs Ms home own s' \<and>
      resubscribed P x (subscriptions P s x - {i}) s s'"
    using subscribe_run(2) [OF assms(1) ok assms(4)] ids.remove_spec [OF assms(1) ok assms(4)]
      ref_inv_write_bitarray [OF assms(2)] write_bitarray_resubscribed by fastforce
qed

section \<open>The whole work item\<close>

lemma distinct_count_list: "(\<And>m. count_list ms m \<le> 1) \<Longrightarrow> distinct ms"
proof (induction ms)
  case (Cons m ms)
  have "count_list ms k \<le> 1" for k using Cons.prems [of k] by (simp split: if_splits)
  moreover have "count_list ms m = 0" using Cons.prems [of m] by simp
  ultimately show ?case using Cons.IH by (simp add: count_list_0_iff)
qed simp

lemma ref_inv_distinct: "ref_inv P b xs Ms home own s \<Longrightarrow> distinct (published P s b)"
proof (rule distinct_count_list)
  fix m assume r: "ref_inv P b xs Ms home own s"
  note d = ref_invD [OF r]
  show "count_list (published P s b) m \<le> 1"
  proof (cases "m \<in> Ms")
    case True
    then show ?thesis using d(6) by (fastforce simp: linked_def)
  next
    case False
    then have "places P b xs s m = 0" using d(8) by (meson neq0_conv)
    then show ?thesis by (simp add: places_def linked_def)
  qed
qed

lemma ref_inv_upd_broker:
  assumes "\<And>br. msg_publish_fifo (f br) = msg_publish_fifo br" and "ref_inv P b xs Ms home own s"
  shows "ref_inv P b xs Ms home own (upd_broker b f s)"
proof (rule ref_inv_same [OF assms(2)])
  have "msg_ident (upd_broker b f s) = msg_ident s" by (simp add: msg_ident_def fun_eq_iff)
  then show "same_world P s (upd_broker b f s)" by (simp add: same_world_def slab_fits_cong [of "upd_broker b f s" s])
  have "published P (upd_broker b f s) = published P s"
    using assms(1) by (auto simp: published_def fun_eq_iff split: option.split)
  moreover have "fifo_of P (upd_broker b f s) = fifo_of P s" by (rule views_by_subscribers) simp
  ultimately show "linked P b xs (upd_broker b f s) = linked P b xs s" by (simp add: linked_def [abs_def])
  show "slab_pool P (upd_broker b f s) = slab_pool P s" by (rule slab_pool_cong) simp
qed (simp_all add: ref_cnt_def link_flag_def fun_eq_iff)

lemma can_take_has_room: "can_take P (Suc n) s x \<Longrightarrow> has_room P s x"
  by (auto simp: can_take_def has_room_def)

lemma drain_ref_inv:
  assumes "system_laws P log"
  shows "ref_inv P b xs Ms home own s \<Longrightarrow> published P s b = ms \<Longrightarrow> length ms < n \<Longrightarrow>
    \<forall>x \<in> set xs. can_take P (length ms) s x \<Longrightarrow> \<forall>m \<in> set ms. ref_cnt s m + length xs < 255 \<Longrightarrow>
    \<exists>s'. bindM (pub_sub_msg_fifo_get P (Msg_publish_fifo b) K_NO_WAIT) (publish_loop n P b) s = Inr ((), s') \<and>
      ref_inv P b xs Ms home own s' \<and> same_world P s s'"
proof (induction ms arbitrary: s n)
  case Nil
  note w = sys_worldD [OF ref_invD(1) [OF Nil.prems(1)]]
  have fl: "fifo_laws P" using assms by (simp add: system_laws_def core_laws_def)
  obtain j where j: "n = Suc j" using Nil.prems(3) by (cases n) auto
  obtain s1 where s1: "pub_sub_msg_fifo_get P (Msg_publish_fifo b) K_NO_WAIT s = Inr (NULL, s1)"
    "taken P b [] s s1" "messages s1 = messages s"
    using publish_get(1) [OF fl w(7) Nil.prems(2)] by blast
  note t = s1(2) [unfolded taken_def]
  have sf: "slab_fits P s1 = slab_fits P s" "slab_pool P s1 = slab_pool P s"
    using t slab_fits_cong [of s1 s P] slab_pool_cong [of s1 s P] by simp_all
  then have sw: "same_world P s s1" using t by (simp add: same_world_def)
  have p: "published P s1 b = published P s b" using t Nil.prems(2) by simp
  have "ref_inv P b xs Ms home own s1"
    by (rule ref_inv_same [OF Nil.prems(1) sw])
      (use t p s1(3) sf(2) in \<open>simp_all add: linked_def [abs_def] link_flag_def [abs_def]\<close>)
  then show ?case using s1(1) sw by (simp add: j)
next
  case (Cons m ms)
  obtain j where j: "n = Suc j" "length ms < j" using Cons.prems(3) by (cases n) auto
  note d = ref_invD [OF Cons.prems(1)]
  note w = sys_worldD [OF d(1)]
  have hr: "\<forall>x \<in> set xs. has_room P s x" using Cons.prems(4) can_take_has_room by fastforce
  have r: "ref_cnt s m + length xs < 255" using Cons.prems(5) by simp
  obtain s1 sd s2 where s2: "distribute_one P b s = Inr ((), s2)" "taken P b ms s s1"
    "delivered P log (msg_id_of s m) m xs 1 s1 sd" "ref_inv P b xs Ms home own s2" "freed P m sd s2"
    "same_world P s s2"
    using distribute_step [OF assms Cons.prems(1,2) hr r] by blast
  note t = s2(2) [unfolded taken_def] and fr = freed_views [OF s2(5)]
  note dv = s2(3) [unfolded delivered_def]
  note sw = s2(6)
  have p: "published P s2 b = ms" using t dv fr by simp
  have v: "sub_views P s2 = sub_views P s" using t dv fr by simp
  have ct: "\<forall>x \<in> set xs. can_take P (length ms) s2 x"
    using Cons.prems(4) t dv fr by (auto intro!: can_take_mono [OF v])
  have nm: "m \<notin> set ms" using ref_inv_distinct [OF Cons.prems(1)] Cons.prems(2) by simp
  have rc: "ref_cnt s2 k = ref_cnt s k" if "k \<noteq> m" for k using t dv fr that by simp
  have "\<forall>k \<in> set ms. ref_cnt s2 k + length xs < 255"
  proof
    fix k assume "k \<in> set ms"
    then show "ref_cnt s2 k + length xs < 255" using Cons.prems(5) rc [of k] nm by (cases "k = m") auto
  qed
  then obtain s' where s': "bindM (pub_sub_msg_fifo_get P (Msg_publish_fifo b) K_NO_WAIT) (publish_loop j P b) s2 = Inr ((), s')"
    "ref_inv P b xs Ms home own s'" "same_world P s2 s'"
    using Cons.IH [OF s2(4) p j(2) ct] by blast
  have "0 < linked P b xs s m" using Cons.prems(2) by (simp add: linked_def)
  then have mM: "m \<in> Ms" by (auto intro: d(8) simp: places_def)
  then obtain h where h: "messages s m = Some h" "m \<noteq> NULL" using d(2) valid_msgE by blast
  have fl: "fifo_laws P" using assms by (simp add: system_laws_def core_laws_def)
  obtain sg where g: "pub_sub_msg_fifo_get P (Msg_publish_fifo b) K_NO_WAIT s = Inr (m, sg)"
    using publish_get(2) [OF fl w(7) Cons.prems(2) h(2,1)] by blast
  have "bindM (pub_sub_msg_fifo_get P (Msg_publish_fifo b) K_NO_WAIT) (publish_loop n P b) s = Inr ((), s')"
    unfolding j(1) publish_loop_round [OF g h(2)] using s2(1) s'(1) by (simp only: thenM_run sum.case snd_conv)
  then show ?case using s'(2,3) sw by (auto simp: same_world_def)
qed

text \<open>A run of the work item.\<close>

lemma work_step:
  assumes "system_laws P log" and "ref_inv P b xs Ms home own s" and "length (published P s b) < fuel P"
    and "\<forall>x \<in> set xs. can_take P (length (published P s b)) s x"
    and "\<forall>m \<in> set (published P s b). ref_cnt s m + length xs < 255"
  shows "\<exists>s'. publish_work_handler P b s = Inr ((), s') \<and> distributed P log (published P s b) xs s s' \<and>
    published P s' b = [] \<and> same_world P s s' \<and> ref_inv P b xs Ms home own s'"
proof -
  note d = ref_invD [OF assms(2)]
  note w = sys_worldD [OF d(1)]
  have l: "header_laws P" "msgq_laws P" "fifo_laws P" "slist_laws P" "mutex_laws P" "quiet_handlers P log" "slab_laws P"
    using assms(1) by (simp_all add: system_laws_def core_laws_def)
  have dl: "\<forall>m \<in> set (published P s b). deliverable P s xs m"
  proof
    fix m assume m: "m \<in> set (published P s b)"
    then have "0 < linked P b xs s m" by (auto simp: linked_def count_list_0_iff simp flip: neq0_conv)
    then have mM: "m \<in> Ms" "0 < places P b xs s m" by (auto intro: d(8) simp: places_def)
    note u = in_useI(2) [OF mM(2), of home own]
    have "0 < ref_cnt s m" using d(5) [OF mM(1) u] mM(2) by (simp add: refs_def)
    then show "deliverable P s xs m" using assms(5) m d(2) [OF mM(1)] d(3) [OF mM(1) u] by (simp add: deliverable_def)
  qed
  obtain s1 where s1: "bindM (pub_sub_msg_fifo_get P (Msg_publish_fifo b) K_NO_WAIT) (publish_loop (fuel P) P b) s = Inr ((), s1)"
    "distributed P log (published P s b) xs s s1" "published P s1 = (published P s)(b := [])"
    using drain_run [OF l w(2) refl assms(3) ref_inv_distinct [OF assms(2)] w(3-5) assms(4) dl d(4)] by blast
  have r1: "ref_inv P b xs Ms home own s1" "same_world P s s1"
    using drain_ref_inv [OF assms(1,2) refl assms(3-5)] s1(1) by auto
  let ?f = "\<lambda>br. br\<lparr>publish_work_poll_event := poll_event_set_state P K_POLL_STATE_NOT_READY (publish_work_poll_event br)\<rparr>"
  let ?g = "\<lambda>br. br\<lparr>publish_work := k_work_poll_submit P (publish_work br) (publish_work_poll_event br) K_FOREVER\<rparr>"
  let ?s = "upd_broker b ?g (upd_broker b ?f s1)"
  have r: "publish_work_handler P b s = Inr ((), ?s)"
    using s1(1) by (auto simp: publish_work_handler_def split: sum.splits)
  have ri: "ref_inv P b xs Ms home own ?s" using r1(1) by (intro ref_inv_upd_broker) simp_all
  have p: "published P ?s = published P s1" "sub_lock_depth P ?s = sub_lock_depth P s1"
    by (auto simp: published_def sub_lock_depth_def fun_eq_iff option.map_comp comp_def split: option.split)
  have f: "fifo_of P ?s = fifo_of P s1" "ref_cnt ?s = ref_cnt s1" "msg_ident ?s = msg_ident s1"
    "msgq_of P ?s = msgq_of P s1" "sub_views P ?s = sub_views P s1" "app ?s = app s1"
    "g_runtime_allocators ?s = g_runtime_allocators s1" "allocator_objs ?s = allocator_objs s1"
    "slab_fits P ?s = slab_fits P s1"
    using slab_fits_cong [of ?s s1 P] by (simp_all add: fifo_of_def fun_eq_iff ref_cnt_def msg_ident_def)
  have "distributed P log (published P s b) xs s ?s" using s1(2) unfolding distributed_def f p .
  moreover have "same_world P s ?s" using r1(2) unfolding same_world_def f .
  ultimately show ?thesis using r ri p(1) s1(3) by auto
qed

end
