(* ===== verification/HsmSub.thy ===== *)
theory HsmSub imports HsmTest Steps begin

text \<open>
  A state machine behind the queue of a subscriber, and behind a callback subscriber: the messages that are published to
  it are the input of the reference machine, in the order in which they wait, and their references
  are released.
\<close>

section \<open>Set up\<close>

text \<open>What \<open>hsm_init\<close> makes of a subscriber: \<open>struct hsm\<close> has the number of the subscriber that it embeds.\<close>

definition hsm_sub :: "('k, 'u) memory \<Rightarrow> ptr \<Rightarrow> pub_sub_rx_type \<Rightarrow> bool" where
  "hsm_sub s h k \<longleftrightarrow> h \<noteq> NULL \<and> type_of s h = k \<and> (\<exists>su. subscribers s h = Some su \<and>
     handler_data su = \<lparr>msg_handler = Hsm_msg_handler, user_data = h\<rparr>)"

lemma hsm_init_run:
  assumes "h \<noteq> NULL" and "c \<noteq> NULL" and "hsms s h = Some x" and "subscribers s h = Some su"
  shows "\<exists>s'. hsm_init P h c s = Inr ((), s') \<and> hsm_sub s' h (rx_type su) \<and>
    hsms s' = (hsms s)(h \<mapsto> x\<lparr>current_state := c\<rparr>) \<and> app s' = app s"
  using assms by (simp add: hsm_init_def read_hsm_run set_current_state_def hsm_sub_def type_of_def key_of_def
      pub_sub_subscriber_set_handler_data_def sub_run)

section \<open>One message\<close>

text \<open>The parts of the state that handling a message leaves alone.\<close>

definition settled :: "('k, 'u) platform \<Rightarrow> ('k, 'u) memory \<Rightarrow> ('k, 'u) memory \<Rightarrow> bool" where
  "settled P s s' \<longleftrightarrow> subscribers s' = subscribers s \<and> msgqs s' = msgqs s \<and> brokers s' = brokers s \<and>
     msg_ident s' = msg_ident s \<and> g_runtime_allocators s' = g_runtime_allocators s \<and>
     allocator_objs s' = allocator_objs s \<and> slab_fits P s' = slab_fits P s"

definition holdable :: "('k, 'u) platform \<Rightarrow> ('k, 'u) memory \<Rightarrow> ptr \<Rightarrow> bool" where
  "holdable P s m \<longleftrightarrow> valid_msg s m \<and> freeable P s m \<and>
     num_allocators (g_runtime_allocators s) \<le> length (allocators (g_runtime_allocators s))"

lemma holdable_settled: "settled P s s' \<Longrightarrow> holdable P s' m = holdable P s m"
  using freeable_cong [of s' s P] by (simp add: settled_def holdable_def valid_by_ident)

lemma settled_moved: "settled P s (moved h y a s)" "ref_cnt (moved h y a s) = ref_cnt s"
  by (auto simp: settled_def moved_def msg_ident_def [abs_def] ref_cnt_def [abs_def] slab_fits_def [abs_def])

lemma settled_trans: "settled P s s1 \<Longrightarrow> settled P s1 s2 \<Longrightarrow> settled P s s2"
  by (simp add: settled_def)

lemma release_settled:
  assumes "core_laws P" and "holdable P s m" and "0 < ref_cnt s m"
  shows "\<exists>s'. pub_sub_release_msg P m s = Inr ((), s') \<and> settled P s s' \<and> hsms s' = hsms s \<and> app s' = app s \<and>
    ref_cnt s' = (ref_cnt s)(m := ref_cnt s m - 1) \<and>
    (\<forall>q. slab_owned P s m q \<and> ref_cnt s m = 1 \<longrightarrow> m \<in> slab_pool P s' q) \<and> (\<forall>q. slab_pool P s q \<subseteq> slab_pool P s' q)"
proof -
  have l: "header_laws P" "slab_laws P" using assms(1) by (simp_all add: core_laws_def)
  obtain w s' where w: "pub_sub_release_msg P m s = Inr ((), s')" "freed P m (set_atomic_data m w s) s'"
    "ref_cnt (set_atomic_data m w s) = (ref_cnt s)(m := ref_cnt s m - 1)"
    "msg_ident (set_atomic_data m w s) = msg_ident s"
    using release_freeable [OF l _ assms(3)] assms(2) unfolding holdable_def by blast
  have "settled P (set_atomic_data m w s) s' \<and> hsms s' = hsms s \<and> app s' = app s"
    using w(2) by (auto simp: settled_def freed_def gave_back_def split: if_splits)
  then have "settled P s s'" "hsms s' = hsms s" "app s' = app s"
    using w(4) by (simp_all add: settled_def)
  moreover have "m \<in> slab_pool P s' q" if q: "slab_owned P s m q" "ref_cnt s m = 1" for q
  proof -
    have o: "slab_owned P (set_atomic_data m w s) m q"
      using q(1) slab_owned_cong [of "set_atomic_data m w s" m s P] w(4) by simp
    have "gave_back P m (set_atomic_data m w s) s'" using w(2,3) q(2) by (simp add: freed_def)
    then show ?thesis using o by (auto simp: gave_back_def slab_owned_def unowned_def)
  qed
  moreover have "slab_pool P s q \<subseteq> slab_pool P s' q" for q
    using w(2) slab_pool_cong [of "set_atomic_data m w s" s P] by (auto simp: freed_def gave_back_def split: if_splits)
  ultimately show ?thesis using w(1,3) freed_views(5) [OF w(2)] by auto
qed

lemma hsm_handles:
  assumes "core_laws P" and "machine_ok P h par S up beh" and "hsms s h = Some x" and "current_state x \<in> S"
    and "holdable P s m" and "0 < ref_cnt s m" and "i \<noteq> HSM_MSG_ID_WALK"
    and "machine_step beh up i m (current_state x, app s) = Some (c', a')"
  shows "\<exists>s1 s' y. hsm_msg_handler P i m h s = Inr ((), s1) \<and> pub_sub_release_msg P m s1 = Inr ((), s') \<and>
    settled P s s1 \<and> settled P s s' \<and> hsms s' h = Some y \<and> current_state y = c' \<and> c' \<in> S \<and> app s' = a' \<and>
    ref_cnt s' = (ref_cnt s)(m := ref_cnt s m - 1) \<and>
    (\<forall>q. slab_owned P s m q \<and> ref_cnt s m = 1 \<longrightarrow> m \<in> slab_pool P s' q) \<and> (\<forall>q. slab_pool P s q \<subseteq> slab_pool P s' q)"
proof -
  obtain y where y: "hsm_msg_handler P i m h s = Inr ((), moved h y a' s)" "current_state y = c'" "c' \<in> S"
    using hsm_machine [OF assms(2,4,3) refl assms(7,8)] unfolding moved_def by blast
  let ?s = "moved h y a' s"
  have o: "slab_owned P ?s m = slab_owned P s m"
    by (rule slab_owned_cong) (use settled_moved(1) [of P s h y a'] in \<open>simp_all add: settled_def\<close>)
  have ho: "holdable P ?s m" using holdable_settled [OF settled_moved(1) [of P s h y a']] assms(5) by simp
  have r: "0 < ref_cnt ?s m" using assms(6) by (simp add: settled_moved(2))
  have po: "slab_pool P ?s = slab_pool P s" by (rule slab_pool_cong) (simp add: moved_def)
  obtain s' where s': "pub_sub_release_msg P m ?s = Inr ((), s')" "settled P ?s s'" "hsms s' = hsms ?s" "app s' = app ?s"
    "ref_cnt s' = (ref_cnt ?s)(m := ref_cnt ?s m - 1)" "\<forall>q. slab_owned P ?s m q \<and> ref_cnt ?s m = 1 \<longrightarrow> m \<in> slab_pool P s' q"
    "\<forall>q. slab_pool P ?s q \<subseteq> slab_pool P s' q"
    using release_settled [OF assms(1) ho r] by blast
  show ?thesis
    using y s'(1,3-7) settled_moved(1) [of P s h y a'] settled_trans [OF settled_moved(1) s'(2)]
    unfolding o po settled_moved(2) by (intro exI [of _ ?s] exI [of _ s'] exI [of _ y]) simp
qed

text \<open>A private message to a machine that is a callback subscriber.\<close>

lemma hsm_callback_run:
  assumes "core_laws P" and "machine_ok P h par S up beh" and "hsm_sub s h PUB_SUB_RX_TYPE_CALLBACK"
    and "hsms s h = Some x" and "current_state x \<in> S" and "holdable P s m" and "0 < ref_cnt s m"
    and "max_id_of s h < msg_id_of s m" and "msg_id_of s m \<noteq> HSM_MSG_ID_WALK"
    and "machine_step beh up (msg_id_of s m) m (current_state x, app s) = Some (c', a')"
  shows "\<exists>s' y. pub_sub_publish_to_subscriber P h m s = Inr ((), s') \<and> settled P s s' \<and> hsms s' h = Some y \<and>
    current_state y = c' \<and> c' \<in> S \<and> app s' = a' \<and> ref_cnt s' = (ref_cnt s)(m := ref_cnt s m - 1) \<and>
    (\<forall>q. slab_owned P s m q \<and> ref_cnt s m = 1 \<longrightarrow> m \<in> slab_pool P s' q)"
proof -
  obtain su where su: "h \<noteq> NULL" "subscribers s h = Some su" "rx_type su = PUB_SUB_RX_TYPE_CALLBACK"
    "handler_data su = \<lparr>msg_handler = Hsm_msg_handler, user_data = h\<rparr>"
    using assms(3) by (auto simp: hsm_sub_def type_of_def key_of_def)
  have v: "valid_msg s m" using assms(6) by (simp add: holdable_def)
  obtain g where g: "messages s m = Some g" "m \<noteq> NULL" using v by (rule valid_msgE)
  have i: "id_of (atomic_data g) = msg_id_of s m" using g(1) by (simp add: msg_id_of_def msg_ident_def)
  have hl: "header_laws P" "fifo_laws P" "msgq_laws P" using assms(1) by (simp_all add: core_laws_def)
  have p: "pub_sub_publish_to_subscriber P h m s =
      thenM (hsm_msg_handler P (msg_id_of s m) m h) (pub_sub_release_msg P m) s"
    using publish_private_run [OF hl su(2,1) g] su(2-4) assms(8) i by (simp add: max_id_of_def)
  show ?thesis
    using hsm_handles [OF assms(1,2,4,5,6,7,9,10)] unfolding p by auto
qed

section \<open>A queue of messages\<close>

text \<open>A thread that handles \<open>n\<close> messages, with the results.\<close>

fun handle_queue :: "('k, 'u) platform \<Rightarrow> ptr \<Rightarrow> k_timeout \<Rightarrow> nat \<Rightarrow> (('k, 'u) memory, int list) prog" where
  "handle_queue P sub t 0 = ret []"
| "handle_queue P sub t (Suc n) =
     bindM (pub_sub_handle_queued_msg P sub t) (\<lambda>r. bindM (handle_queue P sub t n) (\<lambda>rs. ret (r # rs)))"

lemma hsm_takes:
  assumes "core_laws P" and "machine_ok P h par S up beh" and "hsm_sub s h PUB_SUB_RX_TYPE_MSGQ"
    and "msgq_ptr s h = Some q" and "msgqs s q = Some k" and "msgq_items P k = m # ms"
    and "hsms s h = Some x" and "current_state x \<in> S" and "holdable P s m" and "0 < ref_cnt s m"
    and "msg_id_of s m \<noteq> HSM_MSG_ID_WALK"
    and "machine_step beh up (msg_id_of s m) m (current_state x, app s) = Some (c', a')"
  shows "\<exists>s' y k'. pub_sub_handle_queued_msg P h t s = Inr (0, s') \<and> msgqs s' = (msgqs s)(q \<mapsto> k') \<and> msgq_items P k' = ms \<and>
    settled P (s\<lparr>msgqs := (msgqs s)(q \<mapsto> k')\<rparr>) s' \<and> hsms s' h = Some y \<and> current_state y = c' \<and> c' \<in> S \<and> app s' = a' \<and>
    ref_cnt s' = (ref_cnt s)(m := ref_cnt s m - 1) \<and>
    (\<forall>p. slab_owned P s m p \<and> ref_cnt s m = 1 \<longrightarrow> m \<in> slab_pool P s' p) \<and> (\<forall>p. slab_pool P s p \<subseteq> slab_pool P s' p)"
proof -
  have l: "header_laws P" "msgq_laws P" using assms(1) by (simp_all add: core_laws_def)
  obtain su where su: "h \<noteq> NULL" "subscribers s h = Some su" "rx_type su = PUB_SUB_RX_TYPE_MSGQ" "rx_queue su = Rx_msgq q"
    "handler_data su = \<lparr>msg_handler = Hsm_msg_handler, user_data = h\<rparr>"
    using assms(3,4) by (auto simp: hsm_sub_def type_of_def key_of_def msgq_ptr_def split: rx_queue.splits)
  have v: "valid_msg s m" using assms(9) by (simp add: holdable_def)
  obtain g where g: "messages s m = Some g" "m \<noteq> NULL" using v by (rule valid_msgE)
  have i: "id_of (atomic_data g) = msg_id_of s m" using g(1) by (simp add: msg_id_of_def msg_ident_def)
  obtain k' where k': "msgq_items P k' = ms" "pub_sub_handle_queued_msg P h t s =
      thenM (hsm_msg_handler P (msg_id_of s m) m h) (thenM (pub_sub_release_msg P m) (ret 0)) (write_msgq q k' s)"
    using handle_queued_msgq [OF l su(2,1,3,4) assms(5,6) g, of t] su(5) i by auto
  let ?s = "write_msgq q k' s"
  have same: "msg_ident ?s = msg_ident s" "ref_cnt ?s = ref_cnt s" "slab_pool P ?s = slab_pool P s" "slab_fits P ?s = slab_fits P s"
    by (simp_all add: msg_ident_def [abs_def] ref_cnt_def [abs_def] slab_pool_def [abs_def] slab_fits_def [abs_def])
  have "freeable P ?s = freeable P s" by (rule freeable_cong) (simp_all add: same)
  then have ho: "holdable P ?s m" using assms(9) by (simp add: holdable_def valid_by_ident same)
  have o: "slab_owned P ?s m = slab_owned P s m" by (rule slab_owned_cong) (simp_all add: same)
  obtain s1 s' y where s': "hsm_msg_handler P (msg_id_of s m) m h ?s = Inr ((), s1)" "pub_sub_release_msg P m s1 = Inr ((), s')"
    "settled P ?s s'" "hsms s' h = Some y" "current_state y = c'" "c' \<in> S" "app s' = a'"
    "ref_cnt s' = (ref_cnt ?s)(m := ref_cnt ?s m - 1)" "\<forall>p. slab_owned P ?s m p \<and> ref_cnt ?s m = 1 \<longrightarrow> m \<in> slab_pool P s' p"
    "\<forall>p. slab_pool P ?s p \<subseteq> slab_pool P s' p"
    using hsm_handles [OF assms(1,2) _ assms(8) ho _ assms(11), of c' a'] assms(7,10,12) same(2) by auto
  have "msgqs s' = (msgqs s)(q \<mapsto> k')" using s'(3) by (simp add: settled_def)
  then show ?thesis
    using k' s'(1-7) s'(8-10) [unfolded same o]
    by (intro exI [of _ s'] exI [of _ y] exI [of _ k']) (simp add: write_msgq_def)
qed

text \<open>C24. A state machine behind a message queue: a thread that handles the messages in the queue of a machine's
  subscriber one after the other feeds them to the reference machine, with their ids and in the order
  of the queue. All calls return 0, the queue is empty in the end, the machine is in the state and the
  application has the data that the reference machine ends with, each message has lost one reference
  for each place it had in the queue, and those from a slab that have none left are back in it.\<close>

theorem hsm_queue:
  assumes "core_laws P" and "machine_ok P h par S up beh"
  shows "hsm_sub s h PUB_SUB_RX_TYPE_MSGQ \<Longrightarrow> msgq_ptr s h = Some q \<Longrightarrow> msgqs s q = Some k \<Longrightarrow> msgq_items P k = ms \<Longrightarrow>
    hsms s h = Some x \<Longrightarrow> current_state x \<in> S \<Longrightarrow>
    \<forall>m \<in> set ms. holdable P s m \<and> count_list ms m \<le> ref_cnt s m \<and> msg_id_of s m \<noteq> HSM_MSG_ID_WALK \<Longrightarrow>
    machine_run beh up (map (\<lambda>m. (msg_id_of s m, m)) ms) (current_state x, app s) = Some (c', a') \<Longrightarrow>
    \<exists>s' y k'. handle_queue P h t (length ms) s = Inr (replicate (length ms) 0, s') \<and>
      msgqs s' q = Some k' \<and> msgq_items P k' = [] \<and> hsms s' h = Some y \<and> current_state y = c' \<and> app s' = a' \<and>
      (\<forall>m. ref_cnt s' m = ref_cnt s m - count_list ms m) \<and>
      (\<forall>m \<in> set ms. \<forall>p. slab_owned P s m p \<and> ref_cnt s m = count_list ms m \<longrightarrow> m \<in> slab_pool P s' p) \<and>
      (\<forall>p. slab_pool P s p \<subseteq> slab_pool P s' p)"
proof (induction ms arbitrary: s k x)
  case Nil
  then show ?case by auto
next
  case (Cons m ms)
  obtain c1 a1 where c1: "machine_step beh up (msg_id_of s m) m (current_state x, app s) = Some (c1, a1)"
    "machine_run beh up (map (\<lambda>m. (msg_id_of s m, m)) ms) (c1, a1) = Some (c', a')"
    using Cons.prems(8) by (auto simp: bind_eq_Some_conv)
  have m: "holdable P s m" "0 < ref_cnt s m" "msg_id_of s m \<noteq> HSM_MSG_ID_WALK" using Cons.prems(7) by auto
  obtain s1 y k1 where s1: "pub_sub_handle_queued_msg P h t s = Inr (0, s1)" "msgqs s1 = (msgqs s)(q \<mapsto> k1)" "msgq_items P k1 = ms"
    "settled P (s\<lparr>msgqs := (msgqs s)(q \<mapsto> k1)\<rparr>) s1" "hsms s1 h = Some y" "current_state y = c1" "c1 \<in> S" "app s1 = a1"
    "ref_cnt s1 = (ref_cnt s)(m := ref_cnt s m - 1)"
    "\<forall>p. slab_owned P s m p \<and> ref_cnt s m = 1 \<longrightarrow> m \<in> slab_pool P s1 p" "\<forall>p. slab_pool P s p \<subseteq> slab_pool P s1 p"
    using hsm_takes [OF assms Cons.prems(1-6) m c1(1)] by blast
  have i: "subscribers s1 = subscribers s" "msg_ident s1 = msg_ident s" "g_runtime_allocators s1 = g_runtime_allocators s"
    "allocator_objs s1 = allocator_objs s" "slab_fits P s1 = slab_fits P s"
    using s1(4) by (simp_all add: settled_def msg_ident_def [abs_def] slab_fits_def [abs_def])
  have ho: "holdable P s1 = holdable P s" "msg_id_of s1 = msg_id_of s" "slab_owned P s1 n = slab_owned P s n" for n
    using freeable_cong [OF i(2-5)] slab_owned_cong [OF _ i(3-5), of n] i
    by (simp_all add: holdable_def [abs_def] valid_by_ident msg_id_of_def [abs_def])
  have su: "hsm_sub s1 h PUB_SUB_RX_TYPE_MSGQ" "msgq_ptr s1 h = Some q"
    using Cons.prems(1,2) i(1) by (simp_all add: hsm_sub_def type_of_def key_of_def msgq_ptr_def)
  have r: "\<forall>n \<in> set ms. holdable P s1 n \<and> count_list ms n \<le> ref_cnt s1 n \<and> msg_id_of s1 n \<noteq> HSM_MSG_ID_WALK"
    using Cons.prems(7) unfolding ho s1(9) by (auto split: if_splits)
  obtain s' y' k' where s': "handle_queue P h t (length ms) s1 = Inr (replicate (length ms) 0, s')"
    "msgqs s' q = Some k'" "msgq_items P k' = []" "hsms s' h = Some y'" "current_state y' = c'" "app s' = a'"
    "\<forall>n. ref_cnt s' n = ref_cnt s1 n - count_list ms n"
    "\<forall>n \<in> set ms. \<forall>p. slab_owned P s1 n p \<and> ref_cnt s1 n = count_list ms n \<longrightarrow> n \<in> slab_pool P s' p"
    "\<forall>p. slab_pool P s1 p \<subseteq> slab_pool P s' p"
    using Cons.IH [OF su _ s1(3,5) _ r] s1(2,6-8) c1(2) unfolding ho(2) by auto
  have cnt: "ref_cnt s' n = ref_cnt s n - count_list (m # ms) n" for n using s'(7) s1(9) by simp
  have "n \<in> slab_pool P s' p" if n: "n \<in> set (m # ms)" "slab_owned P s n p" "ref_cnt s n = count_list (m # ms) n" for n p
  proof (cases "n \<in> set ms")
    case True
    then show ?thesis using s'(8) n(2,3) ho(3) s1(9) by (auto split: if_splits)
  next
    case False
    then have "n = m" "ref_cnt s m = 1" using n by (auto simp: count_list_0_iff)
    then show ?thesis using s1(10) s'(9) n(2) by blast
  qed
  moreover have "slab_pool P s p \<subseteq> slab_pool P s' p" for p using s1(11) s'(9) by blast
  ultimately show ?case using s1(1) s'(1-6) cnt by (intro exI [of _ s'] exI [of _ y'] exI [of _ k']) auto
qed

text \<open>An example: the queue of the test machine holds message 2, which is a transition to the far state, then
  message 5, the request for the current state, and message 2 once more.\<close>

definition queued_hsm :: "(kobj, test_hsm) memory" where
  "queued_hsm = (ref_memory (fresh_test_hsm (\<lambda>_. test_far_state)))\<lparr>
     messages := [2 \<mapsto> \<lparr>fifo_reserved = False, atomic_data = 0x0008FE02\<rparr>, 5 \<mapsto> \<lparr>fifo_reserved = False, atomic_data = 0x0001FE01\<rparr>],
     msgqs := [8 \<mapsto> kobj0\<lparr>k_items := [2, 5, 2], k_cap := 4\<rparr>],
     subscribers := [3 \<mapsto> \<lparr>broker = NULL, handler_data = \<lparr>msg_handler = Hsm_msg_handler, user_data = 3\<rparr>,
       rx_queue = Rx_msgq 8, subs_bitarray = 7, rx_type = PUB_SUB_RX_TYPE_MSGQ, max_pub_msg_id = 0, priority = 0\<rparr>],
     hsms := [3 \<mapsto> \<lparr>current_state = test_start_state, tmp_state = NULL\<rparr>]\<rparr>"

lemma queued_hsm_sel [simp]:
  "messages queued_hsm = [2 \<mapsto> \<lparr>fifo_reserved = False, atomic_data = 0x0008FE02\<rparr>, 5 \<mapsto> \<lparr>fifo_reserved = False, atomic_data = 0x0001FE01\<rparr>]"
  "msgqs queued_hsm = [8 \<mapsto> kobj0\<lparr>k_items := [2, 5, 2], k_cap := 4\<rparr>]"
  "hsms queued_hsm = [3 \<mapsto> \<lparr>current_state = test_start_state, tmp_state = NULL\<rparr>]"
  "app queued_hsm = fresh_test_hsm (\<lambda>_. test_far_state)"
  "num_allocators (g_runtime_allocators queued_hsm) = 0"
  by (simp_all add: queued_hsm_def ref_memory_def)

lemma hsm_platform_laws: "core_laws hsm_platform"
  by (simp add: core_laws_def header_laws_def hsm_platform_def ref_laws)

lemma queued_words:
  "id_of 0x0008FE02 = 8" "alloc_of 0x0008FE02 = PUB_SUB_ALLOC_ID_STATIC_MSG" "ref_of 0x0008FE02 = 2"
  "id_of 0x0001FE01 = 1" "alloc_of 0x0001FE01 = PUB_SUB_ALLOC_ID_STATIC_MSG" "ref_of 0x0001FE01 = 1"
  by (simp_all add: word_unat_eq_iff unat_id_of unat_alloc_of unat_ref_of alloc_id_defs)

lemma queued_run:
  "case machine_run test_behaviour test_up [(8, 2), (1, 5), (8, 2)] (test_start_state, fresh_test_hsm (\<lambda>_. test_far_state)) of
     None \<Rightarrow> False
   | Some (c, a) \<Rightarrow> c = test_far_state \<and> test_log a = [(test_top_state, 8), (test_start_state, HSM_MSG_ID_EXIT),
       (test_sub_state, HSM_MSG_ID_EXIT), (test_parent_0_far_state, HSM_MSG_ID_ENTRY),
       (test_parent_1_far_state, HSM_MSG_ID_ENTRY), (test_far_state, HSM_MSG_ID_ENTRY),
       (test_far_state, 1), (test_top_state, 8)]"
  by code_simp

theorem hsm_queue_witness:
  "\<exists>s' y. handle_queue hsm_platform 3 K_NO_WAIT 3 queued_hsm = Inr ([0, 0, 0], s') \<and>
     hsms s' 3 = Some y \<and> current_state y = test_far_state \<and> ref_cnt s' 2 = 0 \<and> ref_cnt s' 5 = 0 \<and>
     test_log (app s') = [(test_top_state, 8), (test_start_state, HSM_MSG_ID_EXIT),
       (test_sub_state, HSM_MSG_ID_EXIT), (test_parent_0_far_state, HSM_MSG_ID_ENTRY),
       (test_parent_1_far_state, HSM_MSG_ID_ENTRY), (test_far_state, HSM_MSG_ID_ENTRY),
       (test_far_state, 1), (test_top_state, 8)]"
proof -
  have h: "hsm_sub queued_hsm 3 PUB_SUB_RX_TYPE_MSGQ" "msgq_ptr queued_hsm 3 = Some 8"
    by (simp_all add: hsm_sub_def type_of_def key_of_def msgq_ptr_def queued_hsm_def)
  have m: "\<forall>m \<in> set [2, 5, 2]. holdable hsm_platform queued_hsm m \<and> count_list [2, 5, 2] m \<le> ref_cnt queued_hsm m \<and>
      msg_id_of queued_hsm m \<noteq> HSM_MSG_ID_WALK"
    by (simp add: holdable_def valid_msg_def freeable_def unowned_def msg_ident_def ref_cnt_def msg_id_of_def allocator_at_def
        queued_words alloc_id_defs hsm_msg_id_defs)
  have i: "map (\<lambda>m. (msg_id_of queued_hsm m, m)) [2, 5, 2] = [(8, 2), (1, 5), (8, 2)]"
    by (simp add: msg_id_of_def msg_ident_def queued_words)
  obtain c a' where s: "machine_run test_behaviour test_up (map (\<lambda>m. (msg_id_of queued_hsm m, m)) [2, 5, 2])
      (current_state \<lparr>current_state = test_start_state, tmp_state = NULL\<rparr>, app queued_hsm) = Some (c, a')"
    and r: "c = test_far_state" "test_log a' = [(test_top_state, 8), (test_start_state, HSM_MSG_ID_EXIT),
       (test_sub_state, HSM_MSG_ID_EXIT), (test_parent_0_far_state, HSM_MSG_ID_ENTRY),
       (test_parent_1_far_state, HSM_MSG_ID_ENTRY), (test_far_state, HSM_MSG_ID_ENTRY),
       (test_far_state, 1), (test_top_state, 8)]"
    using queued_run unfolding i queued_hsm_sel hsm.select_convs by (auto simp del: machine_run.simps split: option.splits)
  have q: "msgq_items hsm_platform (kobj0\<lparr>k_items := [2, 5, 2], k_cap := 4\<rparr>) = [2, 5, 2]" by (simp add: hsm_platform_def)
  have S: "current_state \<lparr>current_state = test_start_state, tmp_state = NULL\<rparr> \<in> test_states" by simp
  obtain s' y k' where "handle_queue hsm_platform 3 K_NO_WAIT (length [2, 5, 2 :: ptr]) queued_hsm = Inr (replicate (length [2, 5, 2 :: ptr]) 0, s')"
    "hsms s' 3 = Some y" "current_state y = c" "app s' = a'" "\<forall>m. ref_cnt s' m = ref_cnt queued_hsm m - count_list [2, 5, 2] m"
    using hsm_queue [OF hsm_platform_laws test_machine_ok h _ q _ S m s, where t = K_NO_WAIT] by auto
  moreover have "ref_cnt queued_hsm 2 = 2" "ref_cnt queued_hsm 5 = 1" by (simp_all add: ref_cnt_def queued_words)
  ultimately show ?thesis using r by (simp add: numeral_3_eq_3)
qed

end
