(* ===== verification/HsmSuite.thy ===== *)
theory HsmSuite imports HsmSub SubscriberInit begin

text \<open>
  The test suite \<open>hsm_basic\<close> of \<open>tests/lib/hsm/basic/src/main.c\<close>: its fourteen test cases as programs over the
  model of the library, with the machine of theory HsmTest as a callback subscriber whose messages come from a
  memory slab. They are evaluated on the reference platform, with the expectations of the suite.
\<close>

section \<open>The suite\<close>

abbreviation (input) test_allocator :: ptr where "test_allocator \<equiv> 6"
abbreviation (input) test_sub_bitarray :: ptr where "test_sub_bitarray \<equiv> 5"
abbreviation (input) the_test_hsm :: ptr where "the_test_hsm \<equiv> 3"
abbreviation MSG_ID_MAX_PUB_ID :: uint16 where "MSG_ID_MAX_PUB_ID \<equiv> 0"
abbreviation MSG_ID_TEST_UNCONSUMED :: uint16 where "MSG_ID_TEST_UNCONSUMED \<equiv> 5"
abbreviation TEST_MSG_SIZE_BYTES :: nat where "TEST_MSG_SIZE_BYTES \<equiv> 8"

text \<open>The size of \<open>struct transition_msg\<close>, a pointer.\<close>

abbreviation sizeof_transition_msg :: nat where "sizeof_transition_msg \<equiv> 4"

text \<open>A failing \<open>zassert\<close> is an error; the states and ids that have been noted are compared as a whole.\<close>

definition zassert :: "bool \<Rightarrow> ('s, unit) prog" where
  "zassert = guardM Assert_failed"

definition expect_received :: "(hsm_state_fn \<times> uint16) list \<Rightarrow> (('k, test_hsm) memory, unit) prog" where
  "expect_received es = bindM (getsM app) (\<lambda>a. zassert (take (num_msg_received a) (msg_rx_data a) = es))"

definition forget_received :: "(('k, test_hsm) memory, unit) prog" where
  "forget_received = modifyM (\<lambda>s. s\<lparr>app := (app s)\<lparr>num_msg_received := 0\<rparr>\<rparr>)"

definition publish_msg :: "('k, test_hsm) platform \<Rightarrow> ptr \<Rightarrow> uint16 \<Rightarrow> (('k, test_hsm) memory, unit) prog" where
  "publish_msg P h i =
     bindM (pub_sub_new_msg P test_allocator i TEST_MSG_SIZE_BYTES K_NO_WAIT) (\<lambda>msg.
     thenM (zassert (msg \<noteq> NULL))
     (pub_sub_publish_to_subscriber P h msg))"

definition publish_transition_state ::
  "('k, test_hsm) platform \<Rightarrow> ptr \<Rightarrow> uint16 \<Rightarrow> hsm_state_fn \<Rightarrow> (('k, test_hsm) memory, unit) prog" where
  "publish_transition_state P h i d =
     bindM (pub_sub_new_msg P test_allocator i sizeof_transition_msg K_NO_WAIT) (\<lambda>msg.
     thenM (zassert (msg \<noteq> NULL))
    (thenM (modifyM (\<lambda>s. s\<lparr>app := (app s)\<lparr>dest_state := (dest_state (app s))(msg := d)\<rparr>\<rparr>))
     (pub_sub_publish_to_subscriber P h msg)))"

text \<open>The three calls with which every test case begins.\<close>

definition begin_test :: "('k, test_hsm) platform \<Rightarrow> hsm_state_fn \<Rightarrow> (('k, test_hsm) memory, unit) prog" where
  "begin_test P c =
     thenM (pub_sub_init_callback_subscriber P the_test_hsm test_sub_bitarray MSG_ID_MAX_PUB_ID)
    (thenM (hsm_init P the_test_hsm c)
     (hsm_start P the_test_hsm))"

text \<open>The cases that send one message to the machine in its start state.\<close>

definition rx_case ::
  "('k, test_hsm) platform \<Rightarrow> uint16 \<Rightarrow> (hsm_state_fn \<times> uint16) list \<Rightarrow> (('k, test_hsm) memory, unit) prog" where
  "rx_case P i es =
     thenM (begin_test P test_start_state)
    (thenM forget_received
    (thenM (publish_msg P the_test_hsm i)
     (expect_received es)))"

text \<open>The cases in which a message with id \<open>i\<close> makes the machine go from \<open>c\<close> to \<open>d\<close>. They
  end with the request for the current state.\<close>

definition transition_case ::
  "('k, test_hsm) platform \<Rightarrow> hsm_state_fn \<Rightarrow> uint16 \<Rightarrow> hsm_state_fn \<Rightarrow>
   (hsm_state_fn \<times> uint16) list \<Rightarrow> (('k, test_hsm) memory, unit) prog" where
  "transition_case P c i d es =
     thenM (begin_test P c)
    (thenM forget_received
    (thenM (publish_transition_state P the_test_hsm i d)
    (thenM (expect_received es)
    (thenM forget_received
    (thenM (publish_msg P the_test_hsm MSG_ID_TEST_GET_CURRENT_STATE)
     (expect_received [(d, MSG_ID_TEST_GET_CURRENT_STATE)]))))))"

definition test_start :: "('k, test_hsm) platform \<Rightarrow> (('k, test_hsm) memory, unit) prog" where
  "test_start P =
     thenM (begin_test P test_start_state)
     (expect_received [(test_top_state, HSM_MSG_ID_ENTRY), (test_sub_state, HSM_MSG_ID_ENTRY),
        (test_start_state, HSM_MSG_ID_ENTRY)])"

definition test_state_depth :: "('k, test_hsm) platform \<Rightarrow> (('k, test_hsm) memory, unit) prog" where
  "test_state_depth P =
     (let n = CONFIG_HSM_MAX_NESTED_STATES P in
      thenM (begin_test P test_recursive_state)
     (thenM (expect_received (replicate n (test_recursive_state, HSM_MSG_ID_ENTRY)))
     (thenM forget_received
     (thenM (publish_transition_state P the_test_hsm MSG_ID_TEST_TRANSITION_START_STATE test_start_state)
     (thenM (expect_received ((test_recursive_state, MSG_ID_TEST_TRANSITION_START_STATE) #
        replicate n (test_recursive_state, HSM_MSG_ID_EXIT) @
        [(test_top_state, HSM_MSG_ID_ENTRY), (test_sub_state, HSM_MSG_ID_ENTRY), (test_start_state, HSM_MSG_ID_ENTRY)]))
     (thenM forget_received
     (thenM (publish_msg P the_test_hsm MSG_ID_TEST_GET_CURRENT_STATE)
      (expect_received [(test_start_state, MSG_ID_TEST_GET_CURRENT_STATE)]))))))))"

text \<open>What is expected when the machine goes from the start state to the far state.\<close>

definition to_far_received :: "(hsm_state_fn \<times> uint16) list" where
  "to_far_received = [(test_start_state, HSM_MSG_ID_EXIT), (test_sub_state, HSM_MSG_ID_EXIT),
     (test_parent_0_far_state, HSM_MSG_ID_ENTRY), (test_parent_1_far_state, HSM_MSG_ID_ENTRY),
     (test_far_state, HSM_MSG_ID_ENTRY)]"

definition hsm_basic :: "('k, test_hsm) platform \<Rightarrow> (('k, test_hsm) memory, unit) prog list" where
  "hsm_basic P =
    [test_start P,
     rx_case P MSG_ID_TEST_START_RX [(test_start_state, MSG_ID_TEST_START_RX)],
     rx_case P MSG_ID_TEST_SUB_STATE_RX [(test_sub_state, MSG_ID_TEST_SUB_STATE_RX)],
     rx_case P MSG_ID_TEST_TOP_STATE_RX [(test_top_state, MSG_ID_TEST_TOP_STATE_RX)],
     rx_case P MSG_ID_TEST_UNCONSUMED [],
     transition_case P test_start_state MSG_ID_TEST_TRANSITION_START_STATE test_start_state
       [(test_start_state, MSG_ID_TEST_TRANSITION_START_STATE)],
     transition_case P test_start_state MSG_ID_TEST_TRANSITION_START_STATE test_start_child_state
       [(test_start_state, MSG_ID_TEST_TRANSITION_START_STATE), (test_start_child_state, HSM_MSG_ID_ENTRY)],
     transition_case P test_start_state MSG_ID_TEST_TRANSITION_START_STATE test_start_child_of_child_state
       [(test_start_state, MSG_ID_TEST_TRANSITION_START_STATE), (test_start_child_state, HSM_MSG_ID_ENTRY),
        (test_start_child_of_child_state, HSM_MSG_ID_ENTRY)],
     transition_case P test_start_state MSG_ID_TEST_TRANSITION_START_STATE test_start_sibling_state
       [(test_start_state, MSG_ID_TEST_TRANSITION_START_STATE), (test_start_state, HSM_MSG_ID_EXIT),
        (test_start_sibling_state, HSM_MSG_ID_ENTRY)],
     transition_case P test_start_state MSG_ID_TEST_TRANSITION_START_STATE test_far_state
       ((test_start_state, MSG_ID_TEST_TRANSITION_START_STATE) # to_far_received),
     transition_case P test_start_state MSG_ID_TEST_TRANSITION_START_STATE test_diff_child_state
       [(test_start_state, MSG_ID_TEST_TRANSITION_START_STATE), (test_start_state, HSM_MSG_ID_EXIT),
        (test_sub_state, HSM_MSG_ID_EXIT), (test_top_state, HSM_MSG_ID_EXIT),
        (test_diff_top_state, HSM_MSG_ID_ENTRY), (test_diff_child_state, HSM_MSG_ID_ENTRY)],
     transition_case P test_start_state MSG_ID_TEST_TRANSITION_SUB_STATE test_far_state
       ((test_sub_state, MSG_ID_TEST_TRANSITION_SUB_STATE) # to_far_received),
     transition_case P test_start_state MSG_ID_TEST_TRANSITION_TOP_STATE test_far_state
       ((test_top_state, MSG_ID_TEST_TRANSITION_TOP_STATE) # to_far_received),
     test_state_depth P]"

section \<open>Its evaluation\<close>

text \<open>The platform has the allocator of the suite in its linker section. Its slab, number 9, has 32 blocks of 16
  bytes; the test machine is on the stack and has not been initialised.\<close>

definition test_platform :: "(kobj, test_hsm) platform" where
  "test_platform = hsm_platform\<lparr>link_section := [test_allocator], CONFIG_PUB_SUB_RUNTIME_ALLOCATORS_MAX_NUM := 0\<rparr>"

definition test_memory :: "(kobj, test_hsm) memory" where
  "test_memory = (ref_memory (fresh_test_hsm (\<lambda>_. NULL)))\<lparr>
     messages := (\<lambda>b. if 100 \<le> b \<and> b < 612 \<and> b mod 16 = 4 then Some \<lparr>fifo_reserved = False, atomic_data = 0\<rparr> else None),
     mem_slabs := [9 \<mapsto> kobj0\<lparr>k_items := map (\<lambda>i. 100 + 16 * i) [0..<32], k_cap := 16\<rparr>],
     allocator_objs := [test_allocator \<mapsto> PUB_SUB_MEM_SLAB_ALLOCATOR_DEFINE_STATIC 9],
     bitarrays := [test_sub_bitarray \<mapsto> [7]],
     subscribers := [the_test_hsm \<mapsto> \<lparr>broker = NULL, handler_data = \<lparr>msg_handler = User_handler 0, user_data = NULL\<rparr>,
       rx_queue = Rx_fifo kobj0, subs_bitarray = NULL, rx_type = PUB_SUB_RX_TYPE_FIFO, max_pub_msg_id = 0, priority = 0\<rparr>],
     hsms := [the_test_hsm \<mapsto> \<lparr>current_state = NULL, tmp_state = NULL\<rparr>]\<rparr>"

text \<open>A test passes when none of its assertions fails, and afterwards no message has leaked, which \<open>after_test\<close> checks.\<close>

definition passes :: "((kobj, test_hsm) memory, unit) prog \<Rightarrow> bool" where
  "passes t = (case t test_memory of
     Inl e \<Rightarrow> False
   | Inr (_, s) \<Rightarrow> (case mem_slabs s 9 of None \<Rightarrow> False | Some k \<Rightarrow> length (k_items k) = 32))"

lemma start_passes: "passes (test_start test_platform)"
  by code_simp

lemma rx_passes:
  "passes (rx_case test_platform 2 [(test_start_state, 2)])"
  "passes (rx_case test_platform 3 [(test_sub_state, 3)])"
  "passes (rx_case test_platform 4 [(test_top_state, 4)])"
  "passes (rx_case test_platform 5 [])"
  by code_simp+

lemma inner_passes:
  "passes (transition_case test_platform test_start_state 6 test_start_state [(test_start_state, 6)])"
  "passes (transition_case test_platform test_start_state 6 test_start_child_state
     [(test_start_state, 6), (test_start_child_state, HSM_MSG_ID_ENTRY)])"
  "passes (transition_case test_platform test_start_state 6 test_start_child_of_child_state
     [(test_start_state, 6), (test_start_child_state, HSM_MSG_ID_ENTRY), (test_start_child_of_child_state, HSM_MSG_ID_ENTRY)])"
  "passes (transition_case test_platform test_start_state 6 test_start_sibling_state
     [(test_start_state, 6), (test_start_state, HSM_MSG_ID_EXIT), (test_start_sibling_state, HSM_MSG_ID_ENTRY)])"
  by code_simp+

lemma diff_passes:
  "passes (transition_case test_platform test_start_state 6 test_diff_child_state
     [(test_start_state, 6), (test_start_state, HSM_MSG_ID_EXIT), (test_sub_state, HSM_MSG_ID_EXIT), (test_top_state, HSM_MSG_ID_EXIT),
      (test_diff_top_state, HSM_MSG_ID_ENTRY), (test_diff_child_state, HSM_MSG_ID_ENTRY)])"
  by code_simp

lemma far_passes:
  "passes (transition_case test_platform test_start_state 6 test_far_state ((test_start_state, 6) # to_far_received))"
  "passes (transition_case test_platform test_start_state 7 test_far_state ((test_sub_state, 7) # to_far_received))"
  "passes (transition_case test_platform test_start_state 8 test_far_state ((test_top_state, 8) # to_far_received))"
  by code_simp+

lemma depth_passes: "passes (test_state_depth test_platform)"
  by code_simp

text \<open>The test suite of the state machine framework passes on the model of the library: with the test's state
  machine on the reference platform, every one of its test cases runs to its end without a fault or a
  failing assertion, with a slab allocator, a callback subscriber, the state machine
  framework and the releasing of messages working together, and leaves no block of the slab in use.\<close>

lemma hsm_basic_passes:
  "list_all (\<lambda>t. \<exists>s k. t test_memory = Inr ((), s) \<and> mem_slabs s 9 = Some k \<and> length (k_items k) = 32) (hsm_basic test_platform)"
proof -
  have "list_all passes (hsm_basic test_platform)"
    by (simp add: hsm_basic_def start_passes rx_passes inner_passes diff_passes far_passes depth_passes)
  then show ?thesis
    by (rule list.pred_mono_strong) (auto simp: passes_def split: sum.splits option.splits)
qed

end
