(* ===== verification/Delayable.thy ===== *)
theory Delayable imports Delivery begin

text \<open>
  Delayable messages, \<open>include/pub_sub/delayable_msg.h\<close> and \<open>lib/pub_sub/delayable_msg.c\<close>:
  static messages with a kernel time-out in front of their header, which publish themselves to
  one subscriber when the time-out expires. After the operations come what each of them does,
  and the life of a delayable message as a step relation with its invariant.
\<close>

section \<open>The operations\<close>

text \<open>\<open>CONTAINER_OF(ps_msg, struct pub_sub_msg_delayable, pub_sub_msg)\<close>: the struct has the number
  of its message.\<close>

definition read_delayable :: "ptr \<Rightarrow> (('k, 'u) memory, 'k pub_sub_msg_delayable) prog" where
  "read_delayable msg = fetchM Bad_pointer (\<lambda>s. delayable_msgs s msg)"

definition upd_delayable ::
  "ptr \<Rightarrow> ('k pub_sub_msg_delayable \<Rightarrow> 'k pub_sub_msg_delayable) \<Rightarrow> ('k, 'u) memory \<Rightarrow> ('k, 'u) memory" where
  "upd_delayable msg f s = s\<lparr>delayable_msgs := (delayable_msgs s)(msg := map_option f (delayable_msgs s msg))\<rparr>"

text \<open>The static initialiser; the zeroed list node of its time-out is what \<open>sys_dnode_init\<close>
  makes.\<close>

definition PUB_SUB_STATIC_DELAYABLE_MSG_DEFINE ::
  "('k, 'u) platform \<Rightarrow> ptr \<Rightarrow> uint16 \<Rightarrow> ptr \<Rightarrow> ('k, 'u) memory \<Rightarrow> ('k, 'u) memory" where
  "PUB_SUB_STATIC_DELAYABLE_MSG_DEFINE P var_name msg_id sub s =
     s\<lparr>delayable_msgs := (delayable_msgs s)(var_name \<mapsto> \<lparr>timeout = sys_dnode_init P, subscriber = sub\<rparr>),
       messages := (messages s)(var_name \<mapsto> \<lparr>fifo_reserved = False,
         atomic_data = PUB_SUB_MSG_ATOMIC_DATA_INIT P msg_id PUB_SUB_ALLOC_ID_STATIC_MSG\<rparr>)\<rparr>"

definition z_init_timeout :: "('k, 'u) platform \<Rightarrow> ptr \<Rightarrow> (('k, 'u) memory, unit) prog" where
  "z_init_timeout P msg =
     thenM (read_delayable msg) (modifyM (upd_delayable msg (\<lambda>d. d\<lparr>timeout := sys_dnode_init P\<rparr>)))"

definition pub_sub_delayable_msg_init ::
  "('k, 'u) platform \<Rightarrow> ptr \<Rightarrow> ptr \<Rightarrow> uint16 \<Rightarrow> (('k, 'u) memory, unit) prog" where
  "pub_sub_delayable_msg_init P msg sub msg_id =
     thenM (z_assert P (msg \<noteq> NULL))
    (thenM (z_init_timeout P msg)
    (thenM (modifyM (upd_delayable msg (\<lambda>d. d\<lparr>subscriber := sub\<rparr>)))
     (pub_sub_msg_init P msg msg_id PUB_SUB_ALLOC_ID_STATIC_MSG)))"

text \<open>The function given to \<open>z_add_timeout\<close> is \<open>pub_sub_delayable_msg_handler\<close>, always.\<close>

definition pub_sub_delayable_msg_start ::
  "('k, 'u) platform \<Rightarrow> ptr \<Rightarrow> k_timeout \<Rightarrow> (('k, 'u) memory, unit) prog" where
  "pub_sub_delayable_msg_start P msg delay =
     thenM (z_assert P (msg \<noteq> NULL))
    (bindM (read_delayable msg) (\<lambda>d.
     modifyM (upd_delayable msg (\<lambda>d. d\<lparr>timeout := z_add_timeout P (timeout d) delay\<rparr>))))"

definition pub_sub_delayable_msg_abort :: "('k, 'u) platform \<Rightarrow> ptr \<Rightarrow> (('k, 'u) memory, int) prog" where
  "pub_sub_delayable_msg_abort P msg =
     thenM (z_assert P (msg \<noteq> NULL))
    (bindM (read_delayable msg) (\<lambda>d.
     let r = fst (z_abort_timeout P (timeout d)) in
     thenM (modifyM (upd_delayable msg (\<lambda>d. d\<lparr>timeout := snd (z_abort_timeout P (timeout d))\<rparr>)))
    (if r \<noteq> 0 then
       bindM (pub_sub_msg_get_ref_cnt P msg) (\<lambda>n. ret (if n = 0 then 0 else r))
     else ret r)))"

definition pub_sub_delayable_msg_update_timeout ::
  "('k, 'u) platform \<Rightarrow> ptr \<Rightarrow> k_timeout \<Rightarrow> (('k, 'u) memory, int) prog" where
  "pub_sub_delayable_msg_update_timeout P msg delay =
     thenM (z_assert P (msg \<noteq> NULL))
    (bindM (pub_sub_delayable_msg_abort P msg) (\<lambda>r.
     thenM (pub_sub_delayable_msg_start P msg delay)
     (ret r)))"

definition pub_sub_delayable_msg_handler :: "('k, 'u) platform \<Rightarrow> ptr \<Rightarrow> (('k, 'u) memory, unit) prog" where
  "pub_sub_delayable_msg_handler P msg =
     bindM (read_delayable msg) (\<lambda>d.
     thenM (z_assertM P (bindM (pub_sub_msg_get_ref_cnt P msg) (\<lambda>n. ret (n = 0))))
    (thenM (pub_sub_acquire_msg P msg)
     (pub_sub_publish_to_subscriber P (subscriber d) msg)))"

section \<open>What the operations do\<close>

lemma upd_delayable_sel [simp]:
  "delayable_msgs (upd_delayable m f s) = (delayable_msgs s)(m := map_option f (delayable_msgs s m))"
  by (simp add: upd_delayable_def)

lemma upd_delayable_frame [simp]:
  "messages (upd_delayable m f s) = messages s"
  "subscribers (upd_delayable m f s) = subscribers s"
  "msgqs (upd_delayable m f s) = msgqs s"
  "brokers (upd_delayable m f s) = brokers s"
  "g_runtime_allocators (upd_delayable m f s) = g_runtime_allocators s"
  "app (upd_delayable m f s) = app s"
  by (simp_all add: upd_delayable_def)

lemma upd_delayable_views [simp]:
  "ref_cnt (upd_delayable m f s) = ref_cnt s" "msg_ident (upd_delayable m f s) = msg_ident s"
  "fifo_of P (upd_delayable m f s) = fifo_of P s" "is_fifo_sub (upd_delayable m f s) = is_fifo_sub s"
  "valid_msg (upd_delayable m f s) = valid_msg s" "unowned P (upd_delayable m f s) = unowned P s"
  by (auto simp: ref_cnt_def msg_ident_def fifo_of_def is_fifo_sub_def valid_msg_def unowned_def
      allocator_at_def fun_eq_iff split: option.split)

lemma read_delayable_run [msg_run]:
  "delayable_msgs s m = Some d \<Longrightarrow> read_delayable m s = Inr (d, s)"
  by (simp add: read_delayable_def)

lemma delayable_init_run:
  assumes "header_laws P" and "delayable_msgs s m = Some d" and "valid_msg s m"
  shows "\<exists>s1. pub_sub_delayable_msg_init P m x i s = Inr ((), s1) \<and>
    delayable_msgs s1 = (delayable_msgs s)(m \<mapsto> \<lparr>timeout = sys_dnode_init P, subscriber = x\<rparr>) \<and>
    ref_cnt s1 = (ref_cnt s)(m := 0) \<and>
    msg_ident s1 = (msg_ident s)(m \<mapsto> (i, PUB_SUB_ALLOC_ID_STATIC_MSG))"
proof -
  obtain h where h: "messages s m = Some h" "m \<noteq> NULL" using assms(3) by (rule valid_msgE)
  have d: "d\<lparr>timeout := t, subscriber := y\<rparr> = \<lparr>timeout = t, subscriber = y\<rparr>" for t y by (cases d) simp
  let ?s = "upd_delayable m (\<lambda>d. d\<lparr>subscriber := x\<rparr>) (upd_delayable m (\<lambda>d. d\<lparr>timeout := sys_dnode_init P\<rparr>) s)"
  have h': "messages ?s m = Some h" using h by simp
  show ?thesis
    using assms(2) h d init_run [OF h' h(2)] valid_set_atomic_data [OF h'] header_init_fields [OF assms(1)]
    by (auto simp: pub_sub_delayable_msg_init_def z_init_timeout_def msg_run)
qed

lemma delayable_start_run:
  assumes "delayable_msgs s m = Some d" and "m \<noteq> NULL"
  shows "pub_sub_delayable_msg_start P m t s =
    Inr ((), upd_delayable m (\<lambda>d. d\<lparr>timeout := z_add_timeout P (timeout d) t\<rparr>) s)"
  using assms by (simp add: pub_sub_delayable_msg_start_def msg_run)

lemma delayable_abort_run:
  assumes "header_laws P" and "timeout_laws P" and "delayable_msgs s m = Some d" and "valid_msg s m"
  shows "pub_sub_delayable_msg_abort P m s =
    Inr (if timeout_active P (timeout d) \<or> ref_cnt s m = 0 then 0 else - EINVAL,
      upd_delayable m (\<lambda>d. d\<lparr>timeout := snd (z_abort_timeout P (timeout d))\<rparr>) s)"
proof -
  obtain h where h: "messages s m = Some h" "m \<noteq> NULL" using assms(4) by (rule valid_msgE)
  let ?s = "upd_delayable m (\<lambda>d. d\<lparr>timeout := snd (z_abort_timeout P (timeout d))\<rparr>) s"
  have g: "pub_sub_msg_get_ref_cnt P m ?s = Inr (ref_of (atomic_data h), ?s)"
    using get_ref_cnt_run [OF assms(1) _ h(2)] h(1) by simp
  have z: "fst (z_abort_timeout P (timeout d)) = (if timeout_active P (timeout d) then 0 else - EINVAL)"
    using assms(2) by (simp add: timeout_laws_def)
  have r: "ref_cnt s m = unat (ref_of (atomic_data h))" using h(1) by (simp add: ref_cnt_def)
  show ?thesis
    using assms(3) h g z by (simp add: pub_sub_delayable_msg_abort_def msg_run Let_def r unsigned_eq_0_iff)
qed

lemma delayable_update_run:
  assumes "header_laws P" and "timeout_laws P" and "delayable_msgs s m = Some d" and "valid_msg s m"
  shows "pub_sub_delayable_msg_update_timeout P m t s =
    Inr (if timeout_active P (timeout d) \<or> ref_cnt s m = 0 then 0 else - EINVAL,
      upd_delayable m (\<lambda>d. d\<lparr>timeout := z_add_timeout P (timeout d) t\<rparr>)
        (upd_delayable m (\<lambda>d. d\<lparr>timeout := snd (z_abort_timeout P (timeout d))\<rparr>) s))"
proof -
  have m: "m \<noteq> NULL" using assms(4) by (simp add: valid_msg_def)
  let ?s = "upd_delayable m (\<lambda>d. d\<lparr>timeout := snd (z_abort_timeout P (timeout d))\<rparr>) s"
  have "delayable_msgs ?s m = Some (d\<lparr>timeout := snd (z_abort_timeout P (timeout d))\<rparr>)" using assms(3) by simp
  then show ?thesis
    using m delayable_abort_run [OF assms] delayable_start_run [OF _ m, of ?s]
    by (simp add: pub_sub_delayable_msg_update_timeout_def)
qed

text \<open>The handler of an expired time-out, for a message that nothing refers to, hands it over to the
  FIFO of its subscriber; for a message that is still in that FIFO it does not return.\<close>

lemma delayable_msgs_hand_over [simp]: "delayable_msgs (hand_over P x m s) = delayable_msgs s"
  by (simp add: hand_over_def del: fifo_at.simps set_fifo.simps split: option.split sum.split)

lemma delayable_handler_run:
  assumes "header_laws P" and "delayable_msgs s m = Some d" and "is_fifo_sub s (subscriber d)"
    and "subscriber d \<noteq> NULL" and "subscribers s (subscriber d) = Some su"
    and "msg_ident s m = Some (i, aid)" and "max_pub_msg_id su < i" and "m \<noteq> NULL"
  shows "ref_cnt s m = 0 \<Longrightarrow> map_option fifo_reserved (messages s m) = Some False \<Longrightarrow>
      pub_sub_delayable_msg_handler P m s = Inr ((), hand_over P (subscriber d) m s)"
    and "0 < ref_cnt s m \<Longrightarrow> map_option fifo_reserved (messages s m) = Some True \<Longrightarrow>
      \<exists>e. pub_sub_delayable_msg_handler P m s = Inl e"
proof -
  let ?x = "subscriber d"
  obtain h where h: "messages s m = Some h" using assms(6) by (auto simp: msg_ident_def)
  have ih: "id_of (atomic_data h) = i" using assms(6) h by (simp add: msg_ident_def)
  obtain q where q: "rx_type su = PUB_SUB_RX_TYPE_FIFO" "fifo_at (Sub_fifo ?x) s = Inr q"
    using assms(3,5) by (auto simp: is_fifo_sub_def)
  have g: "pub_sub_msg_get_ref_cnt P m s = Inr (ref_of (atomic_data h), s)"
    using get_ref_cnt_run [OF assms(1) h assms(8)] .
  have r: "ref_cnt s m = unat (ref_of (atomic_data h))" using h by (simp add: ref_cnt_def)
  let ?s = "set_atomic_data m (atomic_data h + 1) s"
  have h': "messages ?s m = Some (h\<lparr>atomic_data := atomic_data h + 1\<rparr>)" using h by simp
  have q': "fifo_at (Sub_fifo ?x) ?s = Inr q" using q(2) by simp
  have p: "pub_sub_publish_to_subscriber P ?x m ?s = pub_sub_msg_fifo_put P (Sub_fifo ?x) m ?s"
    if "ref_of (atomic_data h) \<noteq> UINT8_MAX"
  proof -
    have "pub_sub_msg_get_msg_id P m ?s = Inr (i, ?s)"
      using get_msg_id_run [OF assms(1) h' assms(8)] ih fields_inc [OF that] by simp
    then show ?thesis using assms(4,5,7) q(1)
      by (simp add: pub_sub_publish_to_subscriber_def sub_run z_assertM_def)
  qed
  show "pub_sub_delayable_msg_handler P m s = Inr ((), hand_over P ?x m s)"
    if z: "ref_cnt s m = 0" and f: "map_option fifo_reserved (messages s m) = Some False"
  proof -
    have z0: "ref_of (atomic_data h) = 0" using z r by (simp add: unsigned_eq_0_iff)
    have nm: "ref_of (atomic_data h) \<noteq> UINT8_MAX" by (simp add: z0)
    have fr: "msg_free s m" using z f h assms(8) by (auto simp: msg_free_def)
    have a: "pub_sub_acquire_msg P m s = Inr ((), ?s)"
      using acquire_run [OF assms(1) h assms(8)] nm by simp
    have "thenM (pub_sub_acquire_msg P m) (pub_sub_msg_fifo_put P (Sub_fifo ?x) m) s = Inr ((), hand_over P ?x m s)"
      by (rule hand_over_run [OF assms(1) fr assms(3)])
    then show ?thesis
      using assms(2) g z0 a p [OF nm] by (simp add: pub_sub_delayable_msg_handler_def msg_run z_assertM_def)
  qed
  show "\<exists>e. pub_sub_delayable_msg_handler P m s = Inl e"
    if z: "0 < ref_cnt s m" and f: "map_option fifo_reserved (messages s m) = Some True"
  proof (cases "CONFIG_ASSERT P")
    case True
    have "ref_of (atomic_data h) \<noteq> 0" using z r by auto
    with True show ?thesis
      using assms(2) g by (simp add: pub_sub_delayable_msg_handler_def msg_run z_assertM_def unsigned_eq_0_iff)
  next
    case False
    have a: "pub_sub_acquire_msg P m s = Inr ((), ?s)"
      using acquire_run [OF assms(1) h assms(8)] False by simp
    have "pub_sub_msg_fifo_put P (Sub_fifo ?x) m ?s = Inl Fifo_relink"
      using fifo_put_run [OF h' assms(8) q'] f h by simp
    then have "pub_sub_publish_to_subscriber P ?x m ?s = Inl Fifo_relink"
      using assms(4,5) q(1) False by (simp add: pub_sub_publish_to_subscriber_def sub_run z_assertM_def)
    then show ?thesis
      using assms(2) a False by (simp add: pub_sub_delayable_msg_handler_def msg_run z_assertM_def)
  qed
qed

section \<open>The life of a delayable message\<close>

text \<open>A delayable message \<open>m\<close> and its subscriber \<open>x\<close>, a FIFO subscriber with a handler of the
  application: the message has a private id, and it is either nowhere, without references, or
  waiting in the FIFO, with one reference.\<close>

definition delay_idle :: "('k, 'u) platform \<Rightarrow> ptr \<Rightarrow> ptr \<Rightarrow> ('k, 'u) memory \<Rightarrow> bool" where
  "delay_idle P m x s \<longleftrightarrow> fifo_of P s x = [] \<and> ref_cnt s m = 0 \<and>
     map_option fifo_reserved (messages s m) = Some False"

definition delay_queued :: "('k, 'u) platform \<Rightarrow> ptr \<Rightarrow> ptr \<Rightarrow> ('k, 'u) memory \<Rightarrow> bool" where
  "delay_queued P m x s \<longleftrightarrow> fifo_of P s x = [m] \<and> ref_cnt s m = 1 \<and>
     map_option fifo_reserved (messages s m) = Some True"

definition delay_world ::
  "('k, 'u) platform \<Rightarrow> ptr \<Rightarrow> ptr \<Rightarrow> uint16 \<Rightarrow> nat \<Rightarrow> ptr \<Rightarrow> ('k, 'u) memory \<Rightarrow> bool" where
  "delay_world P m x i f ud s \<longleftrightarrow> m \<noteq> NULL \<and> x \<noteq> NULL \<and>
     (\<exists>d. delayable_msgs s m = Some d \<and> subscriber d = x) \<and> is_fifo_sub s x \<and>
     (\<exists>su. subscribers s x = Some su \<and> max_pub_msg_id su < i \<and>
        handler_data su = \<lparr>msg_handler = User_handler f, user_data = ud\<rparr>) \<and>
     msg_ident s m = Some (i, PUB_SUB_ALLOC_ID_STATIC_MSG) \<and> unowned P s m \<and>
     num_allocators (g_runtime_allocators s) \<le> length (allocators (g_runtime_allocators s))"

definition delay_life where
  "delay_life P m x i f ud s \<longleftrightarrow>
     delay_world P m x i f ud s \<and> (delay_idle P m x s \<or> delay_queued P m x s)"

text \<open>What can happen to it, in any order: the application starts, updates or aborts it; its
  time-out expires, which the kernel takes off its list before it calls the handler; the
  subscriber's thread looks into its FIFO (and waits for ever only when there is something in
  it). Starting a time-out that is running is not allowed.\<close>

datatype delay_event = Started | Updated int | Aborted int | Expired | Received int

inductive delay_step ::
  "('k, 'u) platform \<Rightarrow> ptr \<Rightarrow> ptr \<Rightarrow> ('k, 'u) memory \<Rightarrow> delay_event \<Rightarrow> ('k, 'u) memory \<Rightarrow> bool"
  for P m x where
  start: "delayable_msgs s m = Some d \<Longrightarrow> \<not> timeout_active P (timeout d) \<Longrightarrow>
    pub_sub_delayable_msg_start P m t s = Inr ((), s') \<Longrightarrow> delay_step P m x s Started s'"
| update: "pub_sub_delayable_msg_update_timeout P m t s = Inr (r, s') \<Longrightarrow> delay_step P m x s (Updated r) s'"
| abort: "pub_sub_delayable_msg_abort P m s = Inr (r, s') \<Longrightarrow> delay_step P m x s (Aborted r) s'"
| expire: "delayable_msgs s m = Some d \<Longrightarrow> timeout_active P (timeout d) \<Longrightarrow> \<not> timeout_active P q \<Longrightarrow>
    pub_sub_delayable_msg_handler P m (upd_delayable m (\<lambda>d. d\<lparr>timeout := q\<rparr>) s) = Inr ((), s') \<Longrightarrow>
    delay_step P m x s Expired s'"
| receive: "(t = K_FOREVER \<longrightarrow> fifo_of P s x \<noteq> []) \<Longrightarrow> pub_sub_handle_queued_msg P x t s = Inr (r, s') \<Longrightarrow>
    delay_step P m x s (Received r) s'"

inductive_cases delay_stepE: "delay_step P m x s e s'"

inductive delay_run ::
  "('k, 'u) platform \<Rightarrow> ptr \<Rightarrow> ptr \<Rightarrow> ('k, 'u) memory \<Rightarrow> delay_event list \<Rightarrow> ('k, 'u) memory \<Rightarrow> bool"
  for P m x s where
  nothing: "delay_run P m x s [] s"
| more: "delay_run P m x s es s1 \<Longrightarrow> delay_step P m x s1 e s2 \<Longrightarrow> delay_run P m x s (es @ [e]) s2"

text \<open>Each kind of step.\<close>

lemma delay_world_upd:
  assumes "\<And>d. subscriber (g d) = subscriber d"
  shows "delay_world P m x i f ud (upd_delayable m g s) = delay_world P m x i f ud s"
    and "delay_idle P m x (upd_delayable m g s) = delay_idle P m x s"
    and "delay_queued P m x (upd_delayable m g s) = delay_queued P m x s"
  using assms by (auto simp: delay_world_def delay_idle_def delay_queued_def)

lemma delay_worldE:
  assumes "delay_world P m x i f ud s"
  obtains d su where "m \<noteq> NULL" "x \<noteq> NULL" "delayable_msgs s m = Some d" "subscriber d = x"
    "is_fifo_sub s x" "subscribers s x = Some su" "max_pub_msg_id su < i"
    "handler_data su = \<lparr>msg_handler = User_handler f, user_data = ud\<rparr>"
    "msg_ident s m = Some (i, PUB_SUB_ALLOC_ID_STATIC_MSG)" "unowned P s m" "valid_msg s m"
    "num_allocators (g_runtime_allocators s) \<le> length (allocators (g_runtime_allocators s))"
  using assms by (auto simp: delay_world_def valid_by_ident)

lemma delay_expire:
  assumes "header_laws P" and "fifo_laws P" and "delay_world P m x i f ud s"
  shows "delay_idle P m x s \<Longrightarrow> \<exists>s1. pub_sub_delayable_msg_handler P m s = Inr ((), s1) \<and>
      delay_world P m x i f ud s1 \<and> delay_queued P m x s1 \<and> app s1 = app s"
    and "delay_queued P m x s \<Longrightarrow> \<exists>e. pub_sub_delayable_msg_handler P m s = Inl e"
proof -
  obtain d su where w: "m \<noteq> NULL" "x \<noteq> NULL" "delayable_msgs s m = Some d" "subscriber d = x"
    "is_fifo_sub s x" "subscribers s x = Some su" "max_pub_msg_id su < i"
    "handler_data su = \<lparr>msg_handler = User_handler f, user_data = ud\<rparr>"
    "msg_ident s m = Some (i, PUB_SUB_ALLOC_ID_STATIC_MSG)" "unowned P s m" "valid_msg s m"
    "num_allocators (g_runtime_allocators s) \<le> length (allocators (g_runtime_allocators s))"
    using assms(3) by (rule delay_worldE)
  note hr = delayable_handler_run [OF assms(1) w(3), unfolded w(4), OF w(5,2,6,9,7,1)]
  show "\<exists>s1. pub_sub_delayable_msg_handler P m s = Inr ((), s1) \<and>
      delay_world P m x i f ud s1 \<and> delay_queued P m x s1 \<and> app s1 = app s" if c: "delay_idle P m x s"
  proof -
    let ?s = "hand_over P x m s"
    have fr: "msg_free s m" using c w(1) by (auto simp: delay_idle_def msg_free_def)
    note ef = hand_over_effect [OF assms(2) fr w(5)]
    have u: "unowned P ?s = unowned P s" by (rule unowned_cong) (simp_all add: ef)
    obtain q where "rx_queue su = Rx_fifo q" "fifo_at (Sub_fifo x) s = Inr q"
      using w(5,6) by (auto simp: is_fifo_sub_def)
    then have "\<exists>q'. subscribers ?s x = Some (su\<lparr>rx_queue := Rx_fifo q'\<rparr>)"
      using fr w(6) by (auto simp: hand_over_def msg_free_def)
    then have "delay_world P m x i f ud ?s"
      using w u ef by (auto simp: delay_world_def)
    moreover have "delay_queued P m x ?s" using ef c by (simp add: delay_queued_def delay_idle_def)
    ultimately show ?thesis using hr(1) c by (auto simp: delay_idle_def)
  qed
  show "\<exists>e. pub_sub_delayable_msg_handler P m s = Inl e" if c: "delay_queued P m x s"
    using hr(2) c by (simp add: delay_queued_def)
qed

lemma delay_receive:
  assumes "header_laws P" and "fifo_laws P" and "quiet_handlers P log" and "delay_world P m x i f ud s"
  shows "delay_queued P m x s \<Longrightarrow> \<exists>s1. pub_sub_handle_queued_msg P x t s = Inr (0, s1) \<and>
      delay_world P m x i f ud s1 \<and> delay_idle P m x s1 \<and> log (app s1) = log (app s) @ [(f, i, m, ud)]"
    and "delay_idle P m x s \<Longrightarrow> t \<noteq> K_FOREVER \<Longrightarrow>
      \<exists>s1. pub_sub_handle_queued_msg P x t s = Inr (- ENOMSG, s1) \<and>
      delay_world P m x i f ud s1 \<and> delay_idle P m x s1 \<and> app s1 = app s"
proof -
  obtain d su where w: "m \<noteq> NULL" "x \<noteq> NULL" "delayable_msgs s m = Some d" "subscriber d = x"
    "is_fifo_sub s x" "subscribers s x = Some su" "max_pub_msg_id su < i"
    "handler_data su = \<lparr>msg_handler = User_handler f, user_data = ud\<rparr>"
    "msg_ident s m = Some (i, PUB_SUB_ALLOC_ID_STATIC_MSG)" "unowned P s m" "valid_msg s m"
    "num_allocators (g_runtime_allocators s) \<le> length (allocators (g_runtime_allocators s))"
    using assms(4) by (rule delay_worldE)
  show "\<exists>s1. pub_sub_handle_queued_msg P x t s = Inr (0, s1) \<and>
      delay_world P m x i f ud s1 \<and> delay_idle P m x s1 \<and> log (app s1) = log (app s) @ [(f, i, m, ud)]"
    if c: "delay_queued P m x s"
  proof -
    have q: "fifo_of P s x = m # []" "0 < ref_cnt s m" "ref_cnt s m = 1" using c by (simp_all add: delay_queued_def)
    obtain s1 q' where s1: "log (app s1) = log (app s) @ [(f, i, m, ud)]" "fifo_of P s1 = (fifo_of P s)(x := [])"
      "ref_cnt s1 = (ref_cnt s)(m := ref_cnt s m - 1)" "msg_ident s1 = msg_ident s"
      "pub_sub_handle_queued_msg P x t s = thenM (free_by_id P m PUB_SUB_ALLOC_ID_STATIC_MSG) (ret 0) s1"
      "link_flag s1 = (link_flag s)(m := Some False)" "delayable_msgs s1 = delayable_msgs s"
      "g_runtime_allocators s1 = g_runtime_allocators s" "is_fifo_sub s1 = is_fifo_sub s"
      "subscribers s1 x = Some (su\<lparr>rx_queue := Rx_fifo q'\<rparr>)"
      using handle_private_run [OF assms(1-3) w(5,2,6,8,7) q(1) w(11,9) q(2) w(12), of t] q(3) by auto
    have u: "unowned P s1 = unowned P s" by (rule unowned_cong [OF s1(4,8)])
    have "free_by_id P m PUB_SUB_ALLOC_ID_STATIC_MSG s1 = Inr ((), s1)"
      using unowned_free [of P s1 m i] u w(10) s1(4) w(9) by simp
    then have "pub_sub_handle_queued_msg P x t s = Inr (0, s1)" using s1(5) by simp
    moreover have "delay_world P m x i f ud s1"
      using w u s1(4,7-10) by (auto simp: delay_world_def)
    moreover have "delay_idle P m x s1" using s1(2,3,6) q(3) by (simp add: delay_idle_def link_flag_def fun_eq_iff)
    ultimately show ?thesis using s1(1) by blast
  qed
  show "\<exists>s1. pub_sub_handle_queued_msg P x t s = Inr (- ENOMSG, s1) \<and>
      delay_world P m x i f ud s1 \<and> delay_idle P m x s1 \<and> app s1 = app s"
    if c: "delay_idle P m x s" and t: "t \<noteq> K_FOREVER"
  proof -
    obtain q where q: "rx_type su = PUB_SUB_RX_TYPE_FIFO" "rx_queue su = Rx_fifo q" "fifo_at (Sub_fifo x) s = Inr q"
      using w(5,6) by (auto simp: is_fifo_sub_def)
    have "fifo_items P q = []" using c q(3) by (simp add: delay_idle_def fifo_of_def)
    then obtain q' where q': "fifo_items P q' = []"
      "pub_sub_msg_fifo_get P (Sub_fifo x) t s = Inr (NULL, set_fifo (Sub_fifo x) q' s)"
      using fifo_get_empty [OF assms(2) q(3) _ t] by blast
    let ?s = "set_fifo (Sub_fifo x) q' s"
    have v: "messages ?s = messages s" "delayable_msgs ?s = delayable_msgs s"
      "g_runtime_allocators ?s = g_runtime_allocators s" "app ?s = app s"
      "subscribers ?s x = Some (su\<lparr>rx_queue := Rx_fifo q'\<rparr>)"
      using w(6) by simp_all
    have r: "ref_cnt ?s = ref_cnt s" "msg_ident ?s = msg_ident s"
      unfolding ref_cnt_def [abs_def] msg_ident_def [abs_def] v(1) by (rule refl)+
    have u: "unowned P ?s = unowned P s" by (rule unowned_cong [OF r(2) v(3)])
    have "is_fifo_sub ?s x" "fifo_of P ?s x = []" using w(6) q(1) q'(1) by (simp_all add: is_fifo_sub_def fifo_of_def)
    then have "delay_world P m x i f ud ?s" "delay_idle P m x ?s"
      using w u v r c by (auto simp: delay_world_def delay_idle_def simp del: set_fifo.simps)
    moreover have "pub_sub_handle_queued_msg P x t s = Inr (- ENOMSG, ?s)"
      using w(2,6) q(1) q'(2) by (simp add: pub_sub_handle_queued_msg_def sub_run del: set_fifo.simps)
    ultimately show ?thesis using v(4) by blast
  qed
qed

lemma delay_step_life:
  assumes "header_laws P" and "fifo_laws P" and "timeout_laws P" and "quiet_handlers P log"
    and "delay_step P m x s e s'" and "delay_world P m x i f ud s"
    and "delay_idle P m x s \<or> delay_queued P m x s"
  shows "delay_world P m x i f ud s' \<and>
    (case e of
       Expired \<Rightarrow> delay_idle P m x s \<and> delay_queued P m x s' \<and> app s' = app s
     | Received r \<Rightarrow> if delay_queued P m x s then r = 0 \<and> delay_idle P m x s' \<and> log (app s') = log (app s) @ [(f, i, m, ud)]
         else r = - ENOMSG \<and> delay_idle P m x s' \<and> app s' = app s
     | _ \<Rightarrow> (delay_idle P m x s' \<longleftrightarrow> delay_idle P m x s) \<and> (delay_queued P m x s' \<longleftrightarrow> delay_queued P m x s) \<and>
         app s' = app s)"
  using assms(5)
proof (cases rule: delay_step.cases)
  case (start d t)
  have m: "m \<noteq> NULL" using assms(6) by (simp add: delay_world_def)
  show ?thesis using start delayable_start_run [OF start(2) m, of P t] assms(6) by (auto simp: delay_world_upd)
next
  case (update t r)
  from assms(6) obtain d where d: "delayable_msgs s m = Some d" "valid_msg s m" by (rule delay_worldE)
  show ?thesis using update delayable_update_run [OF assms(1,3) d, of t] assms(6) by (auto simp: delay_world_upd)
next
  case (abort r)
  from assms(6) obtain d where d: "delayable_msgs s m = Some d" "valid_msg s m" by (rule delay_worldE)
  show ?thesis using abort delayable_abort_run [OF assms(1,3) d] assms(6) by (auto simp: delay_world_upd)
next
  case (expire d q)
  let ?s = "upd_delayable m (\<lambda>d. d\<lparr>timeout := q\<rparr>) s"
  have w: "delay_world P m x i f ud ?s" using assms(6) by (simp add: delay_world_upd)
  note ex = delay_expire [OF assms(1,2) w]
  have "delay_idle P m x s" using assms(7) ex(2) expire(5) by (auto simp: delay_world_upd)
  then show ?thesis using ex(1) expire(1,5) by (auto simp: delay_world_upd)
next
  case (receive t r)
  note rc = delay_receive [OF assms(1,2,4,6), of t]
  show ?thesis
  proof (cases "delay_queued P m x s")
    case True
    then show ?thesis using rc(1) receive by auto
  next
    case False
    then have c: "delay_idle P m x s" using assms(7) by simp
    then have "t \<noteq> K_FOREVER" using receive(2) by (auto simp: delay_idle_def)
    then show ?thesis using rc(2) [OF c] receive False by auto
  qed
qed

lemma idle_not_queued: "delay_idle P m x s \<Longrightarrow> \<not> delay_queued P m x s"
  by (simp add: delay_idle_def delay_queued_def)

lemma delay_run_life:
  assumes "header_laws P" and "fifo_laws P" and "timeout_laws P" and "quiet_handlers P log"
    and "delay_run P m x s0 es s" and "delay_world P m x i f ud s0" and "delay_idle P m x s0"
  shows "delay_life P m x i f ud s \<and>
    (\<exists>n. log (app s) = log (app s0) @ replicate n (f, i, m, ud) \<and> n = count_list es (Received 0) \<and>
      count_list es Expired = n + (if delay_queued P m x s then 1 else 0))"
  using assms(5)
proof (induction rule: delay_run.induct)
  case nothing
  then show ?case using assms(6,7) idle_not_queued by (auto simp: delay_life_def)
next
  case (more es s1 e s2)
  have l: "delay_world P m x i f ud s1" "delay_idle P m x s1 \<or> delay_queued P m x s1"
    using more.IH by (auto simp: delay_life_def)
  note st = delay_step_life [OF assms(1-4) more.hyps(2) l]
  obtain n where n: "log (app s1) = log (app s0) @ replicate n (f, i, m, ud)" "n = count_list es (Received 0)"
    "count_list es Expired = n + (if delay_queued P m x s1 then 1 else 0)"
    using more.IH by auto
  show ?case
  proof (cases e)
    case (Received r)
    then show ?thesis using st n l(2) idle_not_queued [of P m x]
      by (auto simp: delay_life_def replicate_append_same split: if_splits)
  next
    case Expired
    then show ?thesis using st n idle_not_queued [of P m x s1] by (auto simp: delay_life_def)
  qed (use st n l(2) in \<open>auto simp: delay_life_def\<close>)
qed

section \<open>Properties\<close>

text \<open>C18. The life of a delayable message of a FIFO subscriber that gets no other message. In every state that it
  can get into, whatever the order in which it is
  started, updated and aborted, its time-out expires and its subscriber looks into its FIFO: it
  waits in the FIFO at most once, and its reference count is the number of places it waits in;
  every expiry that has been handled has led to one call of the subscriber's handler, and no
  call had another cause. The handler of an expiry returns exactly when the message does not wait in the FIFO: when it
  does, the assertion on its counter fails, or, without assertions, a message that is in the FIFO already would be
  linked again. The theory ThreadTimers has the other kinds of subscriber and other messages.\<close>

theorem delayable_life:
  assumes "header_laws P" and "fifo_laws P" and "timeout_laws P" and "quiet_handlers P log"
    and "delay_run P m x s0 es s" and "delay_world P m x i f ud s0" and "delay_idle P m x s0"
  shows "(fifo_of P s x = [] \<and> ref_cnt s m = 0 \<or> fifo_of P s x = [m] \<and> ref_cnt s m = 1) \<and>
    log (app s) = log (app s0) @ replicate (count_list es (Received 0)) (f, i, m, ud) \<and>
    count_list es Expired = count_list es (Received 0) + ref_cnt s m \<and>
    (\<forall>q. (\<exists>s'. pub_sub_delayable_msg_handler P m (upd_delayable m (\<lambda>d. d\<lparr>timeout := q\<rparr>) s) = Inr ((), s')) \<longleftrightarrow>
      ref_cnt s m = 0)"
proof -
  have l: "delay_life P m x i f ud s" using delay_run_life [OF assms] by blast
  have "(\<exists>s'. pub_sub_delayable_msg_handler P m (upd_delayable m (\<lambda>d. d\<lparr>timeout := q\<rparr>) s) = Inr ((), s')) \<longleftrightarrow>
      ref_cnt s m = 0" for q
  proof -
    let ?s = "upd_delayable m (\<lambda>d. d\<lparr>timeout := q\<rparr>) s"
    have "delay_world P m x i f ud ?s" "delay_idle P m x ?s = delay_idle P m x s" "delay_queued P m x ?s = delay_queued P m x s"
      using l by (simp_all add: delay_life_def delay_world_upd)
    then show ?thesis
      using delay_expire [OF assms(1,2), of m x i f ud ?s] l by (auto simp: delay_life_def delay_idle_def delay_queued_def)
  qed
  then show ?thesis
    using delay_run_life [OF assms]
    by (auto simp: delay_life_def delay_idle_def delay_queued_def split: if_splits)
qed


text \<open>Updating the delay of a delayable message returns what aborting it returns, and leaves the
  time-out running with the new delay, also when it reports \<open>-EINVAL\<close> because the
  message is still waiting to be handled.\<close>

lemma delayable_update:
  assumes "header_laws P" and "timeout_laws P" and "delayable_msgs s m = Some d" and "valid_msg s m"
    and "t \<noteq> K_FOREVER"
  shows "\<exists>r s1 s2 d2. pub_sub_delayable_msg_abort P m s = Inr (r, s1) \<and>
    pub_sub_delayable_msg_update_timeout P m t s = Inr (r, s2) \<and>
    delayable_msgs s2 = (delayable_msgs s)(m \<mapsto> d2) \<and> timeout_active P (timeout d2) \<and>
    subscriber d2 = subscriber d \<and> messages s2 = messages s"
  using delayable_abort_run [OF assms(1-4)] delayable_update_run [OF assms(1-4), of t] assms(2,3,5)
  by (auto simp: timeout_laws_def)

text \<open>C36. An initialised delayable message is a static message with the given id, without
  references, with a time-out that is not running, bound to its subscriber; the static
  initialiser makes the same message.\<close>

theorem delayable_init:
  assumes "header_laws P" and "timeout_laws P" and "delayable_msgs s m = Some d" and "valid_msg s m"
  shows "\<exists>s1. pub_sub_delayable_msg_init P m x i s = Inr ((), s1) \<and>
    (let s2 = PUB_SUB_STATIC_DELAYABLE_MSG_DEFINE P m i x s in
       delayable_msgs s1 = delayable_msgs s2 \<and> ref_cnt s1 = ref_cnt s2 \<and> msg_ident s1 = msg_ident s2) \<and>
    (\<exists>d1. delayable_msgs s1 m = Some d1 \<and> \<not> timeout_active P (timeout d1) \<and> subscriber d1 = x) \<and>
    ref_cnt s1 m = 0 \<and> msg_ident s1 m = Some (i, PUB_SUB_ALLOC_ID_STATIC_MSG)"
proof -
  obtain s1 where s1: "pub_sub_delayable_msg_init P m x i s = Inr ((), s1)"
    "delayable_msgs s1 = (delayable_msgs s)(m \<mapsto> \<lparr>timeout = sys_dnode_init P, subscriber = x\<rparr>)"
    "ref_cnt s1 = (ref_cnt s)(m := 0)" "msg_ident s1 = (msg_ident s)(m \<mapsto> (i, PUB_SUB_ALLOC_ID_STATIC_MSG))"
    using delayable_init_run [OF assms(1,3,4)] by blast
  let ?s2 = "PUB_SUB_STATIC_DELAYABLE_MSG_DEFINE P m i x s"
  have "ref_cnt ?s2 = (ref_cnt s)(m := 0)" "msg_ident ?s2 = (msg_ident s)(m \<mapsto> (i, PUB_SUB_ALLOC_ID_STATIC_MSG))"
    using header_init_fields [OF assms(1), of i PUB_SUB_ALLOC_ID_STATIC_MSG]
    by (auto simp: PUB_SUB_STATIC_DELAYABLE_MSG_DEFINE_def ref_cnt_def msg_ident_def fun_eq_iff)
  moreover have "delayable_msgs ?s2 = delayable_msgs s1" by (simp add: PUB_SUB_STATIC_DELAYABLE_MSG_DEFINE_def s1(2))
  ultimately show ?thesis
    using s1 assms(2) by (intro exI [of _ s1]) (simp add: Let_def timeout_laws_def)
qed

section \<open>Examples\<close>

text \<open>The static message 2 with the private id 10 and its subscriber 4.\<close>

definition one_delayable :: "uint32 \<Rightarrow> (kobj, (nat \<times> uint16 \<times> ptr \<times> ptr) list) memory" where
  "one_delayable w = (a_world False w [4 \<mapsto> a_subscriber PUB_SUB_RX_TYPE_FIFO (Rx_fifo kobj0) 5 0 0] [4])
     \<lparr>delayable_msgs := [2 \<mapsto> \<lparr>timeout = kobj0, subscriber = 4\<rparr>]\<rparr>"

lemma one_delayable_sel [simp]:
  "delayable_msgs (one_delayable w) = [2 \<mapsto> \<lparr>timeout = kobj0, subscriber = 4\<rparr>]"
  "messages (one_delayable w) = [2 \<mapsto> \<lparr>fifo_reserved = False, atomic_data = w\<rparr>]"
  "subscribers (one_delayable w) = [4 \<mapsto> a_subscriber PUB_SUB_RX_TYPE_FIFO (Rx_fifo kobj0) 5 0 0]"
  "g_runtime_allocators (one_delayable w) = \<lparr>allocators = [], num_allocators = 0, mutex = kobj0\<rparr>"
  "app (one_delayable w) = []"
  by (simp_all add: one_delayable_def)

lemma one_delayable_ok:
  "delay_world noting_platform 2 4 10 0 NULL (one_delayable 0x000AFE00)"
  "delay_idle noting_platform 2 4 (one_delayable 0x000AFE00)" "valid_msg (one_delayable w) 2"
proof -
  have w: "id_of 0x000AFE00 = 10" "alloc_of 0x000AFE00 = PUB_SUB_ALLOC_ID_STATIC_MSG" "ref_of 0x000AFE00 = 0"
    by (simp_all add: word_unat_eq_iff unat_id_of unat_alloc_of unat_ref_of alloc_id_defs)
  then have m: "msg_ident (one_delayable 0x000AFE00) 2 = Some (10, PUB_SUB_ALLOC_ID_STATIC_MSG)"
    by (simp add: msg_ident_def)
  have u: "unowned noting_platform (one_delayable 0x000AFE00) 2"
    by (simp add: unowned_def m allocator_at_def alloc_id_defs noting_platform_def)
  show "delay_world noting_platform 2 4 10 0 NULL (one_delayable 0x000AFE00)"
    by (simp add: delay_world_def m u is_fifo_sub_def a_subscriber_def)
  show "delay_idle noting_platform 2 4 (one_delayable 0x000AFE00)"
    by (simp add: delay_idle_def fifo_of_def a_subscriber_def kobj0_def ref_cnt_def w)
  show "valid_msg (one_delayable w) 2" by (simp add: valid_msg_def)
qed

lemma noting_timeout_laws: "timeout_laws noting_platform"
  by (simp add: noting_platform_def ref_laws)

text \<open>The message is started, its time-out expires, and the subscriber handles it.\<close>

theorem delayable_life_witness:
  "\<exists>s. delay_run noting_platform 2 4 (one_delayable 0x000AFE00) [Started, Expired, Received 0] s \<and>
     app s = [(0, 10, 2, NULL)] \<and> ref_cnt s 2 = 0"
proof -
  let ?P = "noting_platform" and ?s0 = "one_delayable 0x000AFE00"
  note w0 = one_delayable_ok(1) and l = noting_laws(1,2) noting_timeout_laws noting_laws(6)
  let ?q = "z_add_timeout ?P kobj0 K_NO_WAIT"
  let ?s1 = "upd_delayable 2 (\<lambda>d. d\<lparr>timeout := z_add_timeout ?P (timeout d) K_NO_WAIT\<rparr>) ?s0"
  have na: "\<not> timeout_active ?P kobj0" by (simp add: noting_platform_def kobj0_def)
  have st: "delay_step ?P 2 4 ?s0 Started ?s1"
    by (rule delay_step.start [of _ _ "\<lparr>timeout = kobj0, subscriber = 4\<rparr>" _ K_NO_WAIT])
      (simp_all add: na delayable_start_run)
  have ac: "timeout_active ?P ?q" using noting_timeout_laws na by (simp add: timeout_laws_def)
  let ?s1' = "upd_delayable 2 (\<lambda>d. d\<lparr>timeout := kobj0\<rparr>) ?s1"
  have w1: "delay_world ?P 2 4 10 0 NULL ?s1'" "delay_idle ?P 2 4 ?s1'"
    using w0 one_delayable_ok(2) by (simp_all add: delay_world_upd)
  obtain s2 where s2: "pub_sub_delayable_msg_handler ?P 2 ?s1' = Inr ((), s2)"
    "delay_world ?P 2 4 10 0 NULL s2" "delay_queued ?P 2 4 s2"
    using delay_expire(1) [OF l(1,2) w1] by blast
  have ex: "delay_step ?P 2 4 ?s1 Expired s2"
    by (rule delay_step.expire [of _ _ "\<lparr>timeout = ?q, subscriber = 4\<rparr>" _ kobj0]) (simp_all add: na ac s2(1))
  obtain s3 where s3: "pub_sub_handle_queued_msg ?P 4 K_NO_WAIT s2 = Inr (0, s3)"
    using delay_receive(1) [OF l(1,2,4) s2(2,3), of K_NO_WAIT] by blast
  have rc: "delay_step ?P 2 4 s2 (Received 0) s3"
    by (rule delay_step.receive [of K_NO_WAIT]) (simp_all add: s3)
  have run: "delay_run ?P 2 4 ?s0 ([] @ [Started] @ [Expired] @ [Received 0]) s3"
    using delay_run.more [OF delay_run.more [OF delay_run.more [OF delay_run.nothing st] ex] rc] by simp
  show ?thesis
    using delayable_life [OF l run w0 one_delayable_ok(2)] run by auto
qed


theorem delayable_init_witness:
  "\<exists>s1. pub_sub_delayable_msg_init noting_platform 2 4 10 (one_delayable 0x000AFE05) = Inr ((), s1) \<and>
     ref_cnt s1 2 = 0 \<and> msg_ident s1 2 = Some (10, PUB_SUB_ALLOC_ID_STATIC_MSG)"
proof -
  have d: "delayable_msgs (one_delayable 0x000AFE05) 2 = Some \<lparr>timeout = kobj0, subscriber = 4\<rparr>" by simp
  show ?thesis
    using delayable_init [OF noting_laws(1) noting_timeout_laws d one_delayable_ok(3), of 4 10] by blast
qed

end
