(* ===== verification/PubSubSpec.thy ===== *)
theory PubSubSpec imports Broker begin

text \<open>
  What the library promises its clients, without memory: an abstract publish and subscribe system.
  It has no reference counters, slabs, link words, locks or control blocks, only who subscribes to
  what, which messages wait where, how many references the application has of each message and
  the calls of handlers made so far. Each operation of the library is an \<open>event\<close>; \<open>enabled\<close> says
  when it may happen, and \<open>effect\<close> what it does. Theory Refinement shows that the code implements it.
\<close>

section \<open>States and events\<close>

record world =
  members :: "ptr list"
  kind :: "ptr \<Rightarrow> sort_key"
  callee :: "ptr \<Rightarrow> nat \<times> ptr"
  limit :: "ptr \<Rightarrow> uint16"
  wants :: "ptr \<Rightarrow> uint16 set"
  ident :: "ptr \<Rightarrow> uint16"
  pending :: "ptr list"
  box :: "ptr \<Rightarrow> ptr list"
  owned :: "ptr \<Rightarrow> nat"
  history :: "(nat \<times> uint16 \<times> ptr \<times> ptr) list"

text \<open>The messages are those of a set; \<open>home\<close> gives the pool a message is allocated from, and
  none for a static message.\<close>

datatype event =
    Allocate ptr ptr uint16
  | Exhausted ptr
  | Acquire ptr
  | Release ptr
  | Publish ptr
  | Send ptr ptr
  | Subscribe ptr uint16
  | Unsubscribe ptr uint16
  | Join ptr
  | Leave ptr
  | Distribute
  | Work
  | Handle ptr

abbreviation rx_kind :: "world \<Rightarrow> ptr \<Rightarrow> pub_sub_rx_type" where
  "rx_kind w x \<equiv> fst (kind w x)"

section \<open>Delivery\<close>

definition call :: "world \<Rightarrow> ptr \<Rightarrow> ptr \<Rightarrow> nat \<times> uint16 \<times> ptr \<times> ptr" where
  "call w x m = (fst (callee w x), ident w m, m, snd (callee w x))"

text \<open>The subscribers of a type that want a message, in the order of the list.\<close>

definition takers :: "world \<Rightarrow> pub_sub_rx_type \<Rightarrow> ptr list \<Rightarrow> ptr \<Rightarrow> ptr list" where
  "takers w k xs m = filter (\<lambda>x. ident w m \<in> wants w x \<and> rx_kind w x = k) xs"

definition first_taker :: "world \<Rightarrow> ptr list \<Rightarrow> ptr \<Rightarrow> ptr option" where
  "first_taker w xs m = (case takers w PUB_SUB_RX_TYPE_FIFO xs m of [] \<Rightarrow> None | y # _ \<Rightarrow> Some y)"

lemma first_taker_in:
  assumes "first_taker w xs m = Some y"
  shows "y \<in> set xs \<and> ident w m \<in> wants w y \<and> rx_kind w y = PUB_SUB_RX_TYPE_FIFO"
proof -
  have "y \<in> set (takers w PUB_SUB_RX_TYPE_FIFO xs m)" using assms by (auto simp: first_taker_def split: list.splits)
  then show ?thesis by (simp add: takers_def)
qed

text \<open>Who gets a message into the queue when it is distributed: all message queue subscribers that
  want it, and of the FIFO subscribers the first one.\<close>

definition gets :: "world \<Rightarrow> ptr \<Rightarrow> ptr \<Rightarrow> bool" where
  "gets w m x \<longleftrightarrow> x \<in> set (takers w PUB_SUB_RX_TYPE_MSGQ (members w) m) \<or> first_taker w (members w) m = Some x"

definition deliver :: "ptr \<Rightarrow> world \<Rightarrow> world" where
  "deliver m w = w\<lparr>
     history := history w @ map (\<lambda>x. call w x m) (takers w PUB_SUB_RX_TYPE_CALLBACK (members w) m),
     box := (\<lambda>x. box w x @ (if gets w m x then [m] else []))\<rparr>"

text \<open>A FIFO subscriber passes a public message that it has handled to the next one in the list that
  wants it.\<close>

definition successor :: "world \<Rightarrow> ptr \<Rightarrow> ptr \<Rightarrow> ptr option" where
  "successor w x m =
     (if rx_kind w x = PUB_SUB_RX_TYPE_FIFO \<and> ident w m \<le> limit w x
      then first_taker w (tl (dropWhile (\<lambda>y. y \<noteq> x) (members w))) m else None)"

definition handle :: "ptr \<Rightarrow> world \<Rightarrow> world" where
  "handle x w = (case box w x of [] \<Rightarrow> w
     | m # ms \<Rightarrow> w\<lparr>history := history w @ [call w x m],
         box := (case successor w x m of None \<Rightarrow> (box w)(x := ms) | Some y \<Rightarrow> (box w)(x := ms, y := box w y @ [m]))\<rparr>)"

section \<open>The transitions\<close>

fun effect :: "event \<Rightarrow> world \<Rightarrow> world" where
  "effect (Allocate q m i) w = w\<lparr>ident := (ident w)(m := i), owned := (owned w)(m := 1)\<rparr>"
| "effect (Exhausted q) w = w"
| "effect (Acquire m) w = w\<lparr>owned := (owned w)(m := owned w m + 1)\<rparr>"
| "effect (Release m) w = w\<lparr>owned := (owned w)(m := owned w m - 1)\<rparr>"
| "effect (Publish m) w = w\<lparr>pending := pending w @ [m], owned := (owned w)(m := owned w m - 1)\<rparr>"
| "effect (Send x m) w =
     (if rx_kind w x = PUB_SUB_RX_TYPE_CALLBACK then w\<lparr>history := history w @ [call w x m]\<rparr>
      else w\<lparr>box := (box w)(x := box w x @ [m])\<rparr>)\<lparr>owned := (owned w)(m := owned w m - 1)\<rparr>"
| "effect (Subscribe x i) w = w\<lparr>wants := (wants w)(x := insert i (wants w x))\<rparr>"
| "effect (Unsubscribe x i) w = w\<lparr>wants := (wants w)(x := wants w x - {i})\<rparr>"
| "effect (Join x) w = w\<lparr>members := insert_subscriber (kind w) x (members w)\<rparr>"
| "effect (Leave x) w = w\<lparr>members := remove1 x (members w)\<rparr>"
| "effect Distribute w = (case pending w of [] \<Rightarrow> w | m # ms \<Rightarrow> deliver m (w\<lparr>pending := ms\<rparr>))"
| "effect Work w = fold deliver (pending w) (w\<lparr>pending := []\<rparr>)"
| "effect (Handle x) w = handle x w"

text \<open>A message is live while the application has a reference or it waits anywhere; it is linked while
  it waits for distribution or in a FIFO.\<close>

definition live :: "world \<Rightarrow> ptr \<Rightarrow> bool" where
  "live w m \<longleftrightarrow> 0 < owned w m \<or> m \<in> set (pending w) \<or> (\<exists>x \<in> set (members w). m \<in> set (box w x))"

definition linked_in :: "world \<Rightarrow> ptr \<Rightarrow> bool" where
  "linked_in w m \<longleftrightarrow> m \<in> set (pending w) \<or>
     (\<exists>x \<in> set (members w). rx_kind w x = PUB_SUB_RX_TYPE_FIFO \<and> m \<in> set (box w x))"

text \<open>An allocation hands out a message of the pool that nobody has, and fails when and only when
  there is none.\<close>

fun enabled :: "ptr set \<Rightarrow> (ptr \<rightharpoonup> ptr) \<Rightarrow> event \<Rightarrow> world \<Rightarrow> bool" where
  "enabled Ms home (Allocate q m i) w \<longleftrightarrow> m \<in> Ms \<and> home m = Some q \<and> \<not> live w m"
| "enabled Ms home (Exhausted q) w \<longleftrightarrow> (\<forall>m \<in> Ms. home m = Some q \<longrightarrow> live w m)"
| "enabled Ms home (Acquire m) w \<longleftrightarrow> m \<in> Ms \<and> (home m = None \<or> 0 < owned w m)"
| "enabled Ms home (Release m) w \<longleftrightarrow> m \<in> Ms \<and> 0 < owned w m"
| "enabled Ms home (Publish m) w \<longleftrightarrow> m \<in> Ms \<and> 0 < owned w m \<and> \<not> linked_in w m"
| "enabled Ms home (Send x m) w \<longleftrightarrow> x \<in> set (members w) \<and> m \<in> Ms \<and> 0 < owned w m \<and> limit w x < ident w m \<and>
     (rx_kind w x = PUB_SUB_RX_TYPE_FIFO \<longrightarrow> \<not> linked_in w m)"
| "enabled Ms home (Subscribe x i) w \<longleftrightarrow> x \<in> set (members w) \<and> i \<le> limit w x"
| "enabled Ms home (Unsubscribe x i) w \<longleftrightarrow> x \<in> set (members w) \<and> i \<le> limit w x"
| "enabled Ms home (Join x) w \<longleftrightarrow> x \<notin> set (members w) \<and> box w x = []"
| "enabled Ms home (Leave x) w \<longleftrightarrow> x \<in> set (members w) \<and> box w x = []"
| "enabled Ms home Distribute w \<longleftrightarrow> pending w \<noteq> []"
| "enabled Ms home Work w \<longleftrightarrow> True"
| "enabled Ms home (Handle x) w \<longleftrightarrow> x \<in> set (members w)"

text \<open>A run of events, each of which is enabled when it happens.\<close>

fun accepted :: "('e \<Rightarrow> 'w \<Rightarrow> bool) \<Rightarrow> ('e \<Rightarrow> 'w \<Rightarrow> 'w) \<Rightarrow> 'e list \<Rightarrow> 'w \<Rightarrow> bool" where
  "accepted en ef [] w \<longleftrightarrow> True"
| "accepted en ef (e # es) w \<longleftrightarrow> en e w \<and> accepted en ef es (ef e w)"

lemma accepted_append: "accepted en ef (es @ fs) w \<longleftrightarrow> accepted en ef es w \<and> accepted en ef fs (fold ef es w)"
  by (induction es arbitrary: w) auto

section \<open>The whole work item\<close>

lemma deliver_sel [simp]:
  "members (deliver m w) = members w" "kind (deliver m w) = kind w" "callee (deliver m w) = callee w"
  "limit (deliver m w) = limit w" "wants (deliver m w) = wants w" "ident (deliver m w) = ident w"
  "pending (deliver m w) = pending w" "owned (deliver m w) = owned w"
  by (simp_all add: deliver_def)

lemma delivery_cong:
  assumes "members w' = members w" and "kind w' = kind w" and "callee w' = callee w" and "wants w' = wants w"
    and "ident w' = ident w"
  shows "call w' = call w" and "takers w' = takers w" and "first_taker w' = first_taker w" and "gets w' = gets w"
  using assms by (simp_all add: call_def takers_def first_taker_def gets_def fun_eq_iff)

lemma deliver_all:
  "fold deliver ms w = w\<lparr>
     history := history w @ concat (map (\<lambda>m. map (\<lambda>x. call w x m) (takers w PUB_SUB_RX_TYPE_CALLBACK (members w) m)) ms),
     box := (\<lambda>x. box w x @ filter (\<lambda>m. gets w m x) ms)\<rparr>"
proof (induction ms arbitrary: w)
  case (Cons m ms)
  have c: "call (deliver m w) = call w" "takers (deliver m w) = takers w" "gets (deliver m w) = gets w"
    by (rule delivery_cong; simp)+
  have "fold deliver (m # ms) w = fold deliver ms (deliver m w)" by simp
  then show ?case by (simp add: Cons.IH c) (simp add: deliver_def fun_eq_iff)
qed simp

text \<open>Running the work item is distributing the pending messages one by one.\<close>

lemma work_is_distribute: "effect Work w = (effect Distribute ^^ length (pending w)) w"
proof -
  have "fold deliver ms (w\<lparr>pending := []\<rparr>) = (effect Distribute ^^ length ms) (w\<lparr>pending := ms\<rparr>)" for ms
  proof (induction ms arbitrary: w)
    case (Cons m ms)
    have d: "deliver m (w\<lparr>pending := ps\<rparr>) = (deliver m w)\<lparr>pending := ps\<rparr>" for ps
      using delivery_cong [of "w\<lparr>pending := ps\<rparr>" w] by (simp add: deliver_def)
    have "(effect Distribute ^^ length (m # ms)) (w\<lparr>pending := m # ms\<rparr>) =
        (effect Distribute ^^ length ms) (effect Distribute (w\<lparr>pending := m # ms\<rparr>))"
      by (simp only: list.size funpow_Suc_right comp_def add_0_right add_Suc_right)
    moreover have "effect Distribute (w\<lparr>pending := m # ms\<rparr>) = (deliver m w)\<lparr>pending := ms\<rparr>"
      using d [of ms] by simp
    ultimately show ?case using Cons.IH [of "deliver m w"] d [of "[]"] by (simp del: funpow.simps effect.simps)
  qed simp
  from this [of "pending w"] show ?thesis unfolding effect.simps(12) by simp
qed

end
