(* ===== verification/PubSubDelivery.thy ===== *)
theory PubSubDelivery imports PubSubSpec "HOL-Library.Multiset" begin

text \<open>
  What the abstract system of theory PubSubSpec guarantees in all of its runs, whatever other
  subscribers do: callback and message queue subscribers receive the messages they want in the order of
  their publication, and a FIFO subscriber receives each of them exactly once.
\<close>

section \<open>Well-formed states\<close>

text \<open>No subscriber is twice in the list or wants a message with a private id, and callback subscribers
  have nothing in a queue. Every enabled event keeps this.\<close>

definition wf_world :: "world \<Rightarrow> bool" where
  "wf_world w \<longleftrightarrow> distinct (members w) \<and> (\<forall>x. \<forall>i \<in> wants w x. i \<le> limit w x) \<and>
     (\<forall>x \<in> set (members w). rx_kind w x = PUB_SUB_RX_TYPE_CALLBACK \<longrightarrow> box w x = [])"

lemma takers_in: "x \<in> set (takers w k xs m) \<longleftrightarrow> x \<in> set xs \<and> ident w m \<in> wants w x \<and> rx_kind w x = k"
  by (auto simp: takers_def)

lemma gets_kind: "gets w m x \<Longrightarrow> rx_kind w x \<noteq> PUB_SUB_RX_TYPE_CALLBACK"
  using first_taker_in [of w "members w" m x] by (auto simp: gets_def takers_in)

lemma successor_kind: "successor w x m = Some y \<Longrightarrow> rx_kind w y = PUB_SUB_RX_TYPE_FIFO"
  by (auto simp: successor_def dest!: first_taker_in split: if_splits)

lemma deliver_wf: "wf_world w \<Longrightarrow> wf_world (deliver m w)"
  using gets_kind [of w m] by (auto simp: wf_world_def) (auto simp: deliver_def)

lemma wf_pending: "wf_world (w\<lparr>pending := ms\<rparr>) = wf_world w"
  by (simp add: wf_world_def)

lemma distribute_wf: "wf_world w \<Longrightarrow> wf_world (effect Distribute w)"
  using deliver_wf wf_pending by (auto split: list.split)

lemma handle_wf: "wf_world w \<Longrightarrow> wf_world (handle x w)"
  by (auto simp: wf_world_def handle_def dest: successor_kind split: list.split option.split)

lemma effect_wf:
  assumes "enabled Ms home e w" and "wf_world w"
  shows "wf_world (effect e w)"
proof (cases e)
  case Work
  have "wf_world ((effect Distribute ^^ n) w)" for n
    by (induction n) (use assms(2) distribute_wf in \<open>simp_all del: effect.simps\<close>)
  then show ?thesis using Work work_is_distribute [of w] by simp
qed (use assms distribute_wf [of w] handle_wf [of w] in
    \<open>auto simp: wf_world_def distinct_insert_subscriber split: if_splits dest: notin_set_remove1\<close>)

section \<open>Messages are received in the order of publication\<close>

text \<open>The public messages that subscriber \<open>x\<close> has been called with, with their ids; those that wait for it;
  and those published in a run that it wants.\<close>

definition seen :: "world \<Rightarrow> ptr \<Rightarrow> (uint16 \<times> ptr) list" where
  "seen w x = map (\<lambda>(f, i, m, d). (i, m)) (filter (\<lambda>(f, i, m, d). (f, d) = callee w x \<and> i \<le> limit w x) (history w))"

definition coming :: "world \<Rightarrow> ptr \<Rightarrow> (uint16 \<times> ptr) list" where
  "coming w x = map (\<lambda>m. (ident w m, m)) (filter (\<lambda>m. ident w m \<le> limit w x) (box w x) @
     filter (\<lambda>m. ident w m \<in> wants w x) (pending w))"

fun publication :: "ptr \<Rightarrow> event \<Rightarrow> world \<Rightarrow> (uint16 \<times> ptr) list" where
  "publication x (Publish m) w = (if ident w m \<in> wants w x then [(ident w m, m)] else [])"
| "publication x e w = []"

fun publications :: "ptr \<Rightarrow> event list \<Rightarrow> world \<Rightarrow> (uint16 \<times> ptr) list" where
  "publications x [] w = []"
| "publications x (e # es) w = publication x e w @ publications x es (effect e w)"

text \<open>The events that change what \<open>x\<close> subscribes to.\<close>

fun about :: "ptr \<Rightarrow> event \<Rightarrow> bool" where
  "about x (Subscribe y i) \<longleftrightarrow> y = x"
| "about x (Unsubscribe y i) \<longleftrightarrow> y = x"
| "about x (Leave y) \<longleftrightarrow> y = x"
| "about x e \<longleftrightarrow> False"

definition own_callee :: "world \<Rightarrow> ptr \<Rightarrow> bool" where
  "own_callee w x \<longleftrightarrow> x \<in> set (members w) \<and> (\<forall>y. y \<noteq> x \<longrightarrow> callee w y \<noteq> callee w x)"

definition sole :: "world \<Rightarrow> ptr \<Rightarrow> bool" where
  "sole w x \<longleftrightarrow> own_callee w x \<and> rx_kind w x \<noteq> PUB_SUB_RX_TYPE_FIFO"

lemma effect_frame:
  "kind (effect e w) = kind w" "callee (effect e w) = callee w" "limit (effect e w) = limit w"
  "\<not> about x e \<Longrightarrow> x \<in> set (members w) \<Longrightarrow> x \<in> set (members (effect e w))"
  by (cases e; simp add: deliver_all handle_def split: list.split)+

lemma fold_frame: "kind (fold effect es w) = kind w" "callee (fold effect es w) = callee w"
  by (induction es arbitrary: w) (simp_all add: effect_frame del: effect.simps)

lemma effect_sole: "sole w x \<Longrightarrow> \<not> about x e \<Longrightarrow> sole (effect e w) x"
  by (simp add: sole_def own_callee_def effect_frame del: effect.simps)

lemma seen_call:
  assumes "callee w' = callee w" and "limit w' = limit w" and "history w' = history w @ [call w y m]" and "own_callee w x"
  shows "seen w' x = seen w x @ (if y = x \<and> ident w m \<le> limit w x then [(ident w m, m)] else [])"
  using assms by (auto simp: seen_def call_def own_callee_def prod_eq_iff)

lemma seen_calls:
  assumes "own_callee w x" and "distinct ys"
  shows "map (\<lambda>(f, i, m, d). (i, m)) (filter (\<lambda>(f, i, m, d). (f, d) = callee w x \<and> i \<le> limit w x) (map (\<lambda>y. call w y m) ys)) =
    (if x \<in> set ys \<and> ident w m \<le> limit w x then [(ident w m, m)] else [])"
  using assms(2)
proof (induction ys)
  case (Cons y ys)
  have "(fst (callee w y), snd (callee w y)) = callee w x \<longleftrightarrow> y = x" using assms(1) by (auto simp: own_callee_def)
  then show ?case using Cons by (auto simp: call_def)
qed simp

lemma deliver_received:
  assumes "wf_world w" and "sole w x" and "pending w = m # ms"
  shows "seen (deliver m (w\<lparr>pending := ms\<rparr>)) x @ coming (deliver m (w\<lparr>pending := ms\<rparr>)) x = seen w x @ coming w x"
proof -
  let ?v = "deliver m (w\<lparr>pending := ms\<rparr>)" and ?c = "takers w PUB_SUB_RX_TYPE_CALLBACK (members w) m"
  have i: "ident w m \<in> wants w x \<Longrightarrow> ident w m \<le> limit w x" using assms(1) by (simp add: wf_world_def)
  have x: "x \<in> set (members w)" "rx_kind w x \<noteq> PUB_SUB_RX_TYPE_FIFO" and own: "own_callee w x"
    using assms(2) by (simp_all add: sole_def own_callee_def)
  note c = delivery_cong [of "w\<lparr>pending := ms\<rparr>" w, simplified]
  have "distinct ?c" using assms(1) by (simp add: wf_world_def takers_def)
  then have s: "seen ?v x = seen w x @ (if x \<in> set ?c \<and> ident w m \<le> limit w x then [(ident w m, m)] else [])"
    using seen_calls [OF own, of ?c m] by (simp add: seen_def deliver_def c)
  have g: "gets w m x \<longleftrightarrow> ident w m \<in> wants w x \<and> rx_kind w x = PUB_SUB_RX_TYPE_MSGQ"
    using x first_taker_in [of w "members w" m x] by (auto simp: gets_def takers_in)
  have b: "box ?v x = box w x @ (if gets w m x then [m] else [])" by (simp add: deliver_def c)
  show ?thesis
  proof (cases "rx_kind w x")
    case PUB_SUB_RX_TYPE_CALLBACK
    then have "box w x = []" using assms(1) x(1) by (simp add: wf_world_def)
    then show ?thesis using PUB_SUB_RX_TYPE_CALLBACK s b g x i assms(3) by (auto simp: coming_def takers_in)
  next
    case PUB_SUB_RX_TYPE_MSGQ
    then show ?thesis using s b g x i assms(3) by (cases "ident w m \<in> wants w x") (simp_all add: coming_def takers_in)
  next
    case PUB_SUB_RX_TYPE_FIFO
    then show ?thesis using x by simp
  qed
qed

lemma idents_upd:
  assumes "m \<notin> set ms"
  shows "map (\<lambda>k. ((f(m := i)) k, k)) (filter (\<lambda>k. Q ((f(m := i)) k)) ms) =
    map (\<lambda>k. (f k, k)) (filter (\<lambda>k. Q (f k)) ms)"
  using assms by (induction ms) auto

lemma distribute_received:
  assumes "wf_world w" and "sole w x"
  shows "seen (effect Distribute w) x @ coming (effect Distribute w) x = seen w x @ coming w x"
  using deliver_received [OF assms] by (auto split: list.split)

lemma work_received:
  assumes "wf_world w" and "sole w x"
  shows "seen (effect Work w) x @ coming (effect Work w) x = seen w x @ coming w x"
proof -
  have "wf_world ((effect Distribute ^^ n) w) \<and> sole ((effect Distribute ^^ n) w) x \<and>
      seen ((effect Distribute ^^ n) w) x @ coming ((effect Distribute ^^ n) w) x = seen w x @ coming w x" for n
  proof (induction n)
    case (Suc n)
    then show ?case
      using distribute_wf [of "(effect Distribute ^^ n) w"] distribute_received [of "(effect Distribute ^^ n) w" x]
        effect_sole [of "(effect Distribute ^^ n) w" x Distribute]
      by (simp del: effect.simps)
  qed (use assms in simp)
  then show ?thesis unfolding work_is_distribute by blast
qed

lemma handle_received:
  assumes "wf_world w" and "sole w x"
  shows "seen (handle y w) x @ coming (handle y w) x = seen w x @ coming w x"
proof -
  have x: "rx_kind w x \<noteq> PUB_SUB_RX_TYPE_FIFO" "own_callee w x" using assms(2) by (simp_all add: sole_def)
  show ?thesis
  proof (cases "box w y")
    case (Cons m ms)
    have s: "seen (handle y w) x = seen w x @ (if y = x \<and> ident w m \<le> limit w x then [(ident w m, m)] else [])"
      by (rule seen_call [OF _ _ _ x(2)]) (simp_all add: handle_def Cons)
    have "box (handle y w) x = (if y = x then ms else box w x)"
      using x(1) by (auto simp: handle_def Cons dest: successor_kind split: option.split)
    then have "coming (handle y w) x = (if y = x then map (\<lambda>m. (ident w m, m)) (filter (\<lambda>m. ident w m \<le> limit w x) ms @
        filter (\<lambda>m. ident w m \<in> wants w x) (pending w)) else coming w x)"
      by (simp add: coming_def handle_def Cons)
    then show ?thesis using s Cons by (auto simp: coming_def)
  qed (simp add: handle_def)
qed

text \<open>One event: what a callback or message queue subscriber has seen and will see only grows at its
  end, by what is published.\<close>

lemma effect_received:
  assumes "enabled Ms home e w" and "wf_world w" and "sole w x" and "\<not> about x e"
  shows "seen (effect e w) x @ coming (effect e w) x = seen w x @ coming w x @ publication x e w"
proof -
  have x: "x \<in> set (members w)" "own_callee w x" using assms(3) by (simp_all add: sole_def own_callee_def)
  show ?thesis
  proof (cases e)
    case (Allocate q m i)
    have "m \<notin> set (box w x)" "m \<notin> set (pending w)" using assms(1) x by (auto simp: Allocate live_def)
    then have "coming (effect e w) x = coming w x"
      using idents_upd [of m "box w x" "ident w" i "\<lambda>j. j \<le> limit w x"]
        idents_upd [of m "pending w" "ident w" i "\<lambda>j. j \<in> wants w x"]
      by (simp add: Allocate coming_def del: fun_upd_apply)
    then show ?thesis by (simp add: Allocate seen_def)
  next
    case (Send y m)
    show ?thesis
    proof (cases "rx_kind w y = PUB_SUB_RX_TYPE_CALLBACK")
      case True
      then have "seen (effect e w) x = seen w x @ (if y = x \<and> ident w m \<le> limit w x then [(ident w m, m)] else [])"
        by (intro seen_call [OF _ _ _ x(2)]) (simp_all add: Send)
      then show ?thesis using True assms(1) by (auto simp: Send coming_def)
    next
      case False
      then show ?thesis using assms(1) by (auto simp: Send coming_def seen_def)
    qed
  next
    case Distribute
    then show ?thesis using distribute_received [OF assms(2,3)] by (simp del: effect.simps)
  next
    case Work
    then show ?thesis using work_received [OF assms(2,3)] by (simp del: effect.simps)
  next
    case (Handle y)
    then show ?thesis using handle_received [OF assms(2,3)] by simp
  qed (use assms(4) in \<open>auto simp: seen_def coming_def\<close>)
qed

lemma run_received:
  "accepted (enabled Ms home) effect es w \<Longrightarrow> wf_world w \<Longrightarrow> sole w x \<Longrightarrow> \<forall>e \<in> set es. \<not> about x e \<Longrightarrow>
   seen (fold effect es w) x @ coming (fold effect es w) x = seen w x @ coming w x @ publications x es w"
proof (induction es arbitrary: w)
  case (Cons e es)
  then have e: "enabled Ms home e w" "accepted (enabled Ms home) effect es (effect e w)" "\<not> about x e" by simp_all
  note r = effect_received [OF e(1) Cons.prems(2,3) e(3)]
  show ?case
    using Cons.IH [OF e(2) effect_wf [OF e(1) Cons.prems(2)] effect_sole [OF Cons.prems(3) e(3)]] Cons.prems(4) r by simp
qed simp

section \<open>FIFO subscribers receive each message exactly once\<close>

text \<open>A message is on its way to FIFO subscriber \<open>x\<close> while it waits in the FIFO of \<open>x\<close>, or in that of a
  FIFO subscriber earlier in the list that will pass it on; \<open>bound_for\<close> tells which messages in the queue of
  \<open>y\<close> these are.\<close>

definition earlier :: "world \<Rightarrow> ptr \<Rightarrow> ptr \<Rightarrow> bool" where
  "earlier w y x \<longleftrightarrow> rx_kind w y = PUB_SUB_RX_TYPE_FIFO \<and> y \<in> set (takeWhile (\<lambda>z. z \<noteq> x) (members w))"

definition bound_for :: "world \<Rightarrow> ptr \<Rightarrow> ptr \<Rightarrow> ptr \<Rightarrow> bool" where
  "bound_for w x y m \<longleftrightarrow> ident w m \<le> limit w y \<and> (y = x \<or> earlier w y x \<and> ident w m \<in> wants w x)"

definition gathered :: "ptr list \<Rightarrow> (ptr \<Rightarrow> ptr \<Rightarrow> bool) \<Rightarrow> (ptr \<Rightarrow> ptr list) \<Rightarrow> ptr multiset" where
  "gathered xs Q b = (\<Sum>y \<in> set xs. filter_mset (Q y) (mset (b y)))"

definition underway :: "world \<Rightarrow> ptr \<Rightarrow> ptr multiset" where
  "underway w x = gathered (members w) (bound_for w x) (box w) + filter_mset (\<lambda>m. ident w m \<in> wants w x) (mset (pending w))"

definition with_ids :: "world \<Rightarrow> ptr multiset \<Rightarrow> (uint16 \<times> ptr) multiset" where
  "with_ids w M = image_mset (\<lambda>m. (ident w m, m)) M"

definition sole_fifo :: "world \<Rightarrow> ptr \<Rightarrow> bool" where
  "sole_fifo w x \<longleftrightarrow> own_callee w x \<and> rx_kind w x = PUB_SUB_RX_TYPE_FIFO"

lemma with_ids_simps [simp]:
  "with_ids w {#} = {#}" "with_ids w (add_mset m M) = add_mset (ident w m, m) (with_ids w M)"
  "with_ids w (M + N) = with_ids w M + with_ids w N"
  by (simp_all add: with_ids_def)

text \<open>One queue changes.\<close>

lemma gathered_upd:
  assumes "y \<in> set xs"
  shows "gathered xs Q (b(y := ys)) + filter_mset (Q y) (mset (b y)) = gathered xs Q b + filter_mset (Q y) (mset ys)"
proof -
  have "(\<Sum>z \<in> set xs - {y}. filter_mset (Q z) (mset ((b(y := ys)) z))) = (\<Sum>z \<in> set xs - {y}. filter_mset (Q z) (mset (b z)))"
    by (rule sum.cong) auto
  then show ?thesis using assms by (simp add: gathered_def sum.remove [of "set xs" y])
qed

lemma gathered_push:
  assumes "y \<in> set xs"
  shows "gathered xs Q (b(y := b y @ [m])) = gathered xs Q b + (if Q y m then {#m#} else {#})"
  using gathered_upd [OF assms, of Q b "b y @ [m]"] by (cases "Q y m") simp_all

lemma gathered_pop:
  assumes "y \<in> set xs" and "b y = m # ms"
  shows "gathered xs Q b = gathered xs Q (b(y := ms)) + (if Q y m then {#m#} else {#})"
  using gathered_upd [OF assms(1), of Q b ms] assms(2) by (cases "Q y m") simp_all

lemma gathered_cong:
  assumes "\<And>y m. y \<in> set xs \<Longrightarrow> m \<in> set (b y) \<Longrightarrow> Q y m = Q' y m" and "\<And>y. y \<in> set xs \<Longrightarrow> b y = b' y"
  shows "gathered xs Q b = gathered xs Q' b'"
  unfolding gathered_def using assms by (intro sum.cong) (auto intro!: filter_mset_cong)

text \<open>Members with an empty queue do not count.\<close>

lemma gathered_members:
  assumes "\<forall>y. b y \<noteq> [] \<longrightarrow> (y \<in> set xs \<longleftrightarrow> y \<in> set ys)"
  shows "gathered ys Q b = gathered xs Q b"
proof -
  have z: "filter_mset (Q y) (mset (b y)) = {#}" if "(y \<in> set xs) \<noteq> (y \<in> set ys)" for y
    using assms that by (cases "b y = []") auto
  have "gathered ys Q b = (\<Sum>y \<in> set ys \<inter> set xs. filter_mset (Q y) (mset (b y)))"
    unfolding gathered_def using z by (intro sum.mono_neutral_right ballI) blast+
  also have "\<dots> = gathered xs Q b" unfolding gathered_def using z by (intro sum.mono_neutral_left ballI) blast+
  finally show ?thesis .
qed

text \<open>The messages pushed to a family of queues by a distribution.\<close>

lemma gathered_gets:
  assumes "\<And>y. y \<in> set xs \<Longrightarrow> Q y m \<Longrightarrow> g y \<longleftrightarrow> Some y = z" and "set_option z \<subseteq> set xs"
  shows "gathered xs Q (\<lambda>y. b y @ (if g y then [m] else [])) =
    gathered xs Q b + (case z of None \<Rightarrow> {#} | Some y \<Rightarrow> if Q y m then {#m#} else {#})"
proof -
  have "filter_mset (Q y) (mset (b y @ (if g y then [m] else []))) =
      filter_mset (Q y) (mset (case z of None \<Rightarrow> b y | Some k \<Rightarrow> (b(k := b k @ [m])) y))" if "y \<in> set xs" for y
    using assms(1) [OF that] by (cases z) auto
  then have "gathered xs Q (\<lambda>y. b y @ (if g y then [m] else [])) =
      gathered xs Q (\<lambda>y. case z of None \<Rightarrow> b y | Some k \<Rightarrow> (b(k := b k @ [m])) y)"
    unfolding gathered_def by (intro sum.cong) auto
  then show ?thesis using gathered_push [of _ xs Q b m] assms(2) by (cases z) (simp_all add: fun_upd_def)
qed

lemma bound_cong:
  assumes "members w' = members w" and "kind w' = kind w" and "limit w' = limit w" and "ident w' = ident w"
    and "wants w' x = wants w x"
  shows "bound_for w' x = bound_for w x"
  using assms by (simp add: bound_for_def earlier_def fun_eq_iff)

text \<open>The first subscriber that takes a message wanted by \<open>x\<close> is \<open>x\<close> or one before it.\<close>

lemma first_taker_up_to:
  assumes "x \<in> set xs" and "ident w m \<in> wants w x" and "rx_kind w x = PUB_SUB_RX_TYPE_FIFO"
  shows "\<exists>z. first_taker w xs m = Some z \<and> (z = x \<or> z \<in> set (takeWhile (\<lambda>y. y \<noteq> x) xs))"
  using assms(1)
proof (induction xs)
  case (Cons a xs)
  then show ?case using assms(2,3) by (cases "a = x") (auto simp: first_taker_def takers_def)
qed simp

lemma taker_bound:
  assumes "first_taker w xs m = Some z" and "wf_world w" and "z = x \<or> earlier w z x" and "ident w m \<in> wants w x"
  shows "bound_for w x z m"
  using first_taker_in [OF assms(1)] assms(2-4) by (auto simp: bound_for_def wf_world_def)

lemma distribute_once:
  assumes "wf_world w" and "sole_fifo w x" and "pending w = m # ms" and "w' = deliver m (w\<lparr>pending := ms\<rparr>)"
  shows "seen w' x = seen w x" and "with_ids w' (underway w' x) = with_ids w (underway w x)"
proof -
  have x: "x \<in> set (members w)" "rx_kind w x = PUB_SUB_RX_TYPE_FIFO" and own: "own_callee w x"
    using assms(2) by (simp_all add: sole_fifo_def own_callee_def)
  note c = delivery_cong [of "w\<lparr>pending := ms\<rparr>" w, simplified]
  let ?c = "takers w PUB_SUB_RX_TYPE_CALLBACK (members w) m" and ?z = "first_taker w (members w) m"
  have "distinct ?c" using assms(1) by (simp add: wf_world_def takers_def)
  then show "seen w' x = seen w x"
    using seen_calls [OF own, of ?c m] x(2) by (simp add: assms(4) seen_def deliver_def c takers_in)
  have b: "bound_for w' x = bound_for w x" by (rule bound_cong) (simp_all add: assms(4))
  have "rx_kind w y = PUB_SUB_RX_TYPE_FIFO" if "bound_for w x y m" for y
    using that x(2) by (auto simp: bound_for_def earlier_def)
  then have g: "gets w m y \<longleftrightarrow> Some y = ?z" if "bound_for w x y m" for y
    using that by (auto simp: gets_def takers_in)
  have z: "set_option ?z \<subseteq> set (members w)" using first_taker_in [of w "members w" m] by (cases ?z) auto
  have "gathered (members w) (bound_for w x) (box w') = gathered (members w) (bound_for w x) (box w) +
      (case ?z of None \<Rightarrow> {#} | Some y \<Rightarrow> if bound_for w x y m then {#m#} else {#})"
    using gathered_gets [OF g z] by (simp add: assms(4) deliver_def c)
  also have "(case ?z of None \<Rightarrow> {#} | Some y \<Rightarrow> if bound_for w x y m then {#m#} else {#}) =
      (if ident w m \<in> wants w x then {#m#} else {#})"
  proof (cases "ident w m \<in> wants w x")
    case True
    then obtain z where "?z = Some z" "z = x \<or> z \<in> set (takeWhile (\<lambda>y. y \<noteq> x) (members w))"
      using first_taker_up_to [OF x(1) _ x(2)] by blast
    then have "bound_for w x z m"
      using taker_bound [OF _ assms(1), of "members w" m z x] first_taker_in [of w "members w" m z] True
      by (auto simp: earlier_def)
    then show ?thesis using True \<open>?z = Some z\<close> by simp
  next
    case False
    then show ?thesis
      using first_taker_in [of w "members w" m] by (auto simp: bound_for_def split: option.split)
  qed
  finally show "with_ids w' (underway w' x) = with_ids w (underway w x)"
    using assms(3) by (simp add: underway_def b with_ids_def) (simp add: assms(4))
qed

lemma distribute_effect_once:
  assumes "wf_world w" and "sole_fifo w x"
  shows "seen (effect Distribute w) x = seen w x \<and>
    with_ids (effect Distribute w) (underway (effect Distribute w) x) = with_ids w (underway w x)"
  using distribute_once [OF assms _ refl] by (cases "pending w") simp_all

text \<open>A subscriber handles the message at the head of its queue.\<close>

lemma successor_split:
  assumes "distinct (us @ y # vs)" and "members w = us @ y # vs" and "successor w y m = Some z"
  shows "first_taker w vs m = Some z" and "z \<in> set vs" and "rx_kind w y = PUB_SUB_RX_TYPE_FIFO" and "ident w m \<le> limit w y"
proof -
  have "y \<notin> set us" using assms(1) by simp
  then have "tl (dropWhile (\<lambda>k. k \<noteq> y) (us @ y # vs)) = vs" by (induction us) auto
  then show "first_taker w vs m = Some z" "rx_kind w y = PUB_SUB_RX_TYPE_FIFO" "ident w m \<le> limit w y"
    using assms(2,3) by (auto simp: successor_def split: if_splits)
  then show "z \<in> set vs" using first_taker_in by blast
qed

lemma successor_earlier:
  assumes "wf_world w" and "y \<in> set (members w)" and "successor w y m = Some z" and "z = x \<or> earlier w z x"
  shows "earlier w y x" and "y \<noteq> x"
proof -
  obtain us vs where xs: "members w = us @ y # vs" using assms(2) by (auto dest: split_list)
  have d: "distinct (us @ y # vs)" using assms(1) by (simp add: wf_world_def xs)
  note z = successor_split [OF d xs assms(3)]
  have nu: "x \<notin> set (us @ [y])"
  proof
    assume "x \<in> set (us @ [y])"
    then have "takeWhile (\<lambda>k. k \<noteq> x) ((us @ [y]) @ vs) = takeWhile (\<lambda>k. k \<noteq> x) (us @ [y])"
      by (rule takeWhile_append1) simp
    then have "z \<in> set (us @ [y])"
      using assms(4) \<open>x \<in> set (us @ [y])\<close> xs by (auto simp: earlier_def dest: set_takeWhileD)
    then show False using z(2) d by auto
  qed
  then show "y \<noteq> x" by simp
  have "set (us @ [y]) \<subseteq> set (takeWhile (\<lambda>k. k \<noteq> x) ((us @ [y]) @ vs))" using nu by (subst takeWhile_append2) auto
  then show "earlier w y x" using z(3) xs by (simp add: earlier_def)
qed

lemma successor_bound:
  assumes "wf_world w" and "sole_fifo w x" and "y \<in> set (members w)" and "y \<noteq> x"
  shows "bound_for w x y m \<longleftrightarrow> (\<exists>z. successor w y m = Some z \<and> bound_for w x z m)"
proof
  assume b: "bound_for w x y m"
  then have e: "earlier w y x" "ident w m \<in> wants w x" "ident w m \<le> limit w y" using assms(4) by (auto simp: bound_for_def)
  obtain us vs where xs: "members w = us @ y # vs" using assms(3) by (auto dest: split_list)
  have d: "distinct (us @ y # vs)" using assms(1) by (simp add: wf_world_def xs)
  have x: "x \<in> set (members w)" "rx_kind w x = PUB_SUB_RX_TYPE_FIFO"
    using assms(2) by (simp_all add: sole_fifo_def own_callee_def)
  have yu: "y \<notin> set us" using d by simp
  have xu: "x \<notin> set us"
  proof
    assume "x \<in> set us"
    then have "takeWhile (\<lambda>k. k \<noteq> x) (members w) = takeWhile (\<lambda>k. k \<noteq> x) us" unfolding xs by (rule takeWhile_append1) simp
    then show False using e(1) yu by (auto simp: earlier_def dest: set_takeWhileD)
  qed
  then have "x \<in> set vs" using x(1) assms(4) by (auto simp: xs)
  then obtain z where z: "first_taker w vs m = Some z" "z = x \<or> z \<in> set (takeWhile (\<lambda>k. k \<noteq> x) vs)"
    using first_taker_up_to [OF _ e(2) x(2)] by blast
  have "tl (dropWhile (\<lambda>k. k \<noteq> y) (us @ y # vs)) = vs" using yu by (induction us) auto
  then have "successor w y m = Some z" using z(1) e(1,3) xs by (simp add: successor_def earlier_def)
  moreover have "takeWhile (\<lambda>k. k \<noteq> x) (us @ y # vs) = us @ y # takeWhile (\<lambda>k. k \<noteq> x) vs"
    using xu assms(4) by (subst takeWhile_append2) auto
  then have "z = x \<or> earlier w z x" using z first_taker_in [OF z(1)] xs by (auto simp: earlier_def)
  then have "bound_for w x z m" using taker_bound [OF z(1) assms(1)] e(2) by blast
  ultimately show "\<exists>z. successor w y m = Some z \<and> bound_for w x z m" by blast
next
  assume "\<exists>z. successor w y m = Some z \<and> bound_for w x z m"
  then obtain z where z: "successor w y m = Some z" "bound_for w x z m" by blast
  then have e: "z = x \<or> earlier w z x" by (auto simp: bound_for_def)
  obtain us vs where xs: "members w = us @ y # vs" using assms(3) by (auto dest: split_list)
  have d: "distinct (us @ y # vs)" using assms(1) by (simp add: wf_world_def xs)
  note s = successor_split [OF d xs z(1)]
  have "ident w m \<in> wants w x" using e z(2) first_taker_in [OF s(1)] by (auto simp: bound_for_def)
  then show "bound_for w x y m" using successor_earlier [OF assms(1,3) z(1) e] s(4) by (simp add: bound_for_def)
qed

lemma handle_once:
  assumes "wf_world w" and "sole_fifo w x" and "y \<in> set (members w)"
  shows "mset (seen (handle y w) x) + with_ids (handle y w) (underway (handle y w) x) =
    mset (seen w x) + with_ids w (underway w x)"
proof (cases "box w y")
  case (Cons m ms)
  let ?w = "handle y w" and ?Q = "bound_for w x" and ?b = "(box w)(y := ms)" and ?z = "successor w y m"
  have own: "own_callee w x" using assms(2) by (simp add: sole_fifo_def)
  obtain us vs where xs: "members w = us @ y # vs" using assms(3) by (auto dest: split_list)
  have d: "distinct (us @ y # vs)" using assms(1) by (simp add: wf_world_def xs)
  have z: "z \<in> set (members w)" "z \<noteq> y" if "?z = Some z" for z using successor_split(2) [OF d xs that] d xs by auto
  have f: "members ?w = members w" "kind ?w = kind w" "limit ?w = limit w" "ident ?w = ident w" "wants ?w = wants w"
    "pending ?w = pending w"
    by (simp_all add: handle_def Cons)
  then have q: "bound_for ?w x = ?Q" by (intro bound_cong) simp_all
  have s: "seen ?w x = seen w x @ (if y = x \<and> ident w m \<le> limit w x then [(ident w m, m)] else [])"
    by (rule seen_call [OF _ _ _ own]) (simp_all add: handle_def Cons)
  have "gathered (members w) ?Q (box ?w) =
      gathered (members w) ?Q ?b + (case ?z of None \<Rightarrow> {#} | Some z \<Rightarrow> if ?Q z m then {#m#} else {#})"
  proof (cases ?z)
    case (Some k)
    then have "box ?w = ?b(k := ?b k @ [m])" using z(2) by (simp add: handle_def Cons)
    then show ?thesis using gathered_push [OF z(1) [OF Some], of ?Q ?b m] Some by simp
  qed (simp add: handle_def Cons)
  moreover have "(case ?z of None \<Rightarrow> {#} | Some z \<Rightarrow> if ?Q z m then {#m#} else {#}) =
      (if y \<noteq> x \<and> ?Q y m then {#m#} else {#})"
  proof (cases "y = x")
    case True
    have "\<not> ?Q z m" if "?z = Some z" for z
      using successor_earlier(2) [OF assms(1,3) that, of x] True by (auto simp: bound_for_def)
    then show ?thesis using True by (auto split: option.split)
  next
    case False
    then show ?thesis using successor_bound [OF assms False, of m] by (auto split: option.split)
  qed
  moreover have "gathered (members w) ?Q (box w) = gathered (members w) ?Q ?b + (if ?Q y m then {#m#} else {#})"
    using gathered_pop [OF assms(3), of "box w" m ms ?Q] Cons by simp
  moreover have "?Q x m \<longleftrightarrow> ident w m \<le> limit w x" by (simp add: bound_for_def)
  ultimately show ?thesis by (auto simp: underway_def q f s with_ids_def)
qed (simp add: handle_def)

text \<open>Members join and leave.\<close>

lemma earlier_insert:
  "z \<noteq> x \<Longrightarrow> y \<noteq> z \<Longrightarrow> y \<in> set (takeWhile (\<lambda>k. k \<noteq> x) (us @ z # vs)) \<longleftrightarrow> y \<in> set (takeWhile (\<lambda>k. k \<noteq> x) (us @ vs))"
proof (induction us)
  case (Cons a us)
  then show ?case by (cases "a = x") simp_all
qed simp

lemma earlier_remove:
  "z \<noteq> x \<Longrightarrow> y \<noteq> z \<Longrightarrow> y \<in> set (takeWhile (\<lambda>k. k \<noteq> x) (remove1 z xs)) \<longleftrightarrow> y \<in> set (takeWhile (\<lambda>k. k \<noteq> x) xs)"
proof (induction xs)
  case (Cons a xs)
  then show ?case by (cases "a = x"; cases "a = z") simp_all
qed simp

lemma members_once:
  assumes "box w z = []" and "z \<noteq> x" and "w' = w\<lparr>members := ys\<rparr>"
    and "\<forall>y. y \<noteq> z \<longrightarrow> (y \<in> set (members w) \<longleftrightarrow> y \<in> set ys)"
    and "\<And>y. y \<noteq> z \<Longrightarrow> y \<in> set (takeWhile (\<lambda>k. k \<noteq> x) ys) \<longleftrightarrow> y \<in> set (takeWhile (\<lambda>k. k \<noteq> x) (members w))"
  shows "underway w' x = underway w x"
proof -
  have "gathered ys (bound_for w' x) (box w) = gathered ys (bound_for w x) (box w)"
  proof (rule gathered_cong)
    fix y m assume "m \<in> set (box w y)"
    then have "y \<noteq> z" using assms(1) by auto
    then show "bound_for w' x y m = bound_for w x y m" using assms(5) by (simp add: assms(3) bound_for_def earlier_def)
  qed simp
  also have "\<dots> = gathered (members w) (bound_for w x) (box w)"
    by (rule gathered_members) (use assms(1,4) in metis)
  finally show ?thesis by (simp add: underway_def assms(3))
qed

text \<open>One event.\<close>

lemma effect_once:
  assumes "enabled Ms home e w" and "wf_world w" and "sole_fifo w x" and "\<not> about x e"
  shows "mset (seen (effect e w) x) + with_ids (effect e w) (underway (effect e w) x) =
    mset (seen w x) + with_ids w (underway w x) + mset (publication x e w)"
proof (cases e)
  case (Allocate q m i)
  let ?w = "effect e w"
  have nb: "m \<notin> set (box w y)" if "y \<in> set (members w)" for y using assms(1) that by (auto simp: Allocate live_def)
  have np: "m \<notin> set (pending w)" using assms(1) by (simp add: Allocate live_def)
  have "gathered (members w) (bound_for ?w x) (box w) = gathered (members w) (bound_for w x) (box w)"
  proof (rule gathered_cong)
    fix y k assume "y \<in> set (members w)" "k \<in> set (box w y)"
    then have "k \<noteq> m" using nb by auto
    then show "bound_for ?w x y k = bound_for w x y k" by (simp add: Allocate bound_for_def earlier_def)
  qed simp
  moreover have "filter_mset (\<lambda>k. ident ?w k \<in> wants w x) (mset (pending w)) =
      filter_mset (\<lambda>k. ident w k \<in> wants w x) (mset (pending w))"
    by (rule filter_mset_cong) (use np in \<open>auto simp: Allocate\<close>)
  ultimately have u: "underway ?w x = underway w x" by (simp add: underway_def Allocate)
  have "m \<notin># underway w x" using nb np by (auto simp: underway_def gathered_def set_mset_sum)
  then have "with_ids ?w (underway w x) = with_ids w (underway w x)"
    unfolding with_ids_def by (intro image_mset_cong) (auto simp: Allocate)
  then show ?thesis unfolding u by (simp add: Allocate seen_def)
next
  case (Send y m)
  have own: "own_callee w x" using assms(3) by (simp add: sole_fifo_def)
  have l: "limit w y < ident w m" "y \<in> set (members w)" using assms(1) by (simp_all add: Send)
  show ?thesis
  proof (cases "rx_kind w y = PUB_SUB_RX_TYPE_CALLBACK")
    case True
    have "seen (effect e w) x = seen w x @ (if y = x \<and> ident w m \<le> limit w x then [(ident w m, m)] else [])"
      by (rule seen_call [OF _ _ _ own]) (simp_all add: Send True)
    moreover have "bound_for (effect e w) x = bound_for w x" by (rule bound_cong) (simp_all add: Send True)
    ultimately show ?thesis using l by (auto simp: Send True underway_def with_ids_def)
  next
    case False
    have "bound_for (effect e w) x = bound_for w x" by (rule bound_cong) (simp_all add: Send False)
    moreover have "\<not> bound_for w x y m" using l(1) by (auto simp: bound_for_def)
    ultimately show ?thesis
      using gathered_push [OF l(2), of "bound_for w x" "box w" m] by (simp add: Send False underway_def with_ids_def seen_def)
  qed
next
  case (Join z)
  obtain us vs where v: "insert_subscriber (kind w) z (members w) = us @ z # vs" "members w = us @ vs"
    by (rule insert_subscriber_split)
  have "z \<noteq> x" using assms(1,3) by (auto simp: Join sole_fifo_def own_callee_def)
  moreover have "effect e w = w\<lparr>members := us @ z # vs\<rparr>" using v(1) by (simp add: Join)
  ultimately have "underway (effect e w) x = underway w x"
    by (intro members_once [where z = z and ys = "us @ z # vs"]) (use assms(1) in \<open>simp_all add: Join v(2) earlier_insert\<close>)
  then show ?thesis by (simp add: Join seen_def with_ids_def)
next
  case (Leave z)
  have "z \<noteq> x" "distinct (members w)" using assms(2,4) by (auto simp: Leave wf_world_def)
  then have "underway (effect e w) x = underway w x"
    using assms(1) by (intro members_once [where z = z and ys = "remove1 z (members w)"]) (auto simp: Leave earlier_remove)
  then show ?thesis by (simp add: Leave seen_def with_ids_def)
next
  case Distribute
  then show ?thesis using distribute_effect_once [OF assms(2,3)] by (simp del: effect.simps)
next
  case Work
  have "wf_world ((effect Distribute ^^ n) w) \<and> sole_fifo ((effect Distribute ^^ n) w) x \<and>
      seen ((effect Distribute ^^ n) w) x = seen w x \<and>
      with_ids ((effect Distribute ^^ n) w) (underway ((effect Distribute ^^ n) w) x) = with_ids w (underway w x)" for n
  proof (induction n)
    case (Suc n)
    let ?v = "(effect Distribute ^^ n) w"
    have "sole_fifo (effect Distribute ?v) x"
      using Suc effect_frame(1,2) [of Distribute ?v] effect_frame(4) [of x Distribute ?v] by (simp add: sole_fifo_def own_callee_def del: effect.simps)
    then show ?case using Suc distribute_effect_once [of ?v x] distribute_wf [of ?v] by (simp del: effect.simps)
  qed (use assms(2,3) in simp)
  then show ?thesis unfolding Work work_is_distribute by simp
next
  case (Handle y)
  then show ?thesis using handle_once [OF assms(2,3)] assms(1) by simp
next
  case (Subscribe y i)
  have "bound_for (effect e w) x = bound_for w x" by (rule bound_cong) (use assms(4) in \<open>simp_all add: Subscribe\<close>)
  then show ?thesis using assms(4) by (simp add: Subscribe underway_def with_ids_def seen_def)
next
  case (Unsubscribe y i)
  have "bound_for (effect e w) x = bound_for w x" by (rule bound_cong) (use assms(4) in \<open>simp_all add: Unsubscribe\<close>)
  then show ?thesis using assms(4) by (simp add: Unsubscribe underway_def with_ids_def seen_def)
next
  case (Publish m)
  have "bound_for (effect e w) x = bound_for w x" by (rule bound_cong) (simp_all add: Publish)
  then show ?thesis by (simp add: Publish underway_def with_ids_def seen_def)
next
  case (Acquire m)
  have "bound_for (effect e w) x = bound_for w x" by (rule bound_cong) (simp_all add: Acquire)
  then show ?thesis by (simp add: Acquire underway_def with_ids_def seen_def)
next
  case (Release m)
  have "bound_for (effect e w) x = bound_for w x" by (rule bound_cong) (simp_all add: Release)
  then show ?thesis by (simp add: Release underway_def with_ids_def seen_def)
qed simp

lemma run_once:
  "accepted (enabled Ms home) effect es w \<Longrightarrow> wf_world w \<Longrightarrow> sole_fifo w x \<Longrightarrow> \<forall>e \<in> set es. \<not> about x e \<Longrightarrow>
   mset (seen (fold effect es w) x) + with_ids (fold effect es w) (underway (fold effect es w) x) =
     mset (seen w x) + with_ids w (underway w x) + mset (publications x es w)"
proof (induction es arbitrary: w)
  case (Cons e es)
  then have e: "enabled Ms home e w" "accepted (enabled Ms home) effect es (effect e w)" "\<not> about x e" by simp_all
  note r = effect_once [OF e(1) Cons.prems(2,3) e(3)]
  have "sole_fifo (effect e w) x"
    using Cons.prems(3) e(3) by (simp add: sole_fifo_def own_callee_def effect_frame del: effect.simps)
  then show ?case using Cons.IH [OF e(2) effect_wf [OF e(1) Cons.prems(2)]] Cons.prems(4) r by (simp add: add.assoc)
qed simp

end
