(* ===== verification/Runs.thy ===== *)
theory Runs imports Steps PubSubSpec begin

text \<open>
  Runs of the whole system: the operations of theory Steps as a step relation, in which the
  application, the broker's work item and the subscribers take turns in any order. The invariant
  holds in every run, and the library comes to rest when the application stops.
  \<open>sys_step\<close> has all operations; \<open>lib_step\<close> those by which messages leave
  the library: a round of the work item, and a subscriber that handles a queued message.
\<close>

section \<open>Steps and runs\<close>

text \<open>A step by which messages leave the library: a round of the work item, when no queue it may
  have to fill is full; a subscriber that handles the message at the head of its queue. The bounds
  on the reference counts keep the eight bits of the counter from overflowing.\<close>

inductive lib_event ::
  "('k, 'u) platform \<Rightarrow> ptr \<Rightarrow> ptr list \<Rightarrow> event \<Rightarrow> ('k, 'u) memory \<Rightarrow> ('k, 'u) memory \<Rightarrow> bool"
  for P b xs where
  distribute: "published P s b = m # ms \<Longrightarrow> \<forall>x \<in> set xs. has_room P s x \<Longrightarrow> ref_cnt s m + length xs < 255 \<Longrightarrow>
    distribute_one P b s = Inr ((), s') \<Longrightarrow> lib_event P b xs Distribute s s'"
| handle_fifo: "x \<in> set xs \<Longrightarrow> type_of s x = PUB_SUB_RX_TYPE_FIFO \<Longrightarrow> fifo_of P s x = m # ms \<Longrightarrow> ref_cnt s m < 255 \<Longrightarrow>
    pub_sub_handle_queued_msg P x t s = Inr (r, s') \<Longrightarrow> lib_event P b xs (Handle x) s s'"
| handle_msgq: "x \<in> set xs \<Longrightarrow> type_of s x = PUB_SUB_RX_TYPE_MSGQ \<Longrightarrow> msgq_of P s x \<noteq> [] \<Longrightarrow>
    pub_sub_handle_queued_msg P x t s = Inr (r, s') \<Longrightarrow> lib_event P b xs (Handle x) s s'"

definition lib_step :: "('k, 'u) platform \<Rightarrow> ptr \<Rightarrow> ptr list \<Rightarrow> ('k, 'u) memory \<Rightarrow> ('k, 'u) memory \<Rightarrow> bool" where
  "lib_step P b xs s s' \<longleftrightarrow> (\<exists>e. lib_event P b xs e s s')"

lemma lib_stepI: "lib_event P b xs e s s' \<Longrightarrow> lib_step P b xs s s'"
  by (auto simp: lib_step_def)

text \<open>All steps. A configuration has the subscribers of the broker, in the order of its list, the
  number of references that the application owns of each message, and the memory. The application
  adds subscribers in the order of their types, and removes those whose queues are empty; it allocates messages from slabs, acquires more references to static messages and to
  messages it has, uses only references it owns, puts no message into a FIFO that is linked in one
  already, and publishes only messages with private ids to a subscriber.\<close>

type_synonym ('k, 'u) config = "ptr list \<times> (ptr \<Rightarrow> nat) \<times> ('k, 'u) memory"

inductive sys_event ::
  "('k, 'u) platform \<Rightarrow> ptr \<Rightarrow> ptr set \<Rightarrow> (ptr \<rightharpoonup> ptr) \<Rightarrow> ('k, 'u) config \<Rightarrow> event \<Rightarrow> ('k, 'u) config \<Rightarrow> bool"
  for P b Ms home where
  new: "q \<in> ran home \<Longrightarrow> slab_allocator P s alloc q n \<Longrightarrow> assigned_id P s alloc aid \<Longrightarrow>
    slab_pool P s q \<noteq> {} \<or> t \<noteq> K_FOREVER \<Longrightarrow> pub_sub_new_msg P alloc i n t s = Inr (m, s') \<Longrightarrow>
    sys_event P b Ms home (xs, own, s) (if m = NULL then Exhausted q else Allocate q m i) (xs, if m = NULL then own else own(m := own m + 1), s')"
| acquire: "m \<in> Ms \<Longrightarrow> home m = None \<or> 0 < own m \<Longrightarrow> ref_cnt s m < 255 \<Longrightarrow> pub_sub_acquire_msg P m s = Inr ((), s') \<Longrightarrow>
    sys_event P b Ms home (xs, own, s) (Acquire m) (xs, own(m := own m + 1), s')"
| release: "m \<in> Ms \<Longrightarrow> 0 < own m \<Longrightarrow> pub_sub_release_msg P m s = Inr ((), s') \<Longrightarrow>
    sys_event P b Ms home (xs, own, s) (Release m) (xs, own(m := own m - 1), s')"
| publish: "m \<in> Ms \<Longrightarrow> 0 < own m \<Longrightarrow> linked P b xs s m = 0 \<Longrightarrow> pub_sub_publish_to_broker P b m s = Inr ((), s') \<Longrightarrow>
    sys_event P b Ms home (xs, own, s) (Publish m) (xs, own(m := own m - 1), s')"
| publish_to: "x \<in> set xs \<Longrightarrow> m \<in> Ms \<Longrightarrow> 0 < own m \<Longrightarrow> max_id_of s x < msg_id_of s m \<Longrightarrow> has_room P s x \<Longrightarrow>
    type_of s x = PUB_SUB_RX_TYPE_FIFO \<longrightarrow> linked P b xs s m = 0 \<Longrightarrow>
    pub_sub_publish_to_subscriber P x m s = Inr ((), s') \<Longrightarrow>
    sys_event P b Ms home (xs, own, s) (Send x m) (xs, own(m := own m - 1), s')"
| subscribe: "x \<in> set xs \<Longrightarrow> i \<le> max_id_of s x \<Longrightarrow> pub_sub_subscribe P x i s = Inr ((), s') \<Longrightarrow>
    sys_event P b Ms home (xs, own, s) (Subscribe x i) (xs, own, s')"
| unsubscribe: "x \<in> set xs \<Longrightarrow> i \<le> max_id_of s x \<Longrightarrow> pub_sub_unsubscribe P x i s = Inr ((), s') \<Longrightarrow>
    sys_event P b Ms home (xs, own, s) (Unsubscribe x i) (xs, own, s')"
| add: "joinable P s x \<Longrightarrow> Suc (length xs) < fuel P \<Longrightarrow>
    (\<exists>y \<in> set xs. type_of s y = type_of s x) \<or> (\<forall>y \<in> set xs. type_of s y < type_of s x) \<Longrightarrow>
    pub_sub_add_subscriber_to_broker P b x s = Inr ((), s') \<Longrightarrow>
    sys_event P b Ms home (xs, own, s) (Join x) (slist_nodes P (slists s') b, own, s')"
| remove: "x \<in> set xs \<Longrightarrow> fifo_of P s x = [] \<Longrightarrow> msgq_of P s x = [] \<Longrightarrow>
    pub_sub_subscriber_remove_broker P x s = Inr ((), s') \<Longrightarrow>
    sys_event P b Ms home (xs, own, s) (Leave x) (slist_nodes P (slists s') b, own, s')"
| handle_empty: "x \<in> set xs \<Longrightarrow> fifo_of P s x = [] \<Longrightarrow> msgq_of P s x = [] \<Longrightarrow>
    pub_sub_handle_queued_msg P x K_NO_WAIT s = Inr (r, s') \<Longrightarrow> sys_event P b Ms home (xs, own, s) (Handle x) (xs, own, s')"
| work: "length (published P s b) < fuel P \<Longrightarrow> \<forall>x \<in> set xs. can_take P (length (published P s b)) s x \<Longrightarrow>
    \<forall>m \<in> set (published P s b). ref_cnt s m + length xs < 255 \<Longrightarrow>
    publish_work_handler P b s = Inr ((), s') \<Longrightarrow> sys_event P b Ms home (xs, own, s) Work (xs, own, s')"
| library: "lib_event P b xs e s s' \<Longrightarrow> sys_event P b Ms home (xs, own, s) e (xs, own, s')"

definition sys_step ::
  "('k, 'u) platform \<Rightarrow> ptr \<Rightarrow> ptr set \<Rightarrow> (ptr \<rightharpoonup> ptr) \<Rightarrow> ('k, 'u) config \<Rightarrow> ('k, 'u) config \<Rightarrow> bool" where
  "sys_step P b Ms home c c' \<longleftrightarrow> (\<exists>e. sys_event P b Ms home c e c')"

lemma sys_stepI: "sys_event P b Ms home c e c' \<Longrightarrow> sys_step P b Ms home c c'"
  by (auto simp: sys_step_def)

inductive sys_reach ::
  "('k, 'u) platform \<Rightarrow> ptr \<Rightarrow> ptr set \<Rightarrow> (ptr \<rightharpoonup> ptr) \<Rightarrow> ptr list \<Rightarrow> ('k, 'u) memory \<Rightarrow> ('k, 'u) config \<Rightarrow> bool"
  for P b Ms home xs0 s0 where
  start: "sys_reach P b Ms home xs0 s0 (xs0, \<lambda>_. 0, s0)"
| more: "sys_reach P b Ms home xs0 s0 c \<Longrightarrow> sys_step P b Ms home c c' \<Longrightarrow> sys_reach P b Ms home xs0 s0 c'"

text \<open>At the start all queues are empty, no message has references, and the blocks of the slabs are free.\<close>

definition sys_init ::
  "('k, 'u) platform \<Rightarrow> ptr \<Rightarrow> ptr list \<Rightarrow> ptr set \<Rightarrow> (ptr \<rightharpoonup> ptr) \<Rightarrow> ('k, 'u) memory \<Rightarrow> bool" where
  "sys_init P b xs Ms home s \<longleftrightarrow> sys_world P b xs Ms home s \<and> published P s b = [] \<and>
     (\<forall>x \<in> set xs. fifo_of P s x = [] \<and> msgq_of P s x = []) \<and>
     (\<forall>q \<in> ran home. slab_pool P s q = {m \<in> Ms. home m = Some q}) \<and>
     (\<forall>m \<in> Ms. (home m = None \<longrightarrow> ref_cnt s m = 0) \<and> link_flag s m = Some False)"

lemma sys_init_ref_inv:
  assumes "sys_init P b xs Ms home s"
  shows "ref_inv P b xs Ms home (\<lambda>_. 0) s"
proof -
  have l: "linked P b xs s m = 0" "places P b xs s m = 0" "refs P b xs (\<lambda>_. 0) s m = 0" for m
    using assms by (simp_all add: sys_init_def refs_def places_def linked_def held_def)
  have "slab_inv P Ms home (\<lambda>_. 0) s"
    using assms by (auto simp: sys_init_def slab_inv_def ranI)
  moreover have "refs P b xs (\<lambda>_. 0) s = (\<lambda>_. 0)" using l(3) by (rule ext)
  ultimately show ?thesis using assms l(1,2) by (simp add: sys_init_def ref_inv_def)
qed

lemma ref_inv_refs:
  assumes "ref_inv P b xs Ms home own s" and "m \<in> Ms"
  shows "home m = None \<or> 0 < refs P b xs own s m \<longrightarrow> ref_cnt s m = refs P b xs own s m"
    and "home m = Some q \<Longrightarrow> m \<in> slab_pool P s q \<longleftrightarrow> refs P b xs own s m = 0"
proof -
  note i = ref_invD(9) [OF assms(1), unfolded slab_inv_def]
  show "home m = None \<or> 0 < refs P b xs own s m \<longrightarrow> ref_cnt s m = refs P b xs own s m"
    using i assms(2) by blast
  assume "home m = Some q"
  then show "m \<in> slab_pool P s q \<longleftrightarrow> refs P b xs own s m = 0"
    using i assms(2) by (auto split: if_splits)
qed

lemma lib_step_ref_inv:
  assumes "system_laws P log" and "lib_step P b xs s s'" and "ref_inv P b xs Ms home own s"
  shows "ref_inv P b xs Ms home own s'"
proof -
  obtain e where "lib_event P b xs e s s'" using assms(2) by (auto simp: lib_step_def)
  then show ?thesis
  proof cases
    case (distribute m ms)
    then show ?thesis using distribute_step [OF assms(1,3) distribute(2-4)] by auto
  next
    case (handle_fifo x m ms t r)
    then show ?thesis using handle_fifo_step [OF assms(1,3) handle_fifo(2-5), of t] by auto
  next
    case (handle_msgq x t r)
    then obtain m ms where "msgq_of P s x = m # ms" by (cases "msgq_of P s x") auto
    then show ?thesis using handle_msgq_step [OF assms(1,3) handle_msgq(2,3), of m ms t] handle_msgq(5) by auto
  qed
qed

definition app_laws where
  "app_laws P log \<longleftrightarrow> system_laws P log \<and> bitmap_laws P \<and> runtime_max_ok P \<and> CONFIG_PUB_SUB_RUNTIME_ALLOCATORS P"

lemma sys_step_ref_inv:
  assumes "app_laws P log" and "sys_step P b Ms home (xs, own, s) (xs', own', s')"
    and "ref_inv P b xs Ms home own s"
  shows "ref_inv P b xs' Ms home own' s'"
proof -
  have sl: "system_laws P log" "bitmap_laws P" "runtime_max_ok P" "CONFIG_PUB_SUB_RUNTIME_ALLOCATORS P"
    using assms(1) by (simp_all add: app_laws_def)
  obtain e where "sys_event P b Ms home (xs, own, s) e (xs', own', s')" using assms(2) by (auto simp: sys_step_def)
  then show ?thesis
  proof cases
    case (new q alloc n aid t i m)
    note n = new_step [OF system_core [OF sl(1)] assms(3) sl(3,4) new(4-6), where i = i and t = t]
    show ?thesis
    proof (cases "slab_pool P s q = {}")
      case True
      then show ?thesis using n(2) new assms(3) by simp
    next
      case False
      then show ?thesis using n(1) new by auto
    qed
  next
    case (acquire m)
    then show ?thesis using acquire_step [OF system_core [OF sl(1)] assms(3), of m] by auto
  next
    case (release m)
    then show ?thesis using release_step [OF system_core [OF sl(1)] assms(3), of m] by auto
  next
    case (publish m)
    then show ?thesis using publish_step [OF system_core [OF sl(1)] assms(3), of m] by auto
  next
    case (publish_to x m)
    then show ?thesis
      using private_callback_step [OF sl(1) assms(3), of x m] private_queue_step [OF system_core [OF sl(1)] assms(3), of x m]
      by (cases "type_of s x = PUB_SUB_RX_TYPE_CALLBACK") auto
  next
    case (subscribe x i)
    then show ?thesis using subscribe_step(1) [OF sl(2) assms(3), of x i] by auto
  next
    case (unsubscribe x i)
    then show ?thesis using subscribe_step(2) [OF sl(2) assms(3), of x i] by auto
  next
    case (add x)
    then show ?thesis using add_step [OF sl(1) assms(3), of x] by auto
  next
    case (remove x)
    then show ?thesis using remove_step [OF sl(1) assms(3), of x] by auto
  next
    case (handle_empty x r)
    then show ?thesis using handle_empty_step [OF system_core [OF sl(1)] assms(3), of x] by auto
  next
    case work
    then show ?thesis using work_step [OF sl(1) assms(3)] by auto
  next
    case library
    then show ?thesis using lib_step_ref_inv [OF sl(1) lib_stepI assms(3)] by simp
  qed
qed

lemma sys_reach_ref_inv:
  assumes "app_laws P log" and "sys_init P b xs0 Ms home s0"
  shows "sys_reach P b Ms home xs0 s0 c \<Longrightarrow> ref_inv P b (fst c) Ms home (fst (snd c)) (snd (snd c))"
proof (induction rule: sys_reach.induct)
  case start
  then show ?case using sys_init_ref_inv [OF assms(2)] by simp
next
  case (more c c')
  then show ?case using sys_step_ref_inv [OF assms(1), of b Ms home "fst c" "fst (snd c)" "snd (snd c)" "fst c'"
    "fst (snd c')" "snd (snd c')"] by simp
qed

section \<open>The library comes to rest\<close>

text \<open>The position of a subscriber in the list, counted from its end.\<close>

definition rank :: "ptr list \<Rightarrow> ptr \<Rightarrow> nat" where
  "rank xs x = length (dropWhile (\<lambda>y. y \<noteq> x) xs)"

lemma rank_split: "x \<notin> set us \<Longrightarrow> rank (us @ x # ys) x = Suc (length ys)"
  by (induction us) (auto simp: rank_def)

lemma rank_bounds: "x \<in> set xs \<Longrightarrow> 0 < rank xs x" "rank xs x \<le> length xs"
  by (auto simp: rank_def dropWhile_eq_Nil_conv length_dropWhile_le)

lemma rank_later:
  assumes "distinct (us @ x # ys)" and "y \<in> set ys"
  shows "rank (us @ x # ys) y < rank (us @ x # ys) x"
proof -
  obtain vs zs where ys: "ys = vs @ y # zs" using assms(2) by (auto dest: split_list)
  have "rank ((us @ x # vs) @ y # zs) y = Suc (length zs)" using assms(1) by (intro rank_split) (auto simp: ys)
  then show ?thesis using rank_split [of x us ys] assms(1) by (simp add: ys)
qed

lemma next_fifo_rank:
  assumes "distinct xs" and "x \<in> set xs" and "next_fifo P s xs x i = Some y"
  shows "rank xs y < rank xs x"
proof -
  obtain us ys where xs: "xs = us @ x # ys" using assms(2) by (auto dest: split_list)
  then have "x \<notin> set us" using assms(1) by auto
  then have "y \<in> set ys"
    using assms(3) next_fifo_split [of x us P s ys i] by (auto simp: xs find_Some_iff split: if_splits)
  then show ?thesis using rank_later assms(1) xs by simp
qed

definition weight :: "ptr list \<Rightarrow> (ptr \<Rightarrow> nat) \<Rightarrow> (ptr \<Rightarrow> ptr list) \<Rightarrow> nat" where
  "weight xs w f = (\<Sum>x \<in> set xs. w x * length (f x))"

lemma weight_upd:
  assumes "y \<in> set xs"
  shows "weight xs w (f(y := ys)) + w y * length (f y) = weight xs w f + w y * length ys"
proof -
  have "(\<Sum>x \<in> set xs - {y}. w x * length ((f(y := ys)) x)) = (\<Sum>x \<in> set xs - {y}. w x * length (f x))"
    by (rule sum.cong) auto
  then show ?thesis using assms by (simp add: weight_def sum.remove [of "set xs" y])
qed

lemma weight_all:
  "weight xs w (\<lambda>x. f x @ (if x \<in> W then [m] else [])) \<le> weight xs w f + (\<Sum>x \<in> set xs. w x)"
  unfolding weight_def sum.distrib [symmetric] by (rule sum_mono) simp

text \<open>What is left to do: each message in a queue has to be handled, one in a FIFO by the subscribers
  up to the end of the list at most, and one that has been published by all of them.\<close>

definition load :: "('k, 'u) platform \<Rightarrow> ptr \<Rightarrow> ptr list \<Rightarrow> ('k, 'u) memory \<Rightarrow> nat" where
  "load P b xs s = (2 * length xs + 1) * length (published P s b) + weight xs (rank xs) (fifo_of P s) +
     weight xs (\<lambda>_. 1) (msgq_of P s)"

lemma weight_relayed:
  assumes "distinct xs" and "x \<in> set xs" and "f x = m # ms" and "y = next_fifo P s xs x i"
  shows "weight xs (rank xs) (relayed f x m ms y) < weight xs (rank xs) f"
proof -
  have u: "weight xs (rank xs) (f(x := ms)) + rank xs x = weight xs (rank xs) f"
    using weight_upd [OF assms(2), of "rank xs" f ms] assms(3) by simp
  show ?thesis
  proof (cases y)
    case None
    then show ?thesis using u rank_bounds(1) [OF assms(2)] by (simp add: relayed_def)
  next
    case (Some z)
    then have n: "next_fifo P s xs x i = Some z" using assms(4) by simp
    note z = next_fifo_in [OF assms(1,2) n] next_fifo_rank [OF assms(1,2) n]
    have "weight xs (rank xs) (f(x := ms, z := f z @ [m])) = weight xs (rank xs) (f(x := ms)) + rank xs z"
      using weight_upd [OF z(1), of "rank xs" "f(x := ms)" "f z @ [m]"] z(2) by simp
    then show ?thesis using Some u z(3) by (simp add: relayed_def)
  qed
qed

lemma distribute_load:
  assumes "taken P b ms s s1" and "delivered P log i m xs r s1 s'" and "published P s b = m # ms" and "distinct xs"
  shows "load P b xs s' < load P b xs s"
proof -
  note t = assms(1) [unfolded taken_def] and d = assms(2) [unfolded delivered_def]
  let ?n = "length xs"
  have p: "published P s' b = ms" using t d by simp
  have "msgq_of P s' = (\<lambda>x. msgq_of P s x @ (if x \<in> set (wanting P s1 i PUB_SUB_RX_TYPE_MSGQ xs) then [m] else []))"
    using t d by auto
  then have q: "weight xs (\<lambda>_. 1) (msgq_of P s') \<le> weight xs (\<lambda>_. 1) (msgq_of P s) + ?n"
    using weight_all [of xs "\<lambda>_. 1" "msgq_of P s" _ m] distinct_card [OF assms(4)] by simp
  have f: "weight xs (rank xs) (fifo_of P s') \<le> weight xs (rank xs) (fifo_of P s) + ?n"
  proof (cases "wanting P s1 i PUB_SUB_RX_TYPE_FIFO xs")
    case Nil
    then have "fifo_of P s' = fifo_of P s" using t d by simp
    then show ?thesis by simp
  next
    case (Cons y ys)
    then have "y \<in> set (wanting P s1 i PUB_SUB_RX_TYPE_FIFO xs)" by simp
    then have y: "y \<in> set xs" by (simp add: wanting_def)
    have "fifo_of P s' = (fifo_of P s)(y := fifo_of P s y @ [m])" using t d Cons by simp
    then have "weight xs (rank xs) (fifo_of P s') = weight xs (rank xs) (fifo_of P s) + rank xs y"
      using weight_upd [OF y, of "rank xs" "fifo_of P s" "fifo_of P s y @ [m]"] by simp
    then show ?thesis using rank_bounds(2) [of xs y] by simp
  qed
  show ?thesis using q f by (simp add: load_def p assms(3))
qed

lemma lib_step_effect:
  assumes "system_laws P log" and "lib_step P b xs s s'" and "ref_inv P b xs Ms home own s"
  shows "same_world P s s'" and "load P b xs s' < load P b xs s"
proof -
  have dx: "distinct xs" using sys_worldD(8) [OF ref_invD(1) [OF assms(3)]] .
  obtain e where "lib_event P b xs e s s'" using assms(2) by (auto simp: lib_step_def)
  then have "same_world P s s' \<and> load P b xs s' < load P b xs s"
  proof cases
    case (distribute m ms)
    then obtain s1 s2 where s1: "taken P b ms s s1" "delivered P log (msg_id_of s m) m xs 1 s1 s2"
      "freed P m s2 s'" "same_world P s s'"
      using distribute_step [OF assms(1,3) distribute(2-4)] by auto
    have "load P b xs s' = load P b xs s2" by (simp add: load_def freed_views [OF s1(3)])
    then show ?thesis using distribute_load [OF s1(1,2) distribute(2) dx] s1(4) by simp
  next
    case (handle_fifo x m ms t r)
    then have e: "fifo_of P s' = relayed (fifo_of P s) x m ms (next_fifo P s xs x (msg_id_of s m))"
      "published P s' = published P s" "msgq_of P s' = msgq_of P s" "same_world P s s'"
      using handle_fifo_step [OF assms(1,3) handle_fifo(2-5), of t] by auto
    then show ?thesis
      using weight_relayed [where f = "fifo_of P s", OF dx handle_fifo(2,4) refl] by (simp add: load_def)
  next
    case (handle_msgq x t r)
    then obtain m ms where q: "msgq_of P s x = m # ms" by (cases "msgq_of P s x") auto
    then have e: "msgq_of P s' = (msgq_of P s)(x := ms)" "fifo_of P s' = fifo_of P s"
      "published P s' = published P s" "same_world P s s'"
      using handle_msgq_step [OF assms(1,3) handle_msgq(2,3), of m ms t] handle_msgq(5) by auto
    then show ?thesis
      using weight_upd [OF handle_msgq(2), of "\<lambda>_. 1" "msgq_of P s" ms] q by (simp add: load_def)
  qed
  then show "same_world P s s'" and "load P b xs s' < load P b xs s" by simp_all
qed

lemma lib_run_effect:
  assumes "system_laws P log" and "ref_inv P b xs Ms home own s"
  shows "(lib_step P b xs ^^ n) s s' \<Longrightarrow>
    ref_inv P b xs Ms home own s' \<and> same_world P s s' \<and> n + load P b xs s' \<le> load P b xs s"
proof (induction n arbitrary: s')
  case 0
  then show ?case using assms(2) by simp
next
  case (Suc n)
  then obtain s1 where s1: "(lib_step P b xs ^^ n) s s1" "lib_step P b xs s1 s'" by auto
  then have i: "ref_inv P b xs Ms home own s1" "same_world P s s1" "n + load P b xs s1 \<le> load P b xs s"
    using Suc.IH by auto
  then show ?case
    using lib_step_ref_inv [OF assms(1) s1(2) i(1)] lib_step_effect [OF assms(1) s1(2) i(1)]
    by (auto simp: same_world_def)
qed

text \<open>A state in which no step is possible is one in which nothing is left to do.\<close>

lemma stuck_empty:
  assumes "system_laws P log" and "ref_inv P b xs Ms home own s" and "\<forall>x \<in> set xs. msgq_cap P s x \<noteq> Some 0"
    and "\<forall>m \<in> Ms. own m + length xs < 254" and "\<nexists>s'. lib_step P b xs s s'"
  shows "published P s b = []" and "x \<in> set xs \<Longrightarrow> fifo_of P s x = []" and "x \<in> set xs \<Longrightarrow> msgq_of P s x = []"
    and "m \<in> Ms \<Longrightarrow> refs P b xs own s m = own m"
proof -
  note d = ref_invD [OF assms(2)]
  note w = sys_worldD [OF d(1)]
  have q: "msgq_of P s x = []" if x: "x \<in> set xs" for x
  proof (rule ccontr)
    assume ne: "msgq_of P s x \<noteq> []"
    then obtain m ms where m: "msgq_of P s x = m # ms" by (cases "msgq_of P s x") auto
    have t: "type_of s x = PUB_SUB_RX_TYPE_MSGQ" using ready_queues(1) [OF w(6) [OF x]] ne by blast
    show False using handle_msgq_step [OF assms(1,2) x t m, of K_NO_WAIT] lib_stepI [OF lib_event.handle_msgq [OF x t ne]] assms(5) by blast
  qed
  have hq: "held xs (msgq_of P s) k = 0" for k using q by (simp add: held_def)
  have f: "fifo_of P s x = []" if x: "x \<in> set xs" for x
  proof (rule ccontr)
    assume ne: "fifo_of P s x \<noteq> []"
    then obtain m ms where m: "fifo_of P s x = m # ms" by (cases "fifo_of P s x") auto
    have t: "type_of s x = PUB_SUB_RX_TYPE_FIFO" using ready_queues(2) [OF w(6) [OF x]] ne by blast
    have "0 < held xs (fifo_of P s) m" using held_pop(2) [where f = "fifo_of P s", OF x m] .
    then have pl: "0 < places P b xs s m" by (simp add: places_def linked_def)
    note mM = d(8) [OF pl] and u = in_useI(2) [OF pl, of home own]
    have "linked P b xs s m \<le> 1" "own m + length xs < 254" using d(6) [OF mM] assms(4) mM by auto
    then have r: "ref_cnt s m < 255" using d(5) [OF mM u] hq [of m] by (simp add: refs_def places_def)
    show False using handle_fifo_step [OF assms(1,2) x t m r, of K_NO_WAIT] lib_stepI [OF lib_event.handle_fifo [OF x t m r]] assms(5) by blast
  qed
  have hf: "held xs (fifo_of P s) k = 0" for k using f by (simp add: held_def)
  show p: "published P s b = []"
  proof (rule ccontr)
    assume "published P s b \<noteq> []"
    then obtain m ms where m: "published P s b = m # ms" by (cases "published P s b") auto
    then have "0 < linked P b xs s m" by (simp add: linked_def)
    then have pl: "0 < places P b xs s m" by (simp add: places_def)
    note mM = d(8) [OF pl] and u = in_useI(2) [OF pl, of home own]
    have "linked P b xs s m \<le> 1" "own m + length xs < 254" using d(6) [OF mM] assms(4) mM by auto
    then have r: "ref_cnt s m + length xs < 255" using d(5) [OF mM u] hq [of m] by (simp add: refs_def places_def)
    have "has_room P s x" if x: "x \<in> set xs" for x
      using w(6) [OF x] assms(3) x q [OF x] by (auto simp: has_room_def ready_sub_def)
    then have a: "\<forall>x \<in> set xs. has_room P s x" by blast
    show False using distribute_step [OF assms(1,2) m a r] lib_stepI [OF lib_event.distribute [OF m a r]] assms(5) by blast
  qed
  show "fifo_of P s x = []" "msgq_of P s x = []" if "x \<in> set xs" using f q that by simp_all
  show "refs P b xs own s m = own m" if "m \<in> Ms"
    using hq hf p by (simp add: refs_def places_def linked_def)
qed

end
