(* ===== verification/Refinement.thy ===== *)
theory Refinement imports Runs PubSubDelivery begin

text \<open>
  The code implements the abstract system of theory PubSubSpec: seen through the abstraction
  \<open>world_of\<close>, which forgets counters, slabs, link words and control blocks, each step of the code is
  an event of the abstract system, which is enabled and has exactly its effect. The locale
  \<open>refinement\<close> lifts this from steps to runs, and carries what is proved of the abstract
  system over to the code.
\<close>

section \<open>Functional refinement\<close>

inductive runs :: "('c \<Rightarrow> 'e \<Rightarrow> 'c \<Rightarrow> bool) \<Rightarrow> 'c \<Rightarrow> 'e list \<Rightarrow> 'c \<Rightarrow> bool" for st c where
  runs_start: "runs st c [] c"
| runs_more: "runs st c es c' \<Longrightarrow> st c' e c'' \<Longrightarrow> runs st c (es @ [e]) c''"

lemma runs_two:
  assumes "st c e c1" and "st c1 f c2"
  shows "runs st c [e, f] c2"
proof -
  have "runs st c ([] @ [e]) c1" using runs_start assms(1) by (rule runs_more)
  then have "runs st c (([] @ [e]) @ [f]) c2" using assms(2) by (rule runs_more)
  then show ?thesis by simp
qed

locale refinement =
  fixes laws :: "'p \<Rightarrow> bool"
    and inv :: "'p \<Rightarrow> 'c \<Rightarrow> bool"
    and st :: "'p \<Rightarrow> 'c \<Rightarrow> 'e \<Rightarrow> 'c \<Rightarrow> bool"
    and view :: "'p \<Rightarrow> 'c \<Rightarrow> 'w"
    and en :: "'p \<Rightarrow> 'e \<Rightarrow> 'w \<Rightarrow> bool"
    and ef :: "'e \<Rightarrow> 'w \<Rightarrow> 'w"
  assumes inv_step: "laws p \<Longrightarrow> inv p c \<Longrightarrow> st p c e c' \<Longrightarrow> inv p c'"
    and enabled_step: "laws p \<Longrightarrow> inv p c \<Longrightarrow> st p c e c' \<Longrightarrow> en p e (view p c)"
    and effect_step: "laws p \<Longrightarrow> inv p c \<Longrightarrow> st p c e c' \<Longrightarrow> view p c' = ef e (view p c)"
begin

lemma run_refines:
  assumes "laws p" and "inv p c" and "runs (st p) c es c'"
  shows "inv p c' \<and> accepted (en p) ef es (view p c) \<and> view p c' = fold ef es (view p c)"
  using assms(3)
proof (induction rule: runs.induct)
  case (runs_more es c' e c'')
  then show ?case
    using inv_step [OF assms(1), of c' e c''] enabled_step [OF assms(1), of c' e c''] effect_step [OF assms(1), of c' e c'']
    by (simp add: accepted_append)
qed (simp add: assms(2))

text \<open>An invariant of the abstract system holds of the code.\<close>

lemma abstract_invariant:
  assumes "laws p" and "inv p c" and "runs (st p) c es c'" and "I (view p c)"
    and "\<And>e w. I w \<Longrightarrow> en p e w \<Longrightarrow> I (ef e w)"
  shows "I (view p c')"
proof -
  have "accepted (en p) ef es w \<Longrightarrow> I w \<Longrightarrow> I (fold ef es w)" for w
    by (induction es arbitrary: w) (auto intro: assms(5))
  then show ?thesis using run_refines [OF assms(1-3)] assms(4) by simp
qed

end

section \<open>What the abstract system sees\<close>

definition world_of ::
  "('k, 'u) platform \<Rightarrow> ('u \<Rightarrow> (nat \<times> uint16 \<times> ptr \<times> ptr) list) \<Rightarrow> ptr \<Rightarrow> ('k, 'u) config \<Rightarrow> world" where
  "world_of P log b c = (case c of (xs, own, s) \<Rightarrow> \<lparr>members = xs, kind = key_of s, callee = handler_of s,
     limit = max_id_of s, wants = subscriptions P s, ident = msg_id_of s, pending = published P s b,
     box = (\<lambda>x. fifo_of P s x @ msgq_of P s x), owned = own, history = log (app s)\<rparr>)"

lemma world_of_sel [simp]:
  "members (world_of P log b (xs, own, s)) = xs" "kind (world_of P log b (xs, own, s)) = key_of s"
  "callee (world_of P log b (xs, own, s)) = handler_of s" "limit (world_of P log b (xs, own, s)) = max_id_of s"
  "wants (world_of P log b (xs, own, s)) = subscriptions P s" "ident (world_of P log b (xs, own, s)) = msg_id_of s"
  "pending (world_of P log b (xs, own, s)) = published P s b" "owned (world_of P log b (xs, own, s)) = own"
  "box (world_of P log b (xs, own, s)) x = fifo_of P s x @ msgq_of P s x"
  "history (world_of P log b (xs, own, s)) = log (app s)"
  by (simp_all add: world_of_def)

lemma same_world_of:
  assumes "same_world P s s'"
  shows "world_of P log b (xs, own', s') = (world_of P log b (xs, own, s))\<lparr>pending := published P s' b,
    box := (\<lambda>x. fifo_of P s' x @ msgq_of P s' x), owned := own', history := log (app s')\<rparr>"
  using assms sub_viewsD [of P s' s] by (simp add: world_of_def same_world_def msg_id_of_def [abs_def])

lemma still_world_of:
  assumes "still P s s'"
  shows "world_of P log b (xs, own', s') = (world_of P log b (xs, own, s))\<lparr>owned := own', history := log (app s')\<rparr>"
proof -
  have s: "same_world P s s'" "published P s' = published P s" "fifo_of P s' = fifo_of P s" "msgq_of P s' = msgq_of P s"
    using assms by (simp_all add: still_def)
  show ?thesis unfolding same_world_of [OF s(1), of log b xs own' own] s by (simp add: world_of_def)
qed

lemma takers_wanting:
  "takers (world_of P log b (xs, own, s)) k zs m = wanting P s (msg_id_of s m) k zs"
  "first_taker (world_of P log b (xs, own, s)) zs m = first_fifo P s (msg_id_of s m) zs"
  by (simp_all add: takers_def wanting_def first_taker_def first_fifo_def type_of_def)

lemma call_world_of:
  "call (world_of P log b (xs, own, s)) x m = (fst (handler_of s x), msg_id_of s m, m, snd (handler_of s x))"
  by (simp add: call_def)

lemma box_by_type:
  assumes "ref_inv P b xs Ms home own s" and "x \<in> set xs"
  shows "fifo_of P s x \<noteq> [] \<Longrightarrow> type_of s x = PUB_SUB_RX_TYPE_FIFO"
    and "msgq_of P s x \<noteq> [] \<Longrightarrow> type_of s x = PUB_SUB_RX_TYPE_MSGQ"
  using ready_queues [OF sys_worldD(6) [OF ref_invD(1) [OF assms(1)] assms(2)]] by blast+

lemma linked_in_linked:
  assumes "ref_inv P b xs Ms home own s"
  shows "linked_in (world_of P log b (xs, own, s)) m \<longleftrightarrow> 0 < linked P b xs s m"
proof -
  have "(\<exists>x \<in> set xs. type_of s x = PUB_SUB_RX_TYPE_FIFO \<and> m \<in> set (fifo_of P s x @ msgq_of P s x)) \<longleftrightarrow>
      (\<exists>x \<in> set xs. m \<in> set (fifo_of P s x))"
    using box_by_type [OF assms] by (fastforce dest: empty_iff [THEN iffD1])
  moreover have "0 < count_list (published P s b) m \<longleftrightarrow> m \<in> set (published P s b)"
    by (simp add: count_list_0_iff flip: neq0_conv)
  ultimately show ?thesis
    using held_pos [of xs "fifo_of P s" m] by (auto simp: linked_in_def linked_def type_of_def)
qed

lemma live_refs: "live (world_of P log b (xs, own, s)) m \<longleftrightarrow> 0 < refs P b xs own s m"
proof -
  have "0 < count_list (published P s b) m \<longleftrightarrow> m \<in> set (published P s b)"
    by (simp add: count_list_0_iff flip: neq0_conv)
  then show ?thesis
    using held_pos [of xs "fifo_of P s" m] held_pos [of xs "msgq_of P s" m]
    by (auto simp: live_def refs_def places_def linked_def)
qed

section \<open>Every step is an event\<close>

text \<open>Distribution, of one message or of all.\<close>

lemma distributed_box:
  assumes "ref_inv P b xs Ms home own s"
  shows "(fifo_of P s x @ filter (\<lambda>m. first_fifo P s (msg_id_of s m) xs = Some x) ms) @
      (msgq_of P s x @ filter (\<lambda>m. x \<in> wanted_by_msgq P s xs m) ms) =
    (fifo_of P s x @ msgq_of P s x) @ filter (\<lambda>m. gets (world_of P log b (xs, own, s)) m x) ms"
proof -
  have g: "gets (world_of P log b (xs, own, s)) m x \<longleftrightarrow>
      x \<in> wanted_by_msgq P s xs m \<or> first_fifo P s (msg_id_of s m) xs = Some x" for m
    by (simp add: gets_def takers_wanting wanted_by_msgq_def)
  have f: "x \<in> set xs \<and> type_of s x = PUB_SUB_RX_TYPE_FIFO" if "first_fifo P s (msg_id_of s m) xs = Some x" for m
    using first_taker_in [of "world_of P log b (xs, own, s)" xs m x] that by (simp add: takers_wanting type_of_def)
  have q: "x \<in> set xs \<and> type_of s x = PUB_SUB_RX_TYPE_MSGQ" if "x \<in> wanted_by_msgq P s xs m" for m
    using that by (simp add: wanted_by_msgq_def wanting_def)
  show ?thesis
  proof (cases "x \<in> set xs \<and> type_of s x = PUB_SUB_RX_TYPE_FIFO")
    case True
    then have "msgq_of P s x = []" using box_by_type(2) [OF assms, of x] by force
    moreover have "x \<notin> wanted_by_msgq P s xs m" for m using q [of m] True by auto
    ultimately show ?thesis by (simp add: g)
  next
    case False
    then have "first_fifo P s (msg_id_of s m) xs \<noteq> Some x" for m using f by blast
    then show ?thesis by (simp add: g)
  qed
qed

lemma delivered_fifo_of:
  assumes "delivered P log i m xs r s s'"
  shows "fifo_of P s' x = fifo_of P s x @ (if first_fifo P s i xs = Some x then [m] else [])"
  using assms by (auto simp: delivered_def first_fifo_def split: list.splits)

lemma distribute_refines:
  assumes "ref_inv P b xs Ms home own s" and "published P s b = m # ms" and "taken P b ms s s1"
    and "delivered P log (msg_id_of s m) m xs 1 s1 s2" and "freed P m s2 s'" and "same_world P s s'"
  shows "world_of P log b (xs, own, s') = effect Distribute (world_of P log b (xs, own, s))"
proof -
  let ?w = "world_of P log b (xs, own, s)"
  note t = assms(3) [unfolded taken_def] and d = assms(4) [unfolded delivered_def] and f = freed_views [OF assms(5)]
  have wt: "wanting P s1 = wanting P s" "first_fifo P s1 = first_fifo P s" "handler_of s1 = handler_of s"
    using t wanting_by_views [of P s1 s] spec_by_views [of P s1 s] sub_viewsD(4) [of P s1 s] by simp_all
  have "fifo_of P s' x @ msgq_of P s' x = box ?w x @ (if gets ?w m x then [m] else [])" for x
  proof -
    have "fifo_of P s' x = fifo_of P s x @ filter (\<lambda>m. first_fifo P s (msg_id_of s m) xs = Some x) [m]"
      using delivered_fifo_of [OF assms(4), of x] t f by (simp add: wt)
    moreover have "msgq_of P s' x = msgq_of P s x @ filter (\<lambda>m. x \<in> wanted_by_msgq P s xs m) [m]"
      using d t f by (simp add: wt wanted_by_msgq_def)
    ultimately show ?thesis using distributed_box [OF assms(1), of x "[m]" log] by simp
  qed
  moreover have "published P s' b = ms" using d t f by simp
  moreover have "log (app s') = log (app s) @ map (\<lambda>x. call ?w x m) (takers ?w PUB_SUB_RX_TYPE_CALLBACK xs m)"
    using d t f by (simp add: takers_wanting call_world_of wt)
  moreover note delivery_cong [of "?w\<lparr>pending := ms\<rparr>" ?w]
  ultimately show ?thesis
    unfolding same_world_of [OF assms(6), of log b xs own own] by (simp add: assms(2) deliver_def)
qed

lemma work_refines:
  assumes "ref_inv P b xs Ms home own s" and "distributed P log (published P s b) xs s s'" and "published P s' b = []"
    and "same_world P s s'"
  shows "world_of P log b (xs, own, s') = effect Work (world_of P log b (xs, own, s))"
proof -
  let ?w = "world_of P log b (xs, own, s)"
  note d = assms(2) [unfolded distributed_def]
  have b: "fifo_of P s' x @ msgq_of P s' x = box ?w x @ filter (\<lambda>m. gets ?w m x) (published P s b)" for x
    using distributed_box [OF assms(1), of x "published P s b" log] d by simp
  have h: "log (app s') = log (app s) @
      concat (map (\<lambda>m. map (\<lambda>x. call ?w x m) (takers ?w PUB_SUB_RX_TYPE_CALLBACK xs m)) (published P s b))"
    using d by (simp add: handler_calls_def [abs_def] takers_wanting call_world_of)
  note c = delivery_cong [of "?w\<lparr>pending := []\<rparr>" ?w]
  show ?thesis
    unfolding same_world_of [OF assms(4), of log b xs own own] using b h c
    by (simp add: deliver_all assms(3))
qed

text \<open>A subscriber handles what waits for it.\<close>

lemma handle_empty_refines:
  assumes "still P s s'" and "app s' = app s" and "fifo_of P s x = []" and "msgq_of P s x = []"
  shows "world_of P log b (xs, own, s') = effect (Handle x) (world_of P log b (xs, own, s))"
  unfolding still_world_of [OF assms(1), of log b xs own own] using assms(2-4)
  by (simp add: handle_def)

lemma handle_msgq_refines:
  assumes "ref_inv P b xs Ms home own s" and "x \<in> set xs" and "type_of s x = PUB_SUB_RX_TYPE_MSGQ"
    and "msgq_of P s x = m # ms" and "same_world P s s'" and "published P s' = published P s"
    and "fifo_of P s' = fifo_of P s" and "msgq_of P s' = (msgq_of P s)(x := ms)"
    and "log (app s') = log (app s) @ [(fst (handler_of s x), msg_id_of s m, m, snd (handler_of s x))]"
  shows "world_of P log b (xs, own, s') = effect (Handle x) (world_of P log b (xs, own, s))"
proof -
  have f: "fifo_of P s x = []" using box_by_type(1) [OF assms(1,2)] assms(3) by force
  have n: "successor (world_of P log b (xs, own, s)) x m = None" using assms(3) by (simp add: successor_def type_of_def)
  have "(\<lambda>y. fifo_of P s' y @ msgq_of P s' y) = (\<lambda>y. fifo_of P s y @ msgq_of P s y)(x := ms)"
    using f by (simp add: assms(7,8) fun_eq_iff)
  moreover have "box (world_of P log b (xs, own, s)) = (\<lambda>y. fifo_of P s y @ msgq_of P s y)" by (rule ext) simp
  ultimately show ?thesis
    unfolding same_world_of [OF assms(5), of log b xs own own] using f n assms(4,6,9)
    by (simp add: handle_def call_world_of) 
qed

lemma successor_next_fifo:
  assumes "sys_world P b xs Ms home s" and "x \<in> set xs" and "type_of s x = PUB_SUB_RX_TYPE_FIFO"
  shows "successor (world_of P log b (xs, own, s)) x m = next_fifo P s xs x (msg_id_of s m)"
proof -
  note w = sys_worldD [OF assms(1)]
  obtain us ys where xs: "xs = us @ x # ys" using assms(2) by (auto dest: split_list)
  have xu: "x \<notin> set us" using w(8) by (simp add: xs)
  then have "tl (dropWhile (\<lambda>y. y \<noteq> x) xs) = ys" unfolding xs by (induction us) auto
  moreover have "\<forall>y \<in> set ys. type_of s y = PUB_SUB_RX_TYPE_FIFO"
    using fifos_after [OF w(4) [unfolded xs] assms(3)] by blast
  ultimately show ?thesis
    using assms(3) next_fifo_split [OF xu, of P s ys "msg_id_of s m"]
    by (simp add: successor_def takers_wanting first_fifo_find type_of_def xs)
qed

lemma handle_fifo_refines:
  assumes "ref_inv P b xs Ms home own s" and "x \<in> set xs" and "type_of s x = PUB_SUB_RX_TYPE_FIFO"
    and "fifo_of P s x = m # ms" and "same_world P s s'" and "published P s' = published P s"
    and "fifo_of P s' = relayed (fifo_of P s) x m ms (next_fifo P s xs x (msg_id_of s m))" and "msgq_of P s' = msgq_of P s"
    and "log (app s') = log (app s) @ [(fst (handler_of s x), msg_id_of s m, m, snd (handler_of s x))]"
  shows "world_of P log b (xs, own, s') = effect (Handle x) (world_of P log b (xs, own, s))"
proof -
  let ?w = "world_of P log b (xs, own, s)" and ?n = "next_fifo P s xs x (msg_id_of s m)"
  note w = ref_invD(1) [OF assms(1)]
  have q: "msgq_of P s x = []" using box_by_type(2) [OF assms(1,2)] assms(3) by force
  have n: "successor ?w x m = ?n" by (rule successor_next_fifo [OF w assms(2,3)])
  have z: "msgq_of P s z = []" if "?n = Some z" for z
  proof -
    have "z \<in> set xs" by (rule next_fifo_in(1) [OF sys_worldD(8) [OF w] assms(2) that])
    moreover have "type_of s z = PUB_SUB_RX_TYPE_FIFO"
      using n that first_taker_in by (fastforce simp: successor_def type_of_def split: if_splits)
    ultimately show ?thesis using box_by_type(2) [OF assms(1), of z] by force
  qed
  have b: "box ?w = (\<lambda>y. fifo_of P s y @ msgq_of P s y)" by (rule ext) simp
  have "(\<lambda>y. fifo_of P s' y @ msgq_of P s' y) = (case ?n of None \<Rightarrow> (box ?w)(x := ms)
      | Some y \<Rightarrow> (box ?w)(x := ms, y := box ?w y @ [m]))"
    using q z by (cases ?n) (auto simp: assms(7,8) relayed_def b fun_eq_iff)
  then show ?thesis
    unfolding same_world_of [OF assms(5), of log b xs own own] using q n assms(4,6,9)
    by (simp add: handle_def call_world_of)
qed

lemma lib_event_refines:
  assumes "system_laws P log" and "lib_event P b xs e s s'" and "ref_inv P b xs Ms home own s"
  shows "enabled Ms home e (world_of P log b (xs, own, s)) \<and>
    world_of P log b (xs, own, s') = effect e (world_of P log b (xs, own, s))"
  using assms(2)
proof cases
  case (distribute m ms)
  then obtain s1 s2 where s1: "taken P b ms s s1" "delivered P log (msg_id_of s m) m xs 1 s1 s2" "freed P m s2 s'"
    "same_world P s s'"
    using distribute_step [OF assms(1,3) distribute(2-4)] by auto
  show ?thesis using distribute_refines [OF assms(3) distribute(2) s1] distribute(1,2) by simp
next
  case (handle_fifo x m ms t r)
  then show ?thesis
    using handle_fifo_step [OF assms(1,3) handle_fifo(2-5), of t] handle_fifo_refines [OF assms(3) handle_fifo(2-4)] by auto
next
  case (handle_msgq x t r)
  then obtain m ms where "msgq_of P s x = m # ms" by (cases "msgq_of P s x") auto
  then show ?thesis
    using handle_msgq_step [OF assms(1,3) handle_msgq(2,3), of m ms t] handle_msgq(1,2,5)
      handle_msgq_refines [OF assms(3) handle_msgq(2,3)] by auto
qed

text \<open>An allocation.\<close>

lemma allocate_refines:
  assumes "sub_views P s' = sub_views P s" and "msg_ident s' = (msg_ident s)(m \<mapsto> (i, aid))" and "published P s' = published P s"
    and "fifo_of P s' = fifo_of P s" and "msgq_of P s' = msgq_of P s" and "app s' = app s" and "own m = 0"
  shows "world_of P log b (xs, own(m := own m + 1), s') = effect (Allocate q m i) (world_of P log b (xs, own, s))"
  using assms sub_viewsD [OF assms(1)] by (simp add: world_of_def msg_id_of_def fun_eq_iff)

lemma exhausted_enabled:
  assumes "ref_inv P b xs Ms home own s" and "slab_pool P s q = {}"
  shows "enabled Ms home (Exhausted q) (world_of P log b (xs, own, s))"
proof -
  have "0 < refs P b xs own s m" if "m \<in> Ms" "home m = Some q" for m
    using ref_inv_refs(2) [OF assms(1) that] assms(2) by auto
  then show ?thesis by (simp add: live_refs)
qed

lemma resubscribed_world_of:
  assumes "resubscribed P x A s s'"
  shows "world_of P log b (xs, own, s') = (world_of P log b (xs, own, s))\<lparr>wants := (subscriptions P s)(x := A)\<rparr>"
  using assms by (simp add: resubscribed_def world_of_def msg_id_of_def [abs_def])

lemma relisted_world_of:
  assumes "relisted x c s s'"
  shows "world_of P log b (ys, own, s') = (world_of P log b (xs, own, s))\<lparr>members := ys\<rparr>"
  using relisted_views [OF assms] assms by (simp add: relisted_def world_of_def msg_id_of_def [abs_def])

text \<open>All events.\<close>

lemma sys_event_refines:
  assumes "app_laws P log" and "sys_event P b Ms home (xs, own, s) e (xs', own', s')" and "ref_inv P b xs Ms home own s"
  shows "enabled Ms home e (world_of P log b (xs, own, s)) \<and>
    world_of P log b (xs', own', s') = effect e (world_of P log b (xs, own, s))"
proof -
  have sl: "system_laws P log" "bitmap_laws P" "runtime_max_ok P" "CONFIG_PUB_SUB_RUNTIME_ALLOCATORS P"
    using assms(1) by (simp_all add: app_laws_def)
  note ri = assms(3)
  note lk = linked_in_linked [OF ri, of log]
  from assms(2) show ?thesis
  proof cases
    case (new q alloc n aid t i m)
    note n = new_step [OF system_core [OF sl(1)] ri sl(3,4) new(4-6), where i = i and t = t]
    show ?thesis
    proof (cases "slab_pool P s q = {}")
      case True
      then show ?thesis using n(2) new exhausted_enabled [OF ri True] by simp
    next
      case False
      then show ?thesis using n(1) new allocate_refines [of P s' s m i aid own log b xs q] live_refs [of P log b xs own s m] by auto
    qed
  next
    case (acquire m)
    then obtain "still P s s'" "app s' = app s" using acquire_step [OF system_core [OF sl(1)] ri, of m] by auto
    then show ?thesis using acquire still_world_of [of P s s' log b xs own' own] by (simp add: world_of_def)
  next
    case (release m)
    then obtain "still P s s'" "app s' = app s" using release_step [OF system_core [OF sl(1)] ri, of m] by auto
    then show ?thesis using release still_world_of [of P s s' log b xs own' own] by (simp add: world_of_def)
  next
    case (publish m)
    then obtain "same_world P s s'" "published P s' b = published P s b @ [m]" "fifo_of P s' = fifo_of P s"
      "msgq_of P s' = msgq_of P s" "app s' = app s"
      using publish_step [OF system_core [OF sl(1)] ri, of m] by auto
    then show ?thesis using publish lk same_world_of [of P s s' log b xs own' own] by (simp add: world_of_def)
  next
    case (publish_to x m)
    have "world_of P log b (xs', own', s') = effect (Send x m) (world_of P log b (xs, own, s))"
    proof (cases "type_of s x = PUB_SUB_RX_TYPE_CALLBACK")
      case True
      then obtain "still P s s'"
        "log (app s') = log (app s) @ [(fst (handler_of s x), msg_id_of s m, m, snd (handler_of s x))]"
        using private_callback_step [OF sl(1) ri publish_to(4-7)] publish_to(10) by auto
      then show ?thesis
        using publish_to True still_world_of [of P s s' log b xs own' own] by (simp add: call_def type_of_def world_of_def)
    next
      case False
      then have "app s' = app s" "published P s' = published P s" "same_world P s s'"
        "msgq_of P s' = (if type_of s x = PUB_SUB_RX_TYPE_MSGQ then (msgq_of P s)(x := msgq_of P s x @ [m]) else msgq_of P s)"
        "fifo_of P s' = (if type_of s x = PUB_SUB_RX_TYPE_FIFO then (fifo_of P s)(x := fifo_of P s x @ [m]) else fifo_of P s)"
        using private_queue_step [OF system_core [OF sl(1)] ri publish_to(4-8) False publish_to(9)] publish_to(10) by auto
      moreover have "type_of s x = PUB_SUB_RX_TYPE_FIFO \<Longrightarrow> msgq_of P s x = []"
        using box_by_type(2) [OF ri publish_to(4)] by force
      ultimately show ?thesis
        using publish_to False same_world_of [of P s s' log b xs own' own]
        by (cases "type_of s x") (auto simp: type_of_def world_of_def fun_eq_iff)
    qed
    then show ?thesis using publish_to lk by (simp add: type_of_def)
  next
    case (subscribe x i)
    then show ?thesis using subscribe_step(1) [OF sl(2) ri, of x i] resubscribed_world_of by fastforce
  next
    case (unsubscribe x i)
    then show ?thesis using subscribe_step(2) [OF sl(2) ri, of x i] resubscribed_world_of by fastforce
  next
    case (add x)
    have "x \<notin> set xs"
      using add(4) sys_worldD(3) [OF ref_invD(1) [OF ri]] by (auto simp: joinable_def addable_def sub_list_def)
    then show ?thesis
      using add add_step [OF sl(1) ri add(4-6)] relisted_world_of [of x b s s' P log b] by (auto simp: joinable_def)
  next
    case (remove x)
    then show ?thesis using remove_step [OF sl(1) ri, of x] relisted_world_of [of x NULL s s' P log b] by auto
  next
    case (handle_empty x r)
    then show ?thesis using handle_empty_step [OF system_core [OF sl(1)] ri, of x] handle_empty_refines [of P s s' x log b xs own] by auto
  next
    case work
    then show ?thesis using work_step [OF sl(1) ri] work_refines [OF ri] by auto
  next
    case library
    then show ?thesis using lib_event_refines [OF sl(1) _ ri] by simp
  qed
qed

text \<open>The model of the code implements the abstract system.\<close>

interpretation impl: refinement
  "\<lambda>(P, log, b, Ms, home). app_laws P log"
  "\<lambda>(P, log, b, Ms, home) (xs, own, s). ref_inv P b xs Ms home own s"
  "\<lambda>(P, log, b, Ms, home). sys_event P b Ms home"
  "\<lambda>(P, log, b, Ms, home). world_of P log b"
  "\<lambda>(P, log, b, Ms, home). enabled Ms home"
  effect
proof (unfold_locales, goal_cases)
  case (1 p c e c')
  then show ?case
    by (cases p; cases c; cases c') (auto dest: sys_stepI intro: sys_step_ref_inv)
next
  case (2 p c e c')
  then show ?case by (cases p; cases c; cases c') (auto dest: sys_event_refines)
next
  case (3 p c e c')
  then show ?case by (cases p; cases c; cases c') (auto dest: sys_event_refines)
qed

lemma runs_reach:
  "runs (sys_event P b Ms home) (xs0, \<lambda>_. 0, s0) es c \<Longrightarrow> sys_reach P b Ms home xs0 s0 c"
  by (induction rule: runs.induct) (auto intro: sys_reach.intros sys_stepI)

lemma world_wf:
  assumes "ref_inv P b xs Ms home own s"
  shows "wf_world (world_of P log b (xs, own, s))"
  using sys_worldD(8) [OF ref_invD(1) [OF assms]] subscriptions_max box_by_type [OF assms]
  by (fastforce simp: wf_world_def type_of_def)

text \<open>A run from the start: the invariant holds in the end, and the abstract system can take the same run.\<close>

lemma run_from_start:
  assumes "app_laws P log" and "sys_init P b xs0 Ms home s0" and "runs (sys_event P b Ms home) (xs0, \<lambda>_. 0, s0) es (xs, own, s)"
    and "w0 = world_of P log b (xs0, \<lambda>_. 0, s0)"
  shows "ref_inv P b xs Ms home own s" and "accepted (enabled Ms home) effect es w0"
    and "world_of P log b (xs, own, s) = fold effect es w0" and "wf_world w0"
    and "pending w0 = []" and "x \<in> set xs0 \<Longrightarrow> box w0 x = []"
proof -
  have r0: "ref_inv P b xs0 Ms home (\<lambda>_. 0) s0" by (rule sys_init_ref_inv [OF assms(2)])
  show "ref_inv P b xs Ms home own s" "accepted (enabled Ms home) effect es w0"
    "world_of P log b (xs, own, s) = fold effect es w0"
    using impl.run_refines [of "(P, log, b, Ms, home)" "(xs0, \<lambda>_. 0, s0)" es "(xs, own, s)"] assms r0 by simp_all
  show "wf_world w0" using world_wf [OF r0] assms(4) by simp
  show "pending w0 = []" "x \<in> set xs0 \<Longrightarrow> box w0 x = []" using assms(2,4) by (simp_all add: sys_init_def)
qed

section \<open>Every event can happen\<close>

text \<open>The bounds within which the code works: the counters are 8 bits wide, the message queues have
  capacities, and the loop over the published messages is unrolled \<open>n\<close> times.\<close>

definition refs_of :: "world \<Rightarrow> ptr \<Rightarrow> nat" where
  "refs_of w m = owned w m + count_list (pending w) m + (\<Sum>x \<in> set (members w). count_list (box w x) m)"

definition room :: "(ptr \<rightharpoonup> nat) \<Rightarrow> nat \<Rightarrow> world \<Rightarrow> ptr \<Rightarrow> bool" where
  "room cap k w x \<longleftrightarrow> (rx_kind w x = PUB_SUB_RX_TYPE_MSGQ \<longrightarrow> (\<exists>c. cap x = Some c \<and> length (box w x) + k \<le> c))"

fun fits :: "nat \<Rightarrow> (ptr \<rightharpoonup> nat) \<Rightarrow> event \<Rightarrow> world \<Rightarrow> bool" where
  "fits n cap (Acquire m) w \<longleftrightarrow> refs_of w m < 255"
| "fits n cap (Send x m) w \<longleftrightarrow> room cap 1 w x"
| "fits n cap Distribute w \<longleftrightarrow> (\<forall>x \<in> set (members w). room cap 1 w x) \<and>
     refs_of w (hd (pending w)) + length (members w) < 255"
| "fits n cap Work w \<longleftrightarrow> length (pending w) < n \<and> (\<forall>x \<in> set (members w). room cap (length (pending w)) w x) \<and>
     (\<forall>m \<in> set (pending w). refs_of w m + length (members w) < 255)"
| "fits n cap (Handle x) w \<longleftrightarrow> (case box w x of [] \<Rightarrow> True
     | m # _ \<Rightarrow> rx_kind w x = PUB_SUB_RX_TYPE_FIFO \<longrightarrow> refs_of w m < 255)"
| "fits n cap e w \<longleftrightarrow> True"

text \<open>What has to be set up in memory before an allocation, or before a subscriber joins.\<close>

fun set_up :: "('k, 'u) platform \<Rightarrow> (ptr \<rightharpoonup> ptr) \<Rightarrow> ptr list \<Rightarrow> ('k, 'u) memory \<Rightarrow> event \<Rightarrow> bool" where
  "set_up P home xs s (Allocate q m i) \<longleftrightarrow> (\<exists>alloc n aid. slab_allocator P s alloc q n \<and> assigned_id P s alloc aid)"
| "set_up P home xs s (Exhausted q) \<longleftrightarrow> q \<in> ran home \<and> (\<exists>alloc n aid. slab_allocator P s alloc q n \<and> assigned_id P s alloc aid)"
| "set_up P home xs s (Join x) \<longleftrightarrow> joinable P s x \<and> Suc (length xs) < fuel P \<and>
     ((\<exists>y \<in> set xs. type_of s y = type_of s x) \<or> (\<forall>y \<in> set xs. type_of s y < type_of s x))"
| "set_up P home xs s e \<longleftrightarrow> True"

text \<open>The allocator chooses the block.\<close>

fun same_call :: "event \<Rightarrow> event \<Rightarrow> bool" where
  "same_call (Allocate q m i) e \<longleftrightarrow> (\<exists>m'. e = Allocate q m' i)"
| "same_call e e' \<longleftrightarrow> e' = e"

lemma refs_of_world: "refs_of (world_of P log b (xs, own, s)) m = refs P b xs own s m"
  by (simp add: refs_of_def refs_def places_def linked_def held_def sum.distrib)

lemma ref_cnt_refs_of:
  assumes "ref_inv P b xs Ms home own s" and "live (world_of P log b (xs, own, s)) m \<or> home m = None" and "m \<in> Ms"
  shows "ref_cnt s m = refs_of (world_of P log b (xs, own, s)) m"
  using ref_inv_refs(1) [OF assms(1,3)] assms(2) by (auto simp: live_refs refs_of_world)

lemma room_can_take:
  assumes "ref_inv P b xs Ms home own s" and "x \<in> set xs" and "room (msgq_cap P s) k (world_of P log b (xs, own, s)) x"
  shows "can_take P k s x" and "k = 1 \<Longrightarrow> has_room P s x"
proof -
  have r: "ready_sub P b s x" by (rule sys_worldD(6) [OF ref_invD(1) [OF assms(1)] assms(2)])
  have q: "type_of s x = PUB_SUB_RX_TYPE_MSGQ \<Longrightarrow> fifo_of P s x = []" using box_by_type(1) [OF assms(1,2)] by force
  show "can_take P k s x"
    using r q assms(3) by (cases "type_of s x") (auto simp: can_take_def ready_sub_def room_def type_of_def)
  show "k = 1 \<Longrightarrow> has_room P s x" using q assms(3) by (auto simp: has_room_def room_def type_of_def)
qed

lemma event_possible:
  assumes "app_laws P log" and "ref_inv P b xs Ms home own s" and "w = world_of P log b (xs, own, s)"
    and "enabled Ms home e w" and "fits (fuel P) (msgq_cap P s) e w" and "set_up P home xs s e"
  shows "\<exists>e' c'. sys_event P b Ms home (xs, own, s) e' c' \<and> same_call e e'"
proof -
  have sl: "system_laws P log" "bitmap_laws P" "runtime_max_ok P" "CONFIG_PUB_SUB_RUNTIME_ALLOCATORS P"
    using assms(1) by (simp_all add: app_laws_def)
  note ri = assms(2) and st = sys_event.intros [where P = P and b = b and Ms = Ms and home = home and own = own and s = s]
  note en = assms(4) [unfolded assms(3)] and ft = assms(5) [unfolded assms(3)]
  note lk = linked_in_linked [OF ri, of log] and ct = room_can_take [OF ri, of _ _ log]
  have rc: "ref_cnt s m = refs_of (world_of P log b (xs, own, s)) m" "m \<in> Ms"
    if "live (world_of P log b (xs, own, s)) m" "0 < places P b xs s m \<or> m \<in> Ms" for m
    using ref_cnt_refs_of [OF ri, of log m] that ref_invD(8) [OF ri] by blast+
  show ?thesis
  proof (cases e)
    case (Allocate q m i)
    then obtain alloc n aid where a: "slab_allocator P s alloc q n" "assigned_id P s alloc aid" "q \<in> ran home"
      "m \<in> Ms" "home m = Some q" "\<not> live (world_of P log b (xs, own, s)) m"
      using assms(6) en by (auto simp: ranI)
    have "m \<in> slab_pool P s q" using ref_inv_refs(2) [OF ri a(4,5)] a(6) by (simp add: live_refs)
    then have ne: "slab_pool P s q \<noteq> {}" by blast
    obtain m' s' where "pub_sub_new_msg P alloc i n K_NO_WAIT s = Inr (m', s')" "m' \<noteq> NULL"
      using new_step(1) [OF system_core [OF sl(1)] ri sl(3,4) a(3,1,2) ne, of i K_NO_WAIT] by blast
    then show ?thesis using st(1) [OF a(3,1,2) disjI1 [OF ne], of i K_NO_WAIT m' s' xs] by (auto simp: Allocate)
  next
    case (Exhausted q)
    then obtain alloc n aid where a: "slab_allocator P s alloc q n" "assigned_id P s alloc aid" "q \<in> ran home"
      using assms(6) by auto
    have "slab_pool P s q = {}"
    proof (rule ccontr)
      assume "slab_pool P s q \<noteq> {}"
      then obtain m where m: "m \<in> slab_pool P s q" by blast
      note h = slab_pool_home [OF ri a(3) m]
      then show False using ref_inv_refs(2) [OF ri, of m q] m en by (auto simp: Exhausted live_refs)
    qed
    then have "pub_sub_new_msg P alloc 0 n K_NO_WAIT s = Inr (NULL, s)"
      using new_step(2) [OF system_core [OF sl(1)] ri sl(3,4) a(3,1,2), of K_NO_WAIT] by simp
    then show ?thesis using st(1) [OF a(3,1,2) disjI2, of K_NO_WAIT 0 NULL s xs] by (auto simp: Exhausted)
  next
    case (Acquire m)
    then have m: "m \<in> Ms" "home m = None \<or> 0 < own m" using en by simp_all
    then have "ref_cnt s m < 255"
      using ref_cnt_refs_of [OF ri, of log m] ft by (auto simp: Acquire live_def)
    then show ?thesis using acquire_step [OF system_core [OF sl(1)] ri m] st(2) [OF m] Acquire by fastforce
  next
    case (Release m)
    then have m: "m \<in> Ms" "0 < own m" using en by simp_all
    then show ?thesis using release_step [OF system_core [OF sl(1)] ri m] st(3) [OF m] Release by fastforce
  next
    case (Publish m)
    then have m: "m \<in> Ms" "0 < own m" "linked P b xs s m = 0" using en lk by simp_all
    then show ?thesis using publish_step [OF system_core [OF sl(1)] ri m] st(4) [OF m] Publish by fastforce
  next
    case (Send x m)
    then have m: "x \<in> set xs" "m \<in> Ms" "0 < own m" "max_id_of s x < msg_id_of s m"
      "type_of s x = PUB_SUB_RX_TYPE_FIFO \<longrightarrow> linked P b xs s m = 0"
      using en lk by (simp_all add: type_of_def)
    have r: "has_room P s x" using ft ct(2) [OF m(1), of 1] by (simp add: Send)
    have "\<exists>s'. pub_sub_publish_to_subscriber P x m s = Inr ((), s')"
      using private_callback_step [OF sl(1) ri m(1-4)] private_queue_step [OF system_core [OF sl(1)] ri m(1-4) r _ m(5)] by blast
    then show ?thesis using st(5) [OF m(1-4) r m(5)] Send by fastforce
  next
    case (Subscribe x i)
    then have m: "x \<in> set xs" "i \<le> max_id_of s x" using en by simp_all
    then show ?thesis using subscribe_step(1) [OF sl(2) ri m] st(6) [OF m] Subscribe by fastforce
  next
    case (Unsubscribe x i)
    then have m: "x \<in> set xs" "i \<le> max_id_of s x" using en by simp_all
    then show ?thesis using subscribe_step(2) [OF sl(2) ri m] st(7) [OF m] Unsubscribe by fastforce
  next
    case (Join x)
    then have m: "joinable P s x" "Suc (length xs) < fuel P"
      "(\<exists>y \<in> set xs. type_of s y = type_of s x) \<or> (\<forall>y \<in> set xs. type_of s y < type_of s x)"
      using assms(6) by simp_all
    then show ?thesis using add_step [OF sl(1) ri m] st(8) [OF m] Join by fastforce
  next
    case (Leave x)
    then have m: "x \<in> set xs" "fifo_of P s x = []" "msgq_of P s x = []" using en by simp_all
    then show ?thesis using remove_step [OF sl(1) ri m] st(9) [OF m] Leave by fastforce
  next
    case Distribute
    then obtain m ms where m: "published P s b = m # ms" using en by (auto simp: neq_Nil_conv)
    then have l: "live (world_of P log b (xs, own, s)) m" "0 < places P b xs s m"
      by (simp_all add: live_def places_def linked_def)
    have h: "\<forall>x \<in> set xs. has_room P s x" "ref_cnt s m + length xs < 255"
      using ft ct(2) [of _ 1] rc(1) [OF l(1)] l(2) m by (auto simp: Distribute)
    obtain s' where "distribute_one P b s = Inr ((), s')" using distribute_step [OF sl(1) ri m h] by blast
    then show ?thesis using st(12) [OF lib_event.distribute [OF m h]] Distribute by fastforce
  next
    case Work
    have l: "live (world_of P log b (xs, own, s)) m \<and> 0 < places P b xs s m" if "m \<in> set (published P s b)" for m
      using that by (auto simp: live_def places_def linked_def count_list_0_iff simp flip: neq0_conv)
    have h: "length (published P s b) < fuel P" "\<forall>x \<in> set xs. can_take P (length (published P s b)) s x"
      "\<forall>m \<in> set (published P s b). ref_cnt s m + length xs < 255"
      using ft ct(1) rc(1) l by (auto simp: Work)
    then show ?thesis using work_step [OF sl(1) ri h] st(11) [OF h] Work by fastforce
  next
    case (Handle x)
    then have x: "x \<in> set xs" using en by simp
    show ?thesis
    proof (cases "fifo_of P s x")
      case Nil
      show ?thesis
      proof (cases "msgq_of P s x")
        case Nil
        have "\<exists>r s'. pub_sub_handle_queued_msg P x K_NO_WAIT s = Inr (r, s')"
          using handle_empty_step [OF system_core [OF sl(1)] ri x] \<open>fifo_of P s x = []\<close> Nil by blast
        then show ?thesis using st(10) [OF x \<open>fifo_of P s x = []\<close> Nil] Handle by fastforce
      next
        case (Cons m ms)
        then have t: "type_of s x = PUB_SUB_RX_TYPE_MSGQ" "msgq_of P s x \<noteq> []" using box_by_type(2) [OF ri x] by simp_all
        obtain s' where "pub_sub_handle_queued_msg P x K_NO_WAIT s = Inr (0, s')"
          using handle_msgq_step [OF sl(1) ri x t(1) Cons, of K_NO_WAIT] by blast
        then show ?thesis using st(12) [OF lib_event.handle_msgq [OF x t]] Handle by fastforce
      qed
    next
      case (Cons m ms)
      then have t: "type_of s x = PUB_SUB_RX_TYPE_FIFO" using box_by_type(1) [OF ri x] by simp
      have "0 < held xs (fifo_of P s) m" using held_pop(2) [where f = "fifo_of P s", OF x Cons] .
      then have l: "live (world_of P log b (xs, own, s)) m" "0 < places P b xs s m"
        by (simp_all add: live_refs refs_def places_def linked_def)
      have r: "ref_cnt s m < 255" using ft rc(1) [OF l(1)] l(2) t Cons by (simp add: Handle type_of_def)
      obtain s' where "pub_sub_handle_queued_msg P x K_NO_WAIT s = Inr (0, s')"
        using handle_fifo_step [OF sl(1) ri x t Cons r, of K_NO_WAIT] by blast
      then show ?thesis using st(12) [OF lib_event.handle_fifo [OF x t Cons r]] Handle by fastforce
    qed
  qed
qed

end
