(* ===== verification/Scenarios.thy ===== *)
theory Scenarios imports Refinement begin

text \<open>
  What an application sees: a published message from end to end, two messages that reach a
  subscriber in the opposite order; and the properties of the system, with their examples.
\<close>

section \<open>Two messages to two FIFO subscribers\<close>

definition call_of :: "('k, 'u) memory \<Rightarrow> ptr \<Rightarrow> ptr \<Rightarrow> nat \<times> uint16 \<times> ptr \<times> ptr" where
  "call_of s x m = (fst (handler_of s x), msg_id_of s m, m, snd (handler_of s x))"

lemma same_worldD:
  assumes "same_world P s s'"
  shows "handler_of s' = handler_of s" and "type_of s' = type_of s" and "subscriptions P s' = subscriptions P s"
    and "msg_id_of s' = msg_id_of s" and "is_fifo_sub s' = is_fifo_sub s" and "call_of s' = call_of s"
  using assms sub_viewsD [of P s' s]
  by (simp_all add: same_world_def msg_id_of_def [abs_def] call_of_def [abs_def])

text \<open>A subscriber handles the message at the head of its queue.\<close>

definition take_turn :: "('k, 'u) platform \<Rightarrow> k_timeout \<Rightarrow> ptr \<Rightarrow> (('k, 'u) memory, unit) prog" where
  "take_turn P t x = discard (pub_sub_handle_queued_msg P x t)"

lemma take_turn_run [simp]: "pub_sub_handle_queued_msg P x t s = Inr (r, s') \<Longrightarrow> take_turn P t x s = Inr ((), s')"
  by (simp add: take_turn_def)

text \<open>Several messages are published.\<close>

lemma publish_all_step:
  assumes "system_laws P log"
  shows "ref_inv P b xs Ms home own s \<Longrightarrow> distinct ms \<Longrightarrow>
    \<forall>m \<in> set ms. m \<in> Ms \<and> 0 < own m \<and> linked P b xs s m = 0 \<Longrightarrow>
    \<exists>s' own'. run_all (map (pub_sub_publish_to_broker P b) ms) s = Inr ((), s') \<and>
      published P s' b = published P s b @ ms \<and> fifo_of P s' = fifo_of P s \<and> msgq_of P s' = msgq_of P s \<and>
      ref_cnt s' = ref_cnt s \<and> app s' = app s \<and> same_world P s s' \<and> ref_inv P b xs Ms home own' s'"
proof (induction ms arbitrary: own s)
  case Nil
  then show ?case by auto
next
  case (Cons m ms)
  then have m: "m \<in> Ms" "0 < own m" "linked P b xs s m = 0" by auto
  obtain s1 where s1: "pub_sub_publish_to_broker P b m s = Inr ((), s1)"
    "published P s1 b = published P s b @ [m]" "fifo_of P s1 = fifo_of P s" "msgq_of P s1 = msgq_of P s"
    "ref_cnt s1 = ref_cnt s" "app s1 = app s" "linked P b xs s1 = (linked P b xs s)(m := 1)" "same_world P s s1"
    "ref_inv P b xs Ms home (own(m := own m - 1)) s1"
    using publish_step [OF system_core [OF assms] Cons.prems(1) m] by blast
  have "\<forall>k \<in> set ms. k \<in> Ms \<and> 0 < (own(m := own m - 1)) k \<and> linked P b xs s1 k = 0"
    using Cons.prems(2,3) s1(7) by auto
  then obtain s' own' where "run_all (map (pub_sub_publish_to_broker P b) ms) s1 = Inr ((), s')"
    "published P s' b = published P s1 b @ ms" "fifo_of P s' = fifo_of P s1" "msgq_of P s' = msgq_of P s1"
    "ref_cnt s' = ref_cnt s1" "app s' = app s1" "same_world P s1 s'" "ref_inv P b xs Ms home own' s'"
    using Cons.IH [OF s1(9)] Cons.prems(2) by auto
  then show ?case using s1 same_world_trans [of P s s1 s'] by auto
qed

text \<open>Two FIFO subscribers, the second of which wants both messages, the first one only the first.\<close>

lemma two_fifos_published:
  assumes "system_laws P log" and "ref_inv P b [x, y] Ms home own s" and "2 < fuel P"
    and "type_of s x = PUB_SUB_RX_TYPE_FIFO" and "type_of s y = PUB_SUB_RX_TYPE_FIFO" and "published P s b = []"
    and "m1 \<noteq> m2" and "\<forall>m \<in> {m1, m2}. m \<in> Ms \<and> 0 < own m \<and> linked P b [x, y] s m = 0 \<and> ref_cnt s m < 253"
    and "first_fifo P s (msg_id_of s m1) [x, y] = Some x" and "first_fifo P s (msg_id_of s m2) [x, y] = Some y"
  shows "\<exists>s' own'. run_all [pub_sub_publish_to_broker P b m1, pub_sub_publish_to_broker P b m2,
      publish_work_handler P b] s = Inr ((), s') \<and> log (app s') = log (app s) \<and>
    fifo_of P s' x = fifo_of P s x @ [m1] \<and> fifo_of P s' y = fifo_of P s y @ [m2] \<and>
    ref_cnt s' m1 < 253 \<and> ref_cnt s' m2 < 253 \<and> same_world P s s' \<and> ref_inv P b [x, y] Ms home own' s'"
proof -
  note w = sys_worldD [OF ref_invD(1) [OF assms(2)]]
  have xy: "x \<noteq> y" using w(8) by simp
  obtain s2 own2 where s2: "run_all (map (pub_sub_publish_to_broker P b) [m1, m2]) s = Inr ((), s2)"
    "published P s2 b = [m1, m2]" "fifo_of P s2 = fifo_of P s" "ref_cnt s2 = ref_cnt s" "app s2 = app s"
    "same_world P s s2" "ref_inv P b [x, y] Ms home own2 s2"
    using publish_all_step [OF assms(1,2), of "[m1, m2]"] assms(6-8) by auto
  note v = same_worldD [OF s2(6)]
  have "\<forall>z \<in> set [x, y]. ready_sub P b s z" using w(6) by blast
  then have ct: "\<forall>z \<in> set [x, y]. can_take P (length (published P s2 b)) s2 z"
    using assms(4,5) v by (auto simp: can_take_def ready_sub_def)
  have rc: "\<forall>m \<in> set (published P s2 b). ref_cnt s2 m + length [x, y] < 255" using assms(8) s2(2,4) by simp
  have fu: "length (published P s2 b) < fuel P" using assms(3) s2(2) by simp
  obtain s3 where s3: "publish_work_handler P b s2 = Inr ((), s3)" "distributed P log [m1, m2] [x, y] s2 s3"
    "same_world P s2 s3" "ref_inv P b [x, y] Ms home own2 s3"
    using work_step [OF assms(1) s2(7) fu ct rc] unfolding s2(2) by blast
  have sp: "handler_calls P s2 = handler_calls P s" "first_fifo P s2 = first_fifo P s" "new_refs P s2 = new_refs P s"
    "msg_id_of s2 = msg_id_of s"
    using s2(6) spec_by_views [of P s2 s] by (simp_all add: same_world_def)
  note ds = s3(2) [unfolded distributed_def sp]
  have hc: "handler_calls P s [x, y] m = []" for m using assms(4,5) by (simp add: handler_calls_def)
  have nr: "new_refs P s [x, y] m1 = 1" "new_refs P s [x, y] m2 = 1"
    using assms(4,5,9,10) by (simp_all add: new_refs_def)
  have "fifo_of P s3 x = fifo_of P s x @ [m1]" "fifo_of P s3 y = fifo_of P s y @ [m2]"
    using ds assms(9,10) s2(3) xy by auto
  moreover have "ref_cnt s3 m1 < 253" "ref_cnt s3 m2 < 253" using ds nr assms(8) s2(4) by auto
  moreover have "log (app s3) = log (app s)" using ds hc s2(5) by simp
  ultimately show ?thesis
    using s2(1) s3(1,4) same_world_trans [OF s2(6) s3(3)] by (auto split: sum.splits)
qed

text \<open>A FIFO subscriber takes its turn; \<open>s\<close> is the state in which the world was described.\<close>

lemma fifo_turn:
  assumes "system_laws P log" and "ref_inv P b xs Ms home own s1" and "same_world P s s1" and "x \<in> set xs"
    and "type_of s x = PUB_SUB_RX_TYPE_FIFO" and "fifo_of P s1 x = m # ms" and "ref_cnt s1 m < n" and "n \<le> 255"
  shows "\<exists>s'. pub_sub_handle_queued_msg P x t s1 = Inr (0, s') \<and> log (app s') = log (app s1) @ [call_of s x m] \<and>
    fifo_of P s' = relayed (fifo_of P s1) x m ms (next_fifo P s1 xs x (msg_id_of s m)) \<and>
    msgq_of P s' = msgq_of P s1 \<and> published P s' = published P s1 \<and> (\<forall>k. ref_cnt s1 k < n \<longrightarrow> ref_cnt s' k < n) \<and> same_world P s s' \<and> ref_inv P b xs Ms home own s'"
proof -
  note v = same_worldD [OF assms(3)]
  have t: "type_of s1 x = PUB_SUB_RX_TYPE_FIFO" "ref_cnt s1 m < 255" using assms(5,7,8) v(2) by simp_all
  obtain s' where s': "pub_sub_handle_queued_msg P x t s1 = Inr (0, s')"
    "log (app s') = log (app s1) @ [(fst (handler_of s1 x), msg_id_of s1 m, m, snd (handler_of s1 x))]"
    "fifo_of P s' = relayed (fifo_of P s1) x m ms (next_fifo P s1 xs x (msg_id_of s1 m))"
    "msgq_of P s' = msgq_of P s1" "published P s' = published P s1"
    "\<forall>k. ref_cnt s' k \<le> ref_cnt s1 k" "same_world P s1 s'" "ref_inv P b xs Ms home own s'"
    using handle_fifo_step [OF assms(1,2,4) t(1) assms(6) t(2), of t] by blast
  have "\<forall>k. ref_cnt s1 k < n \<longrightarrow> ref_cnt s' k < n" using s'(6) le_less_trans by blast
  then show ?thesis using s' v same_world_trans [OF assms(3) s'(7)] by (auto simp: call_of_def)
qed

lemma next_fifo_last: "x \<noteq> y \<Longrightarrow> next_fifo P s [x, y] y i = None"
  using next_fifo_split [of y "[x]" P s "[]" i] by simp

section \<open>One message to all subscribers\<close>

text \<open>In the documented order of the list the subscribers that want a message are its callback
  subscribers, its message queue subscribers and its FIFO subscribers, in this order.\<close>

lemma wanting_by_type:
  assumes "sorted (map (type_of s) xs)"
  shows "filter (\<lambda>x. i \<in> subscriptions P s x) xs = wanting P s i PUB_SUB_RX_TYPE_CALLBACK xs @
      wanting P s i PUB_SUB_RX_TYPE_MSGQ xs @ wanting P s i PUB_SUB_RX_TYPE_FIFO xs"
    and "filter (\<lambda>x. i \<in> subscriptions P s x \<and> type_of s x \<noteq> PUB_SUB_RX_TYPE_CALLBACK) xs =
      wanting P s i PUB_SUB_RX_TYPE_MSGQ xs @ wanting P s i PUB_SUB_RX_TYPE_FIFO xs"
proof -
  have *: "filter (\<lambda>x. i \<in> subscriptions P s x) xs = wanting P s i PUB_SUB_RX_TYPE_CALLBACK xs @
      wanting P s i PUB_SUB_RX_TYPE_MSGQ xs @ wanting P s i PUB_SUB_RX_TYPE_FIFO xs \<and>
    filter (\<lambda>x. i \<in> subscriptions P s x \<and> type_of s x \<noteq> PUB_SUB_RX_TYPE_CALLBACK) xs =
      wanting P s i PUB_SUB_RX_TYPE_MSGQ xs @ wanting P s i PUB_SUB_RX_TYPE_FIFO xs"
    using assms
  proof (induction xs)
    case (Cons x xs)
    have le: "type_of s x \<le> type_of s y" if "y \<in> set xs" for y using Cons.prems that by simp
    have "wanting P s i k xs = []" if "k < type_of s x" for k
      using le that by (auto simp: wanting_def filter_empty_conv dest: less_le_trans)
    then show ?case using Cons by (cases "type_of s x") auto
  qed simp
  show "filter (\<lambda>x. i \<in> subscriptions P s x) xs = wanting P s i PUB_SUB_RX_TYPE_CALLBACK xs @
      wanting P s i PUB_SUB_RX_TYPE_MSGQ xs @ wanting P s i PUB_SUB_RX_TYPE_FIFO xs"
    using * by blast
  show "filter (\<lambda>x. i \<in> subscriptions P s x \<and> type_of s x \<noteq> PUB_SUB_RX_TYPE_CALLBACK) xs =
      wanting P s i PUB_SUB_RX_TYPE_MSGQ xs @ wanting P s i PUB_SUB_RX_TYPE_FIFO xs"
    using * by blast
qed

lemma run_all_append: "run_all (ms @ ms') s = thenM (run_all ms) (run_all ms') s"
  by (induction ms arbitrary: s) (auto split: sum.split)

text \<open>The message queue subscribers take their turns.\<close>

lemma msgq_turns:
  assumes "system_laws P log"
  shows "ref_inv P b xs Ms home own s1 \<Longrightarrow> same_world P s s1 \<Longrightarrow> distinct qs \<Longrightarrow>
    \<forall>x \<in> set qs. x \<in> set xs \<and> type_of s x = PUB_SUB_RX_TYPE_MSGQ \<and> msgq_of P s1 x = [m] \<Longrightarrow>
    \<exists>s'. run_all (map (take_turn P t) qs) s1 = Inr ((), s') \<and>
      log (app s') = log (app s1) @ map (\<lambda>x. call_of s x m) qs \<and>
      (\<forall>x. msgq_of P s' x = (if x \<in> set qs then [] else msgq_of P s1 x)) \<and> fifo_of P s' = fifo_of P s1 \<and>
      published P s' = published P s1 \<and> same_world P s s' \<and> ref_inv P b xs Ms home own s'"
proof (induction qs arbitrary: s1)
  case (Cons x qs)
  then have x: "x \<in> set xs" "type_of s1 x = PUB_SUB_RX_TYPE_MSGQ" "msgq_of P s1 x = m # []"
    using same_worldD(2) [OF Cons.prems(2)] by auto
  note v = same_worldD [OF Cons.prems(2)]
  have dq: "distinct qs" using Cons.prems(3) by simp
  obtain s2 where s2: "pub_sub_handle_queued_msg P x t s1 = Inr (0, s2)"
    "log (app s2) = log (app s1) @ [(fst (handler_of s1 x), msg_id_of s1 m, m, snd (handler_of s1 x))]"
    "msgq_of P s2 = (msgq_of P s1)(x := [])" "fifo_of P s2 = fifo_of P s1" "published P s2 = published P s1"
    "same_world P s1 s2" "ref_inv P b xs Ms home own s2"
    using handle_msgq_step [OF assms Cons.prems(1) x, of t] by blast
  have "\<forall>z \<in> set qs. z \<in> set xs \<and> type_of s z = PUB_SUB_RX_TYPE_MSGQ \<and> msgq_of P s2 z = [m]"
    using Cons.prems(3,4) s2(3) by auto
  then obtain s' where s': "run_all (map (take_turn P t) qs) s2 = Inr ((), s')"
    "log (app s') = log (app s2) @ map (\<lambda>x. call_of s x m) qs"
    "\<forall>x. msgq_of P s' x = (if x \<in> set qs then [] else msgq_of P s2 x)" "fifo_of P s' = fifo_of P s2"
    "published P s' = published P s2" "same_world P s s'" "ref_inv P b xs Ms home own s'"
    using Cons.IH [OF s2(7) same_world_trans [OF Cons.prems(2) s2(6)] dq] by blast
  show ?case
    by (rule exI [of _ s']) (use s' s2 v in \<open>auto simp: call_of_def\<close>)
qed simp

text \<open>The FIFO subscribers take their turns, in the order of the list.\<close>

lemma fifo_turns:
  assumes "system_laws P log" and "i = msg_id_of s m"
  shows "ref_inv P b (us @ zs) Ms home own s1 \<Longrightarrow> same_world P s s1 \<Longrightarrow>
    \<forall>z \<in> set zs. type_of s z = PUB_SUB_RX_TYPE_FIFO \<Longrightarrow> first_fifo P s i zs = None \<or> ref_cnt s1 m < 255 \<Longrightarrow>
    \<forall>x \<in> set (us @ zs). fifo_of P s1 x = (if first_fifo P s i zs = Some x then [m] else []) \<Longrightarrow>
    \<exists>s'. run_all (map (take_turn P t) (wanting P s i PUB_SUB_RX_TYPE_FIFO zs)) s1 =
        Inr ((), s') \<and>
      log (app s') = log (app s1) @ map (\<lambda>x. call_of s x m) (wanting P s i PUB_SUB_RX_TYPE_FIFO zs) \<and>
      (\<forall>x \<in> set (us @ zs). fifo_of P s' x = []) \<and> msgq_of P s' = msgq_of P s1 \<and>
      published P s' = published P s1 \<and> same_world P s s' \<and> ref_inv P b (us @ zs) Ms home own s'"
proof (induction zs arbitrary: us s1)
  case Nil
  then show ?case by (simp add: first_fifo_def)
next
  case (Cons z zs)
  have tz: "type_of s z = PUB_SUB_RX_TYPE_FIFO" "\<forall>z \<in> set zs. type_of s z = PUB_SUB_RX_TYPE_FIFO"
    using Cons.prems(3) by simp_all
  have dx: "distinct (us @ z # zs)" using sys_worldD(8) [OF ref_invD(1) [OF Cons.prems(1)]] .
  show ?case
  proof (cases "i \<in> subscriptions P s z")
    case False
    then have "first_fifo P s i (z # zs) = first_fifo P s i zs" by (simp add: first_fifo_def)
    then show ?thesis using Cons.IH [of "us @ [z]" s1] Cons.prems False tz by simp
  next
    case True
    then have ff: "first_fifo P s i (z # zs) = Some z" using tz(1) by (simp add: first_fifo_def)
    then have q: "fifo_of P s1 z = m # []" and r: "ref_cnt s1 m < 255" using Cons.prems(4,5) by simp_all
    have iz: "i \<le> max_id_of s1 z"
      using True same_worldD(3) [OF Cons.prems(2)] subscriptions_max [of i P s1 z] by simp
    have nx: "next_fifo P s1 (us @ z # zs) z i = first_fifo P s i zs"
      using next_fifo_split [of z us P s1 zs i] iz dx first_fifo_find [OF tz(2)] same_worldD(3) [OF Cons.prems(2)] by simp
    obtain s2 where s2: "pub_sub_handle_queued_msg P z t s1 = Inr (0, s2)" "log (app s2) = log (app s1) @ [call_of s z m]"
      "fifo_of P s2 = relayed (fifo_of P s1) z m [] (first_fifo P s i zs)" "msgq_of P s2 = msgq_of P s1"
      "published P s2 = published P s1" "\<forall>k. ref_cnt s1 k < 255 \<longrightarrow> ref_cnt s2 k < 255" "same_world P s s2"
      "ref_inv P b (us @ z # zs) Ms home own s2"
      using fifo_turn [OF assms(1) Cons.prems(1,2) _ tz(1) q r order_refl, of t] nx
      unfolding assms(2) by auto
    have "\<forall>x \<in> set ((us @ [z]) @ zs). fifo_of P s2 x = (if first_fifo P s i zs = Some x then [m] else [])"
    proof
      fix x assume x: "x \<in> set ((us @ [z]) @ zs)"
      have "z \<notin> set zs" using dx by simp
      then show "fifo_of P s2 x = (if first_fifo P s i zs = Some x then [m] else [])"
        using s2(3) Cons.prems(5) ff x first_fifo_in [of P s i zs]
        by (cases "first_fifo P s i zs") (auto simp: relayed_def)
    qed
    then show ?thesis
      using Cons.IH [of "us @ [z]" s2] s2 tz r True by auto
  qed
qed

lemma fifo_suffix:
  "sorted (map (type_of s) xs) \<Longrightarrow> \<exists>us zs. xs = us @ zs \<and> (\<forall>z \<in> set zs. type_of s z = PUB_SUB_RX_TYPE_FIFO) \<and>
     wanting P s i PUB_SUB_RX_TYPE_FIFO xs = wanting P s i PUB_SUB_RX_TYPE_FIFO zs"
proof (induction xs)
  case (Cons x xs)
  show ?case
  proof (cases "type_of s x = PUB_SUB_RX_TYPE_FIFO")
    case True
    then have "\<forall>z \<in> set (x # xs). type_of s z = PUB_SUB_RX_TYPE_FIFO" using Cons.prems by (auto intro: antisym)
    then show ?thesis by (intro exI [of _ "[]"] exI [of _ "x # xs"]) simp
  next
    case False
    obtain us zs where "xs = us @ zs" "\<forall>z \<in> set zs. type_of s z = PUB_SUB_RX_TYPE_FIFO"
      "wanting P s i PUB_SUB_RX_TYPE_FIFO xs = wanting P s i PUB_SUB_RX_TYPE_FIFO zs"
      using Cons.IH Cons.prems by auto
    then show ?thesis using False by (intro exI [of _ "x # us"] exI [of _ zs]) simp
  qed
qed simp

text \<open>Publishing one message and distributing it.\<close>

lemma one_published:
  assumes "system_laws P log" and "ref_inv P b xs Ms home own s" and "m \<in> Ms" and "0 < own m"
    and "published P s b = []" and "\<forall>x \<in> set xs. fifo_of P s x = [] \<and> msgq_of P s x = []"
    and "\<forall>x \<in> set xs. msgq_cap P s x \<noteq> Some 0" and "ref_cnt s m + length xs < 255" and "1 < fuel P"
  shows "\<exists>s'. run_all [pub_sub_publish_to_broker P b m, publish_work_handler P b] s = Inr ((), s') \<and>
    log (app s') = log (app s) @
      map (\<lambda>x. call_of s x m) (wanting P s (msg_id_of s m) PUB_SUB_RX_TYPE_CALLBACK xs) \<and> published P s' b = [] \<and>
    (\<forall>x \<in> set xs. msgq_of P s' x =
      (if x \<in> set (wanting P s (msg_id_of s m) PUB_SUB_RX_TYPE_MSGQ xs) then [m] else [])) \<and>
    (\<forall>x \<in> set xs. fifo_of P s' x = (if first_fifo P s (msg_id_of s m) xs = Some x then [m] else [])) \<and>
    same_world P s s' \<and> ref_inv P b xs Ms home (own(m := own m - 1)) s'"
proof -
  note w = sys_worldD [OF ref_invD(1) [OF assms(2)]]
  have "linked P b xs s m = 0" using assms(5,6) by (simp add: linked_def held_def)
  then obtain s1 where s1: "pub_sub_publish_to_broker P b m s = Inr ((), s1)" "published P s1 b = [m]"
    "fifo_of P s1 = fifo_of P s" "msgq_of P s1 = msgq_of P s" "ref_cnt s1 = ref_cnt s" "app s1 = app s"
    "same_world P s s1" "ref_inv P b xs Ms home (own(m := own m - 1)) s1"
    using publish_step [OF system_core [OF assms(1)] assms(2-4)] assms(5) by auto
  have sv: "sub_views P s1 = sub_views P s" "msg_ident s1 = msg_ident s" using s1(7) by (simp_all add: same_world_def)
  note v = sub_viewsD [OF sv(1)]
  have rd: "\<forall>x \<in> set xs. ready_sub P b s x" using w(6) by blast
  have ct: "\<forall>x \<in> set xs. can_take P (length (published P s1 b)) s1 x"
  proof
    fix x assume x: "x \<in> set xs"
    have "ready_sub P b s x" "msgq_of P s x = []" "msgq_cap P s x \<noteq> Some 0" using x rd assms(6,7) by blast+
    then have "has_room P s x" by (auto simp: has_room_def ready_sub_def)
    then have "can_take P (Suc 0) s x" using rd x ready_can_take by blast
    moreover have "can_take P n s1 = can_take P n s" for n by (rule can_take_cong [OF v(3,8,6) s1(4) v(7)])
    ultimately show "can_take P (length (published P s1 b)) s1 x" by (simp add: s1(2))
  qed
  have rc: "\<forall>k \<in> set (published P s1 b). ref_cnt s1 k + length xs < 255" using assms(8) s1(2,5) by simp
  have fu: "length (published P s1 b) < fuel P" using assms(9) s1(2) by simp
  obtain s2 where s2: "publish_work_handler P b s1 = Inr ((), s2)" "distributed P log [m] xs s1 s2"
    "published P s2 b = []" "same_world P s1 s2" "ref_inv P b xs Ms home (own(m := own m - 1)) s2"
    using work_step [OF assms(1) s1(8) fu ct rc] unfolding s1(2) by blast
  note ds = s2(2) [unfolded distributed_def spec_by_views [OF sv]]
  have "log (app s2) = log (app s) @ map (\<lambda>x. call_of s x m) (wanting P s (msg_id_of s m) PUB_SUB_RX_TYPE_CALLBACK xs)"
    using ds s1(6) by (simp add: handler_calls_def call_of_def)
  moreover have "\<forall>x \<in> set xs. msgq_of P s2 x =
      (if x \<in> set (wanting P s (msg_id_of s m) PUB_SUB_RX_TYPE_MSGQ xs) then [m] else [])"
    using ds s1(4) assms(6) by (simp add: wanted_by_msgq_def)
  moreover have "\<forall>x \<in> set xs. fifo_of P s2 x = (if first_fifo P s (msg_id_of s m) xs = Some x then [m] else [])"
    using ds s1(3) assms(6) by simp
  ultimately show ?thesis using s1(1) s2(1,3,5) same_world_trans [OF s1(7) s2(4)] by auto
qed

section \<open>Properties\<close>

text \<open>C2. In every run of the system, whatever the order of its steps (messages are allocated,
  acquired, released and published, subscriptions change, subscribers join, leave and handle
  messages, the work item distributes): add up the references that the
  application owns of a message and the places that hold it (the FIFO of published messages, and
  the FIFOs and message queues of the subscribers). The reference counter of a static message is
  this sum, and so is that of a message from a slab, unless the sum is 0; and exactly then its
  block is one of the slab's free blocks. So no message is freed while it is still queued or
  owned, none is freed twice, and none is leaked. A message is linked in one FIFO at most, and
  its link word is in use exactly then.\<close>

theorem refcount_invariant:
  assumes "app_laws P log" and "sys_init P b xs0 Ms home s0"
    and "sys_reach P b Ms home xs0 s0 (xs, own, s)" and "m \<in> Ms"
    and "n = own m + count_list (published P s b) m +
      (\<Sum>x \<in> set xs. count_list (fifo_of P s x) m + count_list (msgq_of P s x) m)"
  shows "(home m = None \<longrightarrow> ref_cnt s m = n) \<and>
    (\<forall>q. home m = Some q \<longrightarrow>
      (m \<in> slab_pool P s q \<longleftrightarrow> n = 0) \<and> (m \<notin> slab_pool P s q \<longrightarrow> ref_cnt s m = n)) \<and>
    linked P b xs s m \<le> 1 \<and> link_flag s m = Some (linked P b xs s m = 1)"
proof -
  have ri: "ref_inv P b xs Ms home own s" using sys_reach_ref_inv [OF assms(1-3)] by simp
  have "n = refs P b xs own s m"
    by (simp add: assms(5) refs_def places_def linked_def held_def sum.distrib)
  then show ?thesis using ref_inv_refs [OF ri assms(4)] ref_invD(6,7) [OF ri assms(4)] by auto
qed

text \<open>C22. Whenever the application stops, the library comes to rest: from any state that a run can
  reach, at most \<open>load\<close> steps are possible by which the work item distributes and subscribers
  handle messages, in whatever order they take them; and when no such step is possible any more,
  all FIFOs and message queues are empty and the references that are left are those of the
  application, so that every message from a slab that it has given away is back among the free
  blocks of its slab.\<close>

theorem library_quiescence:
  assumes "app_laws P log" and "sys_init P b xs0 Ms home s0"
    and "sys_reach P b Ms home xs0 s0 (xs, own, s)" and "(lib_step P b xs ^^ n) s s'"
    and "\<forall>x \<in> set xs. msgq_cap P s x \<noteq> Some 0" and "\<forall>m \<in> Ms. own m + length xs < 254"
  shows "n \<le> load P b xs s \<and> ((\<nexists>s''. lib_step P b xs s' s'') \<longrightarrow>
    published P s' b = [] \<and> (\<forall>x \<in> set xs. fifo_of P s' x = [] \<and> msgq_of P s' x = []) \<and>
    (\<forall>m \<in> Ms. (home m = None \<or> 0 < own m \<longrightarrow> ref_cnt s' m = own m) \<and>
      (\<forall>q. home m = Some q \<longrightarrow> (m \<in> slab_pool P s' q \<longleftrightarrow> own m = 0))))"
proof -
  have ri: "ref_inv P b xs Ms home own s" using sys_reach_ref_inv [OF assms(1-3)] by simp
  have sl: "system_laws P log" using assms(1) by (simp add: app_laws_def)
  have e: "ref_inv P b xs Ms home own s'" "same_world P s s'" "n + load P b xs s' \<le> load P b xs s"
    using lib_run_effect [OF sl ri assms(4)] by auto
  have "\<forall>x \<in> set xs. msgq_cap P s' x \<noteq> Some 0"
    using assms(5) e(2) sub_viewsD(6) [of P s' s] by (simp add: same_world_def)
  note k = stuck_empty [OF sl e(1) this assms(6)]
  have "(home m = None \<or> 0 < own m \<longrightarrow> ref_cnt s' m = own m) \<and>
      (\<forall>q. home m = Some q \<longrightarrow> (m \<in> slab_pool P s' q \<longleftrightarrow> own m = 0))"
    if "m \<in> Ms" "\<nexists>s''. lib_step P b xs s' s''" for m
    using ref_inv_refs [OF e(1) that(1)] k(4) [OF that(2,1)] by auto
  then show ?thesis using k(1-3) e(3) by auto
qed

text \<open>C32. Messages of one publisher can reach a FIFO subscriber in the opposite order (the README says
  that messages are received in the order in which they are published). \<open>x\<close> and \<open>y\<close> are the two
  subscribers of a broker; \<open>y\<close> wants both messages and \<open>x\<close> the first one only. The work item
  puts the first message into the FIFO of \<open>x\<close> and the second one into that of \<open>y\<close>; only when
  \<open>x\<close> handles the first message is it passed on to \<open>y\<close>, behind the second.\<close>

theorem fifo_order_inversion:
  assumes "system_laws P log" and "ref_inv P b [x, y] Ms home own s" and "2 < fuel P"
    and "type_of s x = PUB_SUB_RX_TYPE_FIFO" and "published P s b = []"
    and "fifo_of P s x = []" and "fifo_of P s y = []" and "m1 \<noteq> m2"
    and "\<forall>m \<in> {m1, m2}. m \<in> Ms \<and> 0 < own m \<and> linked P b [x, y] s m = 0 \<and> ref_cnt s m < 253"
    and "msg_id_of s m1 \<in> subscriptions P s x" and "msg_id_of s m1 \<in> subscriptions P s y"
    and "msg_id_of s m2 \<notin> subscriptions P s x" and "msg_id_of s m2 \<in> subscriptions P s y"
  shows "\<exists>s'. run_all [pub_sub_publish_to_broker P b m1, pub_sub_publish_to_broker P b m2,
      publish_work_handler P b, take_turn P t x,
      take_turn P t y, take_turn P t y] s = Inr ((), s') \<and>
    log (app s') = log (app s) @ [call_of s x m1, call_of s y m2, call_of s y m1]"
proof -
  note w = sys_worldD [OF ref_invD(1) [OF assms(2)]]
  have xy: "x \<noteq> y" "x \<in> set [x, y]" "y \<in> set [x, y]" using w(8) by simp_all
  have ty: "type_of s y = PUB_SUB_RX_TYPE_FIFO" using fifos_after [of s "[]" x "[y]" y] w(4) assms(4) by simp
  have ff: "first_fifo P s (msg_id_of s m1) [x, y] = Some x" "first_fifo P s (msg_id_of s m2) [x, y] = Some y"
    using assms(4,10-13) ty by (simp_all add: first_fifo_def)
  obtain s3 own' where s3: "run_all [pub_sub_publish_to_broker P b m1, pub_sub_publish_to_broker P b m2,
      publish_work_handler P b] s = Inr ((), s3)" "log (app s3) = log (app s)"
    "fifo_of P s3 x = [m1]" "fifo_of P s3 y = [m2]" "ref_cnt s3 m1 < 253" "ref_cnt s3 m2 < 253" "same_world P s s3"
    "ref_inv P b [x, y] Ms home own' s3"
    using two_fifos_published [OF assms(1-4) ty assms(5,8,9) ff] assms(6,7) by auto
  have nx: "next_fifo P s3 [x, y] x (msg_id_of s m1) = Some y"
    using assms(10,11) same_worldD(3) [OF s3(7)] subscriptions_max [of "msg_id_of s m1" P s3 x]
    by (simp add: next_fifo_def)
  obtain s4 where s4: "pub_sub_handle_queued_msg P x t s3 = Inr (0, s4)" "log (app s4) = log (app s3) @ [call_of s x m1]"
    "fifo_of P s4 y = [m2, m1]" "\<forall>k. ref_cnt s3 k < 253 \<longrightarrow> ref_cnt s4 k < 253" "same_world P s s4"
    "ref_inv P b [x, y] Ms home own' s4"
    using fifo_turn [OF assms(1) s3(8,7) xy(2) assms(4) s3(3,5), of t] nx s3(4) xy(1) by (auto simp: relayed_def)
  have r4: "ref_cnt s4 m2 < 253" "ref_cnt s4 m1 < 253" using s4(4) s3(5,6) by blast+
  obtain s5 where s5: "pub_sub_handle_queued_msg P y t s4 = Inr (0, s5)" "log (app s5) = log (app s4) @ [call_of s y m2]"
    "fifo_of P s5 y = [m1]" "\<forall>k. ref_cnt s4 k < 253 \<longrightarrow> ref_cnt s5 k < 253" "same_world P s s5"
    "ref_inv P b [x, y] Ms home own' s5"
    using fifo_turn [OF assms(1) s4(6,5) xy(3) ty s4(3) r4(1), of t]
    by (auto simp: relayed_def next_fifo_last [OF xy(1)])
  have r5: "ref_cnt s5 m1 < 253" using s5(4) r4(2) by blast
  obtain s6 where s6: "pub_sub_handle_queued_msg P y t s5 = Inr (0, s6)" "log (app s6) = log (app s5) @ [call_of s y m1]"
    using fifo_turn [OF assms(1) s5(6,5) xy(3) ty s5(3) r5, of t] by auto
  have "log (app s6) = log (app s) @ [call_of s x m1, call_of s y m2, call_of s y m1]"
    using s6(2) s5(2) s4(2) s3(2) by simp
  then show ?thesis using s3(1) s4(1) s5(1) s6(1) by (auto split: sum.splits)
qed

text \<open>C1. From end to end: when a message is published while nothing else is queued, the work item
  runs, and then each queue subscriber that has subscribed to the message handles what is in its
  queue, then every subscriber of the broker that has subscribed to the message has been called
  with it exactly once, in the order of the broker's list (with its callback, message queue and
  FIFO subscribers in their documented order), and no other subscriber has; all queues are empty
  again; and the references that are left are those of the application, without the one it has
  published: when this was the last one, a message from a slab is back among the slab's free
  blocks, and otherwise it is not.\<close>

theorem end_to_end:
  assumes "system_laws P log" and "ref_inv P b xs Ms home own s" and "m \<in> Ms" and "0 < own m"
    and "published P s b = []" and "\<forall>x \<in> set xs. fifo_of P s x = [] \<and> msgq_of P s x = []"
    and "\<forall>x \<in> set xs. msgq_cap P s x \<noteq> Some 0" and "ref_cnt s m + length xs < 255" and "1 < fuel P"
    and "i = msg_id_of s m"
  shows "\<exists>s'. run_all (pub_sub_publish_to_broker P b m # publish_work_handler P b #
      map (take_turn P t)
        (filter (\<lambda>x. i \<in> subscriptions P s x \<and> type_of s x \<noteq> PUB_SUB_RX_TYPE_CALLBACK) xs)) s = Inr ((), s') \<and>
    log (app s') = log (app s) @ map (\<lambda>x. call_of s x m) (filter (\<lambda>x. i \<in> subscriptions P s x) xs) \<and>
    published P s' b = [] \<and> (\<forall>x \<in> set xs. fifo_of P s' x = [] \<and> msgq_of P s' x = []) \<and>
    (home m = None \<or> 1 < own m \<longrightarrow> ref_cnt s' m = own m - 1) \<and>
    (\<forall>q. home m = Some q \<longrightarrow> (m \<in> slab_pool P s' q \<longleftrightarrow> own m = 1))"
proof -
  note w = sys_worldD [OF ref_invD(1) [OF assms(2)]]
  let ?q = "wanting P s i PUB_SUB_RX_TYPE_MSGQ xs"
  obtain s2 where s2: "run_all [pub_sub_publish_to_broker P b m, publish_work_handler P b] s = Inr ((), s2)"
    "log (app s2) = log (app s) @ map (\<lambda>x. call_of s x m) (wanting P s i PUB_SUB_RX_TYPE_CALLBACK xs)"
    "published P s2 b = []" "\<forall>x \<in> set xs. msgq_of P s2 x = (if x \<in> set ?q then [m] else [])"
    "\<forall>x \<in> set xs. fifo_of P s2 x = (if first_fifo P s i xs = Some x then [m] else [])"
    "same_world P s s2" "ref_inv P b xs Ms home (own(m := own m - 1)) s2"
    using one_published [OF assms(1-9)] unfolding assms(10) by blast
  have q: "distinct ?q" "\<forall>x \<in> set ?q. x \<in> set xs \<and> type_of s x = PUB_SUB_RX_TYPE_MSGQ \<and> msgq_of P s2 x = [m]"
    using w(8) s2(4) by (auto simp: wanting_def)
  obtain s3 where s3: "run_all (map (take_turn P t) ?q) s2 = Inr ((), s3)"
    "log (app s3) = log (app s2) @ map (\<lambda>x. call_of s x m) ?q"
    "\<forall>x. msgq_of P s3 x = (if x \<in> set ?q then [] else msgq_of P s2 x)" "fifo_of P s3 = fifo_of P s2"
    "published P s3 = published P s2" "same_world P s s3" "ref_inv P b xs Ms home (own(m := own m - 1)) s3"
    using msgq_turns [OF assms(1) s2(7,6) q] by blast
  have e3: "\<forall>x \<in> set xs. msgq_of P s3 x = []" using s3(3) s2(4) by simp
  note d3 = ref_invD [OF s3(7)]
  have om: "own m < 255"
    using ref_invD(5) [OF assms(2,3) in_useI(1) [of own m home P b xs s, OF assms(4)]] assms(8)
    by (simp add: refs_def)
  obtain us zs where z: "xs = us @ zs" "\<forall>z \<in> set zs. type_of s z = PUB_SUB_RX_TYPE_FIFO"
    "wanting P s i PUB_SUB_RX_TYPE_FIFO xs = wanting P s i PUB_SUB_RX_TYPE_FIFO zs"
    using fifo_suffix [OF w(4)] by blast
  have ff: "first_fifo P s i xs = first_fifo P s i zs" using z(3) by (simp add: first_fifo_def)
  have r3: "first_fifo P s i zs = None \<or> ref_cnt s3 m < 255"
  proof (cases "first_fifo P s i zs")
    case (Some x)
    then have x: "x \<in> set xs" "fifo_of P s3 x = [m]" using first_fifo_in [of P s i zs x] z(1) s2(5) s3(4) ff by auto
    then have "0 < held xs (fifo_of P s3) m" unfolding held_pos by (intro bexI [of _ x]) simp_all
    then have "0 < places P b xs s3 m" by (simp add: places_def linked_def)
    note u = in_useI(2) [OF this, of home "own(m := own m - 1)"]
    have "held xs (msgq_of P s3) m = 0" using e3 by (simp add: held_def)
    then have "ref_cnt s3 m < 255"
      using d3(5) [OF assms(3) u] d3(6) [OF assms(3)] om assms(4) by (simp add: refs_def places_def)
    then show ?thesis by blast
  qed simp
  have fz: "\<forall>x \<in> set (us @ zs). fifo_of P s3 x = (if first_fifo P s i zs = Some x then [m] else [])"
    using s2(5) s3(4) ff z(1) by simp
  obtain s4 where s4: "run_all (map (take_turn P t)
      (wanting P s i PUB_SUB_RX_TYPE_FIFO zs)) s3 = Inr ((), s4)"
    "log (app s4) = log (app s3) @ map (\<lambda>x. call_of s x m) (wanting P s i PUB_SUB_RX_TYPE_FIFO zs)"
    "\<forall>x \<in> set (us @ zs). fifo_of P s4 x = []" "msgq_of P s4 = msgq_of P s3" "published P s4 = published P s3"
    "ref_inv P b (us @ zs) Ms home (own(m := own m - 1)) s4"
    using fifo_turns [OF assms(1,10) s3(7) [unfolded z(1)] s3(6) z(2) r3 fz, of t]
    by blast
  have e: "published P s4 b = []" "\<forall>x \<in> set xs. fifo_of P s4 x = [] \<and> msgq_of P s4 x = []"
    using s4(3-5) s3(5) s2(3) e3 z(1) by simp_all
  have "refs P b xs (own(m := own m - 1)) s4 m = own m - 1"
    using e by (simp add: refs_def places_def linked_def held_def)
  then have "(home m = None \<or> 1 < own m \<longrightarrow> ref_cnt s4 m = own m - 1) \<and>
      (\<forall>q. home m = Some q \<longrightarrow> (m \<in> slab_pool P s4 q \<longleftrightarrow> own m = 1))"
    using ref_inv_refs [OF s4(6) [folded z(1)] assms(3)] assms(4) by auto
  moreover have "log (app s4) = log (app s) @ map (\<lambda>x. call_of s x m) (filter (\<lambda>x. i \<in> subscriptions P s x) xs)"
    using s4(2) s3(2) s2(2) z(3) by (simp add: wanting_by_type(1) [OF w(4)])
  moreover have "run_all (pub_sub_publish_to_broker P b m # publish_work_handler P b #
      map (take_turn P t)
        (filter (\<lambda>x. i \<in> subscriptions P s x \<and> type_of s x \<noteq> PUB_SUB_RX_TYPE_CALLBACK) xs)) s = Inr ((), s4)"
    using run_all_append [of "[pub_sub_publish_to_broker P b m, publish_work_handler P b]"] s2(1) s3(1) s4(1)
    by (simp add: wanting_by_type(2) [OF w(4)] z(3) run_all_append)
  ultimately show ?thesis using e by blast
qed

section \<open>Examples\<close>

text \<open>The broker of the examples of theory Delivery. Message 2 is static and has the header \<open>w\<close>;
  message 40 is the block of slab 30, whose allocator is the first one of the runtime table, and
  has the header \<open>v\<close>; \<open>bs\<close> are the free blocks.\<close>

definition some_kinds :: "uint32 \<Rightarrow> uint32 \<Rightarrow> ptr list \<Rightarrow> (kobj, (nat \<times> uint16 \<times> ptr \<times> ptr) list) memory" where
  "some_kinds w v bs = all_kinds\<lparr>
     messages := [2 \<mapsto> \<lparr>fifo_reserved = False, atomic_data = w\<rparr>, 40 \<mapsto> \<lparr>fifo_reserved = False, atomic_data = v\<rparr>],
     g_runtime_allocators := \<lparr>allocators = [20, NULL, NULL, NULL, NULL], num_allocators = 1, mutex = kobj0\<rparr>,
     allocator_objs := [20 \<mapsto> (PUB_SUB_MEM_SLAB_ALLOCATOR_DEFINE_STATIC 30)\<lparr>allocator_id := 0x80\<rparr>],
     mem_slabs := [30 \<mapsto> kobj0\<lparr>k_items := bs, k_cap := 16\<rparr>]\<rparr>"

lemma some_kinds_sel [simp]:
  "messages (some_kinds w v bs) =
     [2 \<mapsto> \<lparr>fifo_reserved = False, atomic_data = w\<rparr>, 40 \<mapsto> \<lparr>fifo_reserved = False, atomic_data = v\<rparr>]"
  "app (some_kinds w v bs) = []" "brokers (some_kinds w v bs) = brokers all_kinds"
  "g_runtime_allocators (some_kinds w v bs) =
     \<lparr>allocators = [20, NULL, NULL, NULL, NULL], num_allocators = 1, mutex = kobj0\<rparr>"
  "allocator_objs (some_kinds w v bs) = [20 \<mapsto> (PUB_SUB_MEM_SLAB_ALLOCATOR_DEFINE_STATIC 30)\<lparr>allocator_id := 0x80\<rparr>]"
  "mem_slabs (some_kinds w v bs) = [30 \<mapsto> kobj0\<lparr>k_items := bs, k_cap := 16\<rparr>]"
  by (simp_all add: some_kinds_def)

lemma some_kinds_views:
  "sub_views noting_platform (some_kinds w v bs) = sub_views noting_platform all_kinds"
  "fifo_of noting_platform (some_kinds w v bs) = fifo_of noting_platform all_kinds"
  "msgq_of noting_platform (some_kinds w v bs) = msgq_of noting_platform all_kinds"
  "published noting_platform (some_kinds w v bs) = published noting_platform all_kinds"
proof -
  let ?s = "some_kinds w v bs"
  have s: "subscribers ?s = subscribers all_kinds" "bitarrays ?s = bitarrays all_kinds"
    "slists ?s = slists all_kinds" "msgqs ?s = msgqs all_kinds"
    by (simp_all add: some_kinds_def)
  note u = views_by_subscribers [OF s(1)]
  show "sub_views noting_platform ?s = sub_views noting_platform all_kinds"
    by (rule sub_views_cong_mem [OF s(1-3) sub_list_by_subscribers(1) [OF s(1-3)] msgq_cap_by_queues [OF u(3) s(4)]]) simp
  show "fifo_of noting_platform ?s = fifo_of noting_platform all_kinds" by (rule u(5))
  show "msgq_of noting_platform ?s = msgq_of noting_platform all_kinds"
    by (rule msgq_of_by_queues [OF u(3) s(4)])
  show "published noting_platform ?s = published noting_platform all_kinds" by (rule by_brokers) simp
qed

lemma all_kinds_ready: "\<forall>x \<in> set [4, 6, 10]. ready_sub noting_platform 9 all_kinds x \<and>
    msgq_cap noting_platform all_kinds x \<noteq> Some 0 \<and> fifo_of noting_platform all_kinds x = [] \<and>
    msgq_of noting_platform all_kinds x = []"
  by (simp add: ready_sub_def user_handled_def broker_of_def type_of_def key_of_def msgq_cap_def msgq_ptr_def
      has_fifo_def is_fifo_sub_def a_subscriber_def fifo_of_def msgq_of_def kobj0_def)

lemma some_kinds_world:
  assumes "alloc_of w = PUB_SUB_ALLOC_ID_STATIC_MSG"
  shows "sys_world noting_platform 9 [4, 6, 10] {2, 40} [40 \<mapsto> 30] (some_kinds w v bs)"
proof -
  let ?s = "some_kinds w v bs"
  note u = sub_viewsD [OF some_kinds_views(1), of w v bs]
  have m: "msg_ident ?s 2 = Some (id_of w, PUB_SUB_ALLOC_ID_STATIC_MSG)" using assms by (simp add: msg_ident_def)
  have "\<forall>x \<in> set [4, 6, 10]. ready_sub noting_platform 9 ?s x"
    using all_kinds_ready unfolding ready_sub_def u by blast
  moreover have "valid_msg ?s 2" "valid_msg ?s 40" by (simp_all add: valid_msg_def)
  moreover have "unowned noting_platform ?s 2"
    using m by (simp add: unowned_def allocator_at_def alloc_id_defs noting_platform_def)
  moreover have "own_msgqs ?s" using all_kinds_subs(3) by (simp add: own_msgqs_def u(5))
  moreover have "sorted (map (type_of ?s) [4, 6, 10])" using u(3) by (simp add: all_kinds_views)
  moreover have "runtime_ok noting_platform ?s"
    by (simp add: runtime_ok_def noting_platform_def runtime_id_def alloc_id_defs)
  ultimately show ?thesis
    using all_kinds_subs(1) u(1) by (simp add: sys_world_def)
qed

lemma some_kinds_slab:
  "slab_pool noting_platform (some_kinds w v bs) q = (if q = 30 then set bs else {})"
  "slab_allocator noting_platform (some_kinds w v [40]) 20 30 8"
  "assigned_id noting_platform (some_kinds w v bs) 20 0x80"
  "alloc_of v = 0x80 \<Longrightarrow> slab_owned noting_platform (some_kinds w v bs) 40 30"
proof -
  have f: "slab_fits noting_platform (some_kinds w v bs) 30 8" for bs
    by (simp add: slab_fits_def size_sub_def noting_platform_def PUB_SUB_MSG_OVERHEAD_NUM_BYTES_def)
  show "slab_pool noting_platform (some_kinds w v bs) q = (if q = 30 then set bs else {})"
    by (simp add: slab_pool_def noting_platform_def kobj0_def)
  show "slab_allocator noting_platform (some_kinds w v [40]) 20 30 8"
    using f by (simp add: slab_allocator_def PUB_SUB_MEM_SLAB_ALLOCATOR_DEFINE_STATIC_def
        PUB_SUB_ALLOCATOR_DEFINE_def slab_pool_def noting_platform_def kobj0_def)
  show "assigned_id noting_platform (some_kinds w v bs) 20 0x80"
    by (simp add: assigned_id_def alloc_id_defs)
  show "slab_owned noting_platform (some_kinds w v bs) 40 30" if "alloc_of v = 0x80"
    using f that by (auto simp: slab_owned_def msg_ident_def allocator_at_def alloc_id_defs noting_platform_def
        PUB_SUB_MEM_SLAB_ALLOCATOR_DEFINE_STATIC_def PUB_SUB_ALLOCATOR_DEFINE_def)
qed

lemma noting_system_laws: "system_laws noting_platform (\<lambda>a. a)" "app_laws noting_platform (\<lambda>a. a)"
  using noting_laws by (simp_all add: app_laws_def system_laws_def core_laws_def noting_platform_def ref_laws runtime_max_ok_def)

lemma static_word:
  "id_of 0x0003FE00 = 3" "alloc_of 0x0003FE00 = PUB_SUB_ALLOC_ID_STATIC_MSG" "ref_of 0x0003FE00 = 0"
  by (simp_all add: word_unat_eq_iff unat_id_of unat_alloc_of unat_ref_of alloc_id_defs)

lemma some_kinds_init: "sys_init noting_platform 9 [4, 6, 10] {2, 40} [40 \<mapsto> 30] (some_kinds 0x0003FE00 0 [40])"
  using some_kinds_world [OF static_word(2)] all_kinds_ready static_word(3)
  by (auto simp: sys_init_def some_kinds_views all_kinds_views ref_cnt_def link_flag_def some_kinds_slab(1)
      split: if_splits)

text \<open>The application allocates a message and publishes it.\<close>

lemma some_kinds_events:
  "\<exists>own s. runs (sys_event noting_platform 9 {2, 40} [40 \<mapsto> 30])
       ([4, 6, 10], \<lambda>_. 0, some_kinds 0x0003FE00 0 [40]) [Allocate 30 40 3, Publish 40] ([4, 6, 10], own, s) \<and>
     own 2 = 0 \<and> own 40 = 0 \<and> published noting_platform s 9 = [40] \<and>
     sub_views noting_platform s = sub_views noting_platform all_kinds \<and>
     (\<forall>x \<in> {4, 6, 10}. fifo_of noting_platform s x = [] \<and> msgq_of noting_platform s x = []) \<and> msg_id_of s 40 = 3"
proof -
  let ?P = "noting_platform" and ?s = "some_kinds 0x0003FE00 0 [40]" and ?M = "{2, 40} :: ptr set"
    and ?h = "[40 \<mapsto> 30] :: ptr \<rightharpoonup> ptr" and ?o = "(\<lambda>_. 0)(40 := 1) :: ptr \<Rightarrow> nat"
  note r = sys_init_ref_inv [OF some_kinds_init]
  have al: "runtime_max_ok ?P" "CONFIG_PUB_SUB_RUNTIME_ALLOCATORS ?P"
    using noting_system_laws(2) by (simp_all add: app_laws_def)
  have q: "30 \<in> ran ?h" "slab_pool ?P ?s 30 \<noteq> {}" by (simp_all add: some_kinds_slab(1))
  obtain m s1 where s1: "pub_sub_new_msg ?P 20 3 8 K_NO_WAIT ?s = Inr (m, s1)" "m \<noteq> NULL" "m \<in> ?M" "?h m = Some 30"
    "published ?P s1 = published ?P ?s" "fifo_of ?P s1 = fifo_of ?P ?s" "msgq_of ?P s1 = msgq_of ?P ?s"
    "sub_views ?P s1 = sub_views ?P ?s" "msg_ident s1 = (msg_ident ?s)(m \<mapsto> (3, 0x80))" "ref_inv ?P 9 [4, 6, 10] ?M ?h ((\<lambda>_. 0)(m := 1)) s1"
    using new_step(1) [OF system_core [OF noting_system_laws(1)] r al q(1) some_kinds_slab(2,3) q(2), of 3 K_NO_WAIT] by blast
  have m: "m = 40" using s1(4) by (simp split: if_splits)
  note st = sys_event.new [where own = "\<lambda>_. 0" and Ms = ?M and b = 9 and xs = "[4, 6, 10]",
      OF q(1) some_kinds_slab(2,3) disjI1 [OF q(2)] s1(1)]
  have l: "linked ?P 9 [4, 6, 10] s1 40 = 0"
    using s1(5,6) all_kinds_ready by (simp add: linked_def held_def some_kinds_views all_kinds_views)
  obtain s2 where s2: "pub_sub_publish_to_broker ?P 9 40 s1 = Inr ((), s2)" "published ?P s2 9 = published ?P s1 9 @ [40]"
    "fifo_of ?P s2 = fifo_of ?P s1" "msgq_of ?P s2 = msgq_of ?P s1" "same_world ?P s1 s2"
    using publish_step [OF system_core [OF noting_system_laws(1)] s1(10) _ _ l] unfolding m by auto
  have sp: "sys_event ?P 9 ?M ?h ([4, 6, 10], ?o, s1) (Publish 40) ([4, 6, 10], ?o(40 := ?o 40 - 1), s2)"
    by (rule sys_event.publish [OF _ _ l s2(1)]) simp_all
  have st1: "sys_event ?P 9 ?M ?h ([4, 6, 10], \<lambda>_. 0, ?s) (Allocate 30 40 3) ([4, 6, 10], ?o, s1)"
    using st s1(2) by (simp add: m)
  have "runs (sys_event ?P 9 ?M ?h) ([4, 6, 10], \<lambda>_. 0, ?s) [Allocate 30 40 3, Publish 40] ([4, 6, 10], ?o(40 := ?o 40 - 1), s2)"
    using st1 sp by (rule runs_two)
  moreover have "published ?P s2 9 = [40] \<and> (\<forall>x \<in> {4, 6, 10}. fifo_of ?P s2 x = [] \<and> msgq_of ?P s2 x = [])"
    using s2(2-4) s1(5-7) all_kinds_ready by (simp add: some_kinds_views all_kinds_views)
  moreover have "sub_views ?P s2 = sub_views ?P all_kinds"
    using s2(5) s1(8) some_kinds_views(1) by (simp add: same_world_def)
  moreover have "msg_id_of s2 40 = 3" using s1(9) s2(5) by (simp add: m same_world_def msg_id_of_def)
  moreover have "(?o(40 := ?o 40 - 1)) 40 = 0" "(?o(40 := ?o 40 - 1)) 2 = 0" by simp_all
  ultimately show ?thesis by blast
qed

lemma some_kinds_run:
  "\<exists>own s. sys_reach noting_platform 9 {2, 40} [40 \<mapsto> 30] [4, 6, 10] (some_kinds 0x0003FE00 0 [40]) ([4, 6, 10], own, s) \<and>
     own 2 = 0 \<and> own 40 = 0 \<and> published noting_platform s 9 = [40] \<and>
     sub_views noting_platform s = sub_views noting_platform all_kinds \<and>
     (\<forall>x \<in> {4, 6, 10}. fifo_of noting_platform s x = [] \<and> msgq_of noting_platform s x = [])"
  using some_kinds_events runs_reach by blast

theorem refcount_invariant_witness:
  "\<exists>own s. sys_reach noting_platform 9 {2, 40} [40 \<mapsto> 30] [4, 6, 10] (some_kinds 0x0003FE00 0 [40]) ([4, 6, 10], own, s) \<and>
     own 40 = 0 \<and> ref_cnt s 40 = 1 \<and> 40 \<notin> slab_pool noting_platform s 30"
proof -
  let ?P = "noting_platform"
  obtain own s where s: "sys_reach ?P 9 {2, 40} [40 \<mapsto> 30] [4, 6, 10] (some_kinds 0x0003FE00 0 [40]) ([4, 6, 10], own, s)"
    "own 40 = 0" "published ?P s 9 = [40]" "\<forall>x \<in> {4, 6, 10}. fifo_of ?P s x = [] \<and> msgq_of ?P s x = []"
    using some_kinds_run by blast
  have "40 \<notin> slab_pool ?P s 30 \<and> ref_cnt s 40 = 1"
    using refcount_invariant [OF noting_system_laws(2) some_kinds_init s(1), of 40, OF _ refl] s(2-4) by simp
  then show ?thesis using s(1,2) by blast
qed

theorem library_quiescence_witness:
  "\<exists>own s s'. sys_reach noting_platform 9 {2, 40} [40 \<mapsto> 30] [4, 6, 10] (some_kinds 0x0003FE00 0 [40]) ([4, 6, 10], own, s) \<and>
     (lib_step noting_platform 9 [4, 6, 10] ^^ 1) s s' \<and> 1 \<le> load noting_platform 9 [4, 6, 10] s"
proof -
  let ?P = "noting_platform"
  obtain own s where s: "sys_reach ?P 9 {2, 40} [40 \<mapsto> 30] [4, 6, 10] (some_kinds 0x0003FE00 0 [40]) ([4, 6, 10], own, s)"
    "own 2 = 0" "own 40 = 0" "published ?P s 9 = [40]" "sub_views ?P s = sub_views ?P all_kinds"
    "\<forall>x \<in> {4, 6, 10}. fifo_of ?P s x = [] \<and> msgq_of ?P s x = []"
    using some_kinds_run by blast
  note r = sys_reach_ref_inv [OF noting_system_laws(2) some_kinds_init s(1), simplified]
  note w = sys_worldD [OF ref_invD(1) [OF r]]
  have c: "\<forall>x \<in> set [4, 6, 10]. msgq_cap ?P s x \<noteq> Some 0"
    using all_kinds_ready sub_viewsD(6) [OF s(5)] by simp
  have hr: "\<forall>x \<in> set [4, 6, 10]. has_room ?P s x"
  proof
    fix x :: ptr assume x: "x \<in> set [4, 6, 10]"
    then have "ready_sub ?P 9 s x" "msgq_of ?P s x = []" "msgq_cap ?P s x \<noteq> Some 0" using w(6) s(6) c by auto
    then show "has_room ?P s x" by (auto simp: has_room_def ready_sub_def)
  qed
  have f: "refs ?P 9 [4, 6, 10] own s 40 = 1" using s(3,4,6) by (simp add: refs_def places_def linked_def held_def)
  then have b: "ref_cnt s 40 + length [4, 6, 10] < 255" using ref_invD(5) [OF r, of 40] by (simp add: in_use_def)
  obtain s' where "distribute_one ?P 9 s = Inr ((), s')"
    using distribute_step [OF noting_system_laws(1) r s(4) hr b] by blast
  then have st: "(lib_step ?P 9 [4, 6, 10] ^^ 1) s s'" using lib_stepI [OF lib_event.distribute [OF s(4) hr b]] unfolding relpowp_1 by blast
  have "1 \<le> load ?P 9 [4, 6, 10] s"
    using library_quiescence [OF noting_system_laws(2) some_kinds_init s(1) st c] s(2,3) by simp
  then show ?thesis using s(1) st by blast
qed

text \<open>Message 40 was allocated with id 3; the application owns its only reference, and it is back in
  the slab in the end.\<close>

theorem end_to_end_witness:
  "\<exists>s'. run_all (pub_sub_publish_to_broker noting_platform 9 40 # publish_work_handler noting_platform 9 #
       map (take_turn noting_platform K_NO_WAIT) [6, 10]) (some_kinds 0x0003FE00 0x00038001 []) = Inr ((), s') \<and>
     app s' = [(0, 3, 40, NULL), (1, 3, 40, NULL), (2, 3, 40, NULL)] \<and> 40 \<in> slab_pool noting_platform s' 30"
proof -
  let ?P = "noting_platform" and ?s = "some_kinds 0x0003FE00 0x00038001 []" and ?o = "(\<lambda>_. 0)(40 := 1) :: ptr \<Rightarrow> nat"
  have f: "id_of 0x00038001 = 3" "alloc_of 0x00038001 = 0x80" "ref_of 0x00038001 = 1"
    by (simp_all add: word_unat_eq_iff unat_id_of unat_alloc_of unat_ref_of)
  note v = sub_viewsD [OF some_kinds_views(1), of "0x0003FE00" "0x00038001" "[]"]
  have l: "linked ?P 9 [4, 6, 10] ?s m = 0" "places ?P 9 [4, 6, 10] ?s m = 0" for m
    using all_kinds_ready by (simp_all add: places_def linked_def held_def some_kinds_views all_kinds_views)
  have "slab_inv ?P {2, 40} [40 \<mapsto> 30] ?o ?s"
    using some_kinds_slab(4) [OF f(2)] f(3) static_word(3) by (auto simp: slab_inv_def some_kinds_slab(1) ref_cnt_def)
  moreover have "refs ?P 9 [4, 6, 10] ?o ?s = ?o" by (simp add: refs_def l(2) fun_eq_iff)
  ultimately have r: "ref_inv ?P 9 [4, 6, 10] {2, 40} [40 \<mapsto> 30] ?o ?s"
    using some_kinds_world [OF static_word(2)] l by (simp add: ref_inv_def link_flag_def)
  have q: "\<forall>x \<in> set [4, 6, 10]. fifo_of ?P ?s x = [] \<and> msgq_of ?P ?s x = []"
    "\<forall>x \<in> set [4, 6, 10]. msgq_cap ?P ?s x \<noteq> Some 0"
    using all_kinds_ready v(6) by (simp_all add: some_kinds_views)
  have p: "published ?P ?s 9 = []" "ref_cnt ?s 40 + length [4, 6, 10] < 255" "1 < fuel ?P"
    by (simp_all add: some_kinds_views all_kinds_views ref_cnt_def f)
  have id: "msg_id_of ?s 40 = 3" using f(1) by (simp add: msg_id_of_def msg_ident_def)
  have sb: "3 \<in> subscriptions ?P ?s 4" "3 \<in> subscriptions ?P ?s 6" "3 \<in> subscriptions ?P ?s 10"
    using all_kinds_subs(4) v(2) by simp_all
  have h: "handler_of ?s 4 = (0, NULL)" "handler_of ?s 6 = (1, NULL)" "handler_of ?s 10 = (2, NULL)"
    using v(4) by (simp_all add: handler_of_def a_subscriber_def)
  show ?thesis
    using end_to_end [OF noting_system_laws(1) r _ _ p(1) q p(2,3) id [symmetric], of K_NO_WAIT] sb h v(3) id
    by (auto simp: all_kinds_views call_of_def simp del: run_all.simps)
qed

text \<open>Broker 9 has two FIFO subscribers: 4 wants the messages with id 3, 6 those with ids 3 and 4.\<close>

definition id3_id4 :: "(kobj, (nat \<times> uint16 \<times> ptr \<times> ptr) list) memory" where
  "id3_id4 = (a_world False 0x0003FE01
     [4 \<mapsto> a_subscriber PUB_SUB_RX_TYPE_FIFO (Rx_fifo kobj0) 5 0 0,
      6 \<mapsto> a_subscriber PUB_SUB_RX_TYPE_FIFO (Rx_fifo kobj0) 7 1 0] [4, 6])
     \<lparr>messages := [2 \<mapsto> \<lparr>fifo_reserved = False, atomic_data = 0x0003FE01\<rparr>,
        3 \<mapsto> \<lparr>fifo_reserved = False, atomic_data = 0x0004FE01\<rparr>],
      bitarrays := [5 \<mapsto> [8], 7 \<mapsto> [24]],
      g_runtime_allocators := \<lparr>allocators = replicate 5 NULL, num_allocators = 0, mutex = kobj0\<rparr>\<rparr>"

lemma id3_id4_sel [simp]:
  "messages id3_id4 = [2 \<mapsto> \<lparr>fifo_reserved = False, atomic_data = 0x0003FE01\<rparr>,
     3 \<mapsto> \<lparr>fifo_reserved = False, atomic_data = 0x0004FE01\<rparr>]"
  "subscribers id3_id4 = [4 \<mapsto> a_subscriber PUB_SUB_RX_TYPE_FIFO (Rx_fifo kobj0) 5 0 0,
      6 \<mapsto> a_subscriber PUB_SUB_RX_TYPE_FIFO (Rx_fifo kobj0) 7 1 0]"
  "bitarrays id3_id4 = [5 \<mapsto> [8], 7 \<mapsto> [24]]" "app id3_id4 = []"
  "slists id3_id4 = kobj0\<lparr>k_lists := [(9, [4, 6])]\<rparr>"
  "g_runtime_allocators id3_id4 = \<lparr>allocators = replicate 5 NULL, num_allocators = 0, mutex = kobj0\<rparr>"
  "brokers id3_id4 9 = Some \<lparr>msg_publish_fifo = kobj0, sub_list_mutex = kobj0, publish_work = kobj0,
     publish_work_poll_event = kobj0\<rparr>"
  by (simp_all add: id3_id4_def)

lemma id4_word:
  "id_of 0x0004FE01 = 4" "alloc_of 0x0004FE01 = PUB_SUB_ALLOC_ID_STATIC_MSG" "ref_of 0x0004FE01 = 1"
  by (simp_all add: word_unat_eq_iff unat_id_of unat_alloc_of unat_ref_of alloc_id_defs)

lemma id3_id4_msgs:
  "msg_ident id3_id4 2 = Some (3, PUB_SUB_ALLOC_ID_STATIC_MSG)" "msg_ident id3_id4 3 = Some (4, PUB_SUB_ALLOC_ID_STATIC_MSG)"
  "msg_id_of id3_id4 2 = 3" "msg_id_of id3_id4 3 = 4" "ref_cnt id3_id4 2 = 1" "ref_cnt id3_id4 3 = 1"
  by (simp_all add: msg_ident_def msg_id_of_def ref_cnt_def a_word id4_word)

lemma id3_id4_queues:
  "fifo_of noting_platform id3_id4 4 = []" "fifo_of noting_platform id3_id4 6 = []"
  "msgq_of noting_platform id3_id4 4 = []" "msgq_of noting_platform id3_id4 6 = []"
  "published noting_platform id3_id4 9 = []" "type_of id3_id4 4 = PUB_SUB_RX_TYPE_FIFO" "type_of id3_id4 6 = PUB_SUB_RX_TYPE_FIFO"
  by (simp_all add: fifo_of_def msgq_of_def msgq_ptr_def published_def type_of_def key_of_def a_subscriber_def kobj0_def)

lemma id3_id4_ref_inv: "ref_inv noting_platform 9 [4, 6] {2, 3} (\<lambda>_. None) (\<lambda>_. 1) id3_id4"
proof -
  let ?P = "noting_platform"
  have l: "sub_list ?P id3_id4 9 [4, 6]"
    by (auto simp: sub_list_def slist_ok_def ref_nodes_def sub_ok_def a_subscriber_def)
  have r: "\<forall>x \<in> set [4, 6]. ready_sub ?P 9 id3_id4 x"
    by (simp add: ready_sub_def user_handled_def broker_of_def type_of_def key_of_def msgq_ptr_def
        is_fifo_sub_def a_subscriber_def)
  have m: "\<forall>k \<in> {2, 3}. valid_msg id3_id4 k \<and> unowned ?P id3_id4 k"
    by (simp add: valid_by_ident unowned_def id3_id4_msgs allocator_at_def alloc_id_defs noting_platform_def)
  have o: "own_msgqs id3_id4" by (simp add: own_msgqs_def msgq_ptr_def a_subscriber_def split: if_splits)
  have t: "runtime_ok ?P id3_id4" by (simp add: runtime_ok_def noting_platform_def)
  have w: "sys_world ?P 9 [4, 6] {2, 3} (\<lambda>_. None) id3_id4" using l r m o t by (simp add: sys_world_def id3_id4_queues)
  have p: "linked ?P 9 [4, 6] id3_id4 m = 0" "places ?P 9 [4, 6] id3_id4 m = 0" for m
    by (simp_all add: places_def linked_def held_def id3_id4_queues)
  then have "slab_inv ?P {2, 3} (\<lambda>_. None) (refs ?P 9 [4, 6] (\<lambda>_. 1) id3_id4) id3_id4"
    by (simp add: slab_inv_def refs_def id3_id4_msgs)
  then show ?thesis using w p by (simp add: ref_inv_def link_flag_def)
qed

theorem fifo_order_inversion_witness:
  "\<exists>s'. run_all [pub_sub_publish_to_broker noting_platform 9 2, pub_sub_publish_to_broker noting_platform 9 3,
       publish_work_handler noting_platform 9, take_turn noting_platform K_NO_WAIT 4,
       take_turn noting_platform K_NO_WAIT 6, take_turn noting_platform K_NO_WAIT 6] id3_id4 = Inr ((), s') \<and>
     app s' = [(0, 3, 2, NULL), (1, 4, 3, NULL), (1, 3, 2, NULL)]"
proof -
  have m: "\<forall>k \<in> {2, 3}. k \<in> {2, 3} \<and> 0 < (1::nat) \<and> linked noting_platform 9 [4, 6] id3_id4 k = 0 \<and> ref_cnt id3_id4 k < 253"
    by (simp add: linked_def held_def id3_id4_queues id3_id4_msgs)
  have sb: "3 \<in> subscriptions noting_platform id3_id4 4" "3 \<in> subscriptions noting_platform id3_id4 6"
    "4 \<notin> subscriptions noting_platform id3_id4 4" "4 \<in> subscriptions noting_platform id3_id4 6"
    by (simp_all add: subscriptions_def a_subscriber_def bit_numeral_rec)
  have h: "handler_of id3_id4 4 = (0, NULL)" "handler_of id3_id4 6 = (1, NULL)"
    by (simp_all add: handler_of_def a_subscriber_def)
  show ?thesis
    using fifo_order_inversion [OF noting_system_laws(1) id3_id4_ref_inv _ id3_id4_queues(6,5,1,2) _ m, of K_NO_WAIT]
      sb h id3_id4_msgs(3,4) by (auto simp: call_of_def simp del: run_all.simps)
qed

end
