(* ===== verification/Promises.thy ===== *)
theory Promises imports Scenarios begin

text \<open>
  What the library promises its clients in every run: it implements the abstract system of theory
  PubSubSpec, every operation that the abstract system allows returns without a fault, callback and
  message queue subscribers receive messages in the order of publication, and FIFO subscribers
  exactly once.
\<close>

section \<open>Properties\<close>

text \<open>C3. Refinement: whatever the code does in a run of the system, with all its operations in any
  order, the abstract publish and subscribe system can do as well. Each operation is an event that
  is enabled in the abstract system (an allocated message is one that nobody had, an allocation
  fails only when all messages of its slab are live), and the state in the end, seen without
  counters, slabs and control blocks, is the one that the effects of the events lead to.\<close>

theorem system_refines:
  assumes "app_laws P log" and "sys_init P b xs0 Ms home s0"
    and "runs (sys_event P b Ms home) (xs0, \<lambda>_. 0, s0) es c" and "w0 = world_of P log b (xs0, \<lambda>_. 0, s0)"
  shows "accepted (enabled Ms home) effect es w0 \<and> world_of P log b c = fold effect es w0"
  using run_from_start(2,3) [OF assms(1,2) _ assms(4)] assms(3) by (cases c) blast

text \<open>C6. Progress: in every state that a run can reach, every operation that the abstract system
  allows can be performed and returns, without a fault and without a failed assertion, as long as the
  counters (8 bits), the message queues (their capacities) and the loop over the published messages
  have room for it, and the allocator or the subscriber it needs has been set up.\<close>

theorem system_progress:
  assumes "app_laws P log" and "sys_init P b xs0 Ms home s0" and "sys_reach P b Ms home xs0 s0 (xs, own, s)"
    and "w = world_of P log b (xs, own, s)" and "enabled Ms home e w"
    and "fits (fuel P) (msgq_cap P s) e w" and "set_up P home xs s e"
  shows "\<exists>e' c'. sys_event P b Ms home (xs, own, s) e' c' \<and> same_call e e'"
  using event_possible [OF assms(1) _ assms(4-7)] sys_reach_ref_inv [OF assms(1-3)] by simp

text \<open>C5. Order: take a run, and a callback or message queue subscriber that belongs to the broker from the
  start, with a handler of its own, and whose subscriptions do not change. The public messages
  that its handler has been called with, followed by those that wait in its queue and those that
  have been published and that it wants, are those that it wants of all that have been published
  in the run, in the order of publication, whatever the other subscribers do. When nothing waits,
  it has received them all.\<close>

theorem received_in_order:
  assumes "app_laws P log" and "sys_init P b xs0 Ms home s0"
    and "runs (sys_event P b Ms home) (xs0, \<lambda>_. 0, s0) es (xs, own, s)"
    and "x \<in> set xs0" and "type_of s0 x \<noteq> PUB_SUB_RX_TYPE_FIFO"
    and "\<forall>y. y \<noteq> x \<longrightarrow> handler_of s0 y \<noteq> handler_of s0 x" and "\<forall>e \<in> set es. \<not> about x e"
    and "w0 = world_of P log b (xs0, \<lambda>_. 0, s0)" and "w = world_of P log b (xs, own, s)"
  shows "seen w x @ coming w x = seen w0 x @ publications x es w0 \<and>
    (published P s b = [] \<and> fifo_of P s x = [] \<and> msgq_of P s x = [] \<longrightarrow> seen w x = seen w0 x @ publications x es w0)"
proof -
  note r = run_from_start [OF assms(1-3,8)]
  have "sole w0 x" using assms(4-6) by (simp add: assms(8) sole_def own_callee_def type_of_def)
  note e = run_received [OF r(2,4) this assms(7)]
  have "coming w0 x = []" using r(5,6) assms(4) by (simp add: coming_def)
  then have "seen w x @ coming w x = seen w0 x @ publications x es w0" using e r(3) assms(9) by simp
  moreover have "published P s b = [] \<and> fifo_of P s x = [] \<and> msgq_of P s x = [] \<Longrightarrow> coming w x = []"
    by (simp add: coming_def assms(9))
  ultimately show ?thesis by auto
qed

text \<open>C4. Exactly once: take a run, and a FIFO subscriber that belongs to the broker from the start, with a
  handler of its own, and whose subscriptions do not change, while other subscribers may join, leave
  and change theirs. The public messages that it has been called with and those on their way to it (published, in
  its own FIFO, or in that of a FIFO subscriber earlier in the list that will pass them on) are, each as
  often, those that it wants of all that have been published in the run. When nothing is queued any
  more it has received each of them exactly once.\<close>

theorem fifo_exactly_once:
  assumes "app_laws P log" and "sys_init P b xs0 Ms home s0"
    and "runs (sys_event P b Ms home) (xs0, \<lambda>_. 0, s0) es (xs, own, s)"
    and "x \<in> set xs0" and "type_of s0 x = PUB_SUB_RX_TYPE_FIFO"
    and "\<forall>y. y \<noteq> x \<longrightarrow> handler_of s0 y \<noteq> handler_of s0 x" and "\<forall>e \<in> set es. \<not> about x e"
    and "w0 = world_of P log b (xs0, \<lambda>_. 0, s0)" and "w = world_of P log b (xs, own, s)"
  shows "mset (seen w x) + with_ids w (underway w x) = mset (seen w0 x) + mset (publications x es w0) \<and>
    (published P s b = [] \<and> (\<forall>y \<in> set xs. fifo_of P s y = []) \<longrightarrow>
      mset (seen w x) = mset (seen w0 x) + mset (publications x es w0))"
proof -
  note r = run_from_start [OF assms(1-3,8)]
  have s: "sole_fifo w0 x" using assms(4-6) by (simp add: assms(8) sole_fifo_def own_callee_def type_of_def)
  note e = run_once [OF r(2,4) s assms(7)]
  have "box w0 y = []" if "y \<in> set (members w0)" for y using r(6) [of y] that assms(8) by simp
  then have "underway w0 x = {#}" using r(5) by (simp add: underway_def gathered_def)
  then have "mset (seen w x) + with_ids w (underway w x) = mset (seen w0 x) + mset (publications x es w0)"
    using e r(3) assms(9) by simp
  moreover have "underway w x = {#}" if "published P s b = []" "\<forall>y \<in> set xs. fifo_of P s y = []"
  proof -
    have k: "kind w = kind w0" using r(3) assms(9) fold_frame(1) by simp
    have "\<not> bound_for w x y m" if "y \<in> set xs" "m \<in> set (box w y)" for y m
    proof -
      have "type_of s y = PUB_SUB_RX_TYPE_MSGQ"
        using box_by_type(2) [OF r(1) that(1)] that(2) \<open>\<forall>y \<in> set xs. fifo_of P s y = []\<close> that(1)
        by (cases "msgq_of P s y") (simp_all add: assms(9))
      then have "rx_kind w y \<noteq> PUB_SUB_RX_TYPE_FIFO" by (simp add: assms(9) type_of_def)
      then show ?thesis using s k by (auto simp: bound_for_def earlier_def sole_fifo_def)
    qed
    then have "gathered xs (bound_for w x) (box w) = gathered xs (\<lambda>_ _. False) (box w)" by (intro gathered_cong) simp_all
    then show ?thesis using that(1) assms(9) by (simp add: underway_def gathered_def)
  qed
  ultimately show ?thesis by auto
qed

section \<open>Examples\<close>

lemma some_kinds_world_of:
  "kind (world_of noting_platform (\<lambda>a. a) 9 ([4, 6, 10], own, some_kinds w v bs)) = key_of all_kinds"
  "callee (world_of noting_platform (\<lambda>a. a) 9 ([4, 6, 10], own, some_kinds w v bs)) = handler_of all_kinds"
  "3 \<in> wants (world_of noting_platform (\<lambda>a. a) 9 ([4, 6, 10], own, some_kinds w v bs)) 6"
  "3 \<in> wants (world_of noting_platform (\<lambda>a. a) 9 ([4, 6, 10], own, some_kinds w v bs)) 10"
  using sub_viewsD(2,4,11) [OF some_kinds_views(1), of w v bs] all_kinds_subs(4) by simp_all

lemma all_kinds_handlers: "x \<in> {6, 10} \<Longrightarrow> y \<noteq> x \<Longrightarrow> handler_of all_kinds y \<noteq> handler_of all_kinds x"
  by (auto simp: handler_of_def a_subscriber_def split: if_splits)

theorem system_refines_witness:
  "\<exists>c. runs (sys_event noting_platform 9 {2, 40} [40 \<mapsto> 30])
      ([4, 6, 10], \<lambda>_. 0, some_kinds 0x0003FE00 0 [40]) [Allocate 30 40 3, Publish 40] c \<and>
     pending (world_of noting_platform (\<lambda>a. a) 9 c) = [40] \<and> ident (world_of noting_platform (\<lambda>a. a) 9 c) 40 = 3"
proof -
  obtain own s where s: "runs (sys_event noting_platform 9 {2, 40} [40 \<mapsto> 30])
      ([4, 6, 10], \<lambda>_. 0, some_kinds 0x0003FE00 0 [40]) [Allocate 30 40 3, Publish 40] ([4, 6, 10], own, s)"
    using some_kinds_events by blast
  have "pending (world_of noting_platform (\<lambda>a. a) 9 ([4, 6, 10], \<lambda>_. 0, some_kinds 0x0003FE00 0 [40])) = []"
    by (simp add: some_kinds_views all_kinds_views)
  then show ?thesis
    using system_refines [OF noting_system_laws(2) some_kinds_init s refl] s by (intro exI [of _ "([4, 6, 10], own, s)"]) simp
qed

theorem received_in_order_witness:
  "\<exists>own s. runs (sys_event noting_platform 9 {2, 40} [40 \<mapsto> 30])
      ([4, 6, 10], \<lambda>_. 0, some_kinds 0x0003FE00 0 [40]) [Allocate 30 40 3, Publish 40] ([4, 6, 10], own, s) \<and>
     seen (world_of noting_platform (\<lambda>a. a) 9 ([4, 6, 10], own, s)) 6 @
       coming (world_of noting_platform (\<lambda>a. a) 9 ([4, 6, 10], own, s)) 6 = [(3, 40)]"
proof -
  let ?s = "some_kinds 0x0003FE00 0 [40]"
  obtain own s where s: "runs (sys_event noting_platform 9 {2, 40} [40 \<mapsto> 30])
      ([4, 6, 10], \<lambda>_. 0, ?s) [Allocate 30 40 3, Publish 40] ([4, 6, 10], own, s)"
    using some_kinds_events by blast
  note v = some_kinds_world_of [of "\<lambda>_. 0" "0x0003FE00" 0 "[40]", simplified]
  have "type_of ?s 6 \<noteq> PUB_SUB_RX_TYPE_FIFO" "\<forall>y. y \<noteq> 6 \<longrightarrow> handler_of ?s y \<noteq> handler_of ?s 6"
    using v all_kinds_handlers [of 6] by (simp_all add: type_of_def all_kinds_views(2) [unfolded type_of_def])
  then show ?thesis
    using received_in_order [OF noting_system_laws(2) some_kinds_init s _ _ _ _ refl refl, of 6] s v(3)
    by (intro exI [of _ own] exI [of _ s]) (simp add: seen_def)
qed

theorem fifo_exactly_once_witness:
  "\<exists>own s. runs (sys_event noting_platform 9 {2, 40} [40 \<mapsto> 30])
      ([4, 6, 10], \<lambda>_. 0, some_kinds 0x0003FE00 0 [40]) [Allocate 30 40 3, Publish 40] ([4, 6, 10], own, s) \<and>
     mset (seen (world_of noting_platform (\<lambda>a. a) 9 ([4, 6, 10], own, s)) 10) +
       with_ids (world_of noting_platform (\<lambda>a. a) 9 ([4, 6, 10], own, s))
         (underway (world_of noting_platform (\<lambda>a. a) 9 ([4, 6, 10], own, s)) 10) = {#(3, 40)#}"
proof -
  let ?s = "some_kinds 0x0003FE00 0 [40]"
  obtain own s where s: "runs (sys_event noting_platform 9 {2, 40} [40 \<mapsto> 30])
      ([4, 6, 10], \<lambda>_. 0, ?s) [Allocate 30 40 3, Publish 40] ([4, 6, 10], own, s)"
    using some_kinds_events by blast
  note v = some_kinds_world_of [of "\<lambda>_. 0" "0x0003FE00" 0 "[40]", simplified]
  have "type_of ?s 10 = PUB_SUB_RX_TYPE_FIFO" "\<forall>y. y \<noteq> 10 \<longrightarrow> handler_of ?s y \<noteq> handler_of ?s 10"
    using v all_kinds_handlers [of 10] by (simp_all add: type_of_def all_kinds_views(3) [unfolded type_of_def])
  then show ?thesis
    using fifo_exactly_once [OF noting_system_laws(2) some_kinds_init s _ _ _ _ refl refl, of 10] s v(4)
    by (intro exI [of _ own] exI [of _ s]) (simp add: seen_def)
qed

theorem system_progress_witness:
  "\<exists>own s e c. sys_reach noting_platform 9 {2, 40} [40 \<mapsto> 30] [4, 6, 10] (some_kinds 0x0003FE00 0 [40]) ([4, 6, 10], own, s) \<and>
     sys_event noting_platform 9 {2, 40} [40 \<mapsto> 30] ([4, 6, 10], own, s) e c \<and> same_call Work e"
proof -
  let ?P = "noting_platform"
  obtain own s where s: "sys_reach ?P 9 {2, 40} [40 \<mapsto> 30] [4, 6, 10] (some_kinds 0x0003FE00 0 [40]) ([4, 6, 10], own, s)"
    "own 40 = 0" "published ?P s 9 = [40]" "sub_views ?P s = sub_views ?P all_kinds"
    "\<forall>x \<in> {4, 6, 10}. fifo_of ?P s x = [] \<and> msgq_of ?P s x = []"
    using some_kinds_run by blast
  have "\<exists>c. msgq_cap ?P s 6 = Some c \<and> 1 \<le> c"
    using sub_viewsD(6) [OF s(4)] by (simp add: msgq_cap_def msgq_ptr_def a_subscriber_def kobj0_def)
  moreover have "type_of s = type_of all_kinds" using sub_viewsD(3) [OF s(4)] .
  ultimately have "fits (fuel ?P) (msgq_cap ?P s) Work (world_of ?P (\<lambda>a. a) 9 ([4, 6, 10], own, s))"
    using s(2,3,5) all_kinds_views(1,3) by (simp add: room_def refs_of_def type_of_def fun_eq_iff)
  then have "\<exists>e c. sys_event ?P 9 {2, 40} [40 \<mapsto> 30] ([4, 6, 10], own, s) e c \<and> same_call Work e"
    using system_progress [OF noting_system_laws(2) some_kinds_init s(1) refl, of Work] by simp
  then show ?thesis using s(1) by blast
qed

end
