(* ===== verification/Boot.thy ===== *)
theory Boot imports Promises begin

text \<open>
  How the system of theory Runs comes into being: the two functions that the library registers with
  \<open>SYS_INIT\<close> (\<open>broker.c\<close>, \<open>msg_alloc.c\<close>) bring the default broker and the table of run time
  allocators to the state from which runs start; and a subscriber that is initialised and given a
  handler while the system runs can then be added to the broker, without disturbing anything.
\<close>

section \<open>At boot\<close>

text \<open>The two registrations, and the functions that the kernel calls before \<open>main\<close>; both have the same level
  and priority, so that their order is up to the linker.\<close>

definition SYS_INIT_runtime_allocators :: "('k, 'u) platform \<Rightarrow> (('k, 'u) memory, unit) prog" where
  "SYS_INIT_runtime_allocators P = discard (pub_sub_init_runtime_allocators P)"

definition SYS_INIT_default_broker :: "('k, 'u) platform \<Rightarrow> (('k, 'u) memory, unit) prog" where
  "SYS_INIT_default_broker P = discard (pub_sub_init_default_broker P)"

definition sys_init_fns :: "('k, 'u) platform \<Rightarrow> (('k, 'u) memory, unit) prog list" where
  "sys_init_fns P = [SYS_INIT_runtime_allocators P, SYS_INIT_default_broker P]"

text \<open>Memory as the linker lays it out: the broker and the table are there, static messages have no
  reference and are in no FIFO, and the slabs are full.\<close>

definition laid_out :: "('k, 'u) platform \<Rightarrow> ptr set \<Rightarrow> (ptr \<rightharpoonup> ptr) \<Rightarrow> ('k, 'u) memory \<Rightarrow> bool" where
  "laid_out P Ms home s \<longleftrightarrow> brokers s g_pub_sub_default_broker \<noteq> None \<and> slist_ok P (slists s) \<and> own_msgqs s \<and>
     length (allocators (g_runtime_allocators s)) = CONFIG_PUB_SUB_RUNTIME_ALLOCATORS_MAX_NUM P \<and>
     (\<forall>m \<in> Ms. valid_msg s m \<and> link_flag s m = Some False \<and>
        (home m = None \<longrightarrow> ref_cnt s m = 0 \<and> (\<exists>i. msg_ident s m = Some (i, PUB_SUB_ALLOC_ID_STATIC_MSG)))) \<and>
     (\<forall>q \<in> ran home. slab_pool P s q = {m \<in> Ms. home m = Some q})"

lemma slist_ok_init:
  assumes "slist_laws P" and "slist_ok P l"
  shows "slist_ok P (sys_slist_init P l h)"
proof -
  have "slist_nodes P (sys_slist_init P l h) = (slist_nodes P l)(h := [])" using assms(1) by (simp add: slist_laws_def)
  then show ?thesis using assms(2) by (simp add: slist_ok_def)
qed

text \<open>Each of the two keeps what the other one needs, and establishes its own part.\<close>

definition broker_up :: "('k, 'u) platform \<Rightarrow> ('k, 'u) memory \<Rightarrow> bool" where
  "broker_up P s \<longleftrightarrow> slist_nodes P (slists s) g_pub_sub_default_broker = [] \<and>
     (\<exists>br. brokers s g_pub_sub_default_broker = Some br \<and> fifo_items P (msg_publish_fifo br) = [] \<and>
        mutex_depth P (sub_list_mutex br) = 0 \<and> work_pending P (publish_work br) \<and>
        poll_event_of P (publish_work_poll_event br) =
          (K_POLL_TYPE_FIFO_DATA_AVAILABLE, Publish_fifo_of g_pub_sub_default_broker))"

definition table_up :: "('k, 'u) platform \<Rightarrow> ('k, 'u) memory \<Rightarrow> bool" where
  "table_up P s \<longleftrightarrow> runtime_ok P s \<and> num_allocators (g_runtime_allocators s) = 0"

lemma laid_out_cong:
  assumes "laid_out P Ms home s" and "messages s' = messages s" and "subscribers s' = subscribers s"
    and "mem_slabs s' = mem_slabs s" and "brokers s' g_pub_sub_default_broker \<noteq> None" and "slist_ok P (slists s')"
    and "length (allocators (g_runtime_allocators s')) = length (allocators (g_runtime_allocators s))"
  shows "laid_out P Ms home s'"
proof -
  have m: "msg_ident s' = msg_ident s" "ref_cnt s' = ref_cnt s" "link_flag s' = link_flag s"
    using assms(2) by (simp_all add: msg_ident_def ref_cnt_def link_flag_def fun_eq_iff)
  have "slab_pool P s' = slab_pool P s" by (rule slab_pool_cong [OF assms(4)])
  then show ?thesis
    using assms(1,5-7) m views_by_subscribers(6) [OF assms(3)] by (simp add: laid_out_def valid_by_ident)
qed

lemma table_init_step:
  assumes "mutex_laws P" and "laid_out P Ms home s"
  shows "\<exists>s'. SYS_INIT_runtime_allocators P s = Inr ((), s') \<and> laid_out P Ms home s' \<and> table_up P s' \<and>
    (broker_up P s \<longrightarrow> broker_up P s')"
proof -
  obtain s' where s': "pub_sub_init_runtime_allocators P s = Inr (0, s')" "runtime_ok P s'"
    "num_allocators (g_runtime_allocators s') = 0" "s' = s\<lparr>g_runtime_allocators := g_runtime_allocators s'\<rparr>"
    using init_runtime_allocators [OF assms(1), of s] assms(2) unfolding laid_out_def by blast
  have f: "messages s' = messages s" "subscribers s' = subscribers s" "mem_slabs s' = mem_slabs s"
    "brokers s' = brokers s" "slists s' = slists s"
    by (subst s'(4), simp)+
  have "length (allocators (g_runtime_allocators s')) = length (allocators (g_runtime_allocators s))"
    using s'(2) assms(2) by (simp add: runtime_ok_def laid_out_def Let_def)
  then have "laid_out P Ms home s'"
    using assms(2) f by (intro laid_out_cong [OF assms(2)]) (simp_all add: laid_out_def)
  then show ?thesis using s'(1-3) f by (simp add: table_up_def broker_up_def SYS_INIT_runtime_allocators_def discard_def)
qed

lemma broker_init_step:
  assumes "slist_laws P" and "fifo_laws P" and "mutex_laws P" and "poll_laws P" and "laid_out P Ms home s"
  shows "\<exists>s'. SYS_INIT_default_broker P s = Inr ((), s') \<and> laid_out P Ms home s' \<and> broker_up P s' \<and>
    (table_up P s \<longrightarrow> table_up P s')"
proof -
  let ?b = "g_pub_sub_default_broker"
  obtain br where br: "brokers s ?b = Some br" using assms(5) by (auto simp: laid_out_def)
  have b: "?b \<noteq> NULL" by (simp add: g_pub_sub_default_broker_def)
  obtain s' br' where s': "pub_sub_init_broker P ?b s = Inr ((), s')" "brokers s' = (brokers s)(?b \<mapsto> br')"
    "slists s' = sys_slist_init P (slists s) ?b" "s' = s\<lparr>brokers := brokers s', slists := slists s'\<rparr>"
    "fifo_items P (msg_publish_fifo br') = []" "mutex_depth P (sub_list_mutex br') = 0"
    "work_pending P (publish_work br')"
    "poll_event_of P (publish_work_poll_event br') = (K_POLL_TYPE_FIFO_DATA_AVAILABLE, Publish_fifo_of ?b)"
    using init_broker_run [OF assms(1-4) b br] by blast
  have f: "messages s' = messages s" "subscribers s' = subscribers s" "mem_slabs s' = mem_slabs s"
    "g_runtime_allocators s' = g_runtime_allocators s" "allocator_objs s' = allocator_objs s"
    by (subst s'(4), simp)+
  have "slist_ok P (slists s')" using assms(5) slist_ok_init [OF assms(1)] s'(3) by (simp add: laid_out_def)
  then have "laid_out P Ms home s'" using s'(2) f by (intro laid_out_cong [OF assms(5)]) simp_all
  moreover have "slist_nodes P (slists s') ?b = []" using assms(1) s'(3) by (simp add: slist_laws_def)
  ultimately show ?thesis
    using s'(1-3,5-8) f by (simp add: table_up_def broker_up_def runtime_ok_def pub_sub_init_default_broker_def SYS_INIT_default_broker_def discard_def)
qed

lemma booted_sys_init:
  assumes "laid_out P Ms home s" and "table_up P s" and "broker_up P s" and "0 < fuel P"
  shows "sys_init P g_pub_sub_default_broker [] Ms home s"
proof -
  have "unowned P s m" if "m \<in> Ms" "home m = None" for m
  proof -
    have "\<exists>i. msg_ident s m = Some (i, PUB_SUB_ALLOC_ID_STATIC_MSG)"
      using assms(1) that unfolding laid_out_def by blast
    then obtain i where "msg_ident s m = Some (i, PUB_SUB_ALLOC_ID_STATIC_MSG)" ..
    then show ?thesis using assms(2) by (simp add: table_up_def unowned_def allocator_at_def alloc_id_defs)
  qed
  moreover have "sub_list P s g_pub_sub_default_broker []"
    using assms(1,3) by (auto simp: sub_list_def laid_out_def broker_up_def)
  ultimately have "sys_world P g_pub_sub_default_broker [] Ms home s"
    using assms by (simp add: sys_world_def laid_out_def table_up_def g_pub_sub_default_broker_def)
  then show ?thesis using assms(1,3) by (auto simp: sys_init_def laid_out_def broker_up_def published_def)
qed

section \<open>A new subscriber\<close>

text \<open>A subscriber that is in no list is set up while the system runs: nothing of the system changes.\<close>

lemma outsider_ref_inv:
  assumes "ref_inv P b xs Ms home own s" and "x \<notin> set xs" and "subscribers s' = (subscribers s)(x \<mapsto> su)"
    and "bitarrays s' = (bitarrays s)(p := a)" and "s' = s\<lparr>subscribers := subscribers s', bitarrays := bitarrays s'\<rparr>"
    and "\<forall>y sv. y \<noteq> x \<and> subscribers s y = Some sv \<longrightarrow> subs_bitarray sv \<noteq> p" and "subs_bitarray su = p" and "own_msgqs s'"
  shows "ref_inv P b xs Ms home own s'"
proof -
  have f: "messages s' = messages s" "mem_slabs s' = mem_slabs s" "brokers s' = brokers s" "slists s' = slists s"
    "msgqs s' = msgqs s" "g_runtime_allocators s' = g_runtime_allocators s" "allocator_objs s' = allocator_objs s"
    by (subst assms(5), simp)+
  have m: "msg_ident s' = msg_ident s" "ref_cnt s' = ref_cnt s" "link_flag s' = link_flag s"
    using f(1) by (simp_all add: msg_ident_def ref_cnt_def link_flag_def fun_eq_iff)
  note d = ref_invD [OF assms(1)] and w = sys_worldD [OF ref_invD(1) [OF assms(1)]]
  have o: "slab_pool P s' = slab_pool P s" "slab_fits P s' = slab_fits P s"
    using slab_pool_cong [of s' s P] slab_fits_cong [of s' s P] f(2) by simp_all
  have so: "slab_owned P s' = slab_owned P s"
    using slab_owned_cong [of s' _ s P] m(1) f(6,7) o(2) by (simp add: fun_eq_iff)
  have v: "ready_sub P b s' y = ready_sub P b s y \<and> sub_ok s' y \<and> type_of s' y = type_of s y \<and>
      fifo_of P s' y = fifo_of P s y \<and> msgq_of P s' y = msgq_of P s y" if y: "y \<in> set xs" for y
  proof -
    have n: "y \<noteq> x" using y assms(2) by auto
    then have e: "subscribers s' y = subscribers s y" by (simp add: assms(3))
    have q: "msgq_ptr s' y = msgq_ptr s y" "is_fifo_sub s' y = is_fifo_sub s y" by (simp_all add: e msgq_ptr_def is_fifo_sub_def)
    have "sub_ok s y" by (rule sub_list_sub_ok [OF w(3) y])
    then obtain sv c where c: "y \<noteq> NULL" "subscribers s y = Some sv" "subs_bitarray sv \<noteq> NULL"
      "bitarrays s (subs_bitarray sv) = Some c" "unat (max_pub_msg_id sv) < 32 * length c"
      "\<And>z sz. z \<noteq> y \<Longrightarrow> subscribers s z = Some sz \<Longrightarrow> subs_bitarray sz \<noteq> subs_bitarray sv"
      by (rule sub_okE) blast
    have p: "subs_bitarray sv \<noteq> p" using assms(6) c(2) n by blast
    then have "sub_ok s' y"
      using c n assms(7) by (intro sub_okI [of _ _ sv c]) (auto simp: assms(3,4) split: if_splits)
    moreover have "msgq_cap P s' y = msgq_cap P s y" "msgq_of P s' y = msgq_of P s y"
      unfolding msgq_cap_def msgq_of_def q f(5) by simp_all
    ultimately show ?thesis
      using q e by (simp add: ready_sub_def user_handled_def broker_of_def type_of_def key_of_def has_fifo_def fifo_of_def)
  qed
  have "sub_list P s' b xs" using w(3) v f(3,4) by (auto simp: sub_list_def)
  moreover have "sorted (map (type_of s') xs)" using w(4) v by (simp cong: map_cong)
  moreover have "unowned P s' = unowned P s" using unowned_cong [OF m(1) f(6)] .
  ultimately have sw: "sys_world P b xs Ms home s'"
    using d(1) v assms(8) f(6,7) m by (simp add: sys_world_def valid_by_ident runtime_ok_def)
  have h: "held xs (fifo_of P s') = held xs (fifo_of P s)" "held xs (msgq_of P s') = held xs (msgq_of P s)"
    using v by (simp_all add: held_def fun_eq_iff)
  have "published P s' = published P s" using by_brokers(1) [OF f(3)] .
  then have "linked P b xs s' = linked P b xs s" using h(1) by (simp add: linked_def fun_eq_iff)
  then show ?thesis by (intro ref_inv_by [OF assms(1) sw o(1) so]) (simp_all add: h m)
qed

lemma rx_msgq_define:
  assumes "msgq_laws P"
  shows "msgq_items P (PUB_SUB_RX_MSGQ_DEFINE P n) = []" and "msgq_max P (PUB_SUB_RX_MSGQ_DEFINE P n) = n"
  using assms by (simp_all add: msgq_laws_def PUB_SUB_RX_MSGQ_DEFINE_def)

lemma set_up_run:
  assumes "bitmap_laws P" and "subscribers s x = Some su" and "x \<noteq> NULL"
    and "bitarrays s p = Some a" and "p \<noteq> NULL" and "ATOMIC_BITMAP_SIZE P (unat m + 1) \<le> length a"
    and "\<forall>y sv. y \<noteq> x \<and> subscribers s y = Some sv \<longrightarrow> subs_bitarray sv \<noteq> p" and "q \<noteq> NULL"
  shows "\<exists>s' c. run_all [init_of_kind P ty x p m q, pub_sub_subscriber_set_handler_data P x (User_handler f) d,
      pub_sub_subscriber_set_priority P x prio] s = Inr ((), s') \<and> sub_ok s' x \<and> subscriptions P s' x = {} \<and>
    subscribers s' = (subscribers s)(x \<mapsto> su\<lparr>broker := NULL,
      handler_data := \<lparr>msg_handler = User_handler f, user_data = d\<rparr>, rx_queue := new_queue P ty (rx_queue su) q,
      subs_bitarray := p, rx_type := ty, max_pub_msg_id := m, priority := prio\<rparr>) \<and>
    bitarrays s' = (bitarrays s)(p \<mapsto> c) \<and> s' = s\<lparr>subscribers := subscribers s', bitarrays := bitarrays s'\<rparr>"
proof -
  let ?su = "su\<lparr>broker := NULL, rx_queue := new_queue P ty (rx_queue su) q, subs_bitarray := p, rx_type := ty,
    max_pub_msg_id := m, priority := 0\<rparr>"
  obtain s1 c where s1: "init_of_kind P ty x p m q s = Inr ((), s1)" "sub_ok s1 x" "subscriptions P s1 x = {}"
    "subscribers s1 = (subscribers s)(x \<mapsto> ?su)" "bitarrays s1 = (bitarrays s)(p \<mapsto> c)"
    "s1 = s\<lparr>subscribers := subscribers s1, bitarrays := bitarrays s1\<rparr>"
    using subscriber_init_run [OF assms, where kind = ty] by blast
  let ?f = "\<lambda>su. su\<lparr>handler_data := \<lparr>msg_handler = User_handler f, user_data = d\<rparr>\<rparr>" and ?g = "\<lambda>su. su\<lparr>priority := prio\<rparr>"
  let ?s = "upd_sub x ?g (upd_sub x ?f s1)"
  have r: "pub_sub_subscriber_set_handler_data P x (User_handler f) d s1 = Inr ((), upd_sub x ?f s1)"
    "pub_sub_subscriber_set_priority P x prio (upd_sub x ?f s1) = Inr ((), ?s)"
    using s1(4) assms(3) by (simp_all add: pub_sub_subscriber_set_handler_data_def pub_sub_subscriber_set_priority_def sub_run)
  have ok: "map_option subs_bitarray (subscribers ?s z) = map_option subs_bitarray (subscribers s1 z)"
    "map_option max_pub_msg_id (subscribers ?s z) = map_option max_pub_msg_id (subscribers s1 z)" for z
    using s1(4) by simp_all
  have "sub_ok ?s x" using s1(2) unfolding sub_ok_by_fields ok by simp
  moreover have "subscriptions P ?s x = {}" using s1(3) unfolding subscriptions_by_fields ok upd_sub_frame .
  moreover have "subscribers ?s = (subscribers s)(x \<mapsto> su\<lparr>broker := NULL,
      handler_data := \<lparr>msg_handler = User_handler f, user_data = d\<rparr>, rx_queue := new_queue P ty (rx_queue su) q,
      subs_bitarray := p, rx_type := ty, max_pub_msg_id := m, priority := prio\<rparr>)"
    using s1(4) by (cases su) (simp add: fun_eq_iff)
  moreover have "bitarrays ?s = (bitarrays s)(p \<mapsto> c)" using s1(5) by simp
  moreover have "?s = s\<lparr>subscribers := subscribers ?s, bitarrays := bitarrays ?s\<rparr>"
    by (subst s1(6)) (simp add: upd_sub_def)
  moreover have "run_all [init_of_kind P ty x p m q, pub_sub_subscriber_set_handler_data P x (User_handler f) d,
      pub_sub_subscriber_set_priority P x prio] s = Inr ((), ?s)"
    using s1(1) r by simp
  ultimately show ?thesis by blast
qed

section \<open>Properties\<close>

text \<open>C20. After the two functions that the kernel calls at boot, in either order, the default broker and the
  table of run time allocators are ready: the broker has no subscribers and no messages, its list is
  not locked and its work item waits for published messages; the table is empty; and memory is in the state from which
  the runs of the system start, so that all that is shown of runs holds from then on.\<close>

theorem system_boot:
  assumes "app_laws P log" and "poll_laws P" and "laid_out P Ms home s" and "0 < fuel P"
    and "fs \<in> {sys_init_fns P, rev (sys_init_fns P)}"
  shows "\<exists>s'. run_all fs s = Inr ((), s') \<and> sys_init P g_pub_sub_default_broker [] Ms home s' \<and>
    broker_up P s' \<and> table_up P s'"
proof -
  have l: "slist_laws P" "fifo_laws P" "mutex_laws P" using assms(1) by (simp_all add: app_laws_def system_laws_def core_laws_def)
  show ?thesis
  proof (cases "fs = sys_init_fns P")
    case True
    obtain s1 where s1: "SYS_INIT_runtime_allocators P s = Inr ((), s1)" "laid_out P Ms home s1" "table_up P s1"
      using table_init_step [OF l(3) assms(3)] by blast
    obtain s2 where s2: "SYS_INIT_default_broker P s1 = Inr ((), s2)" "laid_out P Ms home s2" "broker_up P s2"
      "table_up P s2"
      using broker_init_step [OF l assms(2) s1(2)] s1(3) by blast
    then show ?thesis using s1(1) booted_sys_init [OF s2(2,4,3) assms(4)] by (simp add: True sys_init_fns_def)
  next
    case False
    obtain s1 where s1: "SYS_INIT_default_broker P s = Inr ((), s1)" "laid_out P Ms home s1" "broker_up P s1"
      using broker_init_step [OF l assms(2,3)] by blast
    obtain s2 where s2: "SYS_INIT_runtime_allocators P s1 = Inr ((), s2)" "laid_out P Ms home s2"
      "table_up P s2" "broker_up P s2"
      using table_init_step [OF l(3) s1(2)] s1(3) by blast
    then show ?thesis using s1(1) booted_sys_init [OF s2(2,3,4) assms(4)] False assms(5) by (simp add: sys_init_fns_def)
  qed
qed

text \<open>C21. A subscriber of any kind, in no list and with a bit array (and, for a message queue subscriber, an empty message
  queue) of its own, is initialised and given a handler and a priority while the system runs:
  it is then ready to be added to a broker, wants no message, has its kind, priority, limit and
  handler, and a queue defined for \<open>n\<close> messages has room for \<open>n\<close>. Nothing of the running system
  has changed: of the whole memory only the subscriber and its bit array are different, and the
  invariant of the system holds as before.\<close>

theorem subscriber_ready:
  assumes "app_laws P log" and "ref_inv P b xs Ms home own s" and "subscribers s x = Some su" and "x \<noteq> NULL"
    and "\<forall>h. x \<notin> set (slist_nodes P (slists s) h)"
    and "bitarrays s p = Some a" and "p \<noteq> NULL" and "ATOMIC_BITMAP_SIZE P (unat m + 1) \<le> length a"
    and "\<forall>y sv. y \<noteq> x \<and> subscribers s y = Some sv \<longrightarrow> subs_bitarray sv \<noteq> p"
    and "ty = PUB_SUB_RX_TYPE_CALLBACK \<longrightarrow> rx_queue su = Rx_unset"
    and "q \<noteq> NULL" and "ty = PUB_SUB_RX_TYPE_MSGQ \<longrightarrow> (\<exists>k. msgqs s q = Some k \<and> msgq_items P k = []) \<and>
      (\<forall>y. y \<noteq> x \<longrightarrow> msgq_ptr s y \<noteq> Some q)"
  shows "\<exists>s'. run_all [init_of_kind P ty x p m q, pub_sub_subscriber_set_handler_data P x (User_handler f) d,
      pub_sub_subscriber_set_priority P x prio] s = Inr ((), s') \<and>
    joinable P s' x \<and> subscriptions P s' x = {} \<and> key_of s' x = (ty, prio) \<and> max_id_of s' x = m \<and>
    handler_of s' x = (f, d) \<and> ref_inv P b xs Ms home own s' \<and>
    (\<exists>su' c. s' = s\<lparr>subscribers := (subscribers s)(x \<mapsto> su'), bitarrays := (bitarrays s)(p \<mapsto> c)\<rparr>) \<and>
    (\<forall>n. ty = PUB_SUB_RX_TYPE_MSGQ \<and> msgqs s q = Some (PUB_SUB_RX_MSGQ_DEFINE P n) \<longrightarrow> msgq_cap P s' x = Some n)"
proof -
  have l: "bitmap_laws P" "fifo_laws P" "msgq_laws P" using assms(1) by (simp_all add: app_laws_def system_laws_def core_laws_def)
  obtain s' c where s': "run_all [init_of_kind P ty x p m q, pub_sub_subscriber_set_handler_data P x (User_handler f) d,
      pub_sub_subscriber_set_priority P x prio] s = Inr ((), s')" "sub_ok s' x" "subscriptions P s' x = {}"
    "subscribers s' = (subscribers s)(x \<mapsto> su\<lparr>broker := NULL,
      handler_data := \<lparr>msg_handler = User_handler f, user_data = d\<rparr>, rx_queue := new_queue P ty (rx_queue su) q,
      subs_bitarray := p, rx_type := ty, max_pub_msg_id := m, priority := prio\<rparr>)"
    "bitarrays s' = (bitarrays s)(p \<mapsto> c)" "s' = s\<lparr>subscribers := subscribers s', bitarrays := bitarrays s'\<rparr>"
    using set_up_run [OF l(1) assms(3,4,6-9,11), of ty f d prio] by blast
  have f: "slists s' = slists s" "msgqs s' = msgqs s" by (subst s'(6), simp)+
  have nx: "x \<notin> set xs" using sys_worldD(3) [OF ref_invD(1) [OF assms(2)]] assms(5) by (auto simp: sub_list_def)
  have p: "msgq_ptr s' y = (if y = x then if ty = PUB_SUB_RX_TYPE_MSGQ then Some q else None else msgq_ptr s y)" for y
    using assms(10) by (cases ty) (auto simp: msgq_ptr_def s'(4))
  have "own_msgqs s" using sys_worldD(5) [OF ref_invD(1) [OF assms(2)]] .
  then have o: "own_msgqs s'" using assms(12) by (auto simp: own_msgqs_def p split: if_splits)
  have "ref_inv P b xs Ms home own s'"
    by (rule outsider_ref_inv [OF assms(2) nx s'(4,5,6) assms(9) _ o]) simp
  moreover have "joinable P s' x"
    using s'(2) assms(5,10,12) p [of x] l(2) f
    by (cases ty) (auto simp: joinable_def addable_def s'(4) user_handled_def type_of_def key_of_def msgq_of_def msgq_cap_def
        fifo_of_def is_fifo_sub_def has_fifo_def fifo_laws_def)
  moreover have "msgq_cap P s' x = Some n" if "ty = PUB_SUB_RX_TYPE_MSGQ" "msgqs s q = Some (PUB_SUB_RX_MSGQ_DEFINE P n)" for n
    using that p [of x] f(2) rx_msgq_define [OF l(3), of n] by (simp add: msgq_cap_def)
  moreover have "\<exists>su' c. s' = s\<lparr>subscribers := (subscribers s)(x \<mapsto> su'), bitarrays := (bitarrays s)(p \<mapsto> c)\<rparr>"
    using s'(6) unfolding s'(4,5) by blast
  ultimately show ?thesis using s'(1,3) by (simp add: key_of_def max_id_of_def handler_of_def s'(4))
qed

section \<open>Examples\<close>

text \<open>The memory of the examples of theory Scenarios, with a default broker that holds garbage.\<close>

definition before_boot :: "(kobj, (nat \<times> uint16 \<times> ptr \<times> ptr) list) memory" where
  "before_boot = (some_kinds 0x0003FE00 0 [40])\<lparr>brokers := [g_pub_sub_default_broker \<mapsto>
     \<lparr>msg_publish_fifo = kobj0\<lparr>k_items := [7]\<rparr>, sub_list_mutex = kobj0, publish_work = kobj0,
      publish_work_poll_event = kobj0\<rparr>]\<rparr>"

lemma before_boot_laid_out: "laid_out noting_platform {2, 40} [40 \<mapsto> 30] before_boot"
proof -
  let ?s = "some_kinds 0x0003FE00 0 [40]"
  have m: "messages before_boot = messages ?s" "mem_slabs before_boot = mem_slabs ?s"
    "subscribers before_boot = subscribers ?s" "slists before_boot = slists all_kinds"
    "g_runtime_allocators before_boot = g_runtime_allocators ?s"
    by (simp_all add: before_boot_def some_kinds_def)
  have "own_msgqs ?s" using sys_worldD(5) [OF some_kinds_world [OF static_word(2)]] .
  then have "own_msgqs before_boot" using views_by_subscribers(6) [OF m(3)] by simp
  moreover have "slist_ok noting_platform (slists before_boot)" using all_kinds_subs(1) m(4) by (simp add: sub_list_def)
  moreover have "slab_pool noting_platform before_boot 30 = {40}"
    using slab_pool_cong [OF m(2), of noting_platform] by (simp add: some_kinds_slab(1))
  moreover have "brokers before_boot g_pub_sub_default_broker \<noteq> None" by (simp add: before_boot_def)
  ultimately show ?thesis
    by (auto simp: laid_out_def m valid_msg_def link_flag_def ref_cnt_def msg_ident_def static_word noting_platform_def
        split: if_splits)
qed

theorem system_boot_witness:
  "\<exists>s'. run_all (rev (sys_init_fns noting_platform)) before_boot = Inr ((), s') \<and>
     sys_init noting_platform g_pub_sub_default_broker [] {2, 40} [40 \<mapsto> 30] s'"
proof -
  have "poll_laws noting_platform" using ref_poll_laws by (simp add: poll_laws_def noting_platform_def)
  moreover have "0 < fuel noting_platform" by (simp add: noting_platform_def)
  ultimately show ?thesis using system_boot [OF noting_system_laws(2) _ before_boot_laid_out] by blast
qed

text \<open>Next to the two subscribers of \<open>id3_id4\<close>, subscriber 12 holds garbage.\<close>

definition one_more :: "(kobj, (nat \<times> uint16 \<times> ptr \<times> ptr) list) memory" where
  "one_more = id3_id4\<lparr>subscribers := (subscribers id3_id4)(12 \<mapsto> a_subscriber PUB_SUB_RX_TYPE_MSGQ Rx_unset 13 5 7),
     bitarrays := (bitarrays id3_id4)(13 \<mapsto> [6])\<rparr>"

lemma one_more_ref_inv: "ref_inv noting_platform 9 [4, 6] {2, 3} (\<lambda>_. None) (\<lambda>_. 1) one_more"
proof (rule outsider_ref_inv [OF id3_id4_ref_inv])
  show "subscribers one_more = (subscribers id3_id4)(12 \<mapsto> a_subscriber PUB_SUB_RX_TYPE_MSGQ Rx_unset 13 5 7)"
    "bitarrays one_more = (bitarrays id3_id4)(13 := Some [6])"
    "one_more = id3_id4\<lparr>subscribers := subscribers one_more, bitarrays := bitarrays one_more\<rparr>"
    by (simp_all add: one_more_def)
  show "own_msgqs one_more" by (simp add: own_msgqs_def msgq_ptr_def one_more_def a_subscriber_def split: if_splits)
qed (auto simp: a_subscriber_def split: if_splits)

theorem subscriber_ready_witness:
  "\<exists>s'. run_all [pub_sub_init_fifo_subscriber noting_platform 12 13 9,
       pub_sub_subscriber_set_handler_data noting_platform 12 (User_handler 3) NULL,
       pub_sub_subscriber_set_priority noting_platform 12 1] one_more = Inr ((), s') \<and>
     joinable noting_platform s' 12 \<and> subscriptions noting_platform s' 12 = {} \<and>
     key_of s' 12 = (PUB_SUB_RX_TYPE_FIFO, 1) \<and> ref_inv noting_platform 9 [4, 6] {2, 3} (\<lambda>_. None) (\<lambda>_. 1) s'"
proof -
  let ?P = "noting_platform"
  have s: "subscribers one_more 12 = Some (a_subscriber PUB_SUB_RX_TYPE_MSGQ Rx_unset 13 5 7)"
    "\<forall>h. 12 \<notin> set (slist_nodes ?P (slists one_more) h)" "bitarrays one_more 13 = Some [6]"
    "ATOMIC_BITMAP_SIZE ?P (unat (9 :: uint16) + 1) \<le> length [6 :: uint32]"
    "\<forall>y sv. y \<noteq> 12 \<and> subscribers one_more y = Some sv \<longrightarrow> subs_bitarray sv \<noteq> 13"
    by (auto simp: one_more_def a_subscriber_def ref_nodes_def noting_platform_def split: if_splits)
  show ?thesis
    using subscriber_ready [OF noting_system_laws(2) one_more_ref_inv s(1) _ s(2,3) _ s(4,5), where ty = PUB_SUB_RX_TYPE_FIFO
        and q = 1 and f = 3 and d = NULL and prio = 1] by fastforce
qed

end
