(* ===== verification/Clients.thy ===== *)
theory Clients imports Boot begin

text \<open>
  Handlers that use the library themselves: they may publish, keep, release and allocate messages, and
  change subscriptions, while the library is in the middle of an operation and still works with
  the message it has called them for. The theorems need a contract of the handlers only: the
  invariant of theory System, for the references that the application knows it owns, holds again
  when they return. Then it holds in all runs of the library with them.
\<close>

section \<open>Messages in the hands of the library\<close>

text \<open>Between two queues a message belongs to the operation that moves it: one reference is in
  transit. It is counted like one of the application.\<close>

text \<open>The queues: of published messages, the FIFOs and the message queues, and how many messages these can hold.\<close>

definition queues :: "('k, 'u) platform \<Rightarrow> ('k, 'u) memory \<Rightarrow> (ptr \<Rightarrow> ptr list) \<times> (ptr \<Rightarrow> ptr list) \<times> (ptr \<Rightarrow> ptr list) \<times> (ptr \<rightharpoonup> nat)" where
  "queues P s = (published P s, fifo_of P s, msgq_of P s, msgq_cap P s)"

lemma queues_locks [simp]: "queues P (sub_lock P b s) = queues P s" "queues P (sub_unlock P b s) = queues P s"
  by (auto simp: queues_def fun_eq_iff published_def fifo_of_def msgq_of_def msgq_ptr_def msgq_cap_def sub_lock_def sub_unlock_def split: option.split)

lemma same_world_cap: "same_world P s s' \<Longrightarrow> msgq_cap P s' = msgq_cap P s"
  using sub_viewsD(6) [of P s' s] by (simp add: same_world_def)

lemma take_published_step:
  assumes "core_laws P" and "ref_inv P b xs Ms home own s" and "published P s b = m # ms"
  shows "\<exists>s1. pub_sub_msg_fifo_get P (Msg_publish_fifo b) K_NO_WAIT s = Inr (m, s1) \<and> taken P b ms s s1 \<and>
    same_world P s s1 \<and> m \<in> Ms \<and> linked P b xs s1 = (linked P b xs s)(m := 0) \<and> ref_inv P b xs Ms home (own(m := own m + 1)) s1"
proof -
  note d = ref_invD [OF assms(2)]
  note w = sys_worldD [OF d(1)]
  have l: "fifo_laws P" using assms(1) by (simp add: core_laws_def)
  have "0 < linked P b xs s m" using assms(3) by (simp add: linked_def)
  then have mM: "m \<in> Ms" and pl: "0 < places P b xs s m" by (auto intro: d(8) simp: places_def)
  note u = in_useI(2) [OF pl, of home own]
  have lk: "count_list ms m = 0" "held xs (fifo_of P s) m = 0" "linked P b xs s m = 1"
    using d(6) [OF mM] assms(3) by (simp_all add: linked_def)
  obtain h where h: "messages s m = Some h" "m \<noteq> NULL" using d(2) [OF mM] by (rule valid_msgE)
  obtain s1 where s1: "pub_sub_msg_fifo_get P (Msg_publish_fifo b) K_NO_WAIT s = Inr (m, s1)"
    "taken P b ms s s1" "messages s1 = (messages s)(m \<mapsto> h\<lparr>fifo_reserved := False\<rparr>)"
    using publish_get(2) [OF l w(7) assms(3) h(2,1)] by blast
  note t = s1(2) [unfolded taken_def]
  have sf: "slab_fits P s1 = slab_fits P s" "slab_pool P s1 = slab_pool P s"
    using t slab_fits_cong [of s1 s P] slab_pool_cong [of s1 s P] by simp_all
  have sw: "same_world P s s1" using t sf by (simp add: same_world_def)
  have lk': "linked P b xs s1 = (linked P b xs s)(m := 0)"
  proof (rule ext)
    fix k
    have "published P s1 b = ms" "fifo_of P s1 = fifo_of P s" using t by simp_all
    then show "linked P b xs s1 k = ((linked P b xs s)(m := 0)) k" using lk assms(3) by (simp add: linked_def)
  qed
  have fl: "link_flag s1 = (link_flag s)(m := Some False)" by (simp add: link_flag_def s1(3) fun_eq_iff)
  have "ref_inv P b xs Ms home (own(m := own m + 1)) s1"
    by (rule ref_inv_step [OF assms(2) sw sf(2) mM u lk', where h = "held xs (msgq_of P s) m"])
      (use t d(5) [OF mM u] lk(3) fl in \<open>simp_all add: refs_def places_def fun_upd_idem freed_def\<close>)
  then show ?thesis using s1(1,2) sw mM lk' by simp
qed

lemma take_fifo_step:
  assumes "core_laws P" and "ref_inv P b xs Ms home own s" and "x \<in> set xs"
    and "type_of s x = PUB_SUB_RX_TYPE_FIFO" and "fifo_of P s x = m # ms"
  shows "\<exists>s1. pub_sub_msg_fifo_get P (Sub_fifo x) t s = Inr (m, s1) \<and> same_world P s s1 \<and> m \<in> Ms \<and>
    linked P b xs s1 = (linked P b xs s)(m := 0) \<and> ref_cnt s1 = ref_cnt s \<and> app s1 = app s \<and> msgq_of P s1 = msgq_of P s \<and>
    ref_inv P b xs Ms home (own(m := own m + 1)) s1 \<and> queues P s1 = (published P s, (fifo_of P s)(x := ms), msgq_of P s, msgq_cap P s)"
proof -
  note d = ref_invD [OF assms(2)]
  note w = sys_worldD [OF d(1)]
  have l: "fifo_laws P" using assms(1) by (simp add: core_laws_def)
  have hp: "0 < held xs (fifo_of P s) m" using held_pop(2) [where f = "fifo_of P s", OF assms(3,5)] .
  then have pl: "0 < places P b xs s m" by (simp add: places_def linked_def)
  note mM = d(8) [OF pl] and u = in_useI(2) [OF pl, of home own]
  have lk: "count_list (published P s b) m = 0" "linked P b xs s m = 1" "held xs (fifo_of P s) m = 1"
    using d(6) [OF mM] hp by (simp_all add: linked_def)
  obtain h where h: "messages s m = Some h" "m \<noteq> NULL" using d(2) [OF mM] by (rule valid_msgE)
  have xf: "is_fifo_sub s x" using w(6) [OF assms(3)] assms(4) by (simp add: ready_sub_def)
  obtain s1 where s1: "pub_sub_msg_fifo_get P (Sub_fifo x) t s = Inr (m, s1)"
    "fifo_of P s1 = (fifo_of P s)(x := ms)" "ref_cnt s1 = ref_cnt s" "msg_ident s1 = msg_ident s"
    "app s1 = app s" "messages s1 = (messages s)(m \<mapsto> h\<lparr>fifo_reserved := False\<rparr>)" "only_fifos s s1"
    using fifo_get_effect [OF l xf assms(5) h(2,1), of t] by blast
  note v = only_fifos_same_world [OF s1(7,4), of P]
  have "held xs (fifo_of P s1) = (held xs (fifo_of P s))(m := 0)"
    using held_pop(1) [where f = "fifo_of P s", OF assms(3,5)] lk(3) by (simp add: s1(2))
  then have lk': "linked P b xs s1 = (linked P b xs s)(m := 0)"
    using lk(1) by (auto simp: linked_def v(2) fun_eq_iff)
  have fl: "link_flag s1 = (link_flag s)(m := Some False)" by (simp add: link_flag_def s1(6) fun_eq_iff)
  have "ref_inv P b xs Ms home (own(m := own m + 1)) s1"
    by (rule ref_inv_step [OF assms(2) v(1,4) mM u lk', where h = "held xs (msgq_of P s) m"])
      (use d(5) [OF mM u] lk(2) fl s1(3) v(3) in \<open>simp_all add: refs_def places_def fun_upd_idem freed_def\<close>)
  then show ?thesis using s1(1-3,5) v(1-3) mM lk' by (simp add: queues_def same_world_cap)
qed

lemma take_msgq_step:
  assumes "core_laws P" and "ref_inv P b xs Ms home own s" and "x \<in> set xs"
    and "type_of s x = PUB_SUB_RX_TYPE_MSGQ" and "msgq_of P s x = m # ms"
  shows "\<exists>s1. msgq_get P x t s = Inr ((0, m), s1) \<and> same_world P s s1 \<and> m \<in> Ms \<and> linked P b xs s1 = linked P b xs s \<and>
    ref_cnt s1 = ref_cnt s \<and> app s1 = app s \<and> ref_inv P b xs Ms home (own(m := own m + 1)) s1 \<and>
    queues P s1 = (published P s, fifo_of P s, (msgq_of P s)(x := ms), msgq_cap P s)"
proof -
  note d = ref_invD [OF assms(2)]
  note w = sys_worldD [OF d(1)]
  have l: "msgq_laws P" using assms(1) by (simp add: core_laws_def)
  have hp: "0 < held xs (msgq_of P s) m" using held_pop(2) [where f = "msgq_of P s", OF assms(3,5)] .
  then have pl: "0 < places P b xs s m" by (simp add: places_def)
  note mM = d(8) [OF pl] and u = in_useI(2) [OF pl, of home own]
  obtain su q k where su: "subscribers s x = Some su" and q: "rx_queue su = Rx_msgq q" "msgq_ptr s x = Some q"
    "msgqs s q = Some k" "msgq_items P k = m # ms"
    using w(6) [OF assms(3)] assms(4,5) by (elim ready_subE) auto
  obtain k' where k': "msgq_get P x t s = Inr ((0, m), write_msgq q k' s)" "msgq_items P k' = ms"
    "msgq_max P k' = msgq_max P k"
    using msgq_get_run(1) [OF l su q(1,3,4)] by blast
  let ?s = "write_msgq q k' s"
  note v = write_msgq_views [OF w(5) q(2,3) k'(3)]
  have sw: "same_world P s ?s" using v by (simp add: same_world_def)
  have "ref_inv P b xs Ms home (own(m := own m + 1)) ?s"
    by (rule ref_inv_step [OF assms(2) sw _ mM u, where l = "linked P b xs s m" and h = "held xs (msgq_of P s) m - 1"])
      (use d(5) [OF mM u] d(6,7) [OF mM] hp held_pop(1) [where f = "msgq_of P s", OF assms(3,5)] in
        \<open>simp_all add: linked_def [abs_def] v k'(2) refs_def places_def fun_upd_idem freed_def\<close>)
  then show ?thesis using k'(1,2) sw mM v(2-5) by (auto simp: linked_def [abs_def] queues_def same_world_cap)
qed

text \<open>What a message needs to be put into a queue.\<close>

lemma in_transit:
  assumes "ref_inv P b xs Ms home own s" and "m \<in> Ms" and "linked P b xs s m = 0" and "ref_cnt s m < 255"
  shows "msg_free s m"
proof -
  have "link_flag s m = Some False" "m \<noteq> NULL"
    using ref_invD(7) [OF assms(1,2)] ref_invD(2) [OF assms(1,2)] assms(3) by (simp_all add: valid_msg_def)
  then show ?thesis using assms(4) by (auto simp: msg_free_def link_flag_def)
qed

lemma ready_can_receive:
  assumes "sub_ok s x" and "ready_sub P b s x" and "has_room P s x"
  shows "can_receive P s x"
  by (rule can_take_receive [OF assms(1) ready_can_take [OF assms(2,3)]])

text \<open>A message in transit, with no other link, is given to a message queue or a FIFO subscriber.\<close>

lemma give_msgq_step:
  assumes "core_laws P" and "ref_inv P b xs Ms home own s" and "x \<in> set xs"
    and "type_of s x = PUB_SUB_RX_TYPE_MSGQ" and "has_room P s x"
    and "m \<in> Ms" and "0 < own m" and "linked P b xs s m = 0" and "ref_cnt s m < 255"
  shows "\<exists>s1. deliver_to P x i m False s = Inr (False, s1) \<and> same_world P s s1 \<and> app s1 = app s \<and>
    ref_cnt s1 m = ref_cnt s m + 1 \<and> linked P b xs s1 = linked P b xs s \<and>
    (\<forall>y. y \<noteq> x \<longrightarrow> msgq_of P s1 y = msgq_of P s y) \<and> ref_inv P b xs Ms home own s1 \<and>
    queues P s1 = (published P s, fifo_of P s, (msgq_of P s)(x := msgq_of P s x @ [m]), msgq_cap P s)"
proof -
  note d = ref_invD [OF assms(2)] and u = in_useI(1) [of own m home P b xs s, OF assms(7)]
  note w = sys_worldD [OF d(1)]
  have l: "header_laws P" "msgq_laws P" using assms(1) by (simp_all add: core_laws_def)
  have cr: "can_receive P s x"
    by (rule ready_can_receive [OF sub_list_sub_ok [OF w(3) assms(3)] w(6) [OF assms(3)] assms(5)])
  obtain s1 q k k' where s1: "deliver_to P x i m False s = Inr (False, s1)" "same_subs s s1" "app s1 = app s"
    "msgq_ptr s x = Some q" "msgqs s q = Some k" "msgqs s1 = (msgqs s)(q \<mapsto> k')"
    "msgq_items P k' = msgq_items P k @ [m]" "msgq_max P k' = msgq_max P k"
    "ref_cnt s1 = (ref_cnt s)(m := ref_cnt s m + 1)" "link_flag s1 = link_flag s"
    using deliver_msgq [OF l cr assms(4) in_transit [OF assms(2,6,8,9)]] by blast
  note sb = s1(2) [unfolded same_subs_def]
  note v = views_by_subscribers [of s1 s, OF conjunct1 [OF sb]]
  have oth: "msgq_ptr s y \<noteq> Some q" if "y \<noteq> x" for y using that w(5) s1(4) by (auto simp: own_msgqs_def)
  have mq: "msgq_of P s1 = (msgq_of P s)(x := msgq_of P s x @ [m])"
    using v(3) s1(4-7) oth by (auto simp: fun_eq_iff msgq_of_def split: option.split)
  have "msgq_cap P s1 = msgq_cap P s"
    using v(3) s1(4-6,8) oth by (auto simp: fun_eq_iff msgq_cap_def split: option.split)
  then have "sub_views P s1 = sub_views P s"
    using sub_views_cong_mem [of s1 s P] sub_list_by_subscribers [of s1 s P] sb by simp
  moreover have sf: "slab_fits P s1 = slab_fits P s" "slab_pool P s1 = slab_pool P s"
    using sb slab_fits_cong [of s1 s P] slab_pool_cong [of s1 s P] by simp_all
  ultimately have sw: "same_world P s s1" using sb by (simp add: same_world_def)
  have lk: "linked P b xs s1 = linked P b xs s"
    using v(5) [of P] by_brokers(1) [of s1 s P] sb by (simp add: linked_def [abs_def])
  have "ref_inv P b xs Ms home (own(m := own m)) s1"
    by (rule ref_inv_step [OF assms(2) sw sf(2) assms(6) u, where l = 0 and h = "held xs (msgq_of P s) m + 1"])
      (use d(5) [OF assms(6) u] d(7) [OF assms(6)] assms(8) s1(9,10) lk mq held_push [OF assms(3), of "msgq_of P s" m] in
        \<open>simp_all add: refs_def places_def fun_upd_idem freed_def\<close>)
  then show ?thesis using s1(1,3,9) sw lk mq v(5) [of P] by_brokers(1) [of s1 s P] sb
    by (intro exI [of _ s1]) (simp add: queues_def same_world_cap)
qed

lemma hand_over_step:
  assumes "core_laws P" and "ref_inv P b xs Ms home own s" and "x \<in> set xs"
    and "type_of s x = PUB_SUB_RX_TYPE_FIFO"
    and "m \<in> Ms" and "0 < own m" and "linked P b xs s m = 0" and "ref_cnt s m < 255"
  shows "is_fifo_sub s x" and "msg_free s m" and "same_world P s (hand_over P x m s)"
    and "msgq_of P (hand_over P x m s) = msgq_of P s" and "ref_cnt (hand_over P x m s) m = ref_cnt s m + 1"
    and "linked P b xs (hand_over P x m s) = (linked P b xs s)(m := 1)" and "ref_inv P b xs Ms home own (hand_over P x m s)"
    and "queues P (hand_over P x m s) = (published P s, (fifo_of P s)(x := fifo_of P s x @ [m]), msgq_of P s, msgq_cap P s)"
proof -
  let ?s = "hand_over P x m s"
  note d = ref_invD [OF assms(2)] and u = in_useI(1) [of own m home P b xs s, OF assms(6)]
  note w = sys_worldD [OF d(1)]
  have l: "fifo_laws P" using assms(1) by (simp add: core_laws_def)
  show f: "is_fifo_sub s x" using w(6) [OF assms(3)] assms(4) by (simp add: ready_sub_def)
  show free: "msg_free s m" by (rule in_transit [OF assms(2,5,7,8)])
  note e = hand_over_effect [OF l free f]
  note v = only_fifos_same_world [OF only_fifos_hand_over [OF f] e(3), of P]
  show "same_world P s ?s" "msgq_of P ?s = msgq_of P s" "ref_cnt ?s m = ref_cnt s m + 1" using v e(2) by simp_all
  show "queues P ?s = (published P s, (fifo_of P s)(x := fifo_of P s x @ [m]), msgq_of P s, msgq_cap P s)"
    using v e(1) by (simp add: queues_def same_world_cap)
  show lk: "linked P b xs ?s = (linked P b xs s)(m := 1)"
  proof (rule ext)
    fix k
    show "linked P b xs ?s k = ((linked P b xs s)(m := 1)) k"
      using assms(7) held_push [OF assms(3), of "fifo_of P s" m] by (auto simp: linked_def e(1) v(2))
  qed
  have "ref_inv P b xs Ms home (own(m := own m)) ?s"
    by (rule ref_inv_step [OF assms(2) v(1,4) assms(5) u lk, where h = "held xs (msgq_of P s) m"])
      (use d(5) [OF assms(5) u] assms(7) e(2) link_flag_hand_over [OF free f, of P] v(3) in
        \<open>simp_all add: refs_def places_def fun_upd_idem freed_def\<close>)
  then show "ref_inv P b xs Ms home own ?s" by simp
qed

text \<open>The application's own memory plays no role.\<close>

lemma ref_inv_app:
  "ref_inv P b xs Ms home own s \<Longrightarrow> ref_inv P b xs Ms home own (s\<lparr>app := a\<rparr>)"
  by (erule ref_inv_same) (simp_all add: same_world_def app_views linked_def [abs_def] ref_cnt_def [abs_def] msg_ident_def [abs_def])

lemma linked_app [simp]: "linked P b xs (s\<lparr>app := a\<rparr>) = linked P b xs s"
  and places_app [simp]: "places P b xs (s\<lparr>app := a\<rparr>) = places P b xs s"
  by (simp_all add: places_def linked_def app_views fun_eq_iff)

section \<open>The contract of a handler\<close>

text \<open>What the application keeps in its own memory says which references it owns (\<open>holds\<close>). A message that the
  library has in its hands while it calls a handler has one reference more.\<close>

definition in_hand :: "('u \<Rightarrow> ptr \<Rightarrow> nat) \<Rightarrow> ptr option \<Rightarrow> ('k, 'u) memory \<Rightarrow> ptr \<Rightarrow> nat" where
  "in_hand holds z s k = holds (app s) k + (if z = Some k then 1 else 0)"

definition client_inv ::
  "('k, 'u) platform \<Rightarrow> ptr \<Rightarrow> ptr list \<Rightarrow> ptr set \<Rightarrow> (ptr \<rightharpoonup> ptr) \<Rightarrow> ('u \<Rightarrow> ptr \<Rightarrow> nat) \<Rightarrow>
   ptr option \<Rightarrow> ('k, 'u) memory \<Rightarrow> bool" where
  "client_inv P b xs Ms home holds z s \<longleftrightarrow>
     ref_inv P b xs Ms home (in_hand holds z s) s \<and> (\<forall>k. 0 < holds (app s) k \<longrightarrow> k \<in> Ms)"

text \<open>A handler may do with the library what it likes, as long as it accounts for it; the message it is
  called for it may keep (one reference more), but not link, and it may not take the last place
  of a message queue.\<close>

definition civil ::
  "('k, 'u) platform \<Rightarrow> ptr \<Rightarrow> ptr list \<Rightarrow> ptr \<Rightarrow> ('k, 'u) memory \<Rightarrow> ('k, 'u) memory \<Rightarrow> bool" where
  "civil P b xs m s s' \<longleftrightarrow> linked P b xs s' m \<le> linked P b xs s m \<and> ref_cnt s' m \<le> ref_cnt s m + 1 \<and>
     (\<forall>y \<in> set xs. has_room P s y \<longrightarrow> has_room P s' y)"

definition honest_handlers ::
  "('k, 'u) platform \<Rightarrow> ptr \<Rightarrow> ptr list \<Rightarrow> ptr set \<Rightarrow> (ptr \<rightharpoonup> ptr) \<Rightarrow> ('u \<Rightarrow> ptr \<Rightarrow> nat) \<Rightarrow> bool" where
  "honest_handlers P b xs Ms home holds \<longleftrightarrow> (\<forall>f i m d s. m \<in> Ms \<and> client_inv P b xs Ms home holds (Some m) s \<and>
     ref_cnt s m < 255 \<longrightarrow> (\<exists>s'. user_handler P f i m d s = Inr ((), s') \<and>
       client_inv P b xs Ms home holds (Some m) s' \<and> civil P b xs m s s'))"

lemma in_hand_take:
  assumes "app s' = app s"
  shows "(in_hand holds None s)(m := in_hand holds None s m + 1) = in_hand holds (Some m) s'"
    and "(in_hand holds (Some m) s)(m := in_hand holds (Some m) s m - 1) = in_hand holds None s'"
    and "in_hand holds z s' = in_hand holds z s" and "0 < in_hand holds (Some m) s m"
  using assms by (auto simp: in_hand_def fun_eq_iff)

lemma has_room_cong:
  assumes "same_world P s s'" and "msgq_of P s' y = msgq_of P s y"
  shows "has_room P s' y = has_room P s y"
  using assms sub_viewsD(3,6) [of P s' s] by (simp add: has_room_def same_world_def)

lemma sub_handle_step:
  assumes "honest_handlers P b xs Ms home holds" and "client_inv P b xs Ms home holds (Some m) s"
    and "x \<in> set xs" and "m \<in> Ms" and "ref_cnt s m < 255"
  shows "\<exists>s'. sub_handle P x i m s = Inr ((), s') \<and> client_inv P b xs Ms home holds (Some m) s' \<and> civil P b xs m s s'"
proof -
  have "ready_sub P b s x"
    using assms(2,3) sys_worldD(6) [OF ref_invD(1)] unfolding client_inv_def by blast
  then obtain su f d where "subscribers s x = Some su" "handler_data su = \<lparr>msg_handler = User_handler f, user_data = d\<rparr>"
    by (rule ready_subE)
  then have "sub_handle P x i m s = user_handler P f i m d s" by (simp add: sub_handle_def sub_run)
  then show ?thesis using assms(1,2,4,5) by (simp add: honest_handlers_def)
qed

section \<open>The distribution of a message\<close>

lemma client_deliver:
  assumes "core_laws P" and "honest_handlers P b xs Ms home holds" and "client_inv P b xs Ms home holds (Some m) s"
    and "x \<in> set xs" and "m \<in> Ms" and "linked P b xs s m = 0" and "ref_cnt s m < 255" and "has_room P s x"
  shows "\<exists>handled s'. deliver_to P x i m False s = Inr (handled, s') \<and> client_inv P b xs Ms home holds (Some m) s' \<and>
    (\<not> handled \<longrightarrow> linked P b xs s' m = 0 \<and> ref_cnt s' m \<le> ref_cnt s m + 1 \<and>
      (\<forall>y \<in> set xs. y \<noteq> x \<and> has_room P s y \<longrightarrow> has_room P s' y))"
proof -
  have r: "ref_inv P b xs Ms home (in_hand holds (Some m) s) s" and o: "\<forall>k. 0 < holds (app s) k \<longrightarrow> k \<in> Ms"
    using assms(3) by (simp_all add: client_inv_def)
  have rd: "ready_sub P b s x" by (rule sys_worldD(6) [OF ref_invD(1) [OF r] assms(4)])
  then obtain su f d where su: "subscribers s x = Some su" "type_of s x = rx_type su"
    "handler_data su = \<lparr>msg_handler = User_handler f, user_data = d\<rparr>" by (rule ready_subE)
  note h = in_hand_take(4) [of s s holds m, OF refl]
  show ?thesis
  proof (cases "rx_type su")
    case PUB_SUB_RX_TYPE_CALLBACK
    obtain s' where s': "sub_handle P x i m s = Inr ((), s')" "client_inv P b xs Ms home holds (Some m) s'"
      "civil P b xs m s s'"
      using sub_handle_step [OF assms(2-5,7)] by blast
    have "deliver_to P x i m False s = Inr (False, s')"
      using su(1,3) PUB_SUB_RX_TYPE_CALLBACK s'(1) by (simp add: deliver_to_def sub_run assert_handler_def)
    then show ?thesis using s'(2,3) assms(6) by (auto simp: civil_def)
  next
    case PUB_SUB_RX_TYPE_MSGQ
    then have t: "type_of s x = PUB_SUB_RX_TYPE_MSGQ" using su(2) by simp
    obtain s' where s': "deliver_to P x i m False s = Inr (False, s')" "same_world P s s'" "app s' = app s"
      "ref_cnt s' m = ref_cnt s m + 1" "linked P b xs s' = linked P b xs s"
      "\<forall>y. y \<noteq> x \<longrightarrow> msgq_of P s' y = msgq_of P s y" "ref_inv P b xs Ms home (in_hand holds (Some m) s) s'"
      using give_msgq_step [OF assms(1) r assms(4) t assms(8,5) h assms(6,7)] by blast
    have "client_inv P b xs Ms home holds (Some m) s'"
      using s'(3,7) o in_hand_take(3) [OF s'(3), of holds] by (simp add: client_inv_def)
    then show ?thesis using s'(1,4-6) assms(6) has_room_cong [OF s'(2)] by auto
  next
    case PUB_SUB_RX_TYPE_FIFO
    then have t: "type_of s x = PUB_SUB_RX_TYPE_FIFO" using su(2) by simp
    note g = hand_over_step [OF assms(1) r assms(4) t assms(5) h assms(6,7)]
    have l: "header_laws P" using assms(1) by (simp add: core_laws_def)
    have cr: "can_receive P s x"
      by (rule ready_can_receive [OF _ rd assms(8)]) (rule sub_list_sub_ok [OF sys_worldD(3) [OF ref_invD(1) [OF r]] assms(4)])
    have "app (hand_over P x m s) = app s" by simp
    then have "client_inv P b xs Ms home holds (Some m) (hand_over P x m s)"
      using g(7) o in_hand_take(3) [of "hand_over P x m s" s holds "Some m"] by (simp add: client_inv_def)
    then show ?thesis using deliver_fifo(1) [OF l cr t g(2)] by auto
  qed
qed

lemma client_loop:
  assumes "core_laws P" and "honest_handlers P b xs Ms home holds" and "m \<in> Ms"
  shows "client_inv P b xs Ms home holds (Some m) s \<Longrightarrow> xs = us @ zs \<Longrightarrow> length zs < n \<Longrightarrow>
    linked P b xs s m = 0 \<Longrightarrow> ref_cnt s m + length zs \<le> 255 \<Longrightarrow> \<forall>x \<in> set zs. has_room P s x \<Longrightarrow>
    \<exists>s'. process_loop n P (hd0 zs) (hd0 (tl zs)) i m False s = Inr ((), s') \<and>
      client_inv P b xs Ms home holds (Some m) s'"
proof (induction zs arbitrary: us n s)
  case Nil
  then show ?case by (cases n) auto
next
  case (Cons z zs)
  obtain j where j: "n = Suc j" "length zs < j" using Cons.prems(3) by (cases n) auto
  have sl: "slist_laws P" using assms(1) by (simp add: core_laws_def)
  have li: "sub_list P s1 b xs" if "client_inv P b xs Ms home holds (Some m) s1" for s1
    using that sys_worldD(3) [OF ref_invD(1)] unfolding client_inv_def by blast
  have xs: "xs = (us @ [z]) @ zs" using Cons.prems(2) by simp
  have o: "sub_ok s z" using sub_list_sub_ok [OF li [OF Cons.prems(1)]] Cons.prems(2) by simp
  have z0: "z \<noteq> NULL" by (rule sub_ok_not_NULL [OF o])
  have zn: "z \<notin> set zs" using sub_list_distinct [OF li [OF Cons.prems(1)]] Cons.prems(2) by simp
  have nxt: "peek_next_container P (hd0 zs) s1 = Inr (hd0 (tl zs), s1)"
    if "client_inv P b xs Ms home holds (Some m) s1" for s1
  proof (cases zs)
    case Nil
    then show ?thesis by (simp add: peek_next_container_def)
  next
    case (Cons y ys)
    then show ?thesis using peek_next_container_run [OF sl, of s1 b "us @ [z]" y ys] li [OF that] xs by simp
  qed
  show ?case
  proof (cases "i \<in> subscriptions P s z")
    case False
    obtain s' where s': "process_loop j P (hd0 zs) (hd0 (tl zs)) i m False s = Inr ((), s')"
      "client_inv P b xs Ms home holds (Some m) s'"
      using Cons.IH [OF Cons.prems(1) xs j(2) Cons.prems(4)] Cons.prems(5,6) by auto
    then show ?thesis using False z0 nxt [OF Cons.prems(1)] by (simp add: j(1) is_subscribed_run [OF o])
  next
    case True
    have z: "z \<in> set xs" "has_room P s z" "ref_cnt s m < 255" using Cons.prems(2,5,6) by simp_all
    obtain handled s1 where s1: "deliver_to P z i m False s = Inr (handled, s1)"
      "client_inv P b xs Ms home holds (Some m) s1"
      "\<not> handled \<longrightarrow> linked P b xs s1 m = 0 \<and> ref_cnt s1 m \<le> ref_cnt s m + 1 \<and>
        (\<forall>y \<in> set xs. y \<noteq> z \<and> has_room P s y \<longrightarrow> has_room P s1 y)"
      using client_deliver [OF assms(1,2) Cons.prems(1) z(1) assms(3) Cons.prems(4) z(3,2)] by blast
    show ?thesis
    proof (cases handled)
      case True
      then show ?thesis using s1(1,2) \<open>i \<in> subscriptions P s z\<close> z0 by (simp add: j(1) is_subscribed_run [OF o])
    next
      case False
      have "\<forall>x \<in> set zs. has_room P s1 x"
        using s1(3) False Cons.prems(6) zn xs by (metis UnCI list.set_intros(2) set_append)
      then obtain s' where s': "process_loop j P (hd0 zs) (hd0 (tl zs)) i m False s1 = Inr ((), s')"
        "client_inv P b xs Ms home holds (Some m) s'"
        using Cons.IH [OF s1(2) xs j(2)] s1(3) False Cons.prems(5) by auto
      then show ?thesis
        using False s1(1) \<open>i \<in> subscriptions P s z\<close> z0 nxt [OF s1(2)] by (simp add: j(1) is_subscribed_run [OF o])
    qed
  qed
qed

text \<open>The locks of the list.\<close>

lemma type_of_locks [simp]: "type_of (sub_lock P b s) = type_of s" "type_of (sub_unlock P b s) = type_of s"
  by (simp_all add: sub_lock_def sub_unlock_def)

lemma client_inv_locks:
  assumes "client_inv P b xs Ms home holds z s"
  shows "client_inv P b xs Ms home holds z (sub_lock P b s)" and "client_inv P b xs Ms home holds z (sub_unlock P b s)"
  using assms by (simp_all add: client_inv_def sub_lock_def sub_unlock_def ref_inv_upd_broker in_hand_def [abs_def])

lemma has_room_lock [simp]: "has_room P (sub_lock P b s) = has_room P s"
  and linked_lock [simp]: "linked P b xs (sub_lock P b s) = linked P b xs s"
  and linked_unlock [simp]: "linked P b xs (sub_unlock P b s) = linked P b xs s"
proof -
  have "published P (sub_lock P b s) = published P s" "published P (sub_unlock P b s) = published P s"
    using queues_locks [of P b s] by (simp_all add: queues_def)
  then show "linked P b xs (sub_lock P b s) = linked P b xs s" "linked P b xs (sub_unlock P b s) = linked P b xs s"
    by (simp_all add: linked_def [abs_def])
qed (simp add: has_room_def [abs_def] sub_lock_def)

text \<open>The reference in transit is released at the end.\<close>

lemma client_release:
  assumes "core_laws P" and "client_inv P b xs Ms home holds (Some m) s" and "m \<in> Ms"
  shows "\<exists>s'. pub_sub_release_msg P m s = Inr ((), s') \<and> client_inv P b xs Ms home holds None s'"
proof -
  have r: "ref_inv P b xs Ms home (in_hand holds (Some m) s) s" using assms(2) by (simp add: client_inv_def)
  obtain s' where s': "pub_sub_release_msg P m s = Inr ((), s')" "app s' = app s"
    "ref_inv P b xs Ms home ((in_hand holds (Some m) s)(m := in_hand holds (Some m) s m - 1)) s'"
    using release_step [OF assms(1) r assms(3) in_hand_take(4) [of s s holds m, OF refl]] by blast
  then show ?thesis using assms(2) in_hand_take(2) [OF s'(2), of holds m] by (auto simp: client_inv_def)
qed

lemma client_distribute:
  assumes "core_laws P" and "honest_handlers P b xs Ms home holds" and "client_inv P b xs Ms home holds None s"
    and "published P s b = m # ms" and "\<forall>x \<in> set xs. has_room P s x" and "ref_cnt s m + length xs \<le> 255"
  shows "\<exists>s'. distribute_one P b s = Inr ((), s') \<and> client_inv P b xs Ms home holds None s'"
proof -
  have l: "header_laws P" "slist_laws P" using assms(1) by (simp_all add: core_laws_def)
  have r: "ref_inv P b xs Ms home (in_hand holds None s) s" and ow: "\<forall>k. 0 < holds (app s) k \<longrightarrow> k \<in> Ms"
    using assms(3) by (simp_all add: client_inv_def)
  obtain s1 where s1: "pub_sub_msg_fifo_get P (Msg_publish_fifo b) K_NO_WAIT s = Inr (m, s1)" "taken P b ms s s1"
    "same_world P s s1" "m \<in> Ms" "linked P b xs s1 = (linked P b xs s)(m := 0)"
    "ref_inv P b xs Ms home ((in_hand holds None s)(m := in_hand holds None s m + 1)) s1"
    using take_published_step [OF assms(1) r assms(4)] by blast
  have t: "app s1 = app s" "msgq_of P s1 = msgq_of P s" "ref_cnt s1 = ref_cnt s" using s1(2) by (simp_all add: taken_def)
  have c1: "client_inv P b xs Ms home holds (Some m) s1"
    using s1(6) t(1) ow in_hand_take(1) [OF t(1), of holds m] by (simp add: client_inv_def)
  note w = sys_worldD [OF ref_invD(1) [OF s1(6)]] and v = ref_invD(2) [OF s1(6,4)]
  obtain i where i: "pub_sub_msg_get_msg_id P m s1 = Inr (i, s1)"
    using v get_msg_id_run [OF l(1)] by (metis valid_msgE)
  obtain br where br: "brokers s1 b = Some br" using w(7) by blast
  let ?l = "sub_lock P b s1"
  have hr: "\<forall>x \<in> set xs. has_room P ?l x" using assms(5) has_room_cong [OF s1(3)] t(2) by simp
  have "linked P b xs ?l m = 0" "ref_cnt ?l m + length xs \<le> 255" using s1(5) t(3) assms(6) by simp_all
  then obtain s2 where s2: "process_loop (fuel P) P (hd0 xs) (hd0 (tl xs)) i m False ?l = Inr ((), s2)"
    "client_inv P b xs Ms home holds (Some m) s2"
    using client_loop [OF assms(1,2) s1(4) client_inv_locks(1) [OF c1], of "[]" xs "fuel P"] w(2) hr by auto
  have li: "sub_list P ?l b xs" using w(3) by (simp add: sub_lock_def)
  have h: "sys_slist_peek_head P (slists ?l) b = hd0 xs" using peek_head_run [OF l(2) li] by (simp add: hd0_def)
  have tl: "peek_next_container P (hd0 xs) ?l = Inr (hd0 (tl xs), ?l)"
  proof (cases xs)
    case Nil
    then show ?thesis by (simp add: peek_next_container_def)
  next
    case (Cons y ys)
    then show ?thesis using peek_next_container_run [OF l(2), of ?l b "[]" y ys] li by simp
  qed
  have "brokers s2 b \<noteq> None" using s2(2) sys_worldD(7) [OF ref_invD(1)] unfolding client_inv_def by blast
  then obtain br2 where br2: "brokers s2 b = Some br2" by blast
  obtain s' where s': "pub_sub_release_msg P m (sub_unlock P b s2) = Inr ((), s')"
    "client_inv P b xs Ms home holds None s'"
    using client_release [OF assms(1) client_inv_locks(2) [OF s2(2)] s1(4)] by blast
  have "process_msg P b i m s1 = Inr ((), s')"
    using h tl s2(1) s'(1) lock_run [OF br, of P] unlock_run [OF br2, of P]
    by (simp add: process_msg_def sub_lock_def sub_unlock_def)
  then show ?thesis using s1(1) i s'(2) by (simp add: distribute_one_def)
qed

section \<open>A subscriber handles what waits in its queue\<close>

lemma send_next_step:
  assumes "core_laws P" and "ref_inv P b xs Ms home own s" and "x \<in> set xs"
    and "type_of s x = PUB_SUB_RX_TYPE_FIFO" and "m \<in> Ms" and "0 < own m" and "linked P b xs s m = 0" and "ref_cnt s m < 255"
  shows "\<exists>s'. send_to_next_fifo_subscriber P x i m s = Inr ((), s') \<and> type_of s' = type_of s \<and>
    ref_inv P b xs Ms home own s' \<and> app s' = app s \<and> ref_cnt s' m \<le> ref_cnt s m + 1 \<and>
    (linked P b xs s' = linked P b xs s \<or> linked P b xs s' = (linked P b xs s)(m := 1)) \<and>
    (queues P s' = queues P s \<or> (\<exists>us ys y. xs = us @ x # ys \<and> y \<in> set ys \<and>
      queues P s' = (published P s, (fifo_of P s)(y := fifo_of P s y @ [m]), msgq_of P s, msgq_cap P s)))"
proof -
  have l: "header_laws P" "slist_laws P" using assms(1) by (simp_all add: core_laws_def)
  note w = sys_worldD [OF ref_invD(1) [OF assms(2)]]
  obtain us ys where xs: "xs = us @ x # ys" using assms(3) by (auto dest: split_list)
  obtain su where su: "subscribers s x = Some su" "broker su = b" using w(6) [OF assms(3)] by (rule ready_subE) blast
  have ys: "type_of s y = PUB_SUB_RX_TYPE_FIFO" "is_fifo_sub s y" "y \<in> set xs" if "y \<in> set ys" for y
    using that fifos_after [OF w(4) [unfolded xs] assms(4) that] w(6) [of y] by (auto simp: xs ready_sub_def)
  have ln: "length ys < fuel P" using w(2) by (simp add: xs)
  let ?l = "sub_lock P b s"
  let ?f = "find (\<lambda>y. i \<in> subscriptions P s y) ys"
  let ?s = "case ?f of None \<Rightarrow> ?l | Some y \<Rightarrow> hand_over P y m ?l"
  have run: "send_to_next_fifo_subscriber P x i m s = Inr ((), sub_unlock P b ?s)"
    using send_to_next_run [OF l w(3) [unfolded xs] su ln in_transit [OF assms(2,5,7,8)]] ys(2) by blast
  have r': "ref_inv P b xs Ms home own ?l" unfolding sub_lock_def by (rule ref_inv_upd_broker [OF _ assms(2)]) simp
  have "ref_inv P b xs Ms home own ?s \<and> type_of ?s = type_of s \<and> app ?s = app s \<and> ref_cnt ?s m \<le> ref_cnt s m + 1 \<and>
    (linked P b xs ?s = linked P b xs s \<or> linked P b xs ?s = (linked P b xs s)(m := 1)) \<and>
    (queues P ?s = queues P s \<or> (\<exists>us ys y. xs = us @ x # ys \<and> y \<in> set ys \<and>
      queues P ?s = (published P s, (fifo_of P s)(y := fifo_of P s y @ [m]), msgq_of P s, msgq_cap P s)))"
  proof (cases ?f)
    case None
    then show ?thesis using r' by simp
  next
    case (Some y)
    then have y: "y \<in> set ys" by (auto simp: find_Some_iff)
    have t: "type_of ?l y = PUB_SUB_RX_TYPE_FIFO" using ys(1) [OF y] by simp
    have c: "linked P b xs ?l m = 0" "ref_cnt ?l m < 255" using assms(7,8) by simp_all
    note g = hand_over_step [OF assms(1) r' ys(3) [OF y] t assms(5,6) c]
    have "type_of (hand_over P y m ?l) = type_of ?l" using sub_viewsD(3) [of P "hand_over P y m ?l" ?l] g(3) by (simp add: same_world_def)
    moreover have "queues P (hand_over P y m ?l) = (published P s, (fifo_of P s)(y := fifo_of P s y @ [m]), msgq_of P s, msgq_cap P s)"
      using g(8) queues_locks(1) [of P b s] by (simp add: queues_def)
    ultimately show ?thesis using g(5-7) Some y xs by simp blast
  qed
  moreover have "ref_inv P b xs Ms home own (sub_unlock P b s1)" if "ref_inv P b xs Ms home own s1" for s1
    unfolding sub_unlock_def by (rule ref_inv_upd_broker [OF _ that]) simp
  ultimately show ?thesis using run by (intro exI [of _ "sub_unlock P b ?s"]) simp
qed

lemma client_send_next:
  assumes "core_laws P" and "client_inv P b xs Ms home holds (Some m) s" and "x \<in> set xs"
    and "type_of s x = PUB_SUB_RX_TYPE_FIFO" and "m \<in> Ms" and "linked P b xs s m = 0" and "ref_cnt s m < 255"
  shows "\<exists>s'. send_to_next_fifo_subscriber P x i m s = Inr ((), s') \<and> client_inv P b xs Ms home holds (Some m) s' \<and>
    ref_cnt s' m \<le> ref_cnt s m + 1"
proof -
  have r: "ref_inv P b xs Ms home (in_hand holds (Some m) s) s" using assms(2) by (simp add: client_inv_def)
  obtain s' where s': "send_to_next_fifo_subscriber P x i m s = Inr ((), s')" "app s' = app s"
    "ref_inv P b xs Ms home (in_hand holds (Some m) s) s'" "ref_cnt s' m \<le> ref_cnt s m + 1"
    using send_next_step [OF assms(1) r assms(3-5) in_hand_take(4) [of s s holds m, OF refl] assms(6,7)] by blast
  then show ?thesis using assms(2) in_hand_take(3) [OF s'(2), of holds "Some m"] by (auto simp: client_inv_def)
qed

text \<open>What follows when the message has been taken and, if need be, passed on.\<close>

lemma client_handle_rest:
  assumes "core_laws P" and "honest_handlers P b xs Ms home holds" and "client_inv P b xs Ms home holds (Some m) s"
    and "x \<in> set xs" and "m \<in> Ms" and "ref_cnt s m < 255"
  shows "\<exists>s'. thenM (sub_handle P x i m) (thenM (pub_sub_release_msg P m) (ret r)) s = Inr (r, s') \<and>
    client_inv P b xs Ms home holds None s'"
proof -
  obtain s1 where s1: "sub_handle P x i m s = Inr ((), s1)" "client_inv P b xs Ms home holds (Some m) s1"
    using sub_handle_step [OF assms(2-6)] by blast
  then show ?thesis using client_release [OF assms(1) s1(2) assms(5)] by auto
qed

lemma ready_assert_handler:
  assumes "ready_sub P b s x"
  shows "assert_handler P x s = Inr ((), s)"
proof -
  obtain su f d where "subscribers s x = Some su" "handler_data su = \<lparr>msg_handler = User_handler f, user_data = d\<rparr>"
    using assms by (rule ready_subE)
  then show ?thesis by (simp add: assert_handler_def sub_run)
qed

lemma client_handle:
  assumes "core_laws P" and "honest_handlers P b xs Ms home holds" and "client_inv P b xs Ms home holds None s"
    and "x \<in> set xs"
    and "type_of s x = PUB_SUB_RX_TYPE_FIFO \<and> fifo_of P s x = m # ms \<or>
      type_of s x = PUB_SUB_RX_TYPE_MSGQ \<and> msgq_of P s x = m # ms" and "ref_cnt s m < 254"
  shows "\<exists>s'. pub_sub_handle_queued_msg P x t s = Inr (0, s') \<and> client_inv P b xs Ms home holds None s'"
proof -
  have hl: "header_laws P" using assms(1) by (simp add: core_laws_def)
  have r: "ref_inv P b xs Ms home (in_hand holds None s) s" and ow: "\<forall>k. 0 < holds (app s) k \<longrightarrow> k \<in> Ms"
    using assms(3) by (simp_all add: client_inv_def)
  note w = sys_worldD [OF ref_invD(1) [OF r]]
  have x0: "x \<noteq> NULL" using sub_list_sub_ok [OF w(3) assms(4)] by (rule sub_ok_not_NULL)
  obtain su where su: "subscribers s x = Some su" "type_of s x = rx_type su" using w(6) [OF assms(4)] by (rule ready_subE) blast
  have next_state: "client_inv P b xs Ms home holds (Some m) s1 \<and> ready_sub P b s1 x \<and>
      (\<exists>i. pub_sub_msg_get_msg_id P m s1 = Inr (i, s1)) \<and> m \<noteq> NULL"
    if "app s1 = app s" "m \<in> Ms" "ref_inv P b xs Ms home ((in_hand holds None s)(m := in_hand holds None s m + 1)) s1" for s1
  proof -
    have "ready_sub P b s1 x" by (rule sys_worldD(6) [OF ref_invD(1) [OF that(3)] assms(4)])
    moreover have "\<exists>i. pub_sub_msg_get_msg_id P m s1 = Inr (i, s1)"
      using ref_invD(2) [OF that(3,2)] get_msg_id_run [OF hl] by (metis valid_msgE)
    ultimately show ?thesis
      using that ow in_hand_take(1) [OF that(1), of holds m] ref_invD(2) [OF that(3,2)] by (simp add: client_inv_def valid_msg_def)
  qed
  from assms(5) show ?thesis
  proof
    assume f: "type_of s x = PUB_SUB_RX_TYPE_FIFO \<and> fifo_of P s x = m # ms"
    obtain s1 where s1: "pub_sub_msg_fifo_get P (Sub_fifo x) t s = Inr (m, s1)" "same_world P s s1" "m \<in> Ms"
      "linked P b xs s1 = (linked P b xs s)(m := 0)" "ref_cnt s1 = ref_cnt s" "app s1 = app s"
      "ref_inv P b xs Ms home ((in_hand holds None s)(m := in_hand holds None s m + 1)) s1"
      using take_fifo_step [OF assms(1) r assms(4)] f by blast
    have l1: "linked P b xs s1 m = 0" by (simp add: s1(4))
    obtain i where c1: "client_inv P b xs Ms home holds (Some m) s1" "ready_sub P b s1 x"
      "pub_sub_msg_get_msg_id P m s1 = Inr (i, s1)" "m \<noteq> NULL"
      using next_state [OF s1(6,3,7)] by blast
    obtain su1 where su1: "subscribers s1 x = Some su1" using c1(2) by (rule ready_subE)
    have tf: "type_of s1 x = PUB_SUB_RX_TYPE_FIFO" using f s1(2) sub_viewsD(3) [of P s1 s] by (simp add: same_world_def)
    let ?send = "if i \<le> max_pub_msg_id su1 then send_to_next_fifo_subscriber P x i m else ret ()"
    obtain s2 where s2: "?send s1 = Inr ((), s2)" "client_inv P b xs Ms home holds (Some m) s2" "ref_cnt s2 m < 255"
    proof (cases "i \<le> max_pub_msg_id su1")
      case True
      have "ref_cnt s1 m < 255" using s1(5) assms(6) by simp
      then show ?thesis
        using client_send_next [OF assms(1) c1(1) assms(4) tf s1(3) l1, of i] that True s1(5) assms(6) by fastforce
    next
      case False
      then show ?thesis using that c1(1) s1(5) assms(6) by simp
    qed
    obtain s' where s': "thenM (sub_handle P x i m) (thenM (pub_sub_release_msg P m) (ret 0)) s2 = Inr (0 :: int, s')"
      "client_inv P b xs Ms home holds None s'"
      using client_handle_rest [OF assms(1,2) s2(2) assms(4) s1(3) s2(3), of i "0 :: int"] by blast
    have "pub_sub_handle_queued_msg P x t s = Inr (0, s')"
      using x0 su f s1(1) c1(3,4) ready_assert_handler [OF c1(2)] su1 s2(1) s'(1)
      by (simp add: pub_sub_handle_queued_msg_def sub_run split: if_splits)
    then show ?thesis using s'(2) by blast
  next
    assume q: "type_of s x = PUB_SUB_RX_TYPE_MSGQ \<and> msgq_of P s x = m # ms"
    obtain s1 where s1: "msgq_get P x t s = Inr ((0, m), s1)" "m \<in> Ms" "ref_cnt s1 = ref_cnt s" "app s1 = app s"
      "ref_inv P b xs Ms home ((in_hand holds None s)(m := in_hand holds None s m + 1)) s1"
      using take_msgq_step [OF assms(1) r assms(4)] q by blast
    obtain i where c1: "client_inv P b xs Ms home holds (Some m) s1" "ready_sub P b s1 x"
      "pub_sub_msg_get_msg_id P m s1 = Inr (i, s1)"
      using next_state [OF s1(4,2,5)] by blast
    have c: "ref_cnt s1 m < 255" using s1(3) assms(6) by simp
    obtain s' where s': "thenM (sub_handle P x i m) (thenM (pub_sub_release_msg P m) (ret 0)) s1 = Inr (0 :: int, s')"
      "client_inv P b xs Ms home holds None s'"
      using client_handle_rest [OF assms(1,2) c1(1) assms(4) s1(2) c, of i "0 :: int"] by blast
    have "pub_sub_handle_queued_msg P x t s = Inr (0, s')"
      using x0 su q s1(1) c1(3) ready_assert_handler [OF c1(2)] s'(1) by (simp add: pub_sub_handle_queued_msg_def sub_run)
    then show ?thesis using s'(2) by blast
  qed
qed

end
