(* ===== verification/ClientRuns.thy ===== *)
theory ClientRuns imports Clients begin

text \<open>
  Runs of the library together with an application whose handlers use it: the broker distributes a
  message, a subscriber handles what waits in its queue, or a program of the application runs. The
  invariant holds throughout, and the library's steps return. An application that forwards and
  keeps messages, inside and outside of its handlers, is an instance.
\<close>

section \<open>Runs\<close>

text \<open>A program of the application, outside of any handler, that accounts for what it does.\<close>

definition honest_prog ::
  "('k, 'u) platform \<Rightarrow> ptr \<Rightarrow> ptr list \<Rightarrow> ptr set \<Rightarrow> (ptr \<rightharpoonup> ptr) \<Rightarrow> ('u \<Rightarrow> ptr \<Rightarrow> nat) \<Rightarrow>
   (('k, 'u) memory, unit) prog \<Rightarrow> bool" where
  "honest_prog P b xs Ms home holds p \<longleftrightarrow> (\<forall>s s'. client_inv P b xs Ms home holds None s \<longrightarrow> p s = Inr ((), s') \<longrightarrow>
     client_inv P b xs Ms home holds None s')"

text \<open>What waits for a subscriber, in the queue that it has; and the room that the steps need.\<close>

definition waiting :: "('k, 'u) platform \<Rightarrow> ('k, 'u) memory \<Rightarrow> ptr \<Rightarrow> ptr list" where
  "waiting P s x = fifo_of P s x @ msgq_of P s x"

definition can_distribute :: "('k, 'u) platform \<Rightarrow> ptr \<Rightarrow> ptr list \<Rightarrow> ('k, 'u) memory \<Rightarrow> bool" where
  "can_distribute P b xs s \<longleftrightarrow> (\<exists>m ms. published P s b = m # ms \<and> ref_cnt s m + length xs \<le> 255) \<and>
     (\<forall>x \<in> set xs. has_room P s x)"

definition can_handle :: "('k, 'u) platform \<Rightarrow> ('k, 'u) memory \<Rightarrow> ptr \<Rightarrow> k_timeout \<Rightarrow> bool" where
  "can_handle P s x t \<longleftrightarrow> (case waiting P s x of [] \<Rightarrow> t = K_NO_WAIT | m # ms \<Rightarrow> ref_cnt s m < 254)"

inductive client_reach ::
  "('k, 'u) platform \<Rightarrow> ptr \<Rightarrow> ptr list \<Rightarrow> (('k, 'u) memory, unit) prog set \<Rightarrow>
   ('k, 'u) memory \<Rightarrow> ('k, 'u) memory \<Rightarrow> bool"
  for P b xs Progs s0 where
  start: "client_reach P b xs Progs s0 s0"
| distribute: "client_reach P b xs Progs s0 s \<Longrightarrow> can_distribute P b xs s \<Longrightarrow> distribute_one P b s = Inr ((), s') \<Longrightarrow>
    client_reach P b xs Progs s0 s'"
| handle: "client_reach P b xs Progs s0 s \<Longrightarrow> x \<in> set xs \<Longrightarrow> can_handle P s x t \<Longrightarrow>
    pub_sub_handle_queued_msg P x t s = Inr (r, s') \<Longrightarrow> client_reach P b xs Progs s0 s'"
| program: "client_reach P b xs Progs s0 s \<Longrightarrow> p \<in> Progs \<Longrightarrow> p s = Inr ((), s') \<Longrightarrow> client_reach P b xs Progs s0 s'"

lemma client_handle_step:
  assumes "core_laws P" and "honest_handlers P b xs Ms home holds" and "client_inv P b xs Ms home holds None s"
    and "x \<in> set xs" and "can_handle P s x t"
  shows "\<exists>r s'. pub_sub_handle_queued_msg P x t s = Inr (r, s') \<and> client_inv P b xs Ms home holds None s'"
proof -
  have r: "ref_inv P b xs Ms home (in_hand holds None s) s" and ow: "\<forall>k. 0 < holds (app s) k \<longrightarrow> k \<in> Ms"
    using assms(3) by (simp_all add: client_inv_def)
  note q = ready_queues [OF sys_worldD(6) [OF ref_invD(1) [OF r] assms(4)]]
  show ?thesis
  proof (cases "waiting P s x")
    case Nil
    then have e: "fifo_of P s x = [] \<or> type_of s x \<noteq> PUB_SUB_RX_TYPE_FIFO" "msgq_of P s x = []" "t = K_NO_WAIT"
      using assms(5) by (simp_all add: waiting_def can_handle_def)
    obtain v s' where "pub_sub_handle_queued_msg P x t s = Inr (v, s')" "app s' = app s"
      "ref_inv P b xs Ms home (in_hand holds None s) s'"
      using handle_empty_step [OF assms(1) r assms(4) e(1,2)] e(3) by blast
    then show ?thesis using ow in_hand_take(3) [of s' s holds None] by (auto simp: client_inv_def)
  next
    case (Cons m ms)
    then have w: "fifo_of P s x @ msgq_of P s x = m # ms" "ref_cnt s m < 254"
      using assms(5) by (simp_all add: waiting_def can_handle_def)
    have "type_of s x = PUB_SUB_RX_TYPE_FIFO \<and> fifo_of P s x = m # ms \<or>
        type_of s x = PUB_SUB_RX_TYPE_MSGQ \<and> msgq_of P s x = m # ms"
      using q w(1) by (cases "type_of s x") auto
    then show ?thesis using client_handle [OF assms(1-4) _ w(2)] by blast
  qed
qed

lemma client_distribute_step:
  assumes "core_laws P" and "honest_handlers P b xs Ms home holds" and "client_inv P b xs Ms home holds None s"
    and "can_distribute P b xs s"
  shows "\<exists>s'. distribute_one P b s = Inr ((), s') \<and> client_inv P b xs Ms home holds None s'"
  using assms(4) client_distribute [OF assms(1-3)] unfolding can_distribute_def by blast

lemma client_reach_inv:
  assumes "client_reach P b xs Progs s0 s" and "core_laws P" and "honest_handlers P b xs Ms home holds"
    and "\<forall>p \<in> Progs. honest_prog P b xs Ms home holds p" and "client_inv P b xs Ms home holds None s0"
  shows "client_inv P b xs Ms home holds None s"
  using assms(1)
proof (induction rule: client_reach.induct)
  case (distribute s s')
  then show ?case using client_distribute_step [OF assms(2,3)] by fastforce
next
  case (handle s x t r s')
  then show ?case using client_handle_step [OF assms(2,3)] by fastforce
next
  case (program s p s')
  then show ?case using assms(4) unfolding honest_prog_def by blast
qed (rule assms(5))

section \<open>Properties\<close>

text \<open>C7. Re-entrancy: handlers may use the library while it is in the middle of an operation, to publish,
  keep, release and allocate messages and to change subscriptions, as long as they account
  for what they do, do not link the message they are called for and leave a place in the message
  queues. In every run of the library with such an application, in any order, a message's counter is the
  number of references that the application holds plus the number of queues that hold it, a block
  of a slab is free exactly when that number is 0, a message is linked in one FIFO at most; and the distribution
  of a message and the handling of a queue return whenever there is room.\<close>

theorem reentrant_handlers:
  assumes "core_laws P" and "honest_handlers P b xs Ms home holds" and "\<forall>p \<in> Progs. honest_prog P b xs Ms home holds p"
    and "client_inv P b xs Ms home holds None s0" and "client_reach P b xs Progs s0 s"
    and "m \<in> Ms" and "n = holds (app s) m + places P b xs s m"
  shows "(home m = None \<or> 0 < n \<longrightarrow> ref_cnt s m = n) \<and> (\<forall>q. home m = Some q \<longrightarrow> (m \<in> slab_pool P s q \<longleftrightarrow> n = 0)) \<and>
    linked P b xs s m \<le> 1 \<and> (can_distribute P b xs s \<longrightarrow> (\<exists>s'. distribute_one P b s = Inr ((), s'))) \<and>
    (\<forall>x \<in> set xs. \<forall>t. can_handle P s x t \<longrightarrow> (\<exists>r s'. pub_sub_handle_queued_msg P x t s = Inr (r, s')))"
proof -
  note i = client_reach_inv [OF assms(5,1-4)]
  have r: "ref_inv P b xs Ms home (in_hand holds None s) s" using i by (simp add: client_inv_def)
  have n: "refs P b xs (in_hand holds None s) s m = n" by (simp add: refs_def in_hand_def assms(7))
  note d = ref_invD [OF r]
  have "home m = None \<or> 0 < n \<longrightarrow> ref_cnt s m = n" using d(5) [OF assms(6)] n by (auto simp: in_use_def)
  moreover have "\<forall>q. home m = Some q \<longrightarrow> (m \<in> slab_pool P s q \<longleftrightarrow> n = 0)"
    using d(9) assms(6) n by (auto simp: slab_inv_def split: if_splits)
  moreover have "can_distribute P b xs s \<Longrightarrow> \<exists>s'. distribute_one P b s = Inr ((), s')"
    using client_distribute_step [OF assms(1,2) i] by blast
  moreover have "x \<in> set xs \<Longrightarrow> can_handle P s x t \<Longrightarrow> \<exists>r s'. pub_sub_handle_queued_msg P x t s = Inr (r, s')" for x t
    using client_handle_step [OF assms(1,2) i] by blast
  ultimately show ?thesis using d(6) [OF assms(6)] by blast
qed

section \<open>An application that forwards and keeps messages\<close>

text \<open>It notes the calls whose message it has kept. \<open>forward\<close> publishes the message of the first note, if the
  application has the only reference to it; \<open>keep\<close> takes a reference to the message that the handler
  is called for. A handler 0 forwards, all others keep.\<close>

definition noted_refs :: "(nat \<times> uint16 \<times> ptr \<times> ptr) list \<Rightarrow> ptr \<Rightarrow> nat" where
  "noted_refs l k = length (filter (\<lambda>(f, i, m, d). m = k) l)"

definition forward ::
  "('k, (nat \<times> uint16 \<times> ptr \<times> ptr) list) platform \<Rightarrow> ptr \<Rightarrow> (('k, (nat \<times> uint16 \<times> ptr \<times> ptr) list) memory, unit) prog" where
  "forward P b = bindM (getsM app) (\<lambda>l. case l of [] \<Rightarrow> ret () | (f, i, m, d) # es \<Rightarrow>
     bindM (pub_sub_msg_get_ref_cnt P m) (\<lambda>c.
       if c = 1 then thenM (pub_sub_publish_to_broker P b m) (modifyM (\<lambda>s. s\<lparr>app := es\<rparr>)) else ret ()))"

definition keep ::
  "('k, (nat \<times> uint16 \<times> ptr \<times> ptr) list) platform \<Rightarrow> nat \<Rightarrow> uint16 \<Rightarrow> ptr \<Rightarrow> ptr \<Rightarrow>
   (('k, (nat \<times> uint16 \<times> ptr \<times> ptr) list) memory, unit) prog" where
  "keep P f i m d = thenM (pub_sub_acquire_msg P m) (modifyM (\<lambda>s. s\<lparr>app := app s @ [(f, i, m, d)]\<rparr>))"

definition forward_or_keep where
  "forward_or_keep P b = (\<lambda>f i m d. if f = 0 then forward P b else keep P f i m d)"

lemma has_room_app [simp]: "has_room P (s\<lparr>app := a\<rparr>) = has_room P s"
  using sub_viewsD(3,6) [OF app_views(1) [where P = P and s = s and a = a]] app_views(2) [where P = P and s = s and a = a]
  by (simp add: has_room_def [abs_def])

lemma civil_refl [simp]: "civil P b xs m s s"
  by (simp add: civil_def)

lemma still_civil:
  assumes "still P s s1" and "ref_cnt s1 m \<le> ref_cnt s m + 1"
  shows "civil P b xs m s s1"
proof -
  have "linked P b xs s1 = linked P b xs s" using assms(1) by (simp add: still_def linked_def [abs_def])
  then show ?thesis using assms has_room_cong [of P s s1] by (simp add: still_def civil_def)
qed

lemma forward_step:
  assumes "core_laws P" and "client_inv P b xs Ms home noted_refs z s"
  shows "\<exists>s'. forward P b s = Inr ((), s') \<and> client_inv P b xs Ms home noted_refs z s' \<and>
    (\<forall>m. z = Some m \<longrightarrow> civil P b xs m s s') \<and> sub_views P s' = sub_views P s \<and> msgq_of P s' = msgq_of P s \<and>
    (\<forall>f i m d es. app s = (f, i, m, d) # es \<and> ref_cnt s m = 1 \<longrightarrow>
      published P s' b = published P s b @ [m] \<and> ref_cnt s' = ref_cnt s \<and> app s' = es)"
proof (cases "app s")
  case Nil
  then show ?thesis using assms(2) by (simp add: forward_def)
next
  case (Cons e es)
  obtain f i m d where e: "e = (f, i, m, d)" by (cases e)
  have a: "app s = (f, i, m, d) # es" using Cons e by simp
  have r: "ref_inv P b xs Ms home (in_hand noted_refs z s) s" and ow: "\<forall>k. 0 < noted_refs (app s) k \<longrightarrow> k \<in> Ms"
    using assms(2) by (simp_all add: client_inv_def)
  note rd = ref_invD [OF r]
  have mM: "m \<in> Ms" using ow a by (simp add: noted_refs_def)
  have h: "0 < in_hand noted_refs z s m" using a by (simp add: in_hand_def noted_refs_def)
  have hl: "header_laws P" using assms(1) by (simp add: core_laws_def)
  obtain hd where hd: "messages s m = Some hd" "m \<noteq> NULL" using rd(2) [OF mM] by (rule valid_msgE)
  have c: "pub_sub_msg_get_ref_cnt P m s = Inr (ref_of (atomic_data hd), s)" by (rule get_ref_cnt_run [OF hl hd])
  have one: "ref_of (atomic_data hd) = 1 \<longleftrightarrow> ref_cnt s m = 1"
    using hd(1) by (simp add: ref_cnt_def word_unat_eq_iff)
  show ?thesis
  proof (cases "ref_cnt s m = 1")
    case False
    then show ?thesis using a c one assms(2) by (simp add: forward_def)
  next
    case True
    then have "in_hand noted_refs z s m + places P b xs s m = 1"
      using rd(5) [OF mM in_useI(1) [where own = "in_hand noted_refs z s", OF h]] by (simp add: refs_def)
    then have o: "in_hand noted_refs z s m = 1" "linked P b xs s m = 0" using h by (simp_all add: places_def)
    have zm: "z \<noteq> Some m" using o(1) a by (auto simp: in_hand_def noted_refs_def)
    obtain s1 where s1: "pub_sub_publish_to_broker P b m s = Inr ((), s1)" "published P s1 b = published P s b @ [m]"
      "msgq_of P s1 = msgq_of P s" "ref_cnt s1 = ref_cnt s" "linked P b xs s1 = (linked P b xs s)(m := 1)"
      "same_world P s s1"
      "ref_inv P b xs Ms home ((in_hand noted_refs z s)(m := in_hand noted_refs z s m - 1)) s1"
      using publish_step [OF assms(1) r mM h o(2)] by blast
    let ?s = "s1\<lparr>app := es\<rparr>"
    have "in_hand noted_refs z ?s = (in_hand noted_refs z s)(m := in_hand noted_refs z s m - 1)"
      using a zm by (auto simp: in_hand_def noted_refs_def)
    then have "ref_inv P b xs Ms home (in_hand noted_refs z ?s) ?s" using ref_inv_app [OF s1(7)] by simp
    moreover have "\<forall>k. 0 < noted_refs es k \<longrightarrow> k \<in> Ms" using ow a by (auto simp: noted_refs_def)
    moreover have "civil P b xs k s ?s" if "z = Some k" for k
      using that zm s1(3-5) has_room_cong [OF s1(6)] by (auto simp: civil_def ref_cnt_def [of ?s] ref_cnt_def [of s1])
    moreover have "forward P b s = Inr ((), ?s)" using a c one True s1(1) by (simp add: forward_def)
    moreover have "ref_cnt ?s = ref_cnt s" using s1(4) by (simp add: ref_cnt_def [abs_def])
    ultimately show ?thesis
      using s1(2,3,6) a by (intro exI [of _ ?s]) (simp add: client_inv_def app_views same_world_def)
  qed
qed

lemma keep_step:
  assumes "core_laws P" and "client_inv P b xs Ms home noted_refs (Some m) s" and "m \<in> Ms" and "ref_cnt s m < 255"
  shows "\<exists>s'. keep P f i m d s = Inr ((), s') \<and> client_inv P b xs Ms home noted_refs (Some m) s' \<and> civil P b xs m s s'"
proof -
  have r: "ref_inv P b xs Ms home (in_hand noted_refs (Some m) s) s" and ow: "\<forall>k. 0 < noted_refs (app s) k \<longrightarrow> k \<in> Ms"
    using assms(2) by (simp_all add: client_inv_def)
  have h: "0 < in_hand noted_refs (Some m) s m" by (simp add: in_hand_def)
  let ?o = "(in_hand noted_refs (Some m) s)(m := in_hand noted_refs (Some m) s m + 1)"
  obtain s1 where s1: "pub_sub_acquire_msg P m s = Inr ((), s1)" "still P s s1" "app s1 = app s"
    "ref_inv P b xs Ms home ?o s1"
    using acquire_step [OF assms(1) r assms(3) disjI2 [OF h] assms(4)] by blast
  let ?s = "s1\<lparr>app := app s1 @ [(f, i, m, d)]\<rparr>"
  have "in_hand noted_refs (Some m) ?s = ?o" using s1(3) by (auto simp: in_hand_def noted_refs_def fun_eq_iff)
  then have "ref_inv P b xs Ms home (in_hand noted_refs (Some m) ?s) ?s" using ref_inv_app [OF s1(4)] by simp
  moreover have "\<forall>k. 0 < noted_refs (app ?s) k \<longrightarrow> k \<in> Ms" using ow assms(3) s1(3) by (auto simp: noted_refs_def split: if_splits)
  moreover have "ref_cnt s1 m = ref_cnt s m + 1"
  proof -
    have "places P b xs s1 = places P b xs s" using s1(2) by (simp add: still_def places_def [abs_def] linked_def)
    then show ?thesis
      using ref_invD(5) [OF r assms(3) in_useI(1) [where own = "in_hand noted_refs (Some m) s", OF h]]
        ref_invD(5) [OF s1(4) assms(3) in_useI(1) [where own = ?o]] by (simp add: refs_def)
  qed
  then have "civil P b xs m s ?s" using still_civil [OF s1(2), of m b xs] by (simp add: civil_def ref_cnt_def [of ?s] ref_cnt_def [of s1])
  ultimately show ?thesis using s1(1) by (simp add: keep_def client_inv_def)
qed

text \<open>The views of memory and the invariant do not depend on the handlers.\<close>

lemma views_user_handler [simp]:
  "published (P\<lparr>user_handler := h\<rparr>) = published P" "fifo_of (P\<lparr>user_handler := h\<rparr>) = fifo_of P"
  "msgq_of (P\<lparr>user_handler := h\<rparr>) = msgq_of P" "msgq_cap (P\<lparr>user_handler := h\<rparr>) = msgq_cap P"
  "sub_list (P\<lparr>user_handler := h\<rparr>) = sub_list P" "slab_pool (P\<lparr>user_handler := h\<rparr>) = slab_pool P"
  "slab_fits (P\<lparr>user_handler := h\<rparr>) = slab_fits P" "allocator_at (P\<lparr>user_handler := h\<rparr>) = allocator_at P"
  "runtime_ok (P\<lparr>user_handler := h\<rparr>) = runtime_ok P"
  by (simp_all add: fun_eq_iff published_def fifo_of_def msgq_of_def msgq_cap_def sub_list_def slab_pool_def slab_fits_def
      PUB_SUB_MSG_OVERHEAD_NUM_BYTES_def allocator_at_def runtime_ok_def cong: option.case_cong sum.case_cong)

lemma inv_user_handler [simp]:
  "linked (P\<lparr>user_handler := h\<rparr>) = linked P" "places (P\<lparr>user_handler := h\<rparr>) = places P"
  "has_room (P\<lparr>user_handler := h\<rparr>) = has_room P" "civil (P\<lparr>user_handler := h\<rparr>) = civil P"
  "ref_inv (P\<lparr>user_handler := h\<rparr>) = ref_inv P" "client_inv (P\<lparr>user_handler := h\<rparr>) = client_inv P"
  "core_laws (P\<lparr>user_handler := h\<rparr>) = core_laws P"
proof -
  show l: "linked (P\<lparr>user_handler := h\<rparr>) = linked P" and p: "places (P\<lparr>user_handler := h\<rparr>) = places P"
    and r: "has_room (P\<lparr>user_handler := h\<rparr>) = has_room P"
    by (simp_all add: fun_eq_iff linked_def places_def has_room_def)
  then show "civil (P\<lparr>user_handler := h\<rparr>) = civil P" by (simp add: fun_eq_iff civil_def)
  have "unowned (P\<lparr>user_handler := h\<rparr>) = unowned P" "slab_owned (P\<lparr>user_handler := h\<rparr>) = slab_owned P"
    "ready_sub (P\<lparr>user_handler := h\<rparr>) = ready_sub P"
    by (simp_all add: fun_eq_iff unowned_def slab_owned_def ready_sub_def)
  then show i: "ref_inv (P\<lparr>user_handler := h\<rparr>) = ref_inv P"
    using l p by (simp add: fun_eq_iff ref_inv_def sys_world_def slab_inv_def refs_def)
  show "client_inv (P\<lparr>user_handler := h\<rparr>) = client_inv P" by (simp add: fun_eq_iff client_inv_def i)
qed (simp add: core_laws_def header_laws_def)

lemma forward_or_keep_honest:
  assumes "core_laws P"
  shows "honest_handlers (P\<lparr>user_handler := forward_or_keep P b\<rparr>) b xs Ms home noted_refs"
    and "honest_prog (P\<lparr>user_handler := forward_or_keep P b\<rparr>) b xs Ms home noted_refs (forward P b)"
proof -
  have "\<exists>s'. forward_or_keep P b f i m d s = Inr ((), s') \<and> client_inv P b xs Ms home noted_refs (Some m) s' \<and> civil P b xs m s s'"
    if "m \<in> Ms" "client_inv P b xs Ms home noted_refs (Some m) s" "ref_cnt s m < 255" for f i m d s
    using forward_step [OF assms that(2)] keep_step [OF assms that(2,1,3), of f i d]
    by (cases "f = 0") (auto simp: forward_or_keep_def)
  then show "honest_handlers (P\<lparr>user_handler := forward_or_keep P b\<rparr>) b xs Ms home noted_refs"
    by (simp add: honest_handlers_def)
  show "honest_prog (P\<lparr>user_handler := forward_or_keep P b\<rparr>) b xs Ms home noted_refs (forward P b)"
    using forward_step [OF assms] by (fastforce simp: honest_prog_def)
qed

text \<open>The two FIFO subscribers of \<open>id3_id4\<close> with these handlers: the application holds messages 2 and 3 and forwards
  the first one; when subscriber 4 handles it, it forwards the second one.\<close>

theorem reentrant_handlers_witness:
  "\<exists>s1 s2. client_reach (noting_platform\<lparr>user_handler := forward_or_keep noting_platform 9\<rparr>) 9 [4, 6] {forward noting_platform 9}
       (id3_id4\<lparr>app := [(0, 3, 2, NULL), (0, 4, 3, NULL)]\<rparr>) s1 \<and>
     published noting_platform s1 9 = [2] \<and> ref_cnt s1 2 = 1 \<and>
     distribute_one (noting_platform\<lparr>user_handler := forward_or_keep noting_platform 9\<rparr>) 9 s1 = Inr ((), s2)"
proof -
  let ?P = "noting_platform" and ?Q = "noting_platform\<lparr>user_handler := forward_or_keep noting_platform 9\<rparr>"
    and ?M = "{2, 3} :: ptr set" and ?h = "\<lambda>_. None :: ptr option"
    and ?s = "id3_id4\<lparr>app := [(0, 3, 2, NULL), (0, 4, 3, NULL)]\<rparr>"
  have c: "core_laws ?P" by (rule system_core [OF noting_system_laws(1)])
  have "places ?P 9 [4, 6] ?s k = 0" for k by (simp add: places_def linked_def held_def id3_id4_queues app_views)
  moreover have "ref_inv ?P 9 [4, 6] ?M ?h (\<lambda>_. 1) ?s" by (rule ref_inv_app [OF id3_id4_ref_inv])
  ultimately have "ref_inv ?P 9 [4, 6] ?M ?h (in_hand noted_refs None ?s) ?s"
    by (auto simp: ref_inv_def slab_inv_def refs_def in_hand_def noted_refs_def)
  then have i: "client_inv ?P 9 [4, 6] ?M ?h noted_refs None ?s" by (auto simp: client_inv_def noted_refs_def split: if_splits)
  have r: "ref_cnt ?s 2 = 1" using id3_id4_msgs(5) by (simp add: ref_cnt_def)
  obtain s1 where s1: "forward ?P 9 ?s = Inr ((), s1)" "client_inv ?P 9 [4, 6] ?M ?h noted_refs None s1"
    "sub_views ?P s1 = sub_views ?P ?s" "published ?P s1 9 = published ?P ?s 9 @ [2]" "ref_cnt s1 = ref_cnt ?s" "app s1 = [(0, 4, 3, NULL)]"
    using forward_step [OF c i] r by auto
  have q: "client_reach ?Q 9 [4, 6] {forward ?P 9} ?s s1"
    by (rule client_reach.program [where p = "forward ?P 9", OF client_reach.start]) (simp_all add: s1(1))
  have p: "published ?P s1 9 = [2]" using s1(4) by (simp add: app_views id3_id4_queues)
  have "type_of s1 = type_of id3_id4" using sub_viewsD(3) [OF s1(3)] sub_viewsD(3) [OF app_views(1)] by simp
  then have "can_distribute ?Q 9 [4, 6] s1"
    using p s1(5) r by (simp add: can_distribute_def has_room_def id3_id4_queues)
  moreover have "ref_cnt s1 2 = 1" using s1(5) r by simp
  ultimately show ?thesis
    using reentrant_handlers [OF _ forward_or_keep_honest(1) [OF c] _ _ q, of ?M ?h 2, OF _ _ _ _ refl]
      forward_or_keep_honest(2) [OF c] c i q p by auto
qed

end
