(* ===== verification/Threads.thy ===== *)
theory Threads imports Clients Delayable begin

text \<open>
  Threads: the work item, the subscribers and the application run at the same time. The operations of the
  library are cut into the steps that other threads can see: the work item takes a message, takes the
  lock, visits one subscriber after the other, for each of them that has a queue takes a reference and
  then puts the message into the queue, gives the lock back and releases the message; a
  subscriber takes a message, passes it on, calls its handler and releases the message. Steps of
  different threads are interleaved in any order, and a thread that has to wait (for the lock, for
  a message, or for room in a message queue) has no step.
\<close>

section \<open>The steps of the threads\<close>

text \<open>Where the work item is: with the message it has fetched, its id, and in the loop the next two nodes. With
  \<open>Queueing\<close> and \<open>Linking\<close> it has taken the reference of the subscriber's queue, and has not put the
  message there yet.\<close>

datatype work_phase = Resting | Fetched ptr uint16 | Walking ptr uint16 ptr ptr
  | Queueing ptr uint16 ptr ptr | Linking ptr ptr | Walked ptr | Unlocked ptr

fun holds_lock :: "work_phase \<Rightarrow> bool" where
  "holds_lock (Walking m i sub tmp) = True"
| "holds_lock (Queueing m i sub tmp) = True"
| "holds_lock (Linking m sub) = True"
| "holds_lock (Walked m) = True"
| "holds_lock _ = False"

text \<open>What the work item does next: a round of \<open>publish_work_handler\<close> with \<open>process_msg\<close>, cut into the steps
  between these points. The result \<open>Blocked\<close> means that it has to wait; at the start of a round, that nothing is
  published, and then \<open>publish_work_handler\<close> waits for the next message (theory Broker).\<close>

definition to_next :: "('k, 'u) platform \<Rightarrow> ptr \<Rightarrow> uint16 \<Rightarrow> ptr \<Rightarrow> (('k, 'u) memory, work_phase) prog" where
  "to_next P m i tmp = bindM (peek_next_container P tmp) (\<lambda>tmp'. ret (Walking m i tmp tmp'))"

fun work_next :: "('k, 'u) platform \<Rightarrow> ptr \<Rightarrow> work_phase \<Rightarrow> (('k, 'u) memory, work_phase) prog" where
  "work_next P b Resting =
     bindM (pub_sub_msg_fifo_get P (Msg_publish_fifo b) K_NO_WAIT) (\<lambda>m.
     thenM (guardM Blocked (m \<noteq> NULL))
    (bindM (pub_sub_msg_get_msg_id P m) (\<lambda>i.
     ret (Fetched m i))))"
| "work_next P b (Fetched m i) =
     thenM (lock_sub_list P b)
    (bindM (getsM (\<lambda>s. sys_slist_peek_head P (slists s) b)) (\<lambda>sub.
     bindM (peek_next_container P sub) (\<lambda>tmp.
     ret (Walking m i sub tmp))))"
| "work_next P b (Walking m i sub tmp) =
     (if sub = NULL then ret (Walked m)
      else bindM (is_subscribed P sub i) (\<lambda>wanted.
        if wanted then
          bindM (read_sub sub) (\<lambda>su.
          case rx_type su of
            PUB_SUB_RX_TYPE_CALLBACK \<Rightarrow>
              thenM (assert_handler P sub)
             (thenM (sub_handle P sub i m)
              (to_next P m i tmp))
          | PUB_SUB_RX_TYPE_MSGQ \<Rightarrow>
              thenM (pub_sub_acquire_msg P m)
              (ret (Queueing m i sub tmp))
          | PUB_SUB_RX_TYPE_FIFO \<Rightarrow>
              thenM (pub_sub_acquire_msg P m)
              (ret (Linking m sub)))
        else to_next P m i tmp))"
| "work_next P b (Queueing m i sub tmp) =
     thenM (discard (msgq_put P sub m K_FOREVER))
     (to_next P m i tmp)"
| "work_next P b (Linking m sub) =
     thenM (pub_sub_msg_fifo_put P (Sub_fifo sub) m)
     (ret (Walked m))"
| "work_next P b (Walked m) =
     thenM (unlock_sub_list P b)
     (ret (Unlocked m))"
| "work_next P b (Unlocked m) =
     thenM (pub_sub_release_msg P m)
     (ret Resting)"

text \<open>Where a subscriber is, and what it does next: a call of \<open>pub_sub_handle_queued_msg\<close>. The lock is taken and
  given back within the step that passes the message on, which has to wait while the work item holds it.\<close>

datatype sub_phase = Idle | Taken ptr uint16 | Passed ptr uint16 | Handled ptr

fun sub_next :: "('k, 'u) platform \<Rightarrow> ptr \<Rightarrow> bool \<Rightarrow> sub_phase \<Rightarrow> (('k, 'u) memory, sub_phase) prog" where
  "sub_next P x locked Idle =
     bindM (read_sub x) (\<lambda>su.
     case rx_type su of
       PUB_SUB_RX_TYPE_CALLBACK \<Rightarrow> raise Blocked
     | PUB_SUB_RX_TYPE_MSGQ \<Rightarrow>
         bindM (msgq_get P x K_NO_WAIT) (\<lambda>(r, m).
         thenM (guardM Blocked (r = 0))
        (bindM (pub_sub_msg_get_msg_id P m) (\<lambda>i.
         thenM (assert_handler P x)
         (ret (Passed m i)))))
     | PUB_SUB_RX_TYPE_FIFO \<Rightarrow>
         bindM (pub_sub_msg_fifo_get P (Sub_fifo x) K_NO_WAIT) (\<lambda>m.
         thenM (guardM Blocked (m \<noteq> NULL))
        (bindM (pub_sub_msg_get_msg_id P m) (\<lambda>i.
         thenM (assert_handler P x)
        (bindM (read_sub x) (\<lambda>su'.
         ret (if i \<le> max_pub_msg_id su' then Taken m i else Passed m i)))))))"
| "sub_next P x locked (Taken m i) =
     thenM (guardM Blocked (\<not> locked))
    (thenM (send_to_next_fifo_subscriber P x i m)
     (ret (Passed m i)))"
| "sub_next P x locked (Passed m i) =
     thenM (sub_handle P x i m)
     (ret (Handled m))"
| "sub_next P x locked (Handled m) =
     thenM (pub_sub_release_msg P m)
     (ret Idle)"

text \<open>The messages that a thread has a reference to, as often as it has one, and those that it still may put into a
  FIFO.\<close>

fun work_hand :: "work_phase \<Rightarrow> ptr list" where
  "work_hand Resting = []"
| "work_hand (Fetched m i) = [m]"
| "work_hand (Walking m i sub tmp) = [m]"
| "work_hand (Queueing m i sub tmp) = [m, m]"
| "work_hand (Linking m sub) = [m, m]"
| "work_hand (Walked m) = [m]"
| "work_hand (Unlocked m) = [m]"

fun work_right :: "work_phase \<Rightarrow> ptr list" where
  "work_right (Fetched m i) = [m]"
| "work_right (Walking m i sub tmp) = [m]"
| "work_right (Queueing m i sub tmp) = [m]"
| "work_right (Linking m sub) = [m]"
| "work_right _ = []"

fun hand_of :: "sub_phase \<Rightarrow> ptr list" where
  "hand_of Idle = []"
| "hand_of (Taken m i) = [m]"
| "hand_of (Passed m i) = [m]"
| "hand_of (Handled m) = [m]"

fun right_of :: "sub_phase \<Rightarrow> ptr list" where
  "right_of (Taken m i) = [m]"
| "right_of _ = []"

definition carried :: "ptr list \<Rightarrow> work_phase \<Rightarrow> (ptr \<Rightarrow> sub_phase) \<Rightarrow> ptr \<Rightarrow> nat" where
  "carried xs wp sp k = count_list (work_hand wp) k + held xs (hand_of \<circ> sp) k"

definition rights :: "ptr list \<Rightarrow> work_phase \<Rightarrow> (ptr \<Rightarrow> sub_phase) \<Rightarrow> ptr \<Rightarrow> nat" where
  "rights xs wp sp k = count_list (work_right wp) k + held xs (right_of \<circ> sp) k"

text \<open>The counter of a message has its limit at 255. With assertions, to take one more reference fails; without
  them the counter becomes 0. A step is what a thread does without failing, without waiting, and without
  carrying the counter of the message that it has in hand past the limit.\<close>

definition passes_limit :: "ptr list \<Rightarrow> ('k, 'u) memory \<Rightarrow> ('k, 'u) memory \<Rightarrow> bool" where
  "passes_limit ms s s' \<longleftrightarrow> (\<exists>m \<in> set ms. ref_cnt s m = 255 \<and> ref_cnt s' m = 0)"

definition work_event ::
  "('k, 'u) platform \<Rightarrow> ptr \<Rightarrow> work_phase \<Rightarrow> ('k, 'u) memory \<Rightarrow> work_phase \<Rightarrow> ('k, 'u) memory \<Rightarrow> bool" where
  "work_event P b wp s wp' s' \<longleftrightarrow> work_next P b wp s = Inr (wp', s') \<and> \<not> passes_limit (work_hand wp) s s'"

definition sub_event ::
  "('k, 'u) platform \<Rightarrow> ptr \<Rightarrow> bool \<Rightarrow> sub_phase \<Rightarrow> ('k, 'u) memory \<Rightarrow> sub_phase \<Rightarrow> ('k, 'u) memory \<Rightarrow> bool" where
  "sub_event P x locked p s p' s' \<longleftrightarrow> sub_next P x locked p s = Inr (p', s') \<and> \<not> passes_limit (hand_of p) s s'"

text \<open>A thread fails when what it does next neither is a step nor has to wait.\<close>

definition goes_wrong :: "ptr list \<Rightarrow> ('k, 'u) memory \<Rightarrow> error + 'p \<times> ('k, 'u) memory \<Rightarrow> bool" where
  "goes_wrong ms s r \<longleftrightarrow> (case r of Inl e \<Rightarrow> e \<noteq> Blocked | Inr (p, s') \<Rightarrow> passes_limit ms s s')"

text \<open>The operations of the application, other than to add and remove subscribers. It leaves a message alone that
  a thread of the library may still put into a FIFO.\<close>

fun app_event :: "event \<Rightarrow> bool" where
  "app_event (Join x) = False"
| "app_event (Leave x) = False"
| "app_event Distribute = False"
| "app_event Work = False"
| "app_event (Handle x) = False"
| "app_event _ = True"

fun sent_msg :: "event \<Rightarrow> ptr list" where
  "sent_msg (Publish m) = [m]"
| "sent_msg (Send x m) = [m]"
| "sent_msg _ = []"

text \<open>The time-outs of delayable messages. The application starts, updates and aborts them; when one
  expires the kernel takes it off its list and calls its handler, in an interrupt, which no thread can
  see half done. The message has a private id; without assertions nobody may refer to it. An expiry
  whose handler fails or waits (theory ThreadTimers says when) is not part of a run.\<close>

inductive timer_event ::
  "('k, 'u) platform \<Rightarrow> ptr list \<Rightarrow> ptr set \<Rightarrow> (ptr \<rightharpoonup> ptr) \<Rightarrow> ('k, 'u) memory \<Rightarrow> ('k, 'u) memory \<Rightarrow> bool"
  for P xs Ms home where
  start_timer: "m \<in> Ms \<Longrightarrow> delayable_msgs s m = Some d \<Longrightarrow> pub_sub_delayable_msg_start P m t s = Inr ((), s') \<Longrightarrow>
    timer_event P xs Ms home s s'"
| update_timer: "m \<in> Ms \<Longrightarrow> delayable_msgs s m = Some d \<Longrightarrow> pub_sub_delayable_msg_update_timeout P m t s = Inr (r, s') \<Longrightarrow>
    timer_event P xs Ms home s s'"
| abort_timer: "m \<in> Ms \<Longrightarrow> delayable_msgs s m = Some d \<Longrightarrow> pub_sub_delayable_msg_abort P m s = Inr (r, s') \<Longrightarrow>
    timer_event P xs Ms home s s'"
| expire: "m \<in> Ms \<Longrightarrow> home m = None \<Longrightarrow> delayable_msgs s m = Some d \<Longrightarrow> subscriber d \<in> set xs \<Longrightarrow>
    max_id_of s (subscriber d) < msg_id_of s m \<Longrightarrow> CONFIG_ASSERT P \<or> ref_cnt s m = 0 \<Longrightarrow>
    timeout_active P (timeout d) \<Longrightarrow> \<not> timeout_active P q \<Longrightarrow>
    pub_sub_delayable_msg_handler P m (upd_delayable m (\<lambda>d. d\<lparr>timeout := q\<rparr>) s) = Inr ((), s') \<Longrightarrow>
    timer_event P xs Ms home s s'"

type_synonym ('k, 'u) threads = "work_phase \<times> (ptr \<Rightarrow> sub_phase) \<times> (ptr \<Rightarrow> nat) \<times> ('k, 'u) memory"

definition thread_fails :: "('k, 'u) platform \<Rightarrow> ptr \<Rightarrow> ptr list \<Rightarrow> ('k, 'u) threads \<Rightarrow> bool" where
  "thread_fails P b xs c \<longleftrightarrow> (case c of (wp, sp, own, s) \<Rightarrow>
     goes_wrong (work_hand wp) s (work_next P b wp s) \<or>
     (\<exists>x \<in> set xs. goes_wrong (hand_of (sp x)) s (sub_next P x (holds_lock wp) (sp x) s)))"

inductive lib_thread_step ::
  "('k, 'u) platform \<Rightarrow> ptr \<Rightarrow> ptr list \<Rightarrow> ('k, 'u) threads \<Rightarrow> ('k, 'u) threads \<Rightarrow> bool"
  for P b xs where
  work_item: "work_event P b wp s wp' s' \<Longrightarrow> lib_thread_step P b xs (wp, sp, own, s) (wp', sp, own, s')"
| subscriber: "x \<in> set xs \<Longrightarrow> sub_event P x (holds_lock wp) (sp x) s p s' \<Longrightarrow>
    lib_thread_step P b xs (wp, sp, own, s) (wp, sp(x := p), own, s')"

inductive thread_reach ::
  "('k, 'u) platform \<Rightarrow> ptr \<Rightarrow> ptr list \<Rightarrow> ptr set \<Rightarrow> (ptr \<rightharpoonup> ptr) \<Rightarrow> ('k, 'u) memory \<Rightarrow> ('k, 'u) threads \<Rightarrow> bool"
  for P b xs Ms home s0 where
  start: "thread_reach P b xs Ms home s0 (Resting, \<lambda>_. Idle, \<lambda>_. 0, s0)"
| lib: "thread_reach P b xs Ms home s0 c \<Longrightarrow> lib_thread_step P b xs c c' \<Longrightarrow> thread_reach P b xs Ms home s0 c'"
| app: "thread_reach P b xs Ms home s0 (wp, sp, own, s) \<Longrightarrow> app_event e \<Longrightarrow> \<forall>m \<in> set (sent_msg e). rights xs wp sp m = 0 \<Longrightarrow>
    sys_event P b Ms home (xs, own, s) e (xs, own', s') \<Longrightarrow> thread_reach P b xs Ms home s0 (wp, sp, own', s')"
| timer: "thread_reach P b xs Ms home s0 (wp, sp, own, s) \<Longrightarrow> timer_event P xs Ms home s s' \<Longrightarrow>
    thread_reach P b xs Ms home s0 (wp, sp, own, s')"

section \<open>The invariant\<close>

text \<open>The references are those of the application, those in the hands of threads, and the queues. A message is
  linked in one FIFO, or one thread may link it, or neither.\<close>

fun walk_ok :: "ptr list \<Rightarrow> (ptr \<Rightarrow> pub_sub_rx_type) \<Rightarrow> work_phase \<Rightarrow> bool" where
  "walk_ok xs ty (Walking m i sub tmp) \<longleftrightarrow> (\<exists>us zs. xs = us @ zs \<and> sub = hd0 zs \<and> tmp = hd0 (tl zs))"
| "walk_ok xs ty (Queueing m i sub tmp) \<longleftrightarrow>
     ty sub = PUB_SUB_RX_TYPE_MSGQ \<and> (\<exists>us zs. xs = us @ sub # zs \<and> tmp = hd0 zs)"
| "walk_ok xs ty (Linking m sub) \<longleftrightarrow> ty sub = PUB_SUB_RX_TYPE_FIFO \<and> sub \<in> set xs"
| "walk_ok xs ty _ \<longleftrightarrow> True"

definition thread_inv ::
  "('k, 'u) platform \<Rightarrow> ptr \<Rightarrow> ptr list \<Rightarrow> ptr set \<Rightarrow> (ptr \<rightharpoonup> ptr) \<Rightarrow>
   work_phase \<Rightarrow> (ptr \<Rightarrow> sub_phase) \<Rightarrow> (ptr \<Rightarrow> nat) \<Rightarrow> ('k, 'u) memory \<Rightarrow> bool" where
  "thread_inv P b xs Ms home wp sp own s \<longleftrightarrow>
     ref_inv P b xs Ms home (\<lambda>k. own k + carried xs wp sp k) s \<and>
     (\<forall>k. linked P b xs s k + rights xs wp sp k \<le> 1) \<and> (\<forall>k. 0 < carried xs wp sp k \<longrightarrow> k \<in> Ms) \<and>
     (\<forall>x \<in> set xs. right_of (sp x) \<noteq> [] \<longrightarrow> type_of s x = PUB_SUB_RX_TYPE_FIFO) \<and> walk_ok xs (type_of s) wp"

lemma comp_upd: "f \<circ> sp(x := p) = (f \<circ> sp)(x := f p)"
  by (simp add: fun_eq_iff)

lemma in_hands:
  assumes "x \<in> set xs"
  shows "hand_of (sp x) = [] \<Longrightarrow> hand_of p = [m] \<Longrightarrow>
      carried xs wp (sp(x := p)) = (carried xs wp sp)(m := carried xs wp sp m + 1)"
    and "hand_of (sp x) = [m] \<Longrightarrow> hand_of p = [] \<Longrightarrow>
      carried xs wp (sp(x := p)) = (carried xs wp sp)(m := carried xs wp sp m - 1)"
    and "hand_of (sp x) = hand_of p \<Longrightarrow> carried xs wp (sp(x := p)) = carried xs wp sp"
    and "hand_of (sp x) = [m] \<Longrightarrow> 0 < carried xs wp sp m"
  using held_push [OF assms, of "hand_of \<circ> sp" m] held_pop [OF assms, of "hand_of \<circ> sp" m "[]"]
  by (auto simp: carried_def comp_upd fun_eq_iff fun_upd_idem)

lemma in_rights:
  assumes "x \<in> set xs"
  shows "right_of (sp x) = [] \<Longrightarrow> right_of p = [m] \<Longrightarrow>
      rights xs wp (sp(x := p)) = (rights xs wp sp)(m := rights xs wp sp m + 1)"
    and "right_of (sp x) = [m] \<Longrightarrow> right_of p = [] \<Longrightarrow>
      rights xs wp (sp(x := p)) = (rights xs wp sp)(m := rights xs wp sp m - 1)"
    and "right_of (sp x) = right_of p \<Longrightarrow> rights xs wp (sp(x := p)) = rights xs wp sp"
    and "right_of (sp x) = [m] \<Longrightarrow> 0 < rights xs wp sp m"
  using held_push [OF assms, of "right_of \<circ> sp" m] held_pop [OF assms, of "right_of \<circ> sp" m "[]"]
  by (auto simp: rights_def comp_upd fun_eq_iff fun_upd_idem)

lemma thread_invD:
  assumes "thread_inv P b xs Ms home wp sp own s"
  shows "ref_inv P b xs Ms home (\<lambda>k. own k + carried xs wp sp k) s" and "linked P b xs s k + rights xs wp sp k \<le> 1"
    and "0 < carried xs wp sp k \<Longrightarrow> k \<in> Ms" and "x \<in> set xs \<Longrightarrow> right_of (sp x) \<noteq> [] \<Longrightarrow> type_of s x = PUB_SUB_RX_TYPE_FIFO"
    and "walk_ok xs (type_of s) wp" and "sys_world P b xs Ms home s" and "x \<in> set xs \<Longrightarrow> ready_sub P b s x"
  using assms sys_worldD(6) [OF ref_invD(1)] ref_invD(1) unfolding thread_inv_def by blast+

text \<open>One thread moves: what changes of the hands, the rights and the links.\<close>

lemma thread_invI:
  assumes "thread_inv P b xs Ms home wp sp own s" and "type_of s' = type_of s"
    and "ref_inv P b xs Ms home o' s'" and "\<And>k. o' k = own' k + carried xs wp' sp' k"
    and "\<And>k. linked P b xs s' k + rights xs wp' sp' k \<le> linked P b xs s k + rights xs wp sp k"
    and "\<And>k. 0 < carried xs wp' sp' k \<Longrightarrow> 0 < carried xs wp sp k \<or> k \<in> Ms"
    and "\<And>x. x \<in> set xs \<Longrightarrow> right_of (sp' x) \<noteq> [] \<Longrightarrow> right_of (sp x) \<noteq> [] \<or> type_of s x = PUB_SUB_RX_TYPE_FIFO"
    and "walk_ok xs (type_of s) wp'"
  shows "thread_inv P b xs Ms home wp' sp' own' s'"
proof -
  have "ref_inv P b xs Ms home (\<lambda>k. own' k + carried xs wp' sp' k) s'" using assms(3) unfolding assms(4) [symmetric] by simp
  moreover have "linked P b xs s' k + rights xs wp' sp' k \<le> 1" for k
    by (rule order_trans [OF assms(5) thread_invD(2) [OF assms(1)]])
  ultimately show ?thesis
    using assms(2,6-8) thread_invD(3,4) [OF assms(1)] unfolding thread_inv_def by metis
qed

lemma same_world_types: "same_world P s s' \<Longrightarrow> type_of s' = type_of s"
  using sub_viewsD(3) [of P s' s] by (simp add: same_world_def)

text \<open>Steps that leave the counter of the message alone, or take one reference below the limit.\<close>

lemma within_limit [intro]:
  "ref_cnt s' = ref_cnt s \<Longrightarrow> \<not> passes_limit ms s s'"
  "ref_cnt s m < 255 \<Longrightarrow> set ms \<subseteq> {m} \<Longrightarrow> \<not> passes_limit ms s s'"
  by (auto simp: passes_limit_def)

lemma places_queues: "queues P s' = queues P s \<Longrightarrow> places P b xs s' m = places P b xs s m"
  by (simp add: queues_def places_def linked_def)

lemma still_queues: "still P s s' \<Longrightarrow> queues P s' = queues P s"
  by (simp add: still_def queues_def same_world_cap)

lemma release_limit:
  assumes "core_laws P" and "ref_inv P b xs Ms home own s" and "m \<in> Ms" and "0 < own m" and "set ms \<subseteq> {m}"
    and "pub_sub_release_msg P m s = Inr ((), s')"
  shows "\<not> passes_limit ms s s'"
proof -
  have s': "still P s s'" "ref_inv P b xs Ms home (own(m := own m - 1)) s'"
    using release_step [OF assms(1-4)] assms(6) by auto
  have p: "places P b xs s' m = places P b xs s m" by (rule places_queues [OF still_queues [OF s'(1)]])
  have n: "ref_cnt s m = own m + places P b xs s m"
    using ref_invD(5) [OF assms(2,3) in_useI(1) [of own m, OF assms(4)]] by (simp add: refs_def)
  show ?thesis
  proof (cases "own m + places P b xs s m = 1")
    case True
    then show ?thesis using n by (intro within_limit(2) [OF _ assms(5)]) simp
  next
    case False
    then have "in_use home (refs P b xs (own(m := own m - 1)) s') m" using assms(4) p by (auto simp: in_use_def refs_def)
    then have "ref_cnt s' m \<noteq> 0" using ref_invD(5) [OF s'(2) assms(3)] False assms(4) p by (auto simp: refs_def)
    then show ?thesis using assms(5) by (auto simp: passes_limit_def)
  qed
qed

text \<open>The steps of the work item: it fetches a message, or has to wait for one.\<close>

lemma fetch_ok:
  assumes "core_laws P" and "thread_inv P b xs Ms home Resting sp own s" and "published P s b = m # ms"
  shows "\<exists>i s'. work_event P b Resting s (Fetched m i) s' \<and> thread_inv P b xs Ms home (Fetched m i) sp own s' \<and>
    i = msg_id_of s m \<and> sub_views P s' = sub_views P s \<and> ref_cnt s' = ref_cnt s \<and> has_room P s' = has_room P s \<and>
    queues P s' = ((published P s)(b := ms), fifo_of P s, msgq_of P s, msgq_cap P s)"
proof -
  note d = thread_invD [OF assms(2)]
  have hl: "header_laws P" using assms(1) by (simp add: core_laws_def)
  let ?t = "\<lambda>k. own k + carried xs Resting sp k"
  obtain s1 where s1: "pub_sub_msg_fifo_get P (Msg_publish_fifo b) K_NO_WAIT s = Inr (m, s1)"
    "same_world P s s1" "m \<in> Ms" "linked P b xs s1 = (linked P b xs s)(m := 0)" "ref_inv P b xs Ms home (?t(m := ?t m + 1)) s1"
    "taken P b ms s s1"
    using take_published_step [OF assms(1) d(1) assms(3)] by blast
  have rr: "ref_cnt s1 = ref_cnt s" "has_room P s1 = has_room P s" "sub_views P s1 = sub_views P s"
    using s1(6) has_room_cong [OF s1(2)] by (simp_all add: taken_def fun_eq_iff)
  have v: "valid_msg s1 m" by (rule ref_invD(2) [OF s1(5,3)])
  then obtain h where h: "messages s1 m = Some h" "m \<noteq> NULL" by (rule valid_msgE)
  let ?i = "msg_id_of s m"
  have "?i = msg_id_of s1 m" using s1(2) by (simp add: same_world_def msg_id_of_def)
  then have "?i = id_of (atomic_data h)" using h(1) by (simp add: msg_id_of_def msg_ident_def)
  then have i: "pub_sub_msg_get_msg_id P m s1 = Inr (?i, s1)" using get_msg_id_run [OF hl h] by simp
  have "0 < linked P b xs s m" using assms(3) by (simp add: linked_def)
  then have "linked P b xs s m = 1" "rights xs Resting sp m = 0" using d(2) [of m] by auto
  then have "thread_inv P b xs Ms home (Fetched m ?i) sp own s1"
    using s1(3,4) by (intro thread_invI [OF assms(2) same_world_types [OF s1(2)] s1(5)])
      (auto simp: carried_def rights_def split: if_splits)
  then show ?thesis
    using s1(1,6) i v rr sub_viewsD(6) [OF rr(3)] within_limit(1) [OF rr(1)] by (auto simp: work_event_def valid_msg_def taken_def queues_def)
qed

lemma fetch_waits:
  assumes "core_laws P" and "thread_inv P b xs Ms home Resting sp own s" and "published P s b = []"
  shows "work_next P b Resting s = Inl Blocked"
  using publish_get(1) [of P s b, OF _ sys_worldD(7) [OF thread_invD(6) [OF assms(2)]] assms(3)] assms(1)
  by (auto simp: core_laws_def)

lemma lock_ok:
  assumes "core_laws P" and "thread_inv P b xs Ms home (Fetched m i) sp own s"
  shows "\<exists>s'. work_event P b (Fetched m i) s (Walking m i (hd0 xs) (hd0 (tl xs))) s' \<and>
    thread_inv P b xs Ms home (Walking m i (hd0 xs) (hd0 (tl xs))) sp own s' \<and>
    sub_views P s' = sub_views P s \<and> ref_cnt s' = ref_cnt s \<and> has_room P s' = has_room P s \<and> queues P s' = queues P s"
proof -
  note d = thread_invD [OF assms(2)] and w = sys_worldD [OF thread_invD(6) [OF assms(2)]]
  have l: "slist_laws P" using assms(1) by (simp add: core_laws_def)
  let ?s = "sub_lock P b s"
  obtain br where br: "brokers s b = Some br" using w(7) by blast
  have lo: "lock_sub_list P b s = Inr ((), ?s)" using lock_run [OF br] by (simp add: sub_lock_def)
  have li: "sub_list P ?s b xs" using w(3) by (simp add: sub_lock_def)
  have h: "sys_slist_peek_head P (slists ?s) b = hd0 xs" using peek_head_run [OF l li] by (simp add: hd0_def)
  have tl: "peek_next_container P (hd0 xs) ?s = Inr (hd0 (tl xs), ?s)"
  proof (cases xs)
    case Nil
    then show ?thesis by (simp add: peek_next_container_def)
  next
    case (Cons y ys)
    then show ?thesis using peek_next_container_run [OF l, of ?s b "[]" y ys] li by simp
  qed
  have "ref_inv P b xs Ms home (\<lambda>k. own k + carried xs (Fetched m i) sp k) ?s"
    unfolding sub_lock_def by (rule ref_inv_upd_broker [OF _ d(1)]) simp
  then have "thread_inv P b xs Ms home (Walking m i (hd0 xs) (hd0 (tl xs))) sp own ?s"
    by (rule thread_invI [OF assms(2), rotated]) (auto simp: carried_def rights_def)
  moreover have "ref_cnt ?s = ref_cnt s" "has_room P ?s = has_room P s" by simp_all
  moreover have "sub_views P ?s = sub_views P s" unfolding sub_lock_def by simp
  ultimately show ?thesis using lo h tl queues_locks(1) within_limit(1) [of ?s s "[m]"] by (auto simp: work_event_def)
qed

lemma unlock_ok:
  assumes "thread_inv P b xs Ms home (Walked m) sp own s"
  shows "\<exists>s'. work_event P b (Walked m) s (Unlocked m) s' \<and> thread_inv P b xs Ms home (Unlocked m) sp own s' \<and>
    queues P s' = queues P s"
proof -
  note d = thread_invD [OF assms] and w = sys_worldD [OF thread_invD(6) [OF assms]]
  let ?s = "sub_unlock P b s"
  obtain br where br: "brokers s b = Some br" using w(7) by blast
  have un: "unlock_sub_list P b s = Inr ((), ?s)" using unlock_run [OF br] by (simp add: sub_unlock_def)
  have "ref_inv P b xs Ms home (\<lambda>k. own k + carried xs (Walked m) sp k) ?s"
    unfolding sub_unlock_def by (rule ref_inv_upd_broker [OF _ d(1)]) simp
  then have "thread_inv P b xs Ms home (Unlocked m) sp own ?s"
    by (rule thread_invI [OF assms, rotated]) (auto simp: carried_def rights_def)
  moreover have "ref_cnt ?s = ref_cnt s" by simp
  ultimately show ?thesis using un queues_locks(2) within_limit(1) [of ?s s "[m]"] by (auto simp: work_event_def)
qed

lemma work_release_ok:
  assumes "core_laws P" and "thread_inv P b xs Ms home (Unlocked m) sp own s"
  shows "\<exists>s'. work_event P b (Unlocked m) s Resting s' \<and> thread_inv P b xs Ms home Resting sp own s' \<and>
    queues P s' = queues P s"
proof -
  note d = thread_invD [OF assms(2)]
  let ?t = "\<lambda>k. own k + carried xs (Unlocked m) sp k"
  have c: "0 < carried xs (Unlocked m) sp m" by (simp add: carried_def)
  then have o: "0 < ?t m" by simp
  obtain s' where s': "pub_sub_release_msg P m s = Inr ((), s')" "still P s s'"
    "ref_inv P b xs Ms home (?t(m := ?t m - 1)) s'"
    using release_step [OF assms(1) d(1) d(3) [OF c] o] by blast
  have "linked P b xs s' = linked P b xs s" "same_world P s s'" using s'(2) by (simp_all add: still_def linked_def [abs_def])
  then have "thread_inv P b xs Ms home Resting sp own s'"
    by (intro thread_invI [OF assms(2) same_world_types s'(3)]) (auto simp: carried_def rights_def)
  then show ?thesis using s'(1) still_queues [OF s'(2)] release_limit [OF assms(1) d(1) d(3) [OF c] o _ s'(1), of "[m]"]
    by (auto simp: work_event_def)
qed

text \<open>The walk along the list. The next subscriber does not want the message, or its callback is called, or the
  reference of its queue is taken.\<close>

lemma take_ref_step:
  assumes "core_laws P" and "ref_inv P b xs Ms home own s" and "m \<in> Ms" and "0 < own m" and "ref_cnt s m < 255"
  shows "\<exists>s'. pub_sub_acquire_msg P m s = Inr ((), s') \<and> queues P s' = queues P s \<and> has_room P s' = has_room P s \<and>
    sub_views P s' = sub_views P s \<and> linked P b xs s' = linked P b xs s \<and> ref_cnt s' m = ref_cnt s m + 1 \<and>
    ref_inv P b xs Ms home (own(m := own m + 1)) s'"
proof -
  have o: "home m = None \<or> 0 < own m" using assms(4) by simp
  obtain s' where s': "pub_sub_acquire_msg P m s = Inr ((), s')" "still P s s'" "ref_inv P b xs Ms home (own(m := own m + 1)) s'"
    using acquire_step [OF assms(1-3) o assms(5)] by blast
  have sw: "same_world P s s'" using s'(2) by (simp add: still_def)
  have q: "queues P s' = queues P s" by (rule still_queues [OF s'(2)])
  have "has_room P s' = has_room P s" using has_room_cong [OF sw] s'(2) by (auto simp: still_def fun_eq_iff)
  moreover have "linked P b xs s' = linked P b xs s" using q by (simp add: queues_def linked_def [abs_def])
  moreover have "ref_cnt s' m = ref_cnt s m + 1"
    using ref_invD(5) [OF assms(2,3) in_useI(1) [of own m, OF assms(4)]] ref_invD(5) [OF s'(3) assms(3) in_useI(1)] places_queues [OF q]
    by (simp add: refs_def)
  ultimately show ?thesis using s'(1,3) q sw by (auto simp: same_world_def)
qed

lemma to_next_run:
  assumes "slist_laws P" and "sub_list P s b xs" and "xs = us @ z # zs"
  shows "to_next P m i (hd0 zs) s = Inr (Walking m i (hd0 zs) (hd0 (tl zs)), s)"
proof (cases zs)
  case Nil
  then show ?thesis by (simp add: to_next_def peek_next_container_def)
next
  case (Cons y ys)
  then show ?thesis using peek_next_container_run [OF assms(1), of s b "us @ [z]" y ys] assms(2,3) by (simp add: to_next_def)
qed

lemma walking_at:
  assumes "thread_inv P b xs Ms home (Walking m i x tmp) sp own s" and "x \<noteq> NULL"
  obtains us zs where "xs = us @ x # zs" and "tmp = hd0 zs"
proof -
  obtain us zs' where z: "xs = us @ zs'" "x = hd0 zs'" "tmp = hd0 (tl zs')" using thread_invD(5) [OF assms(1)] by auto
  then obtain zs where e: "zs' = x # zs" using assms(2) by (cases zs') (auto simp: hd0_def)
  show thesis by (rule that [of us zs]) (use z(1,3) in \<open>simp_all add: e\<close>)
qed

lemma ready_read:
  assumes "ready_sub P b s x" and "x \<noteq> NULL"
  shows "read_sub x s = Inr (the (subscribers s x), s)" and "type_of s x = rx_type (the (subscribers s x))"
    and "assert_handler P x s = Inr ((), s)"
  using ready_assert_handler [OF assms(1)] assms by (auto elim!: ready_subE simp: sub_run)

lemma visit_ok:
  assumes "system_laws P log" and "thread_inv P b xs Ms home (Walking m i x tmp) sp own s" and "x \<noteq> NULL"
    and "i \<in> subscriptions P s x \<and> type_of s x \<noteq> PUB_SUB_RX_TYPE_CALLBACK \<Longrightarrow> ref_cnt s m < 255"
  shows "\<exists>wp' s'. work_event P b (Walking m i x tmp) s wp' s' \<and> thread_inv P b xs Ms home wp' sp own s' \<and>
    queues P s' = queues P s \<and> has_room P s' = has_room P s \<and> sub_views P s' = sub_views P s \<and>
    (if i \<in> subscriptions P s x \<and> type_of s x = PUB_SUB_RX_TYPE_MSGQ then wp' = Queueing m i x tmp \<and> ref_cnt s' m = ref_cnt s m + 1
     else if i \<in> subscriptions P s x \<and> type_of s x = PUB_SUB_RX_TYPE_FIFO then wp' = Linking m x \<and> ref_cnt s' m = ref_cnt s m + 1
     else (\<exists>tmp'. wp' = Walking m i tmp tmp') \<and> ref_cnt s' = ref_cnt s)"
proof -
  note d = thread_invD [OF assms(2)] and w = sys_worldD [OF thread_invD(6) [OF assms(2)]]
  have l: "slist_laws P" "quiet_handlers P log" "core_laws P" using assms(1) by (simp_all add: system_laws_def core_laws_def)
  obtain us zs where zs: "xs = us @ x # zs" "tmp = hd0 zs" using walking_at [OF assms(2,3)] .
  have x: "x \<in> set xs" by (simp add: zs(1))
  have wk: "walk_ok xs (type_of s) (Walking m i tmp (hd0 (tl zs)))" using zs by (auto intro: exI [of _ "us @ [x]"])
  have sub: "is_subscribed P x i s = Inr (i \<in> subscriptions P s x, s)"
    by (rule is_subscribed_run [OF sub_list_sub_ok [OF w(3) x]])
  note rd = ready_read [OF d(7) [OF x] assms(3)]
  let ?t = "\<lambda>k. own k + carried xs (Walking m i x tmp) sp k" and ?W = "Walking m i tmp (hd0 (tl zs))"
  have go: "to_next P m i tmp s' = Inr (?W, s')" if "sub_list P s' b xs" for s' using to_next_run [OF l(1) that zs(1)] zs(2) by simp
  have stay: "thread_inv P b xs Ms home ?W sp own s'"
    if "type_of s' = type_of s" "ref_inv P b xs Ms home ?t s'" "linked P b xs s' = linked P b xs s" for s'
    by (rule thread_invI [OF assms(2) that(1,2)]) (use that(3) wk in \<open>auto simp: carried_def rights_def\<close>)
  have c: "0 < carried xs (Walking m i x tmp) sp m" by (simp add: carried_def)
  have o: "0 < ?t m" using c by simp
  have take: "\<exists>s'. pub_sub_acquire_msg P m s = Inr ((), s') \<and> queues P s' = queues P s \<and> has_room P s' = has_room P s \<and>
      sub_views P s' = sub_views P s \<and> ref_cnt s' m = ref_cnt s m + 1 \<and> \<not> passes_limit [m] s s' \<and>
      (\<forall>wp'. work_hand wp' = [m, m] \<and> work_right wp' = [m] \<and> walk_ok xs (type_of s) wp' \<longrightarrow> thread_inv P b xs Ms home wp' sp own s')"
    if r: "ref_cnt s m < 255"
  proof -
    obtain s' where s': "pub_sub_acquire_msg P m s = Inr ((), s')" "queues P s' = queues P s" "has_room P s' = has_room P s"
      "sub_views P s' = sub_views P s" "linked P b xs s' = linked P b xs s" "ref_cnt s' m = ref_cnt s m + 1"
      "ref_inv P b xs Ms home (?t(m := ?t m + 1)) s'"
      using take_ref_step [OF l(3) d(1) d(3) [OF c] o r] by blast
    have "thread_inv P b xs Ms home wp' sp own s'" if "work_hand wp' = [m, m]" "work_right wp' = [m]" "walk_ok xs (type_of s) wp'" for wp'
      by (rule thread_invI [OF assms(2) sub_viewsD(3) [OF s'(4)] s'(7)]) (use that s'(5) in \<open>auto simp: carried_def rights_def split: if_splits\<close>)
    then show ?thesis using s' within_limit(2) [OF r, of "[m]" s'] by auto
  qed
  show ?thesis
  proof (cases "i \<in> subscriptions P s x")
    case False
    have "thread_inv P b xs Ms home ?W sp own s" by (rule stay [OF refl d(1) refl])
    then show ?thesis using False sub go [OF w(3)] assms(3) within_limit(1) [OF refl] by (auto simp: work_event_def)
  next
    case True
    note wanted = True
    show ?thesis
    proof (cases "type_of s x")
      case PUB_SUB_RX_TYPE_CALLBACK
      obtain su f dt where su: "subscribers s x = Some su" "handler_data su = \<lparr>msg_handler = User_handler f, user_data = dt\<rparr>"
        using d(7) [OF x] by (rule ready_subE)
      obtain a where a: "sub_handle P x i m s = Inr ((), s\<lparr>app := a\<rparr>)"
        using sub_handle_quiet [OF l(2), of s x f dt i m] su by auto
      have v: "same_world P s (s\<lparr>app := a\<rparr>)" by (simp add: same_world_def app_views)
      have inv: "thread_inv P b xs Ms home ?W sp own (s\<lparr>app := a\<rparr>)"
        by (rule stay [OF same_world_types [OF v] ref_inv_app [OF d(1)]]) simp
      have "has_room P (s\<lparr>app := a\<rparr>) = has_room P s" using has_room_cong [OF v] by (auto simp: app_views fun_eq_iff)
      moreover have "queues P (s\<lparr>app := a\<rparr>) = queues P s" by (simp add: queues_def app_views sub_viewsD(6) [OF app_views(1)])
      moreover have "ref_cnt (s\<lparr>app := a\<rparr>) = ref_cnt s" by (simp add: ref_cnt_def [abs_def])
      moreover have "work_next P b (Walking m i x tmp) s = Inr (?W, s\<lparr>app := a\<rparr>)"
        using wanted sub rd PUB_SUB_RX_TYPE_CALLBACK a assms(3) go [OF sys_worldD(3) [OF thread_invD(6) [OF inv]]] by simp
      ultimately show ?thesis using inv PUB_SUB_RX_TYPE_CALLBACK app_views(1) within_limit(1) [of "s\<lparr>app := a\<rparr>" s "[m]"]
        by (intro exI [of _ ?W] exI [of _ "s\<lparr>app := a\<rparr>"]) (simp add: work_event_def)
    next
      case PUB_SUB_RX_TYPE_MSGQ
      then have ok: "walk_ok xs (type_of s) (Queueing m i x tmp)" and r: "ref_cnt s m < 255" using zs assms(4) wanted by auto
      obtain s' where s': "pub_sub_acquire_msg P m s = Inr ((), s')" "queues P s' = queues P s" "has_room P s' = has_room P s"
        "sub_views P s' = sub_views P s" "ref_cnt s' m = ref_cnt s m + 1" "\<not> passes_limit [m] s s'" "thread_inv P b xs Ms home (Queueing m i x tmp) sp own s'"
        using take [OF r] ok work_hand.simps(4) work_right.simps(3) by metis
      then show ?thesis using wanted PUB_SUB_RX_TYPE_MSGQ sub rd assms(3)
        by (intro exI [of _ "Queueing m i x tmp"] exI [of _ s']) (simp add: work_event_def)
    next
      case PUB_SUB_RX_TYPE_FIFO
      then obtain s' where s': "pub_sub_acquire_msg P m s = Inr ((), s')" "queues P s' = queues P s" "has_room P s' = has_room P s"
        "sub_views P s' = sub_views P s" "ref_cnt s' m = ref_cnt s m + 1" "\<not> passes_limit [m] s s'" "thread_inv P b xs Ms home (Linking m x) sp own s'"
        using take assms(4) wanted x by auto
      then show ?thesis using wanted PUB_SUB_RX_TYPE_FIFO sub rd assms(3)
        by (intro exI [of _ "Linking m x"] exI [of _ s']) (simp add: work_event_def)
    qed
  qed
qed

text \<open>The message is put into the queue. When a message queue is full the work item waits, with the
  reference taken.\<close>

lemma queue_ok:
  assumes "core_laws P" and "thread_inv P b xs Ms home (Queueing m i x tmp) sp own s"
  shows "has_room P s x \<Longrightarrow> \<exists>tmp' s'. work_event P b (Queueing m i x tmp) s (Walking m i tmp tmp') s' \<and>
      thread_inv P b xs Ms home (Walking m i tmp tmp') sp own s' \<and> ref_cnt s' = ref_cnt s \<and>
      (\<forall>y. y \<noteq> x \<longrightarrow> has_room P s' y = has_room P s y) \<and>
      queues P s' = (published P s, fifo_of P s, (msgq_of P s)(x := msgq_of P s x @ [m]), msgq_cap P s)"
    and "\<not> has_room P s x \<Longrightarrow> work_next P b (Queueing m i x tmp) s = Inl Blocked"
proof -
  note d = thread_invD [OF assms(2)]
  have l: "slist_laws P" using assms(1) by (simp add: core_laws_def)
  obtain us zs where zs: "xs = us @ x # zs" "tmp = hd0 zs" and ty: "type_of s x = PUB_SUB_RX_TYPE_MSGQ" using d(5) by auto
  have x: "x \<in> set xs" by (simp add: zs(1))
  let ?t = "\<lambda>k. own k + carried xs (Queueing m i x tmp) sp k" and ?W = "Walking m i tmp (hd0 (tl zs))"
  note put = put_msgq_step [OF assms(1) d(1) x ty, where m = m]
  show "work_next P b (Queueing m i x tmp) s = Inl Blocked" if "\<not> has_room P s x" using put(2) [OF that] by simp
  assume r: "has_room P s x"
  have c: "0 < carried xs (Queueing m i x tmp) sp m" by (simp add: carried_def)
  have o: "0 < ?t m" using c by simp
  obtain s' where s': "msgq_put P x m K_FOREVER s = Inr (0, s')" "ref_cnt s' = ref_cnt s" "published P s' = published P s"
    "same_world P s s'" "msgq_of P s' = (msgq_of P s)(x := msgq_of P s x @ [m])" "fifo_of P s' = fifo_of P s"
    "ref_inv P b xs Ms home (?t(m := ?t m - 1)) s'"
    using put(1) [OF d(3) [OF c] o r] by blast
  have "linked P b xs s' = linked P b xs s" using s'(3,6) by (simp add: linked_def [abs_def])
  moreover have "walk_ok xs (type_of s) ?W" using zs by (auto intro: exI [of _ "us @ [x]"])
  ultimately have inv: "thread_inv P b xs Ms home ?W sp own s'"
    by (intro thread_invI [OF assms(2) same_world_types [OF s'(4)] s'(7)]) (auto simp: carried_def rights_def)
  have "to_next P m i tmp s' = Inr (?W, s')"
    using to_next_run [OF l sys_worldD(3) [OF thread_invD(6) [OF inv]] zs(1)] zs(2) by simp
  then have "work_event P b (Queueing m i x tmp) s ?W s'" using s'(1) within_limit(1) [OF s'(2)] by (simp add: work_event_def)
  moreover have "has_room P s' y = has_room P s y" if "y \<noteq> x" for y by (rule has_room_cong [OF s'(4)]) (simp add: s'(5) that)
  ultimately show "\<exists>tmp' s'. work_event P b (Queueing m i x tmp) s (Walking m i tmp tmp') s' \<and>
      thread_inv P b xs Ms home (Walking m i tmp tmp') sp own s' \<and> ref_cnt s' = ref_cnt s \<and>
      (\<forall>y. y \<noteq> x \<longrightarrow> has_room P s' y = has_room P s y) \<and>
      queues P s' = (published P s, fifo_of P s, (msgq_of P s)(x := msgq_of P s x @ [m]), msgq_cap P s)"
    using inv s'(2,3,5,6) same_world_cap [OF s'(4)] by (auto simp: queues_def)
qed

lemma link_ok:
  assumes "core_laws P" and "thread_inv P b xs Ms home (Linking m x) sp own s"
  shows "\<exists>s'. work_event P b (Linking m x) s (Walked m) s' \<and> thread_inv P b xs Ms home (Walked m) sp own s' \<and> x \<in> set xs \<and>
    queues P s' = (published P s, (fifo_of P s)(x := fifo_of P s x @ [m]), msgq_of P s, msgq_cap P s)"
proof -
  note d = thread_invD [OF assms(2)]
  have x: "x \<in> set xs" and ty: "type_of s x = PUB_SUB_RX_TYPE_FIFO" using d(5) by auto
  let ?t = "\<lambda>k. own k + carried xs (Linking m x) sp k"
  have c: "0 < carried xs (Linking m x) sp m" by (simp add: carried_def)
  have o: "0 < ?t m" using c by simp
  have lk: "linked P b xs s m = 0" "rights xs (Linking m x) sp m = 1" using d(2) [of m] by (auto simp: rights_def)
  obtain s' where s': "pub_sub_msg_fifo_put P (Sub_fifo x) m s = Inr ((), s')" "ref_cnt s' = ref_cnt s" "published P s' = published P s"
    "same_world P s s'" "msgq_of P s' = msgq_of P s" "fifo_of P s' = (fifo_of P s)(x := fifo_of P s x @ [m])"
    "linked P b xs s' = (linked P b xs s)(m := 1)" "ref_inv P b xs Ms home (?t(m := ?t m - 1)) s'"
    using put_fifo_step [OF assms(1) d(1) x ty d(3) [OF c] o lk(1)] by blast
  have "thread_inv P b xs Ms home (Walked m) sp own s'"
    by (rule thread_invI [OF assms(2) same_world_types [OF s'(4)] s'(8)]) (use s'(7) lk in \<open>auto simp: carried_def rights_def\<close>)
  then show ?thesis using s'(1,3,5,6) x same_world_cap [OF s'(4)] within_limit(1) [OF s'(2)] by (auto simp: work_event_def queues_def)
qed

text \<open>The steps of a subscriber.\<close>

lemma sub_take_ok:
  assumes "core_laws P" and "thread_inv P b xs Ms home wp sp own s" and "x \<in> set xs" and "sp x = Idle"
    and "fifo_of P s x @ msgq_of P s x = m # ms"
  shows "\<exists>p s'. sub_event P x locked Idle s p s' \<and> hand_of p = [m] \<and> ref_cnt s' = ref_cnt s \<and>
    (queues P s' = (published P s, (fifo_of P s)(x := ms), msgq_of P s, msgq_cap P s) \<and> fifo_of P s x = m # ms \<or>
     queues P s' = (published P s, fifo_of P s, (msgq_of P s)(x := ms), msgq_cap P s) \<and> msgq_of P s x = m # ms \<and> right_of p = []) \<and>
    thread_inv P b xs Ms home wp (sp(x := p)) own s'"
proof -
  note d = thread_invD [OF assms(2)]
  have hl: "header_laws P" using assms(1) by (simp add: core_laws_def)
  let ?t = "\<lambda>k. own k + carried xs wp sp k"
  have x0: "x \<noteq> NULL" using sub_list_sub_ok [OF sys_worldD(3) [OF d(6)] assms(3)] by (rule sub_ok_not_NULL)
  note rd = ready_read [OF _ x0]
  have id: "\<exists>i. pub_sub_msg_get_msg_id P m s' = Inr (i, s') \<and> m \<noteq> NULL" if "valid_msg s' m" for s'
    using that get_msg_id_run [OF hl] by (metis valid_msgE)
  have hand: "\<And>k. (?t(m := ?t m + 1)) k = own k + carried xs wp (sp(x := p)) k" if "hand_of p = [m]" for p
    using in_hands(1) [OF assms(3) _ that, where sp = sp and wp = wp] assms(4) by simp
  show ?thesis
  proof (cases "type_of s x")
    case PUB_SUB_RX_TYPE_CALLBACK
    then show ?thesis using ready_queues [OF d(7) [OF assms(3)]] assms(5) by simp
  next
    case PUB_SUB_RX_TYPE_FIFO
    then have f: "fifo_of P s x = m # ms" using ready_queues(1) [OF d(7) [OF assms(3)]] assms(5) by simp
    obtain s1 where s1: "pub_sub_msg_fifo_get P (Sub_fifo x) K_NO_WAIT s = Inr (m, s1)" "same_world P s s1" "m \<in> Ms"
      "linked P b xs s1 = (linked P b xs s)(m := 0)" "ref_inv P b xs Ms home (?t(m := ?t m + 1)) s1" "ref_cnt s1 = ref_cnt s"
      "queues P s1 = (published P s, (fifo_of P s)(x := ms), msgq_of P s, msgq_cap P s)"
      using take_fifo_step [OF assms(1) d(1) assms(3) PUB_SUB_RX_TYPE_FIFO f] by blast
    have r1: "ready_sub P b s1 x" by (rule sys_worldD(6) [OF ref_invD(1) [OF s1(5)] assms(3)])
    obtain i where i: "pub_sub_msg_get_msg_id P m s1 = Inr (i, s1)" "m \<noteq> NULL" using id [OF ref_invD(2) [OF s1(5,3)]] by blast
    let ?p = "if i \<le> max_pub_msg_id (the (subscribers s1 x)) then Taken m i else Passed m i"
    have e: "sub_event P x locked Idle s ?p s1"
      using rd(1,2) [OF d(7) [OF assms(3)]] rd(1,3) [OF r1] s1(1) i PUB_SUB_RX_TYPE_FIFO by (simp add: sub_event_def passes_limit_def)
    have "0 < held xs (fifo_of P s) m" by (rule held_pop(2) [where f = "fifo_of P s", OF assms(3) f])
    then have "linked P b xs s m = 1" "rights xs wp sp m = 0" using d(2) [of m] by (auto simp: linked_def)
    then have rg: "linked P b xs s1 k + rights xs wp (sp(x := ?p)) k \<le> linked P b xs s k + rights xs wp sp k" for k
      using in_rights(1,3) [OF assms(3), where sp = sp and p = ?p and wp = wp] assms(4) s1(4) by (cases "i \<le> max_pub_msg_id (the (subscribers s1 x))") auto
    have "thread_inv P b xs Ms home wp (sp(x := ?p)) own s1"
      by (rule thread_invI [OF assms(2) same_world_types [OF s1(2)] s1(5) _ rg])
        (use hand [of ?p] in_hands(1) [OF assms(3), where sp = sp and p = ?p and m = m and wp = wp] assms(4) s1(3) d(5) PUB_SUB_RX_TYPE_FIFO in \<open>auto split: if_splits\<close>)
    then show ?thesis using e s1(6,7) f by (intro exI [of _ ?p] exI [of _ s1]) simp
  next
    case PUB_SUB_RX_TYPE_MSGQ
    then have q: "msgq_of P s x = m # ms" using ready_queues(2) [OF d(7) [OF assms(3)]] assms(5) by simp
    obtain s1 where s1: "msgq_get P x K_NO_WAIT s = Inr ((0, m), s1)" "same_world P s s1" "m \<in> Ms"
      "linked P b xs s1 = linked P b xs s" "ref_inv P b xs Ms home (?t(m := ?t m + 1)) s1" "ref_cnt s1 = ref_cnt s"
      "queues P s1 = (published P s, fifo_of P s, (msgq_of P s)(x := ms), msgq_cap P s)"
      using take_msgq_step [OF assms(1) d(1) assms(3) PUB_SUB_RX_TYPE_MSGQ q] by blast
    have r1: "ready_sub P b s1 x" by (rule sys_worldD(6) [OF ref_invD(1) [OF s1(5)] assms(3)])
    obtain i where i: "pub_sub_msg_get_msg_id P m s1 = Inr (i, s1)" using id [OF ref_invD(2) [OF s1(5,3)]] by blast
    have e: "sub_event P x locked Idle s (Passed m i) s1"
      using rd(1,2) [OF d(7) [OF assms(3)]] rd(3) [OF r1] s1(1) i PUB_SUB_RX_TYPE_MSGQ by (simp add: sub_event_def passes_limit_def)
    have "thread_inv P b xs Ms home wp (sp(x := Passed m i)) own s1"
      by (rule thread_invI [OF assms(2) same_world_types [OF s1(2)] s1(5)])
        (use hand [of "Passed m i"] in_hands(1) [OF assms(3), where sp = sp and p = "Passed m i" and m = m and wp = wp] in_rights(3) [OF assms(3), where sp = sp and p = "Passed m i" and wp = wp]
          assms(4) s1(3,4) d(5) in \<open>auto split: if_splits\<close>)
    then show ?thesis using e s1(6,7) q by (intro exI [of _ "Passed m i"] exI [of _ s1]) simp
  qed
qed

lemma sub_take_waits:
  assumes "core_laws P" and "thread_inv P b xs Ms home wp sp own s" and "x \<in> set xs" and "fifo_of P s x @ msgq_of P s x = []"
  shows "sub_next P x locked Idle s = Inl Blocked"
proof -
  have l: "fifo_laws P" "msgq_laws P" using assms(1) by (simp_all add: core_laws_def)
  note rd = thread_invD(7) [OF assms(2,3)]
  have x0: "x \<noteq> NULL" using sub_list_sub_ok [OF sys_worldD(3) [OF thread_invD(6) [OF assms(2)]] assms(3)] by (rule sub_ok_not_NULL)
  obtain su where su: "subscribers s x = Some su" "rx_type su = PUB_SUB_RX_TYPE_FIFO \<Longrightarrow> is_fifo_sub s x"
    "rx_type su = PUB_SUB_RX_TYPE_MSGQ \<Longrightarrow> \<exists>q k. rx_queue su = Rx_msgq q \<and> msgqs s q = Some k \<and> msgq_of P s x = msgq_items P k"
    using rd by (rule ready_subE) blast
  show ?thesis
  proof (cases "rx_type su")
    case PUB_SUB_RX_TYPE_CALLBACK
    then show ?thesis using su(1) x0 by (simp add: sub_run)
  next
    case PUB_SUB_RX_TYPE_MSGQ
    then obtain q k where q: "rx_queue su = Rx_msgq q" "msgqs s q = Some k" "msgq_items P k = []" using su(3) assms(4) by auto
    show ?thesis using msgq_get_run(2) [OF l(2) su(1) q, of K_NO_WAIT] PUB_SUB_RX_TYPE_MSGQ su(1) x0 by (auto simp: sub_run)
  next
    case PUB_SUB_RX_TYPE_FIFO
    then obtain q where q: "fifo_at (Sub_fifo x) s = Inr q" using su(2) by (auto elim: is_fifo_subE)
    then have "fifo_items P q = []" using assms(4) by (simp add: fifo_of_def)
    then show ?thesis using fifo_get_empty [OF l(1) q, of K_NO_WAIT] PUB_SUB_RX_TYPE_FIFO su(1) x0 by (auto simp: sub_run)
  qed
qed

text \<open>Passing a message on takes a reference when a subscriber behind \<open>x\<close> wants it.\<close>

definition relays :: "('k, 'u) platform \<Rightarrow> ptr list \<Rightarrow> ('k, 'u) memory \<Rightarrow> ptr \<Rightarrow> uint16 \<Rightarrow> bool" where
  "relays P xs s x i \<longleftrightarrow> (\<exists>us ys. xs = us @ x # ys \<and> (\<exists>y \<in> set ys. i \<in> subscriptions P s y))"

lemma send_next_parts:
  assumes "core_laws P" and "sys_world P b xs Ms home s" and "xs = us @ x # ys"
  shows "send_to_next_fifo_subscriber P x i m s =
    (case find (\<lambda>y. i \<in> subscriptions P s y) ys of
       None \<Rightarrow> Inr ((), sub_unlock P b (sub_lock P b s))
     | Some y \<Rightarrow> thenM (pub_sub_acquire_msg P m) (thenM (pub_sub_msg_fifo_put P (Sub_fifo y) m) (unlock_sub_list P b)) (sub_lock P b s))"
proof -
  note w = sys_worldD [OF assms(2)]
  have l: "slist_laws P" using assms(1) by (simp add: core_laws_def)
  let ?s = "sub_lock P b s"
  obtain br where br: "brokers s b = Some br" using w(7) by blast
  obtain su where su: "subscribers s x = Some su" "broker su = b" using w(6) [of x] assms(3) by (auto elim: ready_subE)
  have x0: "x \<noteq> NULL" using sub_list_sub_ok [OF w(3), of x] assms(3) by (auto dest: sub_ok_not_NULL)
  have ls: "sub_list P ?s b ((us @ [x]) @ ys)" "sub_list P ?s b (us @ x # ys)" "length ys < fuel P"
    using w(2,3) assms(3) by (simp_all add: sub_lock_def)
  have lock: "lock_sub_list P b s = Inr ((), ?s)" using br by (simp add: lock_run sub_lock_def)
  have un: "unlock_sub_list P b ?s = Inr ((), sub_unlock P b ?s)" using br by (auto simp: unlock_run sub_unlock_def sub_lock_def)
  show ?thesis
    using su x0 lock un peek_next_run [OF l ls(2)] next_fifo_loop_run [OF l ls(1,3), of i m]
    by (simp add: send_to_next_fifo_subscriber_def sub_run Let_def split: option.split sum.split)
qed

lemma relays_find:
  assumes "sys_world P b xs Ms home s" and "xs = us @ x # ys"
  shows "relays P xs s x i \<longleftrightarrow> find (\<lambda>y. i \<in> subscriptions P s y) ys \<noteq> None"
proof -
  have "ys' = ys" if "xs = us' @ x # ys'" for us' ys'
    using append_Cons_eq_iff [of x us ys us' ys'] sys_worldD(8) [OF assms(1)] assms(2) that by auto
  then show ?thesis using assms(2) by (auto simp: relays_def find_None_iff)
qed

text \<open>At the limit of the counter no reference is taken without a failed assertion or an overflow.\<close>

lemma acquire_limit:
  assumes "header_laws P" and "valid_msg s m" and "\<not> ref_cnt s m < 255" and "pub_sub_acquire_msg P m s = Inr ((), s')"
  shows "ref_cnt s m = 255" and "ref_cnt s' m = 0"
proof -
  obtain h where h: "messages s m = Some h" "m \<noteq> NULL" using assms(2) by (rule valid_msgE)
  have "ref_cnt s m < 256" using unsigned_less [of "ref_of (atomic_data h)", where 'a = nat] h(1) by (simp add: ref_cnt_def)
  then show r: "ref_cnt s m = 255" using assms(3) by simp
  then have f: "ref_of (atomic_data h) = UINT8_MAX" using h(1) by (simp add: ref_cnt_def word_unat_eq_iff)
  then have "s' = set_atomic_data m (atomic_data h + 1) s" using acquire_run [OF assms(1) h] assms(4) by (simp split: if_splits)
  then show "ref_cnt s' m = 0" using h(1) fields_inc_carry(1) [OF f] by (simp add: ref_cnt_def)
qed

lemma fifo_put_ref_cnt:
  assumes "pub_sub_msg_fifo_put P (Sub_fifo y) m s = Inr ((), s')"
  shows "ref_cnt s' = ref_cnt s"
proof -
  obtain q where "s' = set_fifo (Sub_fifo y) q (set_fifo_reserved m True s)"
    using assms unfolding pub_sub_msg_fifo_put_def by (elim run_elims) (auto elim!: run_elims simp: read_fifo_def simp del: set_fifo.simps split: sum.splits)
  then show ?thesis by (auto simp: ref_cnt_def set_fifo_reserved_def fun_eq_iff option.map_comp comp_def split: option.split)
qed

lemma unlock_ref_cnt: "unlock_sub_list P b s = Inr ((), s') \<Longrightarrow> ref_cnt s' = ref_cnt s"
  unfolding unlock_sub_list_def by (elim run_elims) (auto simp: read_broker_def ref_cnt_def [abs_def] upd_broker_def elim!: run_elims)

lemma sub_pass_limit:
  assumes "core_laws P" and "thread_inv P b xs Ms home wp sp own s" and "x \<in> set xs" and "sp x = Taken m i"
    and "relays P xs s x i" and "sub_event P x locked (Taken m i) s p s'"
  shows "ref_cnt s m < 255"
proof (rule ccontr)
  assume f: "\<not> ref_cnt s m < 255"
  note d = thread_invD [OF assms(2)]
  have hl: "header_laws P" using assms(1) by (simp add: core_laws_def)
  have m: "m \<in> Ms" using d(3) in_hands(4) [OF assms(3)] assms(4) by auto
  let ?l = "sub_lock P b s"
  have v: "valid_msg ?l m" "\<not> ref_cnt ?l m < 255" "ref_cnt ?l = ref_cnt s"
    using ref_invD(2) [OF d(1) m] f by (simp add: sub_lock_def valid_msg_def) (use f in simp_all)
  obtain us ys where xs: "xs = us @ x # ys" using assms(3) by (auto dest: split_list)
  then obtain y where y: "find (\<lambda>y. i \<in> subscriptions P s y) ys = Some y" using relays_find [OF d(6) xs] assms(5) by auto
  have "send_to_next_fifo_subscriber P x i m s = Inr ((), s')" and n: "\<not> passes_limit [m] s s'"
    using assms(6) by (auto simp: sub_event_def split: sum.splits if_splits)
  then obtain s1 s2 where s1: "pub_sub_acquire_msg P m ?l = Inr ((), s1)" "pub_sub_msg_fifo_put P (Sub_fifo y) m s1 = Inr ((), s2)"
    "unlock_sub_list P b s2 = Inr ((), s')"
    using send_next_parts [OF assms(1) d(6) xs] y by (auto split: sum.splits)
  note a = acquire_limit [OF hl v(1,2) s1(1)]
  have "ref_cnt s' = ref_cnt s1" using fifo_put_ref_cnt [OF s1(2)] unlock_ref_cnt [OF s1(3)] by simp
  then show False using a n v(3) by (simp add: passes_limit_def)
qed

lemma sub_pass_ok:
  assumes "core_laws P" and "thread_inv P b xs Ms home wp sp own s" and "x \<in> set xs" and "sp x = Taken m i"
    and "relays P xs s x i \<Longrightarrow> ref_cnt s m < 255"
  shows "\<exists>s'. sub_event P x False (Taken m i) s (Passed m i) s' \<and> thread_inv P b xs Ms home wp (sp(x := Passed m i)) own s' \<and>
    (queues P s' = queues P s \<or> (\<exists>us ys y. xs = us @ x # ys \<and> y \<in> set ys \<and>
      queues P s' = (published P s, (fifo_of P s)(y := fifo_of P s y @ [m]), msgq_of P s, msgq_cap P s)))"
proof -
  note d = thread_invD [OF assms(2)]
  let ?t = "\<lambda>k. own k + carried xs wp sp k"
  have c: "0 < carried xs wp sp m" using in_hands(4) [OF assms(3)] assms(4) by simp
  note mM = d(3) [OF c]
  have o: "0 < ?t m" using c by simp
  have "0 < rights xs wp sp m" using in_rights(4) [OF assms(3)] assms(4) by simp
  then have lk: "linked P b xs s m = 0" "rights xs wp sp m = 1" using d(2) [of m] by auto
  have t: "type_of s x = PUB_SUB_RX_TYPE_FIFO" using d(4) [OF assms(3)] assms(4) by simp
  have "\<exists>s'. send_to_next_fifo_subscriber P x i m s = Inr ((), s') \<and> type_of s' = type_of s \<and> \<not> passes_limit [m] s s' \<and>
    ref_inv P b xs Ms home ?t s' \<and> (linked P b xs s' = linked P b xs s \<or> linked P b xs s' = (linked P b xs s)(m := 1)) \<and>
    (queues P s' = queues P s \<or> (\<exists>us ys y. xs = us @ x # ys \<and> y \<in> set ys \<and>
      queues P s' = (published P s, (fifo_of P s)(y := fifo_of P s y @ [m]), msgq_of P s, msgq_cap P s)))"
  proof (cases "relays P xs s x i")
    case True
    note r = assms(5) [OF True]
    show ?thesis using send_next_step [OF assms(1) d(1) assms(3) t mM o lk(1) r] within_limit(2) [OF r, of "[m]"] by fastforce
  next
    case False
    obtain us ys where xs: "xs = us @ x # ys" using assms(3) by (auto dest: split_list)
    let ?s = "sub_unlock P b (sub_lock P b s)"
    have "send_to_next_fifo_subscriber P x i m s = Inr ((), ?s)"
      using send_next_parts [OF assms(1) d(6) xs] relays_find [OF d(6) xs] False by simp
    moreover have "ref_inv P b xs Ms home ?t ?s"
      unfolding sub_unlock_def sub_lock_def by (intro ref_inv_upd_broker d(1)) simp_all
    moreover have "linked P b xs ?s = linked P b xs s" "ref_cnt ?s = ref_cnt s" "type_of ?s = type_of s" by simp_all
    ultimately show ?thesis using within_limit(1) [of ?s s "[m]"] by (intro exI [of _ ?s]) simp
  qed
  then obtain s' where s': "send_to_next_fifo_subscriber P x i m s = Inr ((), s')" "type_of s' = type_of s" "\<not> passes_limit [m] s s'"
    "ref_inv P b xs Ms home ?t s'" "linked P b xs s' = linked P b xs s \<or> linked P b xs s' = (linked P b xs s)(m := 1)"
    "queues P s' = queues P s \<or> (\<exists>us ys y. xs = us @ x # ys \<and> y \<in> set ys \<and>
      queues P s' = (published P s, (fifo_of P s)(y := fifo_of P s y @ [m]), msgq_of P s, msgq_cap P s))"
    by blast
  have rg: "linked P b xs s' k + rights xs wp (sp(x := Passed m i)) k \<le> linked P b xs s k + rights xs wp sp k" for k
    using s'(5) lk in_rights(2) [OF assms(3), where sp = sp and p = "Passed m i" and m = m and wp = wp] assms(4) by auto
  have "thread_inv P b xs Ms home wp (sp(x := Passed m i)) own s'"
    by (rule thread_invI [OF assms(2) s'(2,4) _ rg])
      (use in_hands(3) [OF assms(3), where sp = sp and p = "Passed m i" and wp = wp] assms(4) d(5) in \<open>auto split: if_splits\<close>)
  then show ?thesis using s'(1,3,6) by (auto simp: sub_event_def)
qed

lemma sub_call_ok:
  assumes "system_laws P log" and "thread_inv P b xs Ms home wp sp own s" and "x \<in> set xs" and "sp x = Passed m i"
  shows "\<exists>s'. sub_event P x locked (Passed m i) s (Handled m) s' \<and> thread_inv P b xs Ms home wp (sp(x := Handled m)) own s' \<and> queues P s' = queues P s"
proof -
  note d = thread_invD [OF assms(2)]
  have q: "quiet_handlers P log" using assms(1) by (simp add: system_laws_def)
  obtain su f dt where su: "subscribers s x = Some su" "handler_data su = \<lparr>msg_handler = User_handler f, user_data = dt\<rparr>"
    using d(7) [OF assms(3)] by (rule ready_subE)
  obtain a where a: "sub_handle P x i m s = Inr ((), s\<lparr>app := a\<rparr>)" using sub_handle_quiet [OF q, of s x f dt i m] su by auto
  have "type_of (s\<lparr>app := a\<rparr>) = type_of s" by (rule sub_viewsD(3) [OF app_views(1)])
  then have "thread_inv P b xs Ms home wp (sp(x := Handled m)) own (s\<lparr>app := a\<rparr>)"
    by (rule thread_invI [OF assms(2) _ ref_inv_app [OF d(1)]])
      (use in_hands(3) [OF assms(3), where sp = sp and p = "Handled m" and wp = wp] in_rights(3) [OF assms(3), where sp = sp and p = "Handled m" and wp = wp] assms(4) d(5) in
        \<open>auto split: if_splits\<close>)
  moreover have "queues P (s\<lparr>app := a\<rparr>) = queues P s" by (simp add: queues_def app_views sub_viewsD(6) [OF app_views(1)])
  moreover have "ref_cnt (s\<lparr>app := a\<rparr>) = ref_cnt s" by (simp add: ref_cnt_def [abs_def])
  ultimately show ?thesis using a within_limit(1) [of "s\<lparr>app := a\<rparr>" s "[m]"] by (auto simp: sub_event_def)
qed

lemma sub_release_ok:
  assumes "core_laws P" and "thread_inv P b xs Ms home wp sp own s" and "x \<in> set xs" and "sp x = Handled m"
  shows "\<exists>s'. sub_event P x locked (Handled m) s Idle s' \<and> thread_inv P b xs Ms home wp (sp(x := Idle)) own s' \<and>
    queues P s' = queues P s"
proof -
  note d = thread_invD [OF assms(2)]
  let ?t = "\<lambda>k. own k + carried xs wp sp k"
  have c: "0 < carried xs wp sp m" using in_hands(4) [OF assms(3)] assms(4) by simp
  then have o: "0 < ?t m" by simp
  obtain s' where s': "pub_sub_release_msg P m s = Inr ((), s')" "still P s s'" "ref_inv P b xs Ms home (?t(m := ?t m - 1)) s'"
    using release_step [OF assms(1) d(1) d(3) [OF c] o] by blast
  have "linked P b xs s' = linked P b xs s" "same_world P s s'" using s'(2) by (simp_all add: still_def linked_def [abs_def])
  then have "thread_inv P b xs Ms home wp (sp(x := Idle)) own s'"
    by (intro thread_invI [OF assms(2) same_world_types s'(3)])
      (use c in_hands(2) [OF assms(3), where sp = sp and p = Idle and m = m and wp = wp] in_rights(3) [OF assms(3), where sp = sp and p = Idle and wp = wp] assms(4) d(5) in
        \<open>auto split: if_splits\<close>)
  then show ?thesis using s'(1) still_queues [OF s'(2)] release_limit [OF assms(1) d(1) d(3) [OF c] o _ s'(1), of "[m]"]
    by (auto simp: sub_event_def)
qed

section \<open>What a thread does next\<close>

lemma work_event_det: "work_event P b wp s wp1 s1 \<Longrightarrow> work_event P b wp s wp2 s2 \<Longrightarrow> wp1 = wp2 \<and> s1 = s2"
  and sub_event_det: "sub_event P x locked p s p1 s1 \<Longrightarrow> sub_event P x locked p s p2 s2 \<Longrightarrow> p1 = p2 \<and> s1 = s2"
  by (auto simp: work_event_def sub_event_def)

text \<open>Whether the next step takes a reference.\<close>

definition work_takes :: "('k, 'u) platform \<Rightarrow> ('k, 'u) memory \<Rightarrow> work_phase \<Rightarrow> ptr set" where
  "work_takes P s wp = {m. \<exists>i x tmp. wp = Walking m i x tmp \<and> x \<noteq> NULL \<and> i \<in> subscriptions P s x \<and>
     type_of s x \<noteq> PUB_SUB_RX_TYPE_CALLBACK}"

definition sub_takes :: "('k, 'u) platform \<Rightarrow> ptr list \<Rightarrow> ('k, 'u) memory \<Rightarrow> ptr \<Rightarrow> sub_phase \<Rightarrow> ptr set" where
  "sub_takes P xs s x p = {m. \<exists>i. p = Taken m i \<and> relays P xs s x i}"

lemma end_of_list:
  assumes "thread_inv P b xs Ms home (Walking m i NULL tmp) sp own s"
  shows "work_event P b (Walking m i NULL tmp) s (Walked m) s" and "thread_inv P b xs Ms home (Walked m) sp own s"
  by (auto simp: work_event_def passes_limit_def carried_def rights_def intro!: thread_invI [OF assms refl thread_invD(1) [OF assms]])

lemma work_turn:
  assumes "system_laws P log" and "thread_inv P b xs Ms home wp sp own s" and "\<forall>m \<in> work_takes P s wp. ref_cnt s m < 255"
  shows "(\<exists>wp' s'. work_event P b wp s wp' s' \<and> thread_inv P b xs Ms home wp' sp own s') \<or>
    work_next P b wp s = Inl Blocked \<and>
      (wp = Resting \<and> published P s b = [] \<or> (\<exists>m i x tmp. wp = Queueing m i x tmp \<and> \<not> has_room P s x))"
proof -
  have c: "core_laws P" by (rule system_core [OF assms(1)])
  show ?thesis
  proof (cases wp)
    case Resting
    note inv = assms(2) [unfolded Resting]
    show ?thesis
    proof (cases "published P s b")
      case Nil
      then show ?thesis using fetch_waits [OF c inv] Resting by blast
    next
      case (Cons m ms)
      then show ?thesis using fetch_ok [OF c inv] Resting by blast
    qed
  next
    case (Fetched m i)
    then show ?thesis using lock_ok [OF c assms(2) [unfolded Fetched]] by blast
  next
    case (Walking m i x tmp)
    note inv = assms(2) [unfolded Walking]
    show ?thesis
    proof (cases "x = NULL")
      case True
      then show ?thesis using end_of_list [OF inv [unfolded True]] Walking by blast
    next
      case False
      have "i \<in> subscriptions P s x \<and> type_of s x \<noteq> PUB_SUB_RX_TYPE_CALLBACK \<Longrightarrow> ref_cnt s m < 255"
        using assms(3) False Walking unfolding work_takes_def by blast
      then show ?thesis using visit_ok [OF assms(1) inv False] Walking by blast
    qed
  next
    case (Queueing m i x tmp)
    then show ?thesis using queue_ok [OF c assms(2) [unfolded Queueing]] by blast
  next
    case (Linking m x)
    then show ?thesis using link_ok [OF c assms(2) [unfolded Linking]] by blast
  next
    case (Walked m)
    then show ?thesis using unlock_ok [OF assms(2) [unfolded Walked]] by blast
  next
    case (Unlocked m)
    then show ?thesis using work_release_ok [OF c assms(2) [unfolded Unlocked]] by blast
  qed
qed

lemma sub_turn:
  assumes "system_laws P log" and "thread_inv P b xs Ms home wp sp own s" and "x \<in> set xs"
    and "\<forall>m \<in> sub_takes P xs s x (sp x). ref_cnt s m < 255"
  shows "(\<exists>p s'. sub_event P x locked (sp x) s p s' \<and> thread_inv P b xs Ms home wp (sp(x := p)) own s') \<or>
    sub_next P x locked (sp x) s = Inl Blocked \<and>
      (sp x = Idle \<and> fifo_of P s x @ msgq_of P s x = [] \<or> locked \<and> right_of (sp x) \<noteq> [])"
proof -
  have c: "core_laws P" by (rule system_core [OF assms(1)])
  show ?thesis
  proof (cases "sp x")
    case Idle
    show ?thesis
    proof (cases "fifo_of P s x @ msgq_of P s x")
      case Nil
      then show ?thesis using sub_take_waits [OF c assms(2,3)] Idle by auto
    next
      case (Cons m ms)
      then show ?thesis using sub_take_ok [OF c assms(2,3) Idle, of m ms] Idle by metis
    qed
  next
    case (Taken m i)
    have "relays P xs s x i \<Longrightarrow> ref_cnt s m < 255" using assms(4) Taken unfolding sub_takes_def by blast
    then show ?thesis using sub_pass_ok [OF c assms(2,3) Taken] Taken by (cases locked) auto
  next
    case (Passed m i)
    then show ?thesis using sub_call_ok [OF assms(1-3) Passed] by metis
  next
    case (Handled m)
    then show ?thesis using sub_release_ok [OF c assms(2,3) Handled] by metis
  qed
qed

text \<open>A step that takes a reference finds the counter below its limit.\<close>

lemma work_takes_room:
  assumes "system_laws P log" and "thread_inv P b xs Ms home wp sp own s" and "work_event P b wp s wp' s'"
  shows "\<forall>m \<in> work_takes P s wp. ref_cnt s m < 255"
proof (cases wp)
  case (Walking m i x tmp)
  note inv = assms(2) [unfolded Walking]
  have hl: "header_laws P" using system_core [OF assms(1)] by (simp add: core_laws_def)
  have c: "0 < carried xs (Walking m i x tmp) sp m" by (simp add: carried_def)
  have v: "valid_msg s m" by (rule ref_invD(2) [OF thread_invD(1) [OF inv] thread_invD(3) [OF inv c]])
  have "ref_cnt s m < 255" if x: "x \<noteq> NULL" "i \<in> subscriptions P s x" "type_of s x \<noteq> PUB_SUB_RX_TYPE_CALLBACK"
  proof (rule ccontr)
    assume f: "\<not> ref_cnt s m < 255"
    obtain us zs where "xs = us @ x # zs" using walking_at [OF inv x(1)] .
    then have xx: "x \<in> set xs" by simp
    have "is_subscribed P x i s = Inr (True, s)"
      using is_subscribed_run [OF sub_list_sub_ok [OF sys_worldD(3) [OF thread_invD(6) [OF inv]] xx]] x(2) by simp
    then obtain q where "work_next P b (Walking m i x tmp) s = thenM (pub_sub_acquire_msg P m) (ret q) s"
      using ready_read(1,2) [OF thread_invD(7) [OF inv xx] x(1)] x by (cases "rx_type (the (subscribers s x))") simp_all
    then have "thenM (pub_sub_acquire_msg P m) (ret q) s = Inr (wp', s')" and n: "\<not> passes_limit [m] s s'"
      using assms(3) Walking by (simp_all add: work_event_def del: thenM_run work_next.simps)
    then have "pub_sub_acquire_msg P m s = Inr ((), s')" by (auto elim!: thenM_InrE simp del: thenM_run)
    then show False using acquire_limit [OF hl v f] n by (auto simp: passes_limit_def)
  qed
  then show ?thesis unfolding work_takes_def using Walking by auto
qed (simp_all add: work_takes_def)

lemma sub_takes_room:
  assumes "system_laws P log" and "thread_inv P b xs Ms home wp sp own s" and "x \<in> set xs" and "sub_event P x locked (sp x) s p s'"
  shows "\<forall>m \<in> sub_takes P xs s x (sp x). ref_cnt s m < 255"
proof
  fix m
  assume "m \<in> sub_takes P xs s x (sp x)"
  then obtain i where i: "sp x = Taken m i" "relays P xs s x i" unfolding sub_takes_def by blast
  show "ref_cnt s m < 255"
    by (rule sub_pass_limit [OF system_core [OF assms(1)] assms(2,3) i assms(4) [unfolded i(1)]])
qed

lemma work_event_inv:
  assumes "system_laws P log" and "thread_inv P b xs Ms home wp sp own s" and "work_event P b wp s wp' s'"
  shows "thread_inv P b xs Ms home wp' sp own s'"
  using work_turn [OF assms(1,2) work_takes_room [OF assms]] assms(3) work_event_det [OF assms(3)] by (auto simp: work_event_def)

lemma sub_event_inv:
  assumes "system_laws P log" and "thread_inv P b xs Ms home wp sp own s" and "x \<in> set xs"
    and "sub_event P x locked (sp x) s p s'"
  shows "thread_inv P b xs Ms home wp (sp(x := p)) own s'"
  using sub_turn [OF assms(1-3) sub_takes_room [OF assms], of locked] assms(4) sub_event_det [OF assms(4)] by (auto simp: sub_event_def)

text \<open>No thread fails while the counters that get one more are below the limit.\<close>

lemma no_thread_fails:
  assumes "system_laws P log" and "thread_inv P b xs Ms home wp sp own s" and "\<forall>m \<in> work_takes P s wp. ref_cnt s m < 255"
    and "\<forall>x \<in> set xs. \<forall>m \<in> sub_takes P xs s x (sp x). ref_cnt s m < 255"
  shows "\<not> thread_fails P b xs (wp, sp, own, s)"
proof -
  have "\<not> goes_wrong (work_hand wp) s (work_next P b wp s)"
    using work_turn [OF assms(1-3)] by (auto simp: goes_wrong_def work_event_def)
  moreover have "\<not> goes_wrong (hand_of (sp x)) s (sub_next P x (holds_lock wp) (sp x) s)" if "x \<in> set xs" for x
    using sub_turn [OF assms(1,2) that, of "holds_lock wp"] assms(4) that by (auto simp: goes_wrong_def sub_event_def)
  ultimately show ?thesis by (simp add: thread_fails_def)
qed

end
