(* ===== verification/ThreadRuns.thy ===== *)
theory ThreadRuns imports Threads ClientRuns begin

text \<open>
  Runs of the work item, the subscribers and the application as threads, with their steps interleaved in
  any order, and with the time-outs of delayable messages: the reference counters are right in every state
  between two steps, the library cannot deadlock, and the steps of a thread that runs alone are the operation of
  the code that they were cut from.
\<close>

section \<open>The application\<close>

text \<open>What the application does, it can do as well with more references.\<close>

lemma app_event_more:
  assumes "sys_event P b Ms home (xs, own, s) e (xs', own', s')" and "app_event e"
  shows "sys_event P b Ms home (xs, \<lambda>k. own k + c k, s) e (xs', \<lambda>k. own' k + c k, s')"
  using assms
proof cases
  case (new q alloc n aid t i m)
  have "(\<lambda>k. own' k + c k) = (if m = NULL then \<lambda>k. own k + c k else (\<lambda>k. own k + c k)(m := own m + c m + 1))"
    by (auto simp: new(3))
  then show ?thesis using sys_event.new [OF new(4-8), where b = b and xs = xs and own = "\<lambda>k. own k + c k" and Ms = Ms] new(1,2) by simp
next
  case (acquire m)
  have "(\<lambda>k. own' k + c k) = (\<lambda>k. own k + c k)(m := own m + c m + 1)" by (auto simp: acquire(3))
  then show ?thesis using sys_event.acquire [where m = m and own = "\<lambda>k. own k + c k" and s = s and P = P and s' = s' and xs = xs] acquire by auto
next
  case (release m)
  have "(\<lambda>k. own' k + c k) = (\<lambda>k. own k + c k)(m := own m + c m - 1)" using release(5) by (auto simp: release(3))
  then show ?thesis using sys_event.release [where m = m and own = "\<lambda>k. own k + c k" and s = s and P = P and s' = s' and xs = xs] release by auto
next
  case (publish m)
  have "(\<lambda>k. own' k + c k) = (\<lambda>k. own k + c k)(m := own m + c m - 1)" using publish(5) by (auto simp: publish(3))
  then show ?thesis using sys_event.publish [where m = m and own = "\<lambda>k. own k + c k" and s = s and P = P and s' = s' and xs = xs] publish by auto
next
  case (publish_to x m)
  have "(\<lambda>k. own' k + c k) = (\<lambda>k. own k + c k)(m := own m + c m - 1)" using publish_to(6) by (auto simp: publish_to(3))
  then show ?thesis using sys_event.publish_to [OF publish_to(4,5) _ publish_to(7-10), where own = "\<lambda>k. own k + c k"] publish_to by auto
next
  case (subscribe x i)
  then show ?thesis using sys_event.subscribe [OF subscribe(4-6)] by auto
next
  case (unsubscribe x i)
  then show ?thesis using sys_event.unsubscribe [OF unsubscribe(4-6)] by auto
next
  case library
  from library(3) assms(2) show ?thesis by cases simp_all
qed simp_all

lemma app_event_effect:
  assumes "app_laws P log" and "sys_event P b Ms home (xs, own, s) e (xs', own', s')" and "app_event e"
    and "ref_inv P b xs Ms home own s"
  shows "xs' = xs \<and> type_of s' = type_of s \<and> (\<forall>k. linked P b xs s' k = linked P b xs s k \<or>
    k \<in> set (sent_msg e) \<and> linked P b xs s' k = 1)"
proof -
  have sl: "system_laws P log" "bitmap_laws P" "runtime_max_ok P" "CONFIG_PUB_SUB_RUNTIME_ALLOCATORS P"
    using assms(1) by (simp_all add: app_laws_def)
  have cl: "core_laws P" by (rule system_core [OF sl(1)])
  note ri = assms(4)
  have st: "type_of s' = type_of s \<and> linked P b xs s' = linked P b xs s" if "still P s s'" for s'
    using that same_world_types [of P s s'] by (simp add: still_def linked_def [abs_def])
  have rs: "type_of s' = type_of s \<and> linked P b xs s' = linked P b xs s" if "resubscribed P x A s s'" for x A s'
    using that by (simp add: resubscribed_def type_of_def [abs_def] linked_def [abs_def])
  from assms(2,3) show ?thesis
  proof cases
    case (new q alloc n aid t i m)
    note n = new_step [OF cl ri sl(3,4) new(4-6), where i = i and t = t]
    show ?thesis
    proof (cases "slab_pool P s q = {}")
      case True
      then show ?thesis using n(2) new by simp
    next
      case False
      then obtain "published P s' = published P s" "fifo_of P s' = fifo_of P s" "sub_views P s' = sub_views P s"
        using n(1) new(8) by auto
      then show ?thesis using new(2) sub_viewsD(3) [of P s' s] by (simp add: linked_def)
    qed
  next
    case (acquire m)
    then have "still P s s'" using acquire_step [OF cl ri, of m] by auto
    then show ?thesis using st acquire(1,2) by simp
  next
    case (release m)
    then have "still P s s'" using release_step [OF cl ri, of m] by auto
    then show ?thesis using st release(1,2) by simp
  next
    case (publish m)
    then obtain "same_world P s s'" "linked P b xs s' = (linked P b xs s)(m := 1)" using publish_step [OF cl ri, of m] by auto
    then show ?thesis using publish(1,2) same_world_types [of P s s'] by simp
  next
    case (publish_to x m)
    show ?thesis
    proof (cases "type_of s x = PUB_SUB_RX_TYPE_CALLBACK")
      case True
      then have "still P s s'" using private_callback_step [OF sl(1) ri publish_to(4-7)] publish_to(10) by auto
      then show ?thesis using st publish_to(2) by simp
    next
      case False
      then have v: "published P s' = published P s" "same_world P s s'"
        "fifo_of P s' = (if type_of s x = PUB_SUB_RX_TYPE_FIFO then (fifo_of P s)(x := fifo_of P s x @ [m]) else fifo_of P s)"
        using private_queue_step [OF cl ri publish_to(4-8) False publish_to(9)] publish_to(10) by auto
      then have "linked P b xs s' k = linked P b xs s k \<or> k = m \<and> linked P b xs s' k = 1" for k
        using publish_to(9) held_push [OF publish_to(4), of "fifo_of P s" m] by (cases "type_of s x") (auto simp: linked_def)
      then show ?thesis using publish_to(1,2) same_world_types [OF v(2)] by auto
    qed
  next
    case (subscribe x i)
    then show ?thesis using subscribe_step(1) [OF sl(2) ri, of x i] rs by fastforce
  next
    case (unsubscribe x i)
    then show ?thesis using subscribe_step(2) [OF sl(2) ri, of x i] rs by fastforce
  next
    case library
    from library(3) assms(3) show ?thesis by cases simp_all
  qed simp_all
qed

lemma app_event_inv:
  assumes "app_laws P log" and "sys_event P b Ms home (xs, own, s) e (xs, own', s')" and "app_event e"
    and "thread_inv P b xs Ms home wp sp own s" and "\<forall>m \<in> set (sent_msg e). rights xs wp sp m = 0"
  shows "thread_inv P b xs Ms home wp sp own' s'"
proof -
  note d = thread_invD [OF assms(4)]
  let ?c = "carried xs wp sp"
  note m = app_event_more [OF assms(2,3), of ?c]
  note e = app_event_effect [OF assms(1) m assms(3) d(1)]
  have "ref_inv P b xs Ms home (\<lambda>k. own' k + ?c k) s'" by (rule sys_step_ref_inv [OF assms(1) sys_stepI [OF m] d(1)])
  moreover have "linked P b xs s' k + rights xs wp sp k \<le> 1" for k
    using e d(2) [of k] assms(5) by (cases "linked P b xs s' k = linked P b xs s k") auto
  ultimately show ?thesis using e assms(4) by (simp add: thread_inv_def)
qed

section \<open>The time-outs\<close>

text \<open>A time-out has no part in the invariant, and its expiry does what the application does when it takes a
  reference and sends the message to the subscriber.\<close>

lemma delayable_views:
  "same_world P s (s\<lparr>delayable_msgs := D\<rparr>)" "published P (s\<lparr>delayable_msgs := D\<rparr>) = published P s"
  "fifo_of P (s\<lparr>delayable_msgs := D\<rparr>) = fifo_of P s" "msgq_of P (s\<lparr>delayable_msgs := D\<rparr>) = msgq_of P s"
  "slab_pool P (s\<lparr>delayable_msgs := D\<rparr>) = slab_pool P s"
  and delayable_link_flag: "link_flag (s\<lparr>delayable_msgs := D\<rparr>) = link_flag s" "ref_cnt (s\<lparr>delayable_msgs := D\<rparr>) = ref_cnt s"
proof -
  let ?s = "s\<lparr>delayable_msgs := D\<rparr>"
  have v: "sub_views P ?s = sub_views P s"
    by (rule sub_views_cong_mem [OF _ _ _ sub_list_by_subscribers(1) msgq_cap_by_queues [OF views_by_subscribers(3)]]) simp_all
  have "msg_ident ?s = msg_ident s" by (simp add: msg_ident_def fun_eq_iff)
  then show "same_world P s ?s" using v slab_fits_cong [of ?s s P] by (simp add: same_world_def)
  show "published P ?s = published P s" by (rule by_brokers(1)) simp
  show "fifo_of P ?s = fifo_of P s" by (rule views_by_subscribers(5)) simp
  show "msgq_of P ?s = msgq_of P s" using sub_viewsD(5) [OF v] by (simp add: msgq_of_def fun_eq_iff split: option.split)
  show "slab_pool P ?s = slab_pool P s" by (rule slab_pool_cong) simp
qed (simp_all add: link_flag_def ref_cnt_def fun_eq_iff)

lemma delayable_inv:
  assumes "thread_inv P b xs Ms home wp sp own s"
  shows "thread_inv P b xs Ms home wp sp own (s\<lparr>delayable_msgs := D\<rparr>)"
proof -
  note v = delayable_views [where P = P and s = s and D = D]
  have l: "linked P b xs (s\<lparr>delayable_msgs := D\<rparr>) = linked P b xs s" by (simp add: linked_def [abs_def] v(2,3))
  have "ref_inv P b xs Ms home (\<lambda>k. own k + carried xs wp sp k) (s\<lparr>delayable_msgs := D\<rparr>)"
    by (rule ref_inv_same [OF thread_invD(1) [OF assms] v(1,5) l]) (simp_all add: v(4) delayable_link_flag)
  then show ?thesis
    by (rule thread_invI [OF assms same_world_types [OF v(1)]]) (use l thread_invD(5) [OF assms] in auto)
qed

lemma upd_delayable_inv:
  "thread_inv P b xs Ms home wp sp own s \<Longrightarrow> thread_inv P b xs Ms home wp sp own (upd_delayable m f s)"
  unfolding upd_delayable_def by (rule delayable_inv)

lemma rights_carried: "0 < rights xs wp sp k \<Longrightarrow> 0 < carried xs wp sp k"
proof -
  have "count_list (work_right wp) k \<le> count_list (work_hand wp) k" by (cases wp) simp_all
  moreover have "count_list (right_of (sp x)) k \<le> count_list (hand_of (sp x)) k" for x by (cases "sp x") simp_all
  then have "held xs (right_of \<circ> sp) k \<le> held xs (hand_of \<circ> sp) k" unfolding held_def by (intro sum_mono) simp
  ultimately show "0 < rights xs wp sp k \<Longrightarrow> 0 < carried xs wp sp k" by (auto simp: rights_def carried_def simp del: add_is_0)
qed

lemma delayable_handler_parts:
  assumes "header_laws P" and "valid_msg s m" and "delayable_msgs s m = Some d" and "ref_cnt s m = 0"
  shows "pub_sub_delayable_msg_handler P m s = thenM (pub_sub_acquire_msg P m) (pub_sub_publish_to_subscriber P (subscriber d) m) s"
proof -
  obtain h where h: "messages s m = Some h" "m \<noteq> NULL" using assms(2) by (rule valid_msgE)
  have "ref_of (atomic_data h) = 0" using assms(4) h(1) by (simp add: ref_cnt_def unsigned_eq_0_iff)
  then show ?thesis
    using get_ref_cnt_run [OF assms(1) h] assms(3) by (simp add: pub_sub_delayable_msg_handler_def msg_run z_assertM_def)
qed

lemma expiry_step:
  assumes "app_laws P log" and "thread_inv P b xs Ms home wp sp own s" and "m \<in> Ms" and "home m = None"
    and "delayable_msgs s m = Some d" and "x = subscriber d" and "x \<in> set xs" and "max_id_of s x < msg_id_of s m"
    and "has_room P s x" and "ref_cnt s m = 0"
  shows "\<exists>s'. pub_sub_delayable_msg_handler P m s = Inr ((), s') \<and> thread_inv P b xs Ms home wp sp own s' \<and>
    (case type_of s x of
       PUB_SUB_RX_TYPE_CALLBACK \<Rightarrow> queues P s' = queues P s \<and>
         log (app s') = log (app s) @ [(fst (handler_of s x), msg_id_of s m, m, snd (handler_of s x))]
     | PUB_SUB_RX_TYPE_MSGQ \<Rightarrow> queues P s' = (published P s, fifo_of P s, (msgq_of P s)(x := msgq_of P s x @ [m]), msgq_cap P s)
     | PUB_SUB_RX_TYPE_FIFO \<Rightarrow> queues P s' = (published P s, (fifo_of P s)(x := fifo_of P s x @ [m]), msgq_of P s, msgq_cap P s))"
proof -
  have sl: "system_laws P log" using assms(1) by (simp add: app_laws_def)
  have cl: "core_laws P" by (rule system_core [OF sl])
  have hl: "header_laws P" using cl by (simp add: core_laws_def)
  let ?o = "\<lambda>k. own k + carried xs wp sp k"
  note d = thread_invD [OF assms(2)]
  have z: "own m = 0" "carried xs wp sp m = 0" "linked P b xs s m = 0"
    using ref_inv_refs(1) [OF d(1) assms(3)] assms(4,10) by (simp_all add: refs_def places_def)
  then have rt: "rights xs wp sp m = 0" using rights_carried [of xs wp sp m] by fastforce
  obtain s1 where s1: "pub_sub_acquire_msg P m s = Inr ((), s1)" "still P s s1" "app s1 = app s"
    "ref_inv P b xs Ms home (?o(m := ?o m + 1)) s1"
    using acquire_step [OF cl d(1) assms(3)] assms(4,10) by auto
  let ?o1 = "?o(m := ?o m + 1)"
  have q1: "queues P s1 = queues P s" using s1(2) by (simp add: still_def queues_def same_world_cap)
  have sw: "same_world P s s1" and l1: "linked P b xs s1 = linked P b xs s"
    using s1(2) by (simp_all add: still_def linked_def [abs_def])
  have hr: "has_room P s1 x" using has_room_cong [OF sw] s1(2) assms(9) by (simp add: still_def)
  have id: "msg_id_of s1 = msg_id_of s" using sw by (simp add: same_world_def msg_id_of_def fun_eq_iff)
  have v: "type_of s1 = type_of s" "max_id_of s1 = max_id_of s" "handler_of s1 = handler_of s"
    using sub_viewsD(3,4,12) [of P s1 s] sw by (simp_all add: same_world_def)
  have o1: "0 < ?o1 m" "?o1(m := ?o1 m - 1) = ?o" by (simp_all add: fun_eq_iff)
  have id1: "max_id_of s1 x < msg_id_of s1 m" using assms(8) v id by simp
  have run: "pub_sub_delayable_msg_handler P m s = pub_sub_publish_to_subscriber P x m s1"
    using delayable_handler_parts [OF hl ref_invD(2) [OF d(1) assms(3)] assms(5,10)] s1(1) assms(6) by simp
  have keep: "thread_inv P b xs Ms home wp sp own s'"
    if "same_world P s1 s'" "ref_inv P b xs Ms home ?o s'" "\<And>k. k \<noteq> m \<Longrightarrow> linked P b xs s' k = linked P b xs s k" for s'
  proof -
    have "linked P b xs s' k + rights xs wp sp k \<le> 1" for k
      using that(3) [of k] d(2) [of k] ref_invD(6) [OF that(2) assms(3)] rt by (cases "k = m") simp_all
    then show ?thesis using assms(2) that(2) same_world_types [OF that(1)] v(1) by (simp add: thread_inv_def)
  qed
  show ?thesis
  proof (cases "type_of s x = PUB_SUB_RX_TYPE_CALLBACK")
    case True
    obtain s' where s': "pub_sub_publish_to_subscriber P x m s1 = Inr ((), s')" "still P s1 s'" "ref_inv P b xs Ms home ?o s'"
      "log (app s') = log (app s1) @ [(fst (handler_of s1 x), msg_id_of s1 m, m, snd (handler_of s1 x))]"
      using private_callback_step [OF sl s1(4) assms(7,3) o1(1) id1] True v(1) unfolding o1(2) by auto
    have q: "queues P s' = queues P s1" using s'(2) by (simp add: still_def queues_def same_world_cap)
    have "same_world P s1 s'" "linked P b xs s' = linked P b xs s" using s'(2) l1 by (simp_all add: still_def linked_def [abs_def])
    then have "thread_inv P b xs Ms home wp sp own s'" by (intro keep s'(3)) simp_all
    then show ?thesis using run s'(1,4) s1(3) q q1 True v(3) id by (intro exI [of _ s']) simp
  next
    case False
    obtain s' where s': "pub_sub_publish_to_subscriber P x m s1 = Inr ((), s')" "published P s' = published P s1" "same_world P s1 s'"
      "msgq_of P s' = (if type_of s x = PUB_SUB_RX_TYPE_MSGQ then (msgq_of P s1)(x := msgq_of P s1 x @ [m]) else msgq_of P s1)"
      "fifo_of P s' = (if type_of s x = PUB_SUB_RX_TYPE_FIFO then (fifo_of P s1)(x := fifo_of P s1 x @ [m]) else fifo_of P s1)"
      "ref_inv P b xs Ms home ?o s'"
      using private_queue_step [OF cl s1(4) assms(7,3) o1(1) id1 hr] False v(1) z(3) unfolding l1 o1(2) by auto
    have "linked P b xs s' k = linked P b xs s k" if "k \<noteq> m" for k
      using that l1 held_push [OF assms(7), of "fifo_of P s1" m] by (simp add: linked_def s'(2,5) fun_eq_iff)
    then have "thread_inv P b xs Ms home wp sp own s'" by (rule keep [OF s'(3,6)])
    moreover have "queues P s' = (published P s, if type_of s x = PUB_SUB_RX_TYPE_FIFO then (fifo_of P s)(x := fifo_of P s x @ [m]) else fifo_of P s,
        if type_of s x = PUB_SUB_RX_TYPE_MSGQ then (msgq_of P s)(x := msgq_of P s x @ [m]) else msgq_of P s, msgq_cap P s)"
      using s'(2,4,5) same_world_cap [OF s'(3)] q1 by (simp add: queues_def)
    ultimately show ?thesis using run s'(1) False by (intro exI [of _ s']) (cases "type_of s x"; simp)
  qed
qed

text \<open>The expiry of a message that is still referred to fails, and into a full message queue it waits.\<close>

lemma handler_asserts:
  assumes "header_laws P" and "valid_msg s m" and "delayable_msgs s m = Some d" and "0 < ref_cnt s m" and "CONFIG_ASSERT P"
  shows "pub_sub_delayable_msg_handler P m s = Inl Assert_failed"
proof -
  obtain h where h: "messages s m = Some h" "m \<noteq> NULL" using assms(2) by (rule valid_msgE)
  have "ref_of (atomic_data h) \<noteq> 0" using assms(4) h(1) by (auto simp: ref_cnt_def)
  then show ?thesis
    using get_ref_cnt_run [OF assms(1) h] assms(3,5) by (simp add: pub_sub_delayable_msg_handler_def msg_run z_assertM_def unsigned_eq_0_iff)
qed

lemma expiry_waits:
  assumes "core_laws P" and "thread_inv P b xs Ms home wp sp own s" and "m \<in> Ms" and "home m = None"
    and "delayable_msgs s m = Some d" and "subscriber d \<in> set xs" and "max_id_of s (subscriber d) < msg_id_of s m"
    and "\<not> has_room P s (subscriber d)" and "ref_cnt s m = 0"
  shows "pub_sub_delayable_msg_handler P m s = Inl Blocked"
proof -
  have hl: "header_laws P" using assms(1) by (simp add: core_laws_def)
  let ?o = "\<lambda>k. own k + carried xs wp sp k" and ?x = "subscriber d"
  note d = thread_invD [OF assms(2)]
  obtain s1 where s1: "pub_sub_acquire_msg P m s = Inr ((), s1)" "still P s s1" "ref_inv P b xs Ms home (?o(m := ?o m + 1)) s1"
    using acquire_step [OF assms(1) d(1) assms(3)] assms(4,9) by auto
  have sw: "same_world P s s1" using s1(2) by (simp add: still_def)
  have r: "\<not> has_room P s1 ?x" using has_room_cong [OF sw] s1(2) assms(8) by (simp add: still_def)
  have ty: "type_of s1 ?x = PUB_SUB_RX_TYPE_MSGQ" using r by (simp add: has_room_def)
  have "max_id_of s1 ?x < msg_id_of s1 m"
    using assms(7) sw sub_viewsD(12) [of P s1 s] by (simp add: same_world_def msg_id_of_def)
  then have "pub_sub_publish_to_subscriber P ?x m s1 = Inl Blocked"
    using private_queue_put(1) [OF assms(1) s1(3) assms(6,3) _ ty] put_msgq_step(2) [OF assms(1) s1(3) assms(6) ty r] by simp
  then show ?thesis
    using delayable_handler_parts [OF hl ref_invD(2) [OF d(1) assms(3)] assms(5,9)] s1(1) by simp
qed

lemma timer_event_inv:
  assumes "app_laws P log" and "thread_inv P b xs Ms home wp sp own s" and "timer_event P xs Ms home s s'"
  shows "thread_inv P b xs Ms home wp sp own s'"
proof -
  have cl: "core_laws P" using assms(1) by (simp add: app_laws_def system_laws_def)
  then have hl: "header_laws P" by (simp add: core_laws_def)
  have get: "pub_sub_msg_get_ref_cnt P m t = Inr (ref_of (atomic_data (the (messages t m))), t)" if "valid_msg t m" for m t
    using that get_ref_cnt_run [OF hl] by (auto elim!: valid_msgE)
  have v: "valid_msg s m" "m \<noteq> NULL" if "m \<in> Ms" for m
    using ref_invD(2) [OF thread_invD(1) [OF assms(2)] that] by (simp_all add: valid_msg_def)
  have abort: "\<exists>f. t = upd_delayable m f s"
    if "m \<in> Ms" "delayable_msgs s m = Some d" "pub_sub_delayable_msg_abort P m s = Inr (r, t)" for m d r t
    using that v [OF that(1)] get
    by (auto simp: pub_sub_delayable_msg_abort_def msg_run Let_def split: if_splits)
  from assms(3) show ?thesis
  proof cases
    case (start_timer m d t)
    then show ?thesis using delayable_start_run [OF start_timer(2) v(2)] upd_delayable_inv [OF assms(2)] by auto
  next
    case (update_timer m d t r)
    obtain q s1 where s1: "pub_sub_delayable_msg_abort P m s = Inr (q, s1)" "pub_sub_delayable_msg_start P m t s1 = Inr ((), s')"
      using update_timer(3) v(2) [OF update_timer(1)]
      by (cases "pub_sub_delayable_msg_abort P m s") (auto simp: pub_sub_delayable_msg_update_timeout_def thenM_def bindM_def ret_def split: sum.splits)
    obtain f where f: "s1 = upd_delayable m f s" using abort [OF update_timer(1,2) s1(1)] by blast
    have "delayable_msgs s1 m = Some (f d)" using update_timer(2) f by simp
    then have "s' = upd_delayable m (\<lambda>d. d\<lparr>timeout := z_add_timeout P (timeout d) t\<rparr>) s1"
      using s1(2) delayable_start_run [OF _ v(2) [OF update_timer(1)], of s1 "f d" P t] by simp
    then show ?thesis using upd_delayable_inv [OF upd_delayable_inv [OF assms(2)]] f by auto
  next
    case (abort_timer m d r)
    then show ?thesis using abort upd_delayable_inv [OF assms(2)] by blast
  next
    case (expire m d q)
    let ?s = "upd_delayable m (\<lambda>d. d\<lparr>timeout := q\<rparr>) s"
    have w: "same_world P s ?s" "msgq_of P ?s = msgq_of P s" by (simp_all add: upd_delayable_def delayable_views)
    have e: "max_id_of ?s = max_id_of s" "msg_id_of ?s = msg_id_of s"
      using sub_viewsD(12) [of P ?s s] w by (simp_all add: same_world_def msg_id_of_def fun_eq_iff)
    have dm: "delayable_msgs ?s m = Some (d\<lparr>timeout := q\<rparr>)" using expire(3) by simp
    note inv = upd_delayable_inv [OF assms(2), of m "\<lambda>d. d\<lparr>timeout := q\<rparr>"]
    have v: "valid_msg ?s m" by (rule ref_invD(2) [OF thread_invD(1) [OF inv] expire(1)])
    have rc: "ref_cnt ?s m = 0"
      using handler_asserts [OF hl v dm] expire(6,9) by (cases "ref_cnt ?s m = 0") (auto simp: upd_delayable_def delayable_link_flag)
    have "has_room P ?s (subscriber d)"
      using expiry_waits [OF cl inv expire(1,2) dm _ _ _ rc] expire(4,5,9) e by (cases "has_room P ?s (subscriber d)") auto
    then show ?thesis using expiry_step [OF assms(1) inv expire(1,2) dm _ expire(4) _ _ rc] expire(5,9) e by auto
  qed
qed

lemma thread_reach_inv:
  assumes "app_laws P log" and "sys_init P b xs Ms home s0" and "thread_reach P b xs Ms home s0 c"
  shows "case c of (wp, sp, own, s) \<Rightarrow> thread_inv P b xs Ms home wp sp own s"
  using assms(3)
proof (induction rule: thread_reach.induct)
  case start
  have c: "carried xs Resting (\<lambda>_. Idle) k = 0" "rights xs Resting (\<lambda>_. Idle) k = 0" for k
    by (simp_all add: carried_def rights_def held_def)
  have "linked P b xs s0 k = 0" for k using assms(2) by (simp add: sys_init_def linked_def held_def)
  then show ?case using sys_init_ref_inv [OF assms(2)] by (simp add: thread_inv_def c)
next
  case (lib c c')
  have sl: "system_laws P log" using assms(1) by (simp add: app_laws_def)
  from lib(2,3) show ?case
    by (cases rule: lib_thread_step.cases) (auto intro: work_event_inv [OF sl] sub_event_inv [OF sl])
next
  case (app wp sp own s e own' s')
  then show ?case using app_event_inv [OF assms(1)] by simp
next
  case (timer wp sp own s s')
  then show ?case using timer_event_inv [OF assms(1)] by simp
qed

section \<open>A thread that runs alone\<close>

text \<open>The steps of one thread up to the point where it rests again.\<close>

definition busy_step where
  "busy_step ev rest c c' \<longleftrightarrow> fst c \<noteq> rest \<and> ev (fst c) (snd c) (fst c') (snd c')"

lemma busy_first:
  assumes "(busy_step ev rest)\<^sup>*\<^sup>* (p, s) (rest, s')" and "p \<noteq> rest"
  obtains q t where "ev p s q t" and "(busy_step ev rest)\<^sup>*\<^sup>* (q, t) (rest, s')"
proof -
  have "\<exists>c. busy_step ev rest (p, s) c \<and> (busy_step ev rest)\<^sup>*\<^sup>* c (rest, s')"
    using assms by (cases rule: converse_rtranclpE) auto
  then obtain q t where "ev p s q t" "(busy_step ev rest)\<^sup>*\<^sup>* (q, t) (rest, s')" by (auto simp: busy_step_def)
  then show thesis by (rule that)
qed

lemma busy_rest:
  assumes "(busy_step ev rest)\<^sup>*\<^sup>* (rest, s) (rest, s')"
  shows "s' = s"
  using assms by (cases rule: converse_rtranclpE) (simp_all add: busy_step_def)

text \<open>What is left of the list says where the walk is.\<close>

lemma walk_unique:
  assumes "thread_inv P b xs Ms home (Walking m i (hd0 zs) tmp) sp own s" and "xs = us @ zs"
  shows "tmp = hd0 (tl zs)"
proof -
  have ok: "sub_list P s b xs" by (rule sys_worldD(3) [OF thread_invD(6) [OF assms(1)]])
  have d: "distinct xs" "NULL \<notin> set xs" using sub_list_distinct [OF ok] sub_ok_not_NULL [OF sub_list_sub_ok [OF ok]] by auto
  obtain us' zs' where z: "xs = us' @ zs'" "hd0 zs = hd0 zs'" "tmp = hd0 (tl zs')" using thread_invD(5) [OF assms(1)] by auto
  have "hd0 ys = NULL \<longleftrightarrow> ys = []" if "set ys \<subseteq> set xs" for ys using that d(2) by (cases ys) (auto simp: hd0_def intro: gr0I)
  then have e: "zs = [] \<longleftrightarrow> zs' = []" using z(1,2) assms(2) by (metis Un_iff set_append subsetI)
  show ?thesis
  proof (cases zs)
    case Nil
    then show ?thesis using e z(3) by simp
  next
    case (Cons y ys)
    then obtain ys' where "zs' = y # ys'" using e z(2) by (cases zs') (auto simp: hd0_def)
    then show ?thesis using append_Cons_eq_iff [of y us' ys' us ys] d(1) z(1,3) assms(2) Cons by auto
  qed
qed

text \<open>One round of the loop of \<open>process_msg\<close> is one step of the work item, or two.\<close>

lemma loop_round:
  assumes "x \<noteq> NULL" and "work_next P b (Walking m i x tmp) s = Inr (q, t)"
  shows "(\<exists>tmp'. q = Walking m i tmp tmp' \<and>
      process_loop (Suc n) P x tmp i m False s = process_loop n P tmp tmp' i m False t) \<or>
    q = Queueing m i x tmp \<and> (\<forall>q' t'. work_next P b q t = Inr (q', t') \<longrightarrow> (\<exists>tmp'. q' = Walking m i tmp tmp' \<and>
      process_loop (Suc n) P x tmp i m False s = process_loop n P tmp tmp' i m False t')) \<or>
    q = Linking m x \<and> (\<forall>q' t'. work_next P b q t = Inr (q', t') \<longrightarrow> q' = Walked m \<and>
      process_loop (Suc n) P x tmp i m False s = Inr ((), t'))"
proof -
  obtain wanted s1 where w: "is_subscribed P x i s = Inr (wanted, s1)"
    using assms by (auto split: sum.splits)
  show ?thesis
  proof (cases wanted)
    case False
    then show ?thesis using assms w by (auto simp: to_next_def split: sum.splits)
  next
    case True
    then obtain su s2 where su: "read_sub x s1 = Inr (su, s2)" using assms w by (auto split: sum.splits)
    show ?thesis
    proof (cases "rx_type su")
      case PUB_SUB_RX_TYPE_CALLBACK
      then show ?thesis using assms w True su by (auto simp: to_next_def deliver_to_def split: sum.splits)
    next
      case PUB_SUB_RX_TYPE_MSGQ
      then show ?thesis using assms w True su by (auto simp: to_next_def deliver_to_def split: sum.splits)
    next
      case PUB_SUB_RX_TYPE_FIFO
      then show ?thesis using assms w True su by (auto simp: deliver_to_def split: sum.splits)
    qed
  qed
qed

lemma walk_alone:
  assumes "system_laws P log"
  shows "thread_inv P b xs Ms home (Walking m i (hd0 zs) (hd0 (tl zs))) sp own s \<Longrightarrow> xs = us @ zs \<Longrightarrow> length zs < n \<Longrightarrow>
    (busy_step (work_event P b) Resting)\<^sup>*\<^sup>* (Walking m i (hd0 zs) (hd0 (tl zs)), s) (Resting, s') \<Longrightarrow>
    \<exists>s1. process_loop n P (hd0 zs) (hd0 (tl zs)) i m False s = Inr ((), s1) \<and>
      (busy_step (work_event P b) Resting)\<^sup>*\<^sup>* (Walked m, s1) (Resting, s')"
proof (induction zs arbitrary: us n s)
  case Nil
  obtain q t where q: "work_event P b (Walking m i NULL NULL) s q t" "(busy_step (work_event P b) Resting)\<^sup>*\<^sup>* (q, t) (Resting, s')"
    using busy_first [OF Nil.prems(4)] by auto
  have "q = Walked m \<and> t = s" using q(1) by (simp add: work_event_def)
  then show ?case using q(2) Nil.prems(3) by (cases n) auto
next
  case (Cons z zs)
  obtain j where j: "n = Suc j" "length zs < j" using Cons.prems(3) by (cases n) auto
  have ok: "sub_list P s b xs" by (rule sys_worldD(3) [OF thread_invD(6) [OF Cons.prems(1)]])
  have z0: "z \<noteq> NULL" using sub_ok_not_NULL [OF sub_list_sub_ok [OF ok]] Cons.prems(2) by simp
  obtain q t where q: "work_event P b (Walking m i z (hd0 zs)) s q t" "(busy_step (work_event P b) Resting)\<^sup>*\<^sup>* (q, t) (Resting, s')"
    using busy_first [OF Cons.prems(4)] by auto
  have inv: "thread_inv P b xs Ms home q sp own t"
    using work_event_inv [OF assms _ q(1)] Cons.prems(1) by simp
  have n: "work_next P b (Walking m i z (hd0 zs)) s = Inr (q, t)" using q(1) by (simp only: work_event_def)
  have go: ?case
    if i: "thread_inv P b xs Ms home (Walking m i (hd0 zs) tmp') sp own u"
      and r: "(busy_step (work_event P b) Resting)\<^sup>*\<^sup>* (Walking m i (hd0 zs) tmp', u) (Resting, s')"
      and l: "process_loop (Suc j) P z (hd0 zs) i m False s = process_loop j P (hd0 zs) tmp' i m False u" for tmp' u
  proof -
    have xs: "xs = (us @ [z]) @ zs" using Cons.prems(2) by simp
    have "tmp' = hd0 (tl zs)" by (rule walk_unique [OF i xs])
    then show ?thesis using Cons.IH [of u "us @ [z]" j] i r l j Cons.prems(2) by simp
  qed
  from loop_round [OF z0 n, of j] show ?case
  proof (elim disjE exE conjE)
    fix tmp' assume "q = Walking m i (hd0 zs) tmp'"
      and "process_loop (Suc j) P z (hd0 zs) i m False s = process_loop j P (hd0 zs) tmp' i m False t"
    then show ?case using go [of tmp' t] inv q(2) by simp
  next
    assume k: "q = Queueing m i z (hd0 zs)" and l: "\<forall>q' t'. work_next P b q t = Inr (q', t') \<longrightarrow> (\<exists>tmp'. q' = Walking m i (hd0 zs) tmp' \<and>
      process_loop (Suc j) P z (hd0 zs) i m False s = process_loop j P (hd0 zs) tmp' i m False t')"
    obtain q' t' where q': "work_event P b q t q' t'" "(busy_step (work_event P b) Resting)\<^sup>*\<^sup>* (q', t') (Resting, s')"
      using busy_first [OF q(2)] k by auto
    have inv': "thread_inv P b xs Ms home q' sp own t'" by (rule work_event_inv [OF assms inv q'(1)])
    obtain tmp' where "q' = Walking m i (hd0 zs) tmp'"
      "process_loop (Suc j) P z (hd0 zs) i m False s = process_loop j P (hd0 zs) tmp' i m False t'"
      using l q'(1) unfolding work_event_def by blast
    then show ?case using go [of tmp' t'] inv' q'(2) by simp
  next
    assume k: "q = Linking m z" and l: "\<forall>q' t'. work_next P b q t = Inr (q', t') \<longrightarrow> q' = Walked m \<and>
      process_loop (Suc j) P z (hd0 zs) i m False s = Inr ((), t')"
    obtain q' t' where q': "work_event P b q t q' t'" "(busy_step (work_event P b) Resting)\<^sup>*\<^sup>* (q', t') (Resting, s')"
      using busy_first [OF q(2)] k by auto
    have "q' = Walked m" "process_loop (Suc j) P z (hd0 zs) i m False s = Inr ((), t')" using l q'(1) unfolding work_event_def by blast+
    then show ?case using q'(2) j(1) by simp
  qed
qed

lemma work_alone:
  assumes "system_laws P log" and "thread_inv P b xs Ms home Resting sp own s"
    and "work_event P b Resting s p s1" and "(busy_step (work_event P b) Resting)\<^sup>*\<^sup>* (p, s1) (Resting, s')"
  shows "distribute_one P b s = Inr ((), s')"
proof -
  have c: "core_laws P" by (rule system_core [OF assms(1)])
  from assms(3) obtain m i s0 where p: "p = Fetched m i"
    and get: "pub_sub_msg_fifo_get P (Msg_publish_fifo b) K_NO_WAIT s = Inr (m, s0)"
    and id: "pub_sub_msg_get_msg_id P m s0 = Inr (i, s1)"
    by (auto simp: work_event_def split: sum.splits if_splits)
  have i1: "thread_inv P b xs Ms home (Fetched m i) sp own s1" using work_event_inv [OF assms(1-3)] p by simp
  obtain q t where q: "work_event P b (Fetched m i) s1 q t" "(busy_step (work_event P b) Resting)\<^sup>*\<^sup>* (q, t) (Resting, s')"
    using busy_first [OF assms(4)] p by auto
  then obtain sub tmp u where l: "q = Walking m i sub tmp" "lock_sub_list P b s1 = Inr ((), u)"
    "sys_slist_peek_head P (slists u) b = sub" "peek_next_container P sub u = Inr (tmp, t)"
    by (auto simp: work_event_def split: sum.splits)
  obtain l' where "work_event P b (Fetched m i) s1 (Walking m i (hd0 xs) (hd0 (tl xs))) l'" using lock_ok [OF c i1] by blast
  then have ql: "sub = hd0 xs" "tmp = hd0 (tl xs)" using work_event_det [OF q(1)] l(1) by auto
  have i2: "thread_inv P b xs Ms home (Walking m i (hd0 xs) (hd0 (tl xs))) sp own t"
    using work_event_inv [OF assms(1) i1 q(1)] l(1) ql by simp
  obtain s2 where s2: "process_loop (fuel P) P (hd0 xs) (hd0 (tl xs)) i m False t = Inr ((), s2)"
    "(busy_step (work_event P b) Resting)\<^sup>*\<^sup>* (Walked m, s2) (Resting, s')"
    using walk_alone [OF assms(1) i2, of "[]" "fuel P" s'] q(2) l(1) ql sys_worldD(2) [OF thread_invD(6) [OF i2]] by auto
  obtain q3 s3 where q3: "work_event P b (Walked m) s2 q3 s3" "(busy_step (work_event P b) Resting)\<^sup>*\<^sup>* (q3, s3) (Resting, s')"
    using busy_first [OF s2(2)] by auto
  have u: "q3 = Unlocked m" "unlock_sub_list P b s2 = Inr ((), s3)" using q3(1) by (auto simp: work_event_def split: sum.splits)
  obtain q4 s4 where q4: "work_event P b (Unlocked m) s3 q4 s4" "(busy_step (work_event P b) Resting)\<^sup>*\<^sup>* (q4, s4) (Resting, s')"
    using busy_first [OF q3(2)] u(1) by auto
  have r: "q4 = Resting" "pub_sub_release_msg P m s3 = Inr ((), s4)" using q4(1) by (auto simp: work_event_def split: sum.splits)
  have "s4 = s'" using busy_rest q4(2) r(1) by metis
  then have "process_msg P b i m s1 = Inr ((), s')"
    using l s2(1) u(2) r(2) ql by (simp add: process_msg_def)
  then show ?thesis using get id by (simp add: distribute_one_def)
qed

lemma sub_alone:
  assumes "x \<noteq> NULL" and "sub_event P x False Idle s p s1"
    and "(busy_step (sub_event P x False) Idle)\<^sup>*\<^sup>* (p, s1) (Idle, s')"
  shows "pub_sub_handle_queued_msg P x K_NO_WAIT s = Inr (0, s')"
proof -
  have tail: "\<exists>s2. sub_handle P x i m t = Inr ((), s2) \<and> pub_sub_release_msg P m s2 = Inr ((), s')"
    if "(busy_step (sub_event P x False) Idle)\<^sup>*\<^sup>* (Passed m i, t) (Idle, s')" for m i t
  proof -
    note run = that
    obtain q2 s2 where q2: "sub_event P x False (Passed m i) t q2 s2" "(busy_step (sub_event P x False) Idle)\<^sup>*\<^sup>* (q2, s2) (Idle, s')"
      using busy_first [OF run] by auto
    have h: "q2 = Handled m" "sub_handle P x i m t = Inr ((), s2)" using q2(1) by (auto simp: sub_event_def split: sum.splits)
    obtain q3 s3 where q3: "sub_event P x False (Handled m) s2 q3 s3" "(busy_step (sub_event P x False) Idle)\<^sup>*\<^sup>* (q3, s3) (Idle, s')"
      using busy_first [OF q2(2)] h(1) by auto
    have r: "q3 = Idle" "pub_sub_release_msg P m s2 = Inr ((), s3)" using q3(1) by (auto simp: sub_event_def split: sum.splits)
    have "s3 = s'" using busy_rest q3(2) r(1) by metis
    then show ?thesis using h(2) r(2) by blast
  qed
  have pass: "\<exists>t. send_to_next_fifo_subscriber P x i m s1 = Inr ((), t) \<and>
      (busy_step (sub_event P x False) Idle)\<^sup>*\<^sup>* (Passed m i, t) (Idle, s')" if p: "p = Taken m i" for m i
  proof -
    obtain q t where q: "sub_event P x False (Taken m i) s1 q t" "(busy_step (sub_event P x False) Idle)\<^sup>*\<^sup>* (q, t) (Idle, s')"
      using busy_first [OF assms(3)] p by auto
    then show ?thesis by (auto simp: sub_event_def split: sum.splits)
  qed
  have n: "sub_next P x False Idle s = Inr (p, s1)" using assms(2) by (simp only: sub_event_def)
  then obtain su t where su: "read_sub x s = Inr (su, t)" unfolding sub_next.simps by (elim bindM_InrE)
  show ?thesis
  proof (cases "rx_type su")
    case PUB_SUB_RX_TYPE_CALLBACK
    then show ?thesis using n su by simp
  next
    case PUB_SUB_RX_TYPE_MSGQ
    obtain r m i s2 s3 where e: "msgq_get P x K_NO_WAIT t = Inr ((r, m), s2)" "r = 0" "pub_sub_msg_get_msg_id P m s2 = Inr (i, s3)"
      "assert_handler P x s3 = Inr ((), s1)" "p = Passed m i"
      using n su PUB_SUB_RX_TYPE_MSGQ by (auto simp: bindM_eq_Inr thenM_eq_Inr ret_def split: if_splits simp del: bindM_run thenM_run)
    then show ?thesis using tail [of m i s1] assms(1,3) su PUB_SUB_RX_TYPE_MSGQ by (auto simp: pub_sub_handle_queued_msg_def)
  next
    case PUB_SUB_RX_TYPE_FIFO
    obtain m i s2 s3 s4 su' where e: "pub_sub_msg_fifo_get P (Sub_fifo x) K_NO_WAIT t = Inr (m, s2)" "m \<noteq> NULL"
      "pub_sub_msg_get_msg_id P m s2 = Inr (i, s3)" "assert_handler P x s3 = Inr ((), s4)" "read_sub x s4 = Inr (su', s1)"
      "p = (if i \<le> max_pub_msg_id su' then Taken m i else Passed m i)"
      using n su PUB_SUB_RX_TYPE_FIFO by (auto simp: bindM_eq_Inr thenM_eq_Inr ret_def split: if_splits simp del: bindM_run thenM_run)
    show ?thesis
    proof (cases "i \<le> max_pub_msg_id su'")
      case True
      then obtain t1 where "send_to_next_fifo_subscriber P x i m s1 = Inr ((), t1)"
        "(busy_step (sub_event P x False) Idle)\<^sup>*\<^sup>* (Passed m i, t1) (Idle, s')"
        using pass e(6) by auto
      then show ?thesis using tail [of m i t1] e True assms(1) su PUB_SUB_RX_TYPE_FIFO by (auto simp: pub_sub_handle_queued_msg_def)
    next
      case False
      then show ?thesis using tail [of m i s1] assms(1,3) e su PUB_SUB_RX_TYPE_FIFO by (auto simp: pub_sub_handle_queued_msg_def)
    qed
  qed
qed

text \<open>With room in every message queue, and a counter that is small enough, the work item comes to the end of
  the list.\<close>

lemma busy_stepI:
  assumes "ev p s q t" and "p \<noteq> rest" and "(busy_step ev rest)\<^sup>*\<^sup>* (q, t) c"
  shows "(busy_step ev rest)\<^sup>*\<^sup>* (p, s) c"
  using assms(3) by (rule converse_rtranclp_into_rtranclp [rotated]) (simp add: busy_step_def assms(1,2))

lemma walk_runs:
  assumes "system_laws P log"
  shows "thread_inv P b xs Ms home (Walking m i (hd0 zs) (hd0 (tl zs))) sp own s \<Longrightarrow> xs = us @ zs \<Longrightarrow>
    ref_cnt s m + length zs \<le> 255 \<Longrightarrow> \<forall>x \<in> set zs. has_room P s x \<Longrightarrow>
    \<exists>s1. (busy_step (work_event P b) Resting)\<^sup>*\<^sup>* (Walking m i (hd0 zs) (hd0 (tl zs)), s) (Walked m, s1) \<and>
      thread_inv P b xs Ms home (Walked m) sp own s1"
proof (induction zs arbitrary: us s)
  case Nil
  have inv: "thread_inv P b xs Ms home (Walking m i NULL NULL) sp own s" using Nil.prems(1) by simp
  have "(busy_step (work_event P b) Resting)\<^sup>*\<^sup>* (Walking m i NULL NULL, s) (Walked m, s)"
    by (rule busy_stepI [where ev = "work_event P b", OF end_of_list(1) [OF inv]]) simp_all
  then show ?case using end_of_list(2) [OF inv] by auto
next
  case (Cons z zs)
  have c: "core_laws P" by (rule system_core [OF assms])
  have ok: "sub_list P s b xs" by (rule sys_worldD(3) [OF thread_invD(6) [OF Cons.prems(1)]])
  have z0: "z \<noteq> NULL" using sub_ok_not_NULL [OF sub_list_sub_ok [OF ok]] Cons.prems(2) by simp
  have zn: "z \<notin> set zs" using sub_list_distinct [OF ok] Cons.prems(2) by simp
  have xs: "xs = (us @ [z]) @ zs" using Cons.prems(2) by simp
  let ?w = "Walking m i z (hd0 zs)"
  let ?run = "\<lambda>q t. \<exists>s1. (busy_step (work_event P b) Resting)\<^sup>*\<^sup>* (q, t) (Walked m, s1) \<and> thread_inv P b xs Ms home (Walked m) sp own s1"
  have inv: "thread_inv P b xs Ms home ?w sp own s" using Cons.prems(1) by simp
  have step: "?run p u" if "work_event P b p u q t" "p \<noteq> Resting" "?run q t" for p u q t
    using busy_stepI [where ev = "work_event P b" and rest = Resting, OF that(1,2)] that(3) by blast
  have go: "?run (Walking m i (hd0 zs) tmp') t"
    if "thread_inv P b xs Ms home (Walking m i (hd0 zs) tmp') sp own t" "ref_cnt t m \<le> ref_cnt s m + 1"
      "\<forall>y. y \<noteq> z \<longrightarrow> has_room P t y = has_room P s y" for tmp' t
  proof -
    have "tmp' = hd0 (tl zs)" by (rule walk_unique [OF that(1) xs])
    moreover have "\<forall>x \<in> set zs. has_room P t x" using that(3) zn Cons.prems(4) by (metis list.set_intros(2))
    ultimately show ?thesis using Cons.IH [of t "us @ [z]"] that(1,2) Cons.prems(2,3) by simp
  qed
  have "ref_cnt s m < 255" using Cons.prems(3) by simp
  then obtain q t where t: "work_event P b ?w s q t" "thread_inv P b xs Ms home q sp own t" "has_room P t = has_room P s"
    "if i \<in> subscriptions P s z \<and> type_of s z = PUB_SUB_RX_TYPE_MSGQ then q = Queueing m i z (hd0 zs) \<and> ref_cnt t m = ref_cnt s m + 1
     else if i \<in> subscriptions P s z \<and> type_of s z = PUB_SUB_RX_TYPE_FIFO then q = Linking m z \<and> ref_cnt t m = ref_cnt s m + 1
     else (\<exists>tmp'. q = Walking m i (hd0 zs) tmp') \<and> ref_cnt t = ref_cnt s"
    using visit_ok [OF assms inv z0] by blast
  consider tmp' where "q = Walking m i (hd0 zs) tmp'" "ref_cnt t = ref_cnt s"
    | "q = Queueing m i z (hd0 zs)" "ref_cnt t m = ref_cnt s m + 1" | "q = Linking m z" using t(4) by (auto split: if_splits)
  then have "?run q t"
  proof cases
    case 1
    then show ?thesis using go t(2,3) by simp
  next
    case 2
    have "has_room P t z" using t(3) Cons.prems(4) by simp
    then obtain tmp' u where u: "work_event P b q t (Walking m i (hd0 zs) tmp') u"
      "thread_inv P b xs Ms home (Walking m i (hd0 zs) tmp') sp own u" "ref_cnt u = ref_cnt t" "\<forall>y. y \<noteq> z \<longrightarrow> has_room P u y = has_room P t y"
      using queue_ok(1) [OF c t(2) [unfolded 2(1)]] 2(1) by blast
    have "?run (Walking m i (hd0 zs) tmp') u" using go [OF u(2)] u(3,4) t(3) 2(2) by simp
    then show ?thesis using step [OF u(1)] 2(1) by simp
  next
    case 3
    obtain u where u: "work_event P b q t (Walked m) u" "thread_inv P b xs Ms home (Walked m) sp own u"
      using link_ok [OF c t(2) [unfolded 3]] 3 by blast
    then have "?run (Walked m) u" by blast
    then show ?thesis using step [OF u(1)] 3 by simp
  qed
  then show ?case using step [OF t(1)] by simp
qed

definition works_alone :: "('k, 'u) platform \<Rightarrow> ptr \<Rightarrow> ('k, 'u) memory \<Rightarrow> ('k, 'u) memory \<Rightarrow> bool" where
  "works_alone P b s s' \<longleftrightarrow>
     (\<exists>p s1. work_event P b Resting s p s1 \<and> (busy_step (work_event P b) Resting)\<^sup>*\<^sup>* (p, s1) (Resting, s'))"

definition handles_alone :: "('k, 'u) platform \<Rightarrow> ptr \<Rightarrow> ('k, 'u) memory \<Rightarrow> ('k, 'u) memory \<Rightarrow> bool" where
  "handles_alone P x s s' \<longleftrightarrow>
     (\<exists>p s1. sub_event P x False Idle s p s1 \<and> (busy_step (sub_event P x False) Idle)\<^sup>*\<^sup>* (p, s1) (Idle, s'))"

lemma work_runs:
  assumes "system_laws P log" and "thread_inv P b xs Ms home Resting sp own s" and "can_distribute P b xs s"
  shows "\<exists>s'. works_alone P b s s'"
proof -
  have c: "core_laws P" by (rule system_core [OF assms(1)])
  obtain m ms where m: "published P s b = m # ms" "ref_cnt s m + length xs \<le> 255" "\<forall>x \<in> set xs. has_room P s x"
    using assms(3) by (auto simp: can_distribute_def)
  obtain i s1 where s1: "work_event P b Resting s (Fetched m i) s1" "thread_inv P b xs Ms home (Fetched m i) sp own s1"
    "ref_cnt s1 = ref_cnt s" "has_room P s1 = has_room P s"
    using fetch_ok [OF c assms(2) m(1)] by blast
  obtain s2 where s2: "work_event P b (Fetched m i) s1 (Walking m i (hd0 xs) (hd0 (tl xs))) s2"
    "thread_inv P b xs Ms home (Walking m i (hd0 xs) (hd0 (tl xs))) sp own s2" "ref_cnt s2 = ref_cnt s1" "has_room P s2 = has_room P s1"
    using lock_ok [OF c s1(2)] by blast
  have "ref_cnt s2 m + length xs \<le> 255" "\<forall>x \<in> set xs. has_room P s2 x" using m(2,3) s1(3,4) s2(3,4) by simp_all
  then obtain s3 where s3: "(busy_step (work_event P b) Resting)\<^sup>*\<^sup>* (Walking m i (hd0 xs) (hd0 (tl xs)), s2) (Walked m, s3)"
    and i3: "thread_inv P b xs Ms home (Walked m) sp own s3"
    using walk_runs [OF assms(1) s2(2), of "[]"] by auto
  obtain s4 where s4: "work_event P b (Walked m) s3 (Unlocked m) s4" "thread_inv P b xs Ms home (Unlocked m) sp own s4"
    using unlock_ok [OF i3] by blast
  obtain s5 where s5: "work_event P b (Unlocked m) s4 Resting s5" using work_release_ok [OF c s4(2)] by blast
  have "(busy_step (work_event P b) Resting)\<^sup>*\<^sup>* (Walked m, s3) (Resting, s5)"
    by (intro busy_stepI [where ev = "work_event P b", OF s4(1)] busy_stepI [where ev = "work_event P b", OF s5]) simp_all
  then have "(busy_step (work_event P b) Resting)\<^sup>*\<^sup>* (Fetched m i, s1) (Resting, s5)"
    by (intro busy_stepI [where ev = "work_event P b", OF s2(1)] rtranclp_trans [OF s3]) simp_all
  then show ?thesis using s1(1) unfolding works_alone_def by blast
qed

lemma sub_runs:
  assumes "system_laws P log" and "thread_inv P b xs Ms home wp sp own s" and "x \<in> set xs" and "sp x = Idle"
    and "waiting P s x = m # ms" and "ref_cnt s m < 255"
  shows "\<exists>s'. handles_alone P x s s'"
proof -
  have c: "core_laws P" by (rule system_core [OF assms(1)])
  let ?run = "\<lambda>p t. \<exists>s'. (busy_step (sub_event P x False) Idle)\<^sup>*\<^sup>* (p, t) (Idle, s')"
  have step: "?run p u" if "sub_event P x False p u q t" "p \<noteq> Idle" "?run q t" for p u q t
    using busy_stepI [where ev = "sub_event P x False" and rest = Idle, OF that(1,2)] that(3) by blast
  have "fifo_of P s x @ msgq_of P s x = m # ms"
    using assms(5) ready_queues [OF thread_invD(7) [OF assms(2,3)]] by (cases "type_of s x") (auto simp: waiting_def)
  then obtain p s1 where s1: "sub_event P x False Idle s p s1" "hand_of p = [m]" "ref_cnt s1 = ref_cnt s"
    "thread_inv P b xs Ms home wp (sp(x := p)) own s1"
    using sub_take_ok [OF c assms(2-4)] by blast
  have handled: "?run (Handled m) t" if inv: "thread_inv P b xs Ms home wp (sp(x := Handled m)) own t" for t
  proof -
    obtain u where "sub_event P x False (Handled m) t Idle u" using sub_release_ok [OF c inv assms(3)] by auto
    then show ?thesis by (rule step) auto
  qed
  have passed: "?run (Passed m i) t" if inv: "thread_inv P b xs Ms home wp (sp(x := Passed m i)) own t" for i t
  proof -
    obtain u where u: "sub_event P x False (Passed m i) t (Handled m) u" "thread_inv P b xs Ms home wp (sp(x := Handled m)) own u"
      using sub_call_ok [OF assms(1) inv assms(3)] by (auto simp: fun_upd_upd)
    show ?thesis by (rule step [OF u(1) _ handled [OF u(2)]]) simp
  qed
  have "?run p s1"
  proof (cases p)
    case (Taken k i)
    then have k: "k = m" "ref_cnt s1 k < 255" using s1(2,3) assms(6) by simp_all
    obtain t where t: "sub_event P x False (Taken m i) s1 (Passed m i) t" "thread_inv P b xs Ms home wp (sp(x := Passed m i)) own t"
      using sub_pass_ok [OF c s1(4) assms(3) _ k(2)] Taken k(1) by (auto simp: fun_upd_upd)
    have "?run (Taken m i) s1" by (rule step [OF t(1) _ passed [OF t(2)]]) simp
    then show ?thesis using Taken k(1) by simp
  next
    case (Passed k i)
    then show ?thesis using passed s1(2,4) by simp
  next
    case (Handled k)
    then show ?thesis using handled s1(2,4) by simp
  qed (use s1(2) in simp)
  then show ?thesis using s1(1) unfolding handles_alone_def by blast
qed

section \<open>No deadlock\<close>

text \<open>A subscriber with something to do has a step, unless it waits for the lock; the work item has one, unless
  it waits for room in a queue, and then the subscriber of the queue has one.\<close>

lemma sub_can_step:
  assumes "system_laws P log" and "thread_inv P b xs Ms home wp sp own s" and "x \<in> set xs"
    and "sp x \<noteq> Idle \<or> waiting P s x \<noteq> []" and "right_of (sp x) \<noteq> [] \<longrightarrow> \<not> holds_lock wp"
    and "\<forall>m \<in> sub_takes P xs s x (sp x). ref_cnt s m < 255"
  shows "\<exists>c. lib_thread_step P b xs (wp, sp, own, s) c"
proof -
  have "\<not> (sp x = Idle \<and> fifo_of P s x @ msgq_of P s x = [])" using assms(4) by (auto simp: waiting_def)
  then obtain p s' where "sub_event P x (holds_lock wp) (sp x) s p s'"
    using sub_turn [OF assms(1-3,6), of "holds_lock wp"] assms(5) by blast
  then show ?thesis using lib_thread_step.subscriber [OF assms(3)] by blast
qed

lemma full_waiting:
  assumes "thread_inv P b xs Ms home wp sp own s" and "x \<in> set xs" and "\<not> has_room P s x" and "msgq_cap P s x \<noteq> Some 0"
  shows "type_of s x = PUB_SUB_RX_TYPE_MSGQ" and "waiting P s x \<noteq> []"
proof -
  obtain n where n: "type_of s x = PUB_SUB_RX_TYPE_MSGQ" "msgq_cap P s x = Some n" "n \<le> length (msgq_of P s x)"
    using assms(3) thread_invD(7) [OF assms(1,2)] by (auto simp: has_room_def elim!: ready_subE)
  then show "type_of s x = PUB_SUB_RX_TYPE_MSGQ" "waiting P s x \<noteq> []"
    using assms(4) by (cases "msgq_of P s x"; simp add: waiting_def)+
qed

lemma work_can_step:
  assumes "system_laws P log" and "thread_inv P b xs Ms home wp sp own s" and "wp \<noteq> Resting \<or> published P s b \<noteq> []"
    and "\<forall>m \<in> work_takes P s wp. ref_cnt s m < 255" and "\<forall>x \<in> set xs. msgq_cap P s x \<noteq> Some 0"
  shows "\<exists>c. lib_thread_step P b xs (wp, sp, own, s) c"
proof (cases "\<exists>wp' s'. work_event P b wp s wp' s'")
  case True
  then show ?thesis using lib_thread_step.work_item by blast
next
  case False
  then obtain m i x tmp where q: "wp = Queueing m i x tmp" "\<not> has_room P s x"
    using work_turn [OF assms(1,2,4)] assms(3) by blast
  have x: "x \<in> set xs" using thread_invD(5) [OF assms(2)] q(1) by auto
  note f = full_waiting [OF assms(2) x q(2)]
  have "right_of (sp x) = []" using thread_invD(4) [OF assms(2) x] f(1) assms(5) x by auto
  moreover from this have "sub_takes P xs s x (sp x) = {}" unfolding sub_takes_def by (cases "sp x") simp_all
  ultimately show ?thesis using sub_can_step [OF assms(1,2) x] f(2) assms(5) x by simp
qed

section \<open>What the threads keep to\<close>

text \<open>C8. Concurrency: let the work item, the subscribers and the application run as threads, whose steps
  (a message is taken, the lock is taken, a subscriber is visited and its reference taken, the message is put into the
  subscriber's queue, a handler is called, a reference is released) are interleaved in any order, while the
  time-outs of delayable messages expire. In every state between two steps, also while the work item waits for room in a
  message queue, the counter of a message is the number of the references that
  the application has to it and the threads have in hand, plus the number of queues that hold it; a block of a slab
  is free exactly when that number is 0; and a message is linked in one FIFO at most. A thread has one
  reference in hand, and the work item has two from when it has taken the reference of a queue until it has put the
  message there. A run goes on as long as no step carries a counter past its limit of 255.\<close>

theorem threads_refcounts:
  assumes "app_laws P log" and "sys_init P b xs Ms home s0" and "thread_reach P b xs Ms home s0 (wp, sp, own, s)"
    and "m \<in> Ms" and "n = own m + count_list (work_hand wp) m + (\<Sum>x\<in>set xs. count_list (hand_of (sp x)) m) + places P b xs s m"
  shows "(home m = None \<or> 0 < n \<longrightarrow> ref_cnt s m = n) \<and> (\<forall>q. home m = Some q \<longrightarrow> (m \<in> slab_pool P s q \<longleftrightarrow> n = 0)) \<and>
    linked P b xs s m \<le> 1"
proof -
  have "thread_inv P b xs Ms home wp sp own s" using thread_reach_inv [OF assms(1-3)] by simp
  note r = thread_invD(1) [OF this]
  note d = ref_invD [OF r]
  have n: "refs P b xs (\<lambda>k. own k + carried xs wp sp k) s m = n"
    by (simp add: refs_def carried_def held_def assms(5) comp_def)
  have "home m = None \<or> 0 < n \<longrightarrow> ref_cnt s m = n" using d(5) [OF assms(4)] n by (auto simp: in_use_def)
  moreover have "\<forall>q. home m = Some q \<longrightarrow> (m \<in> slab_pool P s q \<longleftrightarrow> n = 0)"
    using d(9) assms(4) n by (auto simp: slab_inv_def split: if_splits)
  ultimately show ?thesis using d(6) [OF assms(4)] by blast
qed

text \<open>C9. No deadlock: whenever a message is published, waits in the queue of a subscriber or is in the hands of a
  thread, some thread of the library can go on, although the work item waits for room in the message
  queues while it holds the lock and a reference, and FIFO subscribers wait for the lock; and no thread is about to
  fail. No message queue may have the size 0, and no counter may be at its limit.\<close>

theorem threads_no_deadlock:
  assumes "app_laws P log" and "sys_init P b xs Ms home s0" and "thread_reach P b xs Ms home s0 (wp, sp, own, s)"
    and "\<forall>x \<in> set xs. msgq_cap P s x \<noteq> Some 0" and "\<forall>m \<in> Ms. ref_cnt s m < 255"
    and "wp \<noteq> Resting \<or> published P s b \<noteq> [] \<or> (\<exists>x \<in> set xs. sp x \<noteq> Idle \<or> waiting P s x \<noteq> [])"
  shows "(\<exists>c. lib_thread_step P b xs (wp, sp, own, s) c) \<and> \<not> thread_fails P b xs (wp, sp, own, s)"
proof -
  have sl: "system_laws P log" using assms(1) by (simp add: app_laws_def)
  have inv: "thread_inv P b xs Ms home wp sp own s" using thread_reach_inv [OF assms(1-3)] by simp
  have r: "ref_cnt s m < 255" if "0 < carried xs wp sp m" for m using assms(5) thread_invD(3) [OF inv that] by blast
  have w: "\<forall>m \<in> work_takes P s wp. ref_cnt s m < 255" using r by (auto simp: work_takes_def carried_def)
  have t: "\<forall>m \<in> sub_takes P xs s x (sp x). ref_cnt s m < 255" if x: "x \<in> set xs" for x
    using r in_hands(4) [OF x] by (auto simp: sub_takes_def)
  have "\<exists>c. lib_thread_step P b xs (wp, sp, own, s) c"
  proof (cases "wp \<noteq> Resting \<or> published P s b \<noteq> []")
    case True
    then show ?thesis by (rule work_can_step [OF sl inv _ w assms(4)])
  next
    case False
    then obtain x where x: "x \<in> set xs" "sp x \<noteq> Idle \<or> waiting P s x \<noteq> []" using assms(6) by blast
    show ?thesis by (rule sub_can_step [OF sl inv x _ t [OF x(1)]]) (use False in simp)
  qed
  then show ?thesis using no_thread_fails [OF sl inv w] t by blast
qed

text \<open>C11. Atomicity: the steps that a thread of the library takes while no other thread runs are the operation of
  the code, and they come to its end. A round of the work item alone ends in the state that one round of
  \<open>publish_work_handler\<close> ends in, and there is such a round when there is room for the message; what a
  subscriber does alone ends in the state that \<open>pub_sub_handle_queued_msg\<close> ends in, which returns 0, and it does
  so when a message waits for it.\<close>

theorem threads_compose:
  assumes "app_laws P log" and "sys_init P b xs Ms home s0" and "thread_reach P b xs Ms home s0 (Resting, sp, own, s)"
  shows "(\<forall>s'. works_alone P b s s' \<longrightarrow> distribute_one P b s = Inr ((), s')) \<and>
    (can_distribute P b xs s \<longrightarrow> (\<exists>s'. works_alone P b s s')) \<and>
    (\<forall>x \<in> set xs. (\<forall>s'. handles_alone P x s s' \<longrightarrow> pub_sub_handle_queued_msg P x K_NO_WAIT s = Inr (0, s')) \<and>
      (sp x = Idle \<and> waiting P s x \<noteq> [] \<and> can_handle P s x K_NO_WAIT \<longrightarrow> (\<exists>s'. handles_alone P x s s')))"
proof -
  have sl: "system_laws P log" using assms(1) by (simp add: app_laws_def)
  have inv: "thread_inv P b xs Ms home Resting sp own s" using thread_reach_inv [OF assms] by simp
  have "x \<noteq> NULL" if "x \<in> set xs" for x
    using sub_ok_not_NULL [OF sub_list_sub_ok [OF sys_worldD(3) [OF thread_invD(6) [OF inv]] that]] .
  moreover have "\<exists>s'. handles_alone P x s s'" if "x \<in> set xs" "sp x = Idle" "waiting P s x \<noteq> []" "can_handle P s x K_NO_WAIT" for x
    using that(3,4) sub_runs [OF sl inv that(1,2)] by (cases "waiting P s x") (auto simp: can_handle_def)
  ultimately show ?thesis
    using work_alone [OF sl inv] work_runs [OF sl inv] sub_alone unfolding works_alone_def handles_alone_def by blast
qed

section \<open>Examples\<close>

text \<open>The application allocates message 40 and publishes it; the work item fetches it and takes the lock.\<close>

lemma runs_threads:
  "runs (sys_event P b Ms home) (xs, own0, s1) es c \<Longrightarrow> (\<forall>e \<in> set es. app_event e) \<Longrightarrow>
    thread_reach P b xs Ms home s0 (Resting, \<lambda>_. Idle, own0, s1) \<Longrightarrow>
    \<exists>own s. c = (xs, own, s) \<and> thread_reach P b xs Ms home s0 (Resting, \<lambda>_. Idle, own, s)"
proof (induction es arbitrary: c rule: rev_induct)
  case Nil
  then show ?case by (auto elim: runs.cases)
next
  case (snoc e es)
  obtain c1 where c1: "runs (sys_event P b Ms home) (xs, own0, s1) es c1" "sys_event P b Ms home c1 e c"
    using snoc.prems(1) by (auto elim: runs.cases)
  obtain own s where o: "c1 = (xs, own, s)" "thread_reach P b xs Ms home s0 (Resting, \<lambda>_. Idle, own, s)"
    using snoc.IH [OF c1(1)] snoc.prems(2,3) by auto
  have a: "app_event e" using snoc.prems(2) by simp
  obtain own' s' where c: "c = (xs, own', s')" using c1(2) a unfolding o(1) by cases auto
  have "rights xs Resting (\<lambda>_. Idle) k = 0" for k by (simp add: rights_def held_def)
  then show ?case using thread_reach.app [OF o(2) a] c1(2) unfolding o(1) c by blast
qed

lemma published_40:
  "\<exists>own s. thread_reach noting_platform 9 [4, 6, 10] {2, 40} [40 \<mapsto> 30] (some_kinds 0x0003FE00 0 [40]) (Resting, \<lambda>_. Idle, own, s) \<and>
     own 2 = 0 \<and> own 40 = 0 \<and> published noting_platform s 9 = [40] \<and> can_distribute noting_platform 9 [4, 6, 10] s \<and>
     sub_views noting_platform s = sub_views noting_platform all_kinds \<and> ref_cnt s 2 = 0 \<and> ref_cnt s 40 = 1 \<and>
     msg_id_of s 40 = 3 \<and> thread_inv noting_platform 9 [4, 6, 10] {2, 40} [40 \<mapsto> 30] Resting (\<lambda>_. Idle) own s"
proof -
  let ?P = "noting_platform" and ?M = "{2, 40} :: ptr set" and ?h = "[40 \<mapsto> 30] :: ptr \<rightharpoonup> ptr"
  obtain own s where s: "runs (sys_event ?P 9 ?M ?h) ([4, 6, 10], \<lambda>_. 0, some_kinds 0x0003FE00 0 [40]) [Allocate 30 40 3, Publish 40] ([4, 6, 10], own, s)"
    "own 2 = 0" "own 40 = 0" "published ?P s 9 = [40]" "sub_views ?P s = sub_views ?P all_kinds"
    "\<forall>x \<in> {4, 6, 10}. fifo_of ?P s x = [] \<and> msgq_of ?P s x = []" "msg_id_of s 40 = 3"
    using some_kinds_events by blast
  have r: "thread_reach ?P 9 [4, 6, 10] ?M ?h (some_kinds 0x0003FE00 0 [40]) (Resting, \<lambda>_. Idle, own, s)"
    using runs_threads [OF s(1) _ thread_reach.start] by simp
  have i: "thread_inv ?P 9 [4, 6, 10] ?M ?h Resting (\<lambda>_. Idle) own s"
    using thread_reach_inv [OF noting_system_laws(2) some_kinds_init r] by simp
  note d = thread_invD [OF i]
  have c: "carried [4, 6, 10] Resting (\<lambda>_. Idle) k = 0" for k by (simp add: carried_def held_def)
  have n: "ref_cnt s 2 = 0" "ref_cnt s 40 = 1"
    using ref_invD(5) [OF d(1), of 2] ref_invD(5) [OF d(1), of 40] s(2-4,6)
    by (simp_all add: refs_def places_def linked_def held_def in_use_def c)
  have "has_room ?P s x" if x: "x \<in> {4, 6, 10}" for x
  proof -
    have "ready_sub ?P 9 s x" "msgq_of ?P s x = []" using d(7) s(6) x by auto
    moreover have "msgq_cap ?P s x \<noteq> Some 0" using all_kinds_ready sub_viewsD(6) [OF s(5)] x by auto
    ultimately show ?thesis by (auto simp: has_room_def ready_sub_def)
  qed
  then have "can_distribute ?P 9 [4, 6, 10] s" using s(4) n(2) by (simp add: can_distribute_def)
  then show ?thesis using r s n i by blast
qed

lemma walking_40:
  "\<exists>own s. thread_reach noting_platform 9 [4, 6, 10] {2, 40} [40 \<mapsto> 30] (some_kinds 0x0003FE00 0 [40]) (Walking 40 3 4 6, \<lambda>_. Idle, own, s) \<and>
     own 2 = 0 \<and> own 40 = 0 \<and> places noting_platform 9 [4, 6, 10] s 40 = 0 \<and> ref_cnt s 2 = 0 \<and> ref_cnt s 40 = 1 \<and>
     sub_views noting_platform s = sub_views noting_platform all_kinds \<and>
     thread_inv noting_platform 9 [4, 6, 10] {2, 40} [40 \<mapsto> 30] (Walking 40 3 4 6) (\<lambda>_. Idle) own s"
proof -
  let ?P = "noting_platform" and ?M = "{2, 40} :: ptr set" and ?h = "[40 \<mapsto> 30] :: ptr \<rightharpoonup> ptr" and ?f = "\<lambda>_. Idle"
  obtain own s where s: "thread_reach ?P 9 [4, 6, 10] ?M ?h (some_kinds 0x0003FE00 0 [40]) (Resting, ?f, own, s)" "own 40 = 0"
    "own 2 = 0" "published ?P s 9 = [40]" "sub_views ?P s = sub_views ?P all_kinds" "ref_cnt s 2 = 0" "ref_cnt s 40 = 1"
    "msg_id_of s 40 = 3" "thread_inv ?P 9 [4, 6, 10] ?M ?h Resting ?f own s"
    using published_40 by blast
  have c: "core_laws ?P" by (rule system_core [OF noting_system_laws(1)])
  obtain s1 where s1: "work_event ?P 9 Resting s (Fetched 40 3) s1" "thread_inv ?P 9 [4, 6, 10] ?M ?h (Fetched 40 3) ?f own s1"
    "ref_cnt s1 = ref_cnt s" "sub_views ?P s1 = sub_views ?P s"
    using fetch_ok [OF c s(9,4)] unfolding s(8) by blast
  obtain s2 where s2: "work_event ?P 9 (Fetched 40 3) s1 (Walking 40 3 4 6) s2"
    "thread_inv ?P 9 [4, 6, 10] ?M ?h (Walking 40 3 4 6) ?f own s2" "ref_cnt s2 = ref_cnt s1" "sub_views ?P s2 = sub_views ?P s1"
    using lock_ok [OF c s1(2)] by (auto simp: hd0_def)
  have r: "thread_reach ?P 9 [4, 6, 10] ?M ?h (some_kinds 0x0003FE00 0 [40]) (Walking 40 3 4 6, ?f, own, s2)"
    by (rule thread_reach.lib [OF thread_reach.lib [OF s(1)]]; rule lib_thread_step.work_item) (use s1(1) s2(1) in simp_all)
  note d = thread_invD [OF s2(2)]
  have "refs ?P 9 [4, 6, 10] (\<lambda>k. own k + carried [4, 6, 10] (Walking 40 3 4 6) ?f k) s2 40 = 1"
    using ref_invD(5) [OF d(1), of 40] s(7) s1(3) s2(3) by (simp add: in_use_def refs_def carried_def held_def)
  then have p: "places ?P 9 [4, 6, 10] s2 40 = 0" using s(2) by (simp add: refs_def carried_def held_def)
  then show ?thesis using r p s(2,3,5-7) s1(3,4) s2(2-4) by (intro exI [of _ own] exI [of _ s2]) simp
qed

text \<open>The callback subscriber 4 is called, and the reference for the message queue of subscriber 6 is taken.\<close>

lemma queueing_40:
  "\<exists>own s. thread_reach noting_platform 9 [4, 6, 10] {2, 40} [40 \<mapsto> 30] (some_kinds 0x0003FE00 0 [40]) (Queueing 40 3 6 10, \<lambda>_. Idle, own, s) \<and>
     own 40 = 0 \<and> places noting_platform 9 [4, 6, 10] s 40 = 0"
proof -
  let ?P = "noting_platform" and ?M = "{2, 40} :: ptr set" and ?h = "[40 \<mapsto> 30] :: ptr \<rightharpoonup> ptr" and ?f = "\<lambda>_. Idle"
  obtain own s where s: "thread_reach ?P 9 [4, 6, 10] ?M ?h (some_kinds 0x0003FE00 0 [40]) (Walking 40 3 4 6, ?f, own, s)" "own 40 = 0"
    "places ?P 9 [4, 6, 10] s 40 = 0" "ref_cnt s 40 = 1" "sub_views ?P s = sub_views ?P all_kinds"
    "thread_inv ?P 9 [4, 6, 10] ?M ?h (Walking 40 3 4 6) ?f own s"
    using walking_40 by blast
  note v = sub_viewsD(2,3) [OF s(5)]
  obtain q s1 where s1: "work_event ?P 9 (Walking 40 3 4 6) s q s1" "thread_inv ?P 9 [4, 6, 10] ?M ?h q ?f own s1"
    "sub_views ?P s1 = sub_views ?P s" "queues ?P s1 = queues ?P s" "ref_cnt s1 = ref_cnt s" "\<exists>tmp'. q = Walking 40 3 6 tmp'"
    using visit_ok [OF noting_system_laws(1) s(6)] v all_kinds_views by auto
  then obtain tmp' where t: "q = Walking 40 3 6 tmp'" by blast
  have "tmp' = 10" using walk_unique [where us = "[4]" and zs = "[6, 10]" and tmp = tmp'] s1(2) t by (fastforce simp: hd0_def)
  then have q: "q = Walking 40 3 6 10" using t by simp
  note v1 = sub_viewsD(2,3) [OF s1(3)]
  have x: "3 \<in> subscriptions ?P s1 6" "type_of s1 6 = PUB_SUB_RX_TYPE_MSGQ" using v v1 all_kinds_views(2) all_kinds_subs(4) by simp_all
  obtain s2 where s2: "work_event ?P 9 q s1 (Queueing 40 3 6 10) s2" "queues ?P s2 = queues ?P s1"
    using visit_ok [OF noting_system_laws(1) s1(2) [unfolded q]] x s(4) s1(5) q by auto
  have "thread_reach ?P 9 [4, 6, 10] ?M ?h (some_kinds 0x0003FE00 0 [40]) (Queueing 40 3 6 10, ?f, own, s2)"
    by (rule thread_reach.lib [OF thread_reach.lib [OF s(1)]]; rule lib_thread_step.work_item) (use s1(1) s2(1) q in simp_all)
  moreover have "places ?P 9 [4, 6, 10] s2 40 = 0" using s(3) places_queues [OF s2(2)] places_queues [OF s1(4)] by simp
  ultimately show ?thesis using s(2) by blast
qed

theorem threads_refcounts_witness:
  "\<exists>own s. thread_reach noting_platform 9 [4, 6, 10] {2, 40} [40 \<mapsto> 30] (some_kinds 0x0003FE00 0 [40]) (Queueing 40 3 6 10, \<lambda>_. Idle, own, s) \<and>
     own 40 = 0 \<and> ref_cnt s 40 = 2 \<and> 40 \<notin> slab_pool noting_platform s 30"
proof -
  let ?P = "noting_platform"
  obtain own s where s: "thread_reach ?P 9 [4, 6, 10] {2, 40} [40 \<mapsto> 30] (some_kinds 0x0003FE00 0 [40]) (Queueing 40 3 6 10, \<lambda>_. Idle, own, s)"
    "own 40 = 0" "places ?P 9 [4, 6, 10] s 40 = 0"
    using queueing_40 by blast
  have "ref_cnt s 40 = 2 \<and> 40 \<notin> slab_pool ?P s 30"
    using threads_refcounts [OF noting_system_laws(2) some_kinds_init s(1), of 40, OF _ refl] s(2,3) by simp
  then show ?thesis using s(1,2) by blast
qed

theorem threads_no_deadlock_witness:
  "\<exists>own s c. thread_reach noting_platform 9 [4, 6, 10] {2, 40} [40 \<mapsto> 30] (some_kinds 0x0003FE00 0 [40]) (Walking 40 3 4 6, \<lambda>_. Idle, own, s) \<and>
     lib_thread_step noting_platform 9 [4, 6, 10] (Walking 40 3 4 6, \<lambda>_. Idle, own, s) c \<and>
     \<not> thread_fails noting_platform 9 [4, 6, 10] (Walking 40 3 4 6, \<lambda>_. Idle, own, s)"
proof -
  let ?P = "noting_platform"
  obtain own s where s: "thread_reach ?P 9 [4, 6, 10] {2, 40} [40 \<mapsto> 30] (some_kinds 0x0003FE00 0 [40]) (Walking 40 3 4 6, \<lambda>_. Idle, own, s)"
    "ref_cnt s 2 = 0" "ref_cnt s 40 = 1" "sub_views ?P s = sub_views ?P all_kinds"
    using walking_40 by blast
  have "\<forall>x \<in> {4, 6, 10}. msgq_cap ?P s x \<noteq> Some 0" using all_kinds_ready sub_viewsD(6) [OF s(4)] by simp
  then have "(\<exists>c. lib_thread_step ?P 9 [4, 6, 10] (Walking 40 3 4 6, \<lambda>_. Idle, own, s) c) \<and>
      \<not> thread_fails ?P 9 [4, 6, 10] (Walking 40 3 4 6, \<lambda>_. Idle, own, s)"
    by (intro threads_no_deadlock [OF noting_system_laws(2) some_kinds_init s(1)]) (use s(2,3) in simp_all)
  then show ?thesis using s(1) by blast
qed

theorem threads_compose_witness:
  "\<exists>own s s'. thread_reach noting_platform 9 [4, 6, 10] {2, 40} [40 \<mapsto> 30] (some_kinds 0x0003FE00 0 [40]) (Resting, \<lambda>_. Idle, own, s) \<and>
     works_alone noting_platform 9 s s' \<and> distribute_one noting_platform 9 s = Inr ((), s')"
proof -
  let ?P = "noting_platform"
  obtain own s where s: "thread_reach ?P 9 [4, 6, 10] {2, 40} [40 \<mapsto> 30] (some_kinds 0x0003FE00 0 [40]) (Resting, \<lambda>_. Idle, own, s)"
    "can_distribute ?P 9 [4, 6, 10] s"
    using published_40 by blast
  then show ?thesis using threads_compose [OF noting_system_laws(2) some_kinds_init s(1)] by blast
qed

end
