(* ===== verification/ThreadRest.thy ===== *)
theory ThreadRest imports ThreadRuns begin

text \<open>
  The threads come to rest: when the application stops and no time-out expires, the work item and the subscribers take a bounded
  number of steps, in whatever order these are interleaved, no counter passes its limit on the way, and in the end every
  queue is empty and nobody in the library has a message in hand.
\<close>

section \<open>What a step moves\<close>

text \<open>What the steps do to the queues and to the phases of the threads, without the memory. The ranks go down along
  the list of subscribers; the end of the list has the rank 0.\<close>

type_synonym queues = "(ptr \<Rightarrow> ptr list) \<times> (ptr \<Rightarrow> ptr list) \<times> (ptr \<Rightarrow> ptr list) \<times> (ptr \<rightharpoonup> nat)"

inductive work_move :: "ptr \<Rightarrow> ptr list \<Rightarrow> work_phase \<Rightarrow> queues \<Rightarrow> work_phase \<Rightarrow> queues \<Rightarrow> bool" for b xs where
  fetch: "p b = m # ms \<Longrightarrow> work_move b xs Resting (p, f, q, c) (Fetched m i) (p(b := ms), f, q, c)"
| lock: "work_move b xs (Fetched m i) Q (Walking m i sub tmp) Q"
| skip: "rank xs tmp < rank xs sub \<Longrightarrow> work_move b xs (Walking m i sub tmp) Q (Walking m i tmp tmp') Q"
| to_msgq: "work_move b xs (Walking m i sub tmp) Q (Queueing m i sub tmp) Q"
| to_fifo: "work_move b xs (Walking m i sub tmp) Q (Linking m sub) Q"
| at_end: "work_move b xs (Walking m i NULL tmp) Q (Walked m) Q"
| put_msgq: "sub \<in> set xs \<Longrightarrow> rank xs tmp < rank xs sub \<Longrightarrow>
    work_move b xs (Queueing m i sub tmp) (p, f, q, c) (Walking m i tmp tmp') (p, f, q(sub := q sub @ [m]), c)"
| put_fifo: "sub \<in> set xs \<Longrightarrow> work_move b xs (Linking m sub) (p, f, q, c) (Walked m) (p, f(sub := f sub @ [m]), q, c)"
| unlock: "work_move b xs (Walked m) Q (Unlocked m) Q"
| release: "work_move b xs (Unlocked m) Q Resting Q"

inductive sub_move :: "ptr list \<Rightarrow> ptr \<Rightarrow> sub_phase \<Rightarrow> queues \<Rightarrow> sub_phase \<Rightarrow> queues \<Rightarrow> bool" for xs x where
  take_fifo: "f x = m # ms \<Longrightarrow> hand_of r = [m] \<Longrightarrow> sub_move xs x Idle (p, f, q, c) r (p, f(x := ms), q, c)"
| take_msgq: "q x = m # ms \<Longrightarrow> hand_of r = [m] \<Longrightarrow> right_of r = [] \<Longrightarrow>
    sub_move xs x Idle (p, f, q, c) r (p, f, q(x := ms), c)"
| no_next: "sub_move xs x (Taken m i) Q (Passed m i) Q"
| relay: "y \<in> set xs \<Longrightarrow> rank xs y < rank xs x \<Longrightarrow>
    sub_move xs x (Taken m i) (p, f, q, c) (Passed m i) (p, f(y := f y @ [m]), q, c)"
| call: "sub_move xs x (Passed m i) Q (Handled m) Q"
| sub_release: "sub_move xs x (Handled m) Q Idle Q"

lemma rank_NULL: "NULL \<notin> set xs \<Longrightarrow> rank xs NULL = 0"
  unfolding rank_def by simp (metis gr_zeroI)

lemma rank_next:
  assumes "distinct xs" and "NULL \<notin> set xs" and "xs = us @ x # zs"
  shows "rank xs (hd0 zs) < rank xs x"
proof (cases zs)
  case Nil
  then show ?thesis using rank_NULL [OF assms(2)] rank_bounds(1) [of x xs] assms(3) by (simp add: hd0_def)
next
  case (Cons z zs')
  then show ?thesis using rank_later [of us x zs z] assms(1,3) by (simp add: hd0_def)
qed

lemma work_event_moves:
  assumes "system_laws P log" and "thread_inv P b xs Ms home wp sp own s" and "work_event P b wp s wp' s'"
  shows "work_move b xs wp (queues P s) wp' (queues P s')"
proof -
  have c: "core_laws P" by (rule system_core [OF assms(1)])
  note w = sys_worldD [OF thread_invD(6) [OF assms(2)]]
  have dx: "distinct xs" "NULL \<notin> set xs"
    using sub_list_distinct [OF w(3)] sub_ok_not_NULL [OF sub_list_sub_ok [OF w(3)]] by auto
  have *: ?thesis if "work_event P b wp s q t" "work_move b xs wp (queues P s) q (queues P t)" for q t
    using that work_event_det [OF assms(3) that(1)] by simp
  have Q: "queues P s = (published P s, fifo_of P s, msgq_of P s, msgq_cap P s)" by (rule queues_def)
  show ?thesis
  proof (cases wp)
    case Resting
    note inv = assms(2) [unfolded Resting]
    have "published P s b \<noteq> []" using fetch_waits [OF c inv] assms(3) Resting by (auto simp: work_event_def)
    then obtain k ks where p: "published P s b = k # ks" by (cases "published P s b") auto
    obtain t j where "work_event P b Resting s (Fetched k j) t"
      "queues P t = ((published P s)(b := ks), fifo_of P s, msgq_of P s, msgq_cap P s)"
      using fetch_ok [OF c inv p] by blast
    then show ?thesis using * [of "Fetched k j" t] work_move.fetch [of "published P s" b k ks] p Resting by (simp add: Q)
  next
    case (Fetched m i)
    obtain t where "work_event P b wp s (Walking m i (hd0 xs) (hd0 (tl xs))) t" "queues P t = queues P s"
      using lock_ok [OF c assms(2) [unfolded Fetched]] Fetched by blast
    then show ?thesis using * work_move.lock Fetched by metis
  next
    case (Walking m i x tmp)
    note inv = assms(2) [unfolded Walking] and ev = assms(3) [unfolded Walking]
    show ?thesis
    proof (cases "x = NULL")
      case True
      then show ?thesis using * [of "Walked m" s] end_of_list(1) [OF inv [unfolded True]] Walking work_move.at_end by simp
    next
      case False
      obtain us zs where z: "xs = us @ x # zs" "tmp = hd0 zs" using walking_at [OF inv False] .
      have r: "rank xs tmp < rank xs x" unfolding z(2) by (rule rank_next [OF dx z(1)])
      have "i \<in> subscriptions P s x \<and> type_of s x \<noteq> PUB_SUB_RX_TYPE_CALLBACK \<Longrightarrow> ref_cnt s m < 255"
        using work_takes_room [OF assms(1) inv ev] False unfolding work_takes_def by blast
      then obtain q t where t: "work_event P b wp s q t" "queues P t = queues P s"
        "q = Queueing m i x tmp \<or> q = Linking m x \<or> (\<exists>tmp'. q = Walking m i tmp tmp')"
        using visit_ok [OF assms(1) inv False] Walking by (auto split: if_splits)
      have "work_move b xs wp (queues P s) q (queues P s)"
        using t(3) Walking r by (auto intro: work_move.intros)
      then show ?thesis using * [OF t(1)] t(2) by simp
    qed
  next
    case (Queueing m i x tmp)
    note inv = assms(2) [unfolded Queueing]
    have hr: "has_room P s x" using queue_ok(2) [OF c inv] assms(3) Queueing by (auto simp: work_event_def)
    obtain us zs where z: "xs = us @ x # zs" "tmp = hd0 zs" using thread_invD(5) [OF inv] by auto
    have r: "rank xs tmp < rank xs x" "x \<in> set xs" unfolding z(2) by (rule rank_next [OF dx z(1)]) (simp add: z(1))
    obtain t tmp' where "work_event P b wp s (Walking m i tmp tmp') t"
      "queues P t = (published P s, fifo_of P s, (msgq_of P s)(x := msgq_of P s x @ [m]), msgq_cap P s)"
      using queue_ok(1) [OF c inv hr] Queueing by blast
    then show ?thesis using * [of "Walking m i tmp tmp'" t] work_move.put_msgq [OF r(2,1), of b m i] Queueing by (simp add: Q)
  next
    case (Linking m x)
    obtain t where t: "work_event P b wp s (Walked m) t" "x \<in> set xs"
      "queues P t = (published P s, (fifo_of P s)(x := fifo_of P s x @ [m]), msgq_of P s, msgq_cap P s)"
      using link_ok [OF c assms(2) [unfolded Linking]] Linking by blast
    show ?thesis using * [OF t(1)] work_move.put_fifo [OF t(2), of b m] Linking t(3) by (simp add: Q)
  next
    case (Walked m)
    obtain t where "work_event P b wp s (Unlocked m) t" "queues P t = queues P s"
      using unlock_ok [OF assms(2) [unfolded Walked]] Walked by blast
    then show ?thesis using * work_move.unlock Walked by metis
  next
    case (Unlocked m)
    obtain t where "work_event P b wp s Resting t" "queues P t = queues P s"
      using work_release_ok [OF c assms(2) [unfolded Unlocked]] Unlocked by blast
    then show ?thesis using * work_move.release Unlocked by metis
  qed
qed

lemma sub_event_moves:
  assumes "system_laws P log" and "thread_inv P b xs Ms home wp sp own s" and "x \<in> set xs"
    and "sub_event P x locked (sp x) s p s'"
  shows "sub_move xs x (sp x) (queues P s) p (queues P s')"
proof -
  have c: "core_laws P" by (rule system_core [OF assms(1)])
  note w = sys_worldD [OF thread_invD(6) [OF assms(2)]]
  have *: ?thesis if "sub_event P x locked (sp x) s q t" "sub_move xs x (sp x) (queues P s) q (queues P t)" for q t
    using that sub_event_det [OF assms(4) that(1)] by simp
  have Q: "queues P s = (published P s, fifo_of P s, msgq_of P s, msgq_cap P s)" by (rule queues_def)
  show ?thesis
  proof (cases "sp x")
    case Idle
    have "fifo_of P s x @ msgq_of P s x \<noteq> []" using sub_take_waits [OF c assms(2,3)] assms(4) Idle by (auto simp: sub_event_def)
    then obtain m ms where m: "fifo_of P s x @ msgq_of P s x = m # ms" by (cases "fifo_of P s x @ msgq_of P s x") auto
    obtain q t where q: "sub_event P x locked (sp x) s q t" "hand_of q = [m]"
      "queues P t = (published P s, (fifo_of P s)(x := ms), msgq_of P s, msgq_cap P s) \<and> fifo_of P s x = m # ms \<or>
       queues P t = (published P s, fifo_of P s, (msgq_of P s)(x := ms), msgq_cap P s) \<and> msgq_of P s x = m # ms \<and> right_of q = []"
      using sub_take_ok [OF c assms(2,3) Idle m] Idle by metis
    have "sub_move xs x Idle (queues P s) q (queues P t)"
      using q(3) sub_move.take_fifo [of "fifo_of P s" x m ms q] sub_move.take_msgq [of "msgq_of P s" x m ms q] q(2) by (auto simp: Q)
    then show ?thesis using * [OF q(1)] Idle by simp
  next
    case (Taken m i)
    have l: "\<not> locked" using assms(4) Taken by (auto simp: sub_event_def)
    have r: "relays P xs s x i \<Longrightarrow> ref_cnt s m < 255"
      using sub_takes_room [OF assms(1-4)] Taken unfolding sub_takes_def by blast
    obtain t where t: "sub_event P x locked (sp x) s (Passed m i) t" "queues P t = queues P s \<or> (\<exists>us ys y. xs = us @ x # ys \<and> y \<in> set ys \<and>
      queues P t = (published P s, (fifo_of P s)(y := fifo_of P s y @ [m]), msgq_of P s, msgq_cap P s))"
      using sub_pass_ok [OF c assms(2,3) Taken r] Taken l by auto
    from t(2) have "sub_move xs x (Taken m i) (queues P s) (Passed m i) (queues P t)"
    proof (elim disjE exE conjE)
      assume "queues P t = queues P s"
      then show ?thesis using sub_move.no_next by simp
    next
      fix us ys y
      assume y: "xs = us @ x # ys" "y \<in> set ys"
        and q: "queues P t = (published P s, (fifo_of P s)(y := fifo_of P s y @ [m]), msgq_of P s, msgq_cap P s)"
      have "rank xs y < rank xs x" using rank_later [OF _ y(2), of us x] sub_list_distinct [OF w(3)] y(1) by simp
      then show ?thesis using y unfolding q Q by (intro sub_move.relay) auto
    qed
    then show ?thesis using * [OF t(1)] Taken by simp
  next
    case (Passed m i)
    obtain t where "sub_event P x locked (sp x) s (Handled m) t" "queues P t = queues P s"
      using sub_call_ok [OF assms(1-3) Passed] Passed by metis
    then show ?thesis using * [of "Handled m" t] Passed sub_move.call by simp
  next
    case (Handled m)
    obtain t where "sub_event P x locked (sp x) s Idle t" "queues P t = queues P s"
      using sub_release_ok [OF c assms(2,3) Handled] Handled by metis
    then show ?thesis using * [of Idle t] Handled sub_move.sub_release by simp
  qed
qed

section \<open>What the threads have left to do\<close>

text \<open>What is left of a round of the work item, and of what a subscriber does with a message. A message for
  subscriber \<open>x\<close> counts five times the rank of \<open>x\<close> in its FIFO, so that passing it on to a
  later subscriber makes the sum smaller.\<close>

fun work_left :: "ptr list \<Rightarrow> work_phase \<Rightarrow> nat" where
  "work_left xs Resting = 0"
| "work_left xs (Fetched m i) = 5 * length xs + 5"
| "work_left xs (Walking m i sub tmp) = 5 * rank xs sub + 4"
| "work_left xs (Queueing m i sub tmp) = 5 * rank xs sub + 3"
| "work_left xs (Linking m sub) = 5 * rank xs sub + 3"
| "work_left xs (Walked m) = 2"
| "work_left xs (Unlocked m) = 1"

fun sub_left :: "nat \<Rightarrow> sub_phase \<Rightarrow> nat" where
  "sub_left r Idle = 0"
| "sub_left r (Taken m i) = 5 * r - 1"
| "sub_left r (Passed m i) = 2"
| "sub_left r (Handled m) = 1"

fun queue_load :: "ptr \<Rightarrow> ptr list \<Rightarrow> queues \<Rightarrow> nat" where
  "queue_load b xs (p, f, q, c) =
     (5 * length xs + 6) * length (p b) + weight xs (\<lambda>x. 5 * rank xs x) f + weight xs (\<lambda>_. 3) q"

definition thread_load ::
  "('k, 'u) platform \<Rightarrow> ptr \<Rightarrow> ptr list \<Rightarrow> work_phase \<Rightarrow> (ptr \<Rightarrow> sub_phase) \<Rightarrow> ('k, 'u) memory \<Rightarrow> nat" where
  "thread_load P b xs wp sp s =
     queue_load b xs (queues P s) + work_left xs wp + (\<Sum>x \<in> set xs. sub_left (rank xs x) (sp x))"

text \<open>How often the library refers to message \<open>k\<close>, with all references that it may still take before it comes to
  rest: one for each of the subscribers that are not reached yet.\<close>

fun work_refs :: "ptr list \<Rightarrow> ptr \<Rightarrow> work_phase \<Rightarrow> nat" where
  "work_refs xs k Resting = 0"
| "work_refs xs k (Fetched m i) = (if m = k then length xs + 1 else 0)"
| "work_refs xs k (Walking m i sub tmp) = (if m = k then rank xs sub + 1 else 0)"
| "work_refs xs k (Queueing m i sub tmp) = (if m = k then rank xs sub + 1 else 0)"
| "work_refs xs k (Linking m sub) = (if m = k then rank xs sub + 1 else 0)"
| "work_refs xs k (Walked m) = (if m = k then 1 else 0)"
| "work_refs xs k (Unlocked m) = (if m = k then 1 else 0)"

fun sub_refs :: "ptr \<Rightarrow> nat \<Rightarrow> sub_phase \<Rightarrow> nat" where
  "sub_refs k r Idle = 0"
| "sub_refs k r (Taken m i) = (if m = k then r else 0)"
| "sub_refs k r (Passed m i) = (if m = k then 1 else 0)"
| "sub_refs k r (Handled m) = (if m = k then 1 else 0)"

definition of_msg :: "ptr \<Rightarrow> (ptr \<Rightarrow> ptr list) \<Rightarrow> ptr \<Rightarrow> ptr list" where
  "of_msg k f x = filter ((=) k) (f x)"

fun queue_refs :: "ptr \<Rightarrow> ptr list \<Rightarrow> ptr \<Rightarrow> queues \<Rightarrow> nat" where
  "queue_refs b xs k (p, f, q, c) =
     (length xs + 1) * length (of_msg k p b) + weight xs (rank xs) (of_msg k f) + weight xs (\<lambda>_. 1) (of_msg k q)"

definition most_refs ::
  "('k, 'u) platform \<Rightarrow> ptr \<Rightarrow> ptr list \<Rightarrow> work_phase \<Rightarrow> (ptr \<Rightarrow> sub_phase) \<Rightarrow> ('k, 'u) memory \<Rightarrow> ptr \<Rightarrow> nat" where
  "most_refs P b xs wp sp s k =
     queue_refs b xs k (queues P s) + work_refs xs k wp + (\<Sum>x \<in> set xs. sub_refs k (rank xs x) (sp x))"

lemma of_msg_upd: "of_msg k (f(x := l)) = (of_msg k f)(x := filter ((=) k) l)"
  by (simp add: of_msg_def fun_eq_iff)

lemma sum_upd:
  fixes h :: "ptr \<Rightarrow> sub_phase \<Rightarrow> nat"
  assumes "x \<in> set xs"
  shows "(\<Sum>y \<in> set xs. h y ((sp(x := p)) y)) + h x (sp x) = (\<Sum>y \<in> set xs. h y (sp y)) + h x p"
proof -
  have "(\<Sum>y \<in> set xs - {x}. h y ((sp(x := p)) y)) = (\<Sum>y \<in> set xs - {x}. h y (sp y))" by (rule sum.cong) auto
  then show ?thesis using assms by (simp add: sum.remove [of "set xs" x])
qed

lemma queue_put:
  assumes "x \<in> set xs"
  shows "queue_load b xs (p, f(x := f x @ [m]), q, c) = queue_load b xs (p, f, q, c) + 5 * rank xs x"
    and "queue_load b xs (p, f, q(x := q x @ [m]), c) = queue_load b xs (p, f, q, c) + 3"
    and "queue_refs b xs k (p, f(x := f x @ [m]), q, c) = queue_refs b xs k (p, f, q, c) + (if m = k then rank xs x else 0)"
    and "queue_refs b xs k (p, f, q(x := q x @ [m]), c) = queue_refs b xs k (p, f, q, c) + (if m = k then 1 else 0)"
  using weight_upd [OF assms, of "\<lambda>x. 5 * rank xs x" f "f x @ [m]"] weight_upd [OF assms, of "\<lambda>_. 3" q "q x @ [m]"]
    weight_upd [OF assms, of "rank xs" "of_msg k f" "filter ((=) k) (f x @ [m])"]
    weight_upd [OF assms, of "\<lambda>_. 1" "of_msg k q" "filter ((=) k) (q x @ [m])"]
  by (auto simp: of_msg_upd algebra_simps) (auto simp: of_msg_def)

lemma queue_take:
  assumes "x \<in> set xs"
  shows "f x = m # ms \<Longrightarrow> queue_load b xs (p, f(x := ms), q, c) + 5 * rank xs x = queue_load b xs (p, f, q, c)"
    and "q x = m # ms \<Longrightarrow> queue_load b xs (p, f, q(x := ms), c) + 3 = queue_load b xs (p, f, q, c)"
    and "f x = m # ms \<Longrightarrow> queue_refs b xs k (p, f(x := ms), q, c) + (if m = k then rank xs x else 0) = queue_refs b xs k (p, f, q, c)"
    and "q x = m # ms \<Longrightarrow> queue_refs b xs k (p, f, q(x := ms), c) + (if m = k then 1 else 0) = queue_refs b xs k (p, f, q, c)"
  using weight_upd [OF assms, of "\<lambda>x. 5 * rank xs x" f ms] weight_upd [OF assms, of "\<lambda>_. 3" q ms]
    weight_upd [OF assms, of "rank xs" "of_msg k f" "filter ((=) k) ms"]
    weight_upd [OF assms, of "\<lambda>_. 1" "of_msg k q" "filter ((=) k) ms"]
  by (auto simp: of_msg_upd algebra_simps) (auto simp: of_msg_def)

section \<open>Every step does some of it\<close>

lemma queue_fetch:
  "p b = m # ms \<Longrightarrow> queue_load b xs (p(b := ms), f, q, c) + (5 * length xs + 6) = queue_load b xs (p, f, q, c)"
  "p b = m # ms \<Longrightarrow> queue_refs b xs k (p(b := ms), f, q, c) + (if m = k then length xs + 1 else 0) = queue_refs b xs k (p, f, q, c)"
  by (simp_all add: of_msg_def)

lemma work_move_less:
  assumes "work_move b xs wp Q wp' Q'" and "NULL \<notin> set xs"
  shows "queue_load b xs Q' + work_left xs wp' < queue_load b xs Q + work_left xs wp"
    and "queue_refs b xs k Q' + work_refs xs k wp' \<le> queue_refs b xs k Q + work_refs xs k wp"
    and "snd (snd (snd Q')) = snd (snd (snd Q))"
proof -
  have "queue_load b xs Q' + work_left xs wp' < queue_load b xs Q + work_left xs wp \<and>
      queue_refs b xs k Q' + work_refs xs k wp' \<le> queue_refs b xs k Q + work_refs xs k wp \<and> snd (snd (snd Q')) = snd (snd (snd Q))"
    using assms(1)
  proof cases
    case (fetch p m ms f q c i)
    then show ?thesis using queue_fetch(1) [where p = p and b = b and f = f and q = q and c = c and xs = xs, OF fetch(5)]
        queue_fetch(2) [where p = p and b = b and f = f and q = q and c = c and xs = xs and k = k, OF fetch(5)] by (simp del: queue_load.simps queue_refs.simps)
  next
    case (lock m i sub tmp)
    then show ?thesis using rank_bounds(2) [of xs sub] by simp
  qed (auto simp: rank_NULL [OF assms(2)] queue_put simp del: queue_load.simps queue_refs.simps)
  then show "queue_load b xs Q' + work_left xs wp' < queue_load b xs Q + work_left xs wp"
    "queue_refs b xs k Q' + work_refs xs k wp' \<le> queue_refs b xs k Q + work_refs xs k wp"
    "snd (snd (snd Q')) = snd (snd (snd Q))"
    by blast+
qed

lemma sub_move_less:
  assumes "sub_move xs x r Q r' Q'" and "x \<in> set xs"
  shows "queue_load b xs Q' + sub_left (rank xs x) r' < queue_load b xs Q + sub_left (rank xs x) r"
    and "queue_refs b xs k Q' + sub_refs k (rank xs x) r' \<le> queue_refs b xs k Q + sub_refs k (rank xs x) r"
    and "snd (snd (snd Q')) = snd (snd (snd Q))"
proof -
  have r0: "0 < rank xs x" by (rule rank_bounds(1) [OF assms(2)])
  have h: "sub_left (rank xs x) r' < 5 * rank xs x" "sub_refs k (rank xs x) r' \<le> (if m = k then rank xs x else 0)"
    "right_of r' = [] \<Longrightarrow> sub_left (rank xs x) r' < 3 \<and> sub_refs k (rank xs x) r' \<le> (if m = k then 1 else 0)"
    if "hand_of r' = [m]" for m
    using that r0 by (cases r'; auto)+
  have "queue_load b xs Q' + sub_left (rank xs x) r' < queue_load b xs Q + sub_left (rank xs x) r \<and>
      queue_refs b xs k Q' + sub_refs k (rank xs x) r' \<le> queue_refs b xs k Q + sub_refs k (rank xs x) r \<and>
      snd (snd (snd Q')) = snd (snd (snd Q))"
    using assms(1)
  proof cases
    case (take_fifo f m ms p q c)
    show ?thesis
      using h(1,2) [OF take_fifo(5)] queue_take(1) [where f = f and b = b and p = p and q = q and c = c, OF assms(2) take_fifo(4)]
        queue_take(3) [where f = f and b = b and p = p and q = q and c = c and k = k, OF assms(2) take_fifo(4)] take_fifo(1-3)
      by (simp del: queue_load.simps queue_refs.simps)
  next
    case (take_msgq q m ms p f c)
    show ?thesis
      using h(3) [OF take_msgq(5,6)] queue_take(2) [where f = f and b = b and p = p and q = q and c = c, OF assms(2) take_msgq(4)]
        queue_take(4) [where f = f and b = b and p = p and q = q and c = c and k = k, OF assms(2) take_msgq(4)] take_msgq(1-3)
      by (simp del: queue_load.simps queue_refs.simps)
  qed (use r0 in \<open>auto simp: queue_put simp del: queue_load.simps queue_refs.simps\<close>)
  then show "queue_load b xs Q' + sub_left (rank xs x) r' < queue_load b xs Q + sub_left (rank xs x) r"
    "queue_refs b xs k Q' + sub_refs k (rank xs x) r' \<le> queue_refs b xs k Q + sub_refs k (rank xs x) r"
    "snd (snd (snd Q')) = snd (snd (snd Q))"
    by blast+
qed

lemma thread_step_less:
  assumes "system_laws P log" and "thread_inv P b xs Ms home wp sp own s" and "lib_thread_step P b xs (wp, sp, own, s) c"
  shows "\<exists>wp' sp' s'. c = (wp', sp', own, s') \<and> thread_inv P b xs Ms home wp' sp' own s' \<and> msgq_cap P s' = msgq_cap P s \<and>
    thread_load P b xs wp' sp' s' < thread_load P b xs wp sp s \<and>
    (\<forall>k. most_refs P b xs wp' sp' s' k \<le> most_refs P b xs wp sp s k)"
proof -
  note w = sys_worldD [OF thread_invD(6) [OF assms(2)]]
  have nx: "NULL \<notin> set xs" using sub_ok_not_NULL [OF sub_list_sub_ok [OF w(3)]] by auto
  have cap: "snd (snd (snd (queues P t))) = msgq_cap P t" for t by (simp add: queues_def)
  from assms(3) show ?thesis
  proof cases
    case (work_item wp' s')
    note m = work_event_moves [OF assms(1,2) work_item(2)]
    show ?thesis
      using work_event_inv [OF assms(1,2) work_item(2)] work_move_less [OF m nx] work_item(1)
      by (simp add: thread_load_def most_refs_def cap)
  next
    case (subscriber x p s')
    note m = sub_event_moves [OF assms(1,2) subscriber(2,3)]
    have s: "(\<Sum>y \<in> set xs. h y ((sp(x := p)) y)) + h x (sp x) = (\<Sum>y \<in> set xs. h y (sp y)) + h x p" for h :: "ptr \<Rightarrow> sub_phase \<Rightarrow> nat"
      by (rule sum_upd [OF subscriber(2)])
    have "thread_load P b xs wp (sp(x := p)) s' < thread_load P b xs wp sp s"
      using sub_move_less(1) [OF m subscriber(2), of b] s [of "\<lambda>y. sub_left (rank xs y)"] by (simp add: thread_load_def)
    moreover have "most_refs P b xs wp (sp(x := p)) s' k \<le> most_refs P b xs wp sp s k" for k
      using sub_move_less(2) [OF m subscriber(2), of b k] s [of "\<lambda>y. sub_refs k (rank xs y)"] by (simp add: most_refs_def)
    moreover have "msgq_cap P s' = msgq_cap P s" using sub_move_less(3) [OF m subscriber(2)] by (simp add: cap)
    ultimately show ?thesis using sub_event_inv [OF assms(1,2) subscriber(2,3)] subscriber(1) by blast
  qed
qed

lemma thread_run_less:
  assumes "system_laws P log" and "thread_inv P b xs Ms home wp sp own s"
  shows "(lib_thread_step P b xs ^^ n) (wp, sp, own, s) c \<Longrightarrow> \<exists>wp' sp' s'. c = (wp', sp', own, s') \<and>
    thread_inv P b xs Ms home wp' sp' own s' \<and> msgq_cap P s' = msgq_cap P s \<and>
    n + thread_load P b xs wp' sp' s' \<le> thread_load P b xs wp sp s \<and>
    (\<forall>k. most_refs P b xs wp' sp' s' k \<le> most_refs P b xs wp sp s k)"
proof (induction n arbitrary: c)
  case 0
  then show ?case using assms(2) by fastforce
next
  case (Suc n)
  obtain c1 where c1: "(lib_thread_step P b xs ^^ n) (wp, sp, own, s) c1" "lib_thread_step P b xs c1 c"
    using Suc.prems by (auto elim: relpowp_Suc_E)
  obtain wp1 sp1 s1 where s1: "c1 = (wp1, sp1, own, s1)" "thread_inv P b xs Ms home wp1 sp1 own s1" "msgq_cap P s1 = msgq_cap P s"
    "n + thread_load P b xs wp1 sp1 s1 \<le> thread_load P b xs wp sp s" "\<forall>k. most_refs P b xs wp1 sp1 s1 k \<le> most_refs P b xs wp sp s k"
    using Suc.IH [OF c1(1)] by blast
  obtain wp' sp' s' where s': "c = (wp', sp', own, s')" "thread_inv P b xs Ms home wp' sp' own s'" "msgq_cap P s' = msgq_cap P s1"
    "thread_load P b xs wp' sp' s' < thread_load P b xs wp1 sp1 s1" "\<forall>k. most_refs P b xs wp' sp' s' k \<le> most_refs P b xs wp1 sp1 s1 k"
    using thread_step_less [OF assms(1) s1(2) c1(2) [unfolded s1(1)]] by blast
  have "most_refs P b xs wp' sp' s' k \<le> most_refs P b xs wp sp s k" for k using s'(5) s1(5) by (meson order_trans)
  then show ?case using s'(1-4) s1(3,4) by (intro exI [of _ wp'] exI [of _ sp'] exI [of _ s']) simp
qed

section \<open>No counter passes its limit\<close>

text \<open>What can be taken lies between the references that there are and one more for each subscriber.\<close>

definition lib_refs ::
  "('k, 'u) platform \<Rightarrow> ptr \<Rightarrow> ptr list \<Rightarrow> work_phase \<Rightarrow> (ptr \<Rightarrow> sub_phase) \<Rightarrow> ('k, 'u) memory \<Rightarrow> ptr \<Rightarrow> nat" where
  "lib_refs P b xs wp sp s k = carried xs wp sp k + places P b xs s k"

lemma lib_refs_sums:
  "lib_refs P b xs wp sp s k = count_list (published P s b) k + (\<Sum>x \<in> set xs. count_list (fifo_of P s x) k) +
     (\<Sum>x \<in> set xs. count_list (msgq_of P s x) k) + count_list (work_hand wp) k + (\<Sum>x \<in> set xs. count_list (hand_of (sp x)) k)"
  "most_refs P b xs wp sp s k = (length xs + 1) * count_list (published P s b) k + (\<Sum>x \<in> set xs. rank xs x * count_list (fifo_of P s x) k) +
     (\<Sum>x \<in> set xs. count_list (msgq_of P s x) k) + work_refs xs k wp + (\<Sum>x \<in> set xs. sub_refs k (rank xs x) (sp x))"
  by (simp_all add: lib_refs_def carried_def held_def places_def linked_def most_refs_def queues_def weight_def of_msg_def
      count_list_eq_length_filter)

lemma hand_refs:
  "x \<in> set xs \<Longrightarrow> count_list (hand_of p) k \<le> sub_refs k (rank xs x) p"
  "walk_ok xs ty wp \<Longrightarrow> count_list (work_hand wp) k \<le> work_refs xs k wp"
  "sub_refs k (rank xs x) p \<le> count_list (hand_of p) k + length xs * count_list (right_of p) k"
  "work_refs xs k wp \<le> count_list (work_hand wp) k + length xs * count_list (work_right wp) k"
proof -
  note r = rank_bounds
  show "x \<in> set xs \<Longrightarrow> count_list (hand_of p) k \<le> sub_refs k (rank xs x) p" using r(1) [of x xs] by (cases p) auto
  show "walk_ok xs ty wp \<Longrightarrow> count_list (work_hand wp) k \<le> work_refs xs k wp" using r(1) [of _ xs] by (cases wp) (auto simp: Suc_le_eq)
  show "sub_refs k (rank xs x) p \<le> count_list (hand_of p) k + length xs * count_list (right_of p) k" using r(2) [of xs x] by (cases p) auto
  show "work_refs xs k wp \<le> count_list (work_hand wp) k + length xs * count_list (work_right wp) k"
    using r(2) [of xs] by (cases wp) (auto intro: le_SucI)
qed

lemma lib_most:
  assumes "walk_ok xs ty wp"
  shows "count_list (work_hand wp) k + e \<le> work_refs xs k wp \<Longrightarrow> lib_refs P b xs wp sp s k + e \<le> most_refs P b xs wp sp s k"
    and "x \<in> set xs \<Longrightarrow> count_list (hand_of (sp x)) k + e \<le> sub_refs k (rank xs x) (sp x) \<Longrightarrow>
      lib_refs P b xs wp sp s k + e \<le> most_refs P b xs wp sp s k"
proof -
  have p: "count_list (published P s b) k \<le> (length xs + 1) * count_list (published P s b) k" by simp
  have f: "(\<Sum>x \<in> set xs. count_list (fifo_of P s x) k) \<le> (\<Sum>x \<in> set xs. rank xs x * count_list (fifo_of P s x) k)"
    by (rule sum_mono) (use rank_bounds(1) [of _ xs] in \<open>simp add: Suc_le_eq\<close>)
  have u: "(\<Sum>x \<in> set xs. count_list (hand_of (sp x)) k) \<le> (\<Sum>x \<in> set xs. sub_refs k (rank xs x) (sp x))"
    by (rule sum_mono) (rule hand_refs(1))
  show "lib_refs P b xs wp sp s k + e \<le> most_refs P b xs wp sp s k" if "count_list (work_hand wp) k + e \<le> work_refs xs k wp"
    using p f u that unfolding lib_refs_sums by linarith
  show "lib_refs P b xs wp sp s k + e \<le> most_refs P b xs wp sp s k"
    if x: "x \<in> set xs" "count_list (hand_of (sp x)) k + e \<le> sub_refs k (rank xs x) (sp x)"
  proof -
    have "(\<Sum>y \<in> set xs - {x}. count_list (hand_of (sp y)) k) \<le> (\<Sum>y \<in> set xs - {x}. sub_refs k (rank xs y) (sp y))"
      by (rule sum_mono) (simp add: hand_refs(1))
    then have "(\<Sum>y \<in> set xs. count_list (hand_of (sp y)) k) + e \<le> (\<Sum>y \<in> set xs. sub_refs k (rank xs y) (sp y))"
      using x by (simp add: sum.remove [of "set xs" x])
    then show ?thesis using p f hand_refs(2) [OF assms, of k] unfolding lib_refs_sums by linarith
  qed
qed

lemma most_lib:
  assumes "linked P b xs s k + rights xs wp sp k \<le> 1"
  shows "most_refs P b xs wp sp s k \<le> lib_refs P b xs wp sp s k + length xs"
proof -
  let ?n = "length xs"
  have "(\<Sum>x \<in> set xs. rank xs x * count_list (fifo_of P s x) k) \<le> (\<Sum>x \<in> set xs. ?n * count_list (fifo_of P s x) k)"
    by (intro sum_mono mult_right_mono) (simp_all add: rank_bounds(2))
  moreover have "(\<Sum>x \<in> set xs. sub_refs k (rank xs x) (sp x)) \<le>
      (\<Sum>x \<in> set xs. count_list (hand_of (sp x)) k + ?n * count_list (right_of (sp x)) k)"
    by (intro sum_mono hand_refs(3))
  ultimately have "most_refs P b xs wp sp s k \<le> lib_refs P b xs wp sp s k + ?n * (linked P b xs s k + rights xs wp sp k)"
    using hand_refs(4) [of xs k wp] unfolding lib_refs_sums
    by (simp add: linked_def rights_def held_def sum.distrib sum_distrib_left [symmetric] algebra_simps)
  also have "\<dots> \<le> lib_refs P b xs wp sp s k + ?n * 1" by (intro add_left_mono mult_left_mono assms) simp
  finally show ?thesis by simp
qed

lemma limits_kept:
  assumes "system_laws P log" and "thread_inv P b xs Ms home wp sp own s" and "\<forall>m \<in> Ms. own m + most_refs P b xs wp sp s m \<le> 255"
  shows "\<forall>m \<in> work_takes P s wp. ref_cnt s m < 255" and "x \<in> set xs \<Longrightarrow> \<forall>m \<in> sub_takes P xs s x (sp x). ref_cnt s m < 255"
proof -
  note d = thread_invD [OF assms(2)]
  have nx: "distinct xs" by (rule sub_list_distinct [OF sys_worldD(3) [OF d(6)]])
  have lim: "ref_cnt s m < 255" if "0 < carried xs wp sp m" "lib_refs P b xs wp sp s m + 1 \<le> most_refs P b xs wp sp s m" for m
  proof -
    have "refs P b xs (\<lambda>k. own k + carried xs wp sp k) s m = own m + lib_refs P b xs wp sp s m" by (simp add: refs_def lib_refs_def)
    moreover have "0 < refs P b xs (\<lambda>k. own k + carried xs wp sp k) s m" using that(1) by (simp add: refs_def)
    ultimately show ?thesis using ref_inv_refs(1) [OF d(1) d(3) [OF that(1)]] assms(3) d(3) [OF that(1)] that(2) by fastforce
  qed
  show "\<forall>m \<in> work_takes P s wp. ref_cnt s m < 255"
  proof
    fix m
    assume "m \<in> work_takes P s wp"
    then obtain i x tmp where w: "wp = Walking m i x tmp" "x \<noteq> NULL" unfolding work_takes_def by blast
    obtain us zs where "xs = us @ x # zs" using walking_at [OF assms(2) [unfolded w(1)] w(2)] .
    then have "0 < rank xs x" by (intro rank_bounds(1)) simp
    then show "ref_cnt s m < 255" using lib_most(1) [OF d(5), of m 1] by (intro lim) (simp_all add: w(1) carried_def)
  qed
  show "\<forall>m \<in> sub_takes P xs s x (sp x). ref_cnt s m < 255" if x: "x \<in> set xs"
  proof
    fix m
    assume "m \<in> sub_takes P xs s x (sp x)"
    then obtain i where i: "sp x = Taken m i" "relays P xs s x i" unfolding sub_takes_def by blast
    then obtain us ys y where y: "xs = us @ x # ys" "y \<in> set ys" unfolding relays_def by blast
    have "rank xs y < rank xs x" "0 < rank xs y" using rank_later [OF _ y(2), of us x] rank_bounds(1) [of y xs] nx y by auto
    then show "ref_cnt s m < 255"
      using lib_most(2) [where sp = sp and k = m and e = 1, OF d(5) x] in_hands(4) [OF x, of sp m wp] i(1) by (intro lim) simp_all
  qed
qed

section \<open>When no thread has a step\<close>

lemma threads_at_rest:
  assumes "system_laws P log" and "thread_inv P b xs Ms home wp sp own s" and "\<forall>x \<in> set xs. msgq_cap P s x \<noteq> Some 0"
    and "\<forall>m \<in> Ms. own m + most_refs P b xs wp sp s m \<le> 255" and "\<nexists>c. lib_thread_step P b xs (wp, sp, own, s) c"
  shows "wp = Resting \<and> published P s b = [] \<and> (\<forall>x \<in> set xs. sp x = Idle \<and> waiting P s x = [])"
proof -
  note l = limits_kept [OF assms(1,2,4)]
  have rest: "wp = Resting" "published P s b = []" using work_can_step [OF assms(1,2) _ l(1) assms(3)] assms(5) by blast+
  moreover have "sp x = Idle \<and> waiting P s x = []" if x: "x \<in> set xs" for x
    using sub_can_step [OF assms(1,2) x _ _ l(2) [OF x]] assms(5) rest(1) by fastforce
  ultimately show ?thesis by blast
qed

text \<open>A relation whose runs from \<open>c\<close> are bounded has a run that cannot go on.\<close>

lemma runs_end:
  assumes "\<And>n c'. (r ^^ n) c c' \<Longrightarrow> n \<le> k"
  obtains n c' where "(r ^^ n) c c'" and "\<nexists>c''. r c' c''"
proof -
  let ?n = "GREATEST n. \<exists>c'. (r ^^ n) c c'"
  have "\<exists>c'. (r ^^ ?n) c c'"
    by (rule GreatestI_nat [where k = 0 and b = k]) (use assms in auto)
  then obtain c' where c': "(r ^^ ?n) c c'" by blast
  have "\<nexists>c''. r c' c''"
  proof
    assume "\<exists>c''. r c' c''"
    then have "\<exists>c''. (r ^^ Suc ?n) c c''" using c' by (auto intro: relpowp_Suc_I)
    then have "Suc ?n \<le> ?n" by (rule Greatest_le_nat [where b = k]) (use assms in auto)
    then show False by simp
  qed
  then show thesis using that c' by blast
qed

text \<open>C10. Termination of the threads: in whatever order the steps of the work item and the subscribers are
  interleaved, at most \<open>thread_load\<close> of them are possible when the application stops and no time-out
  expires. When at the start no counter is so high that one more reference for every subscriber would carry it past
  255, no thread fails on the way. When no thread has a step any more, the work item rests, every subscriber is idle,
  all queues are empty, and the references that are left are those of the application: every message from a slab that
  it has given away is back among the free blocks of its slab.\<close>

theorem threads_quiescence:
  assumes "app_laws P log" and "sys_init P b xs Ms home s0" and "thread_reach P b xs Ms home s0 (wp, sp, own, s)"
    and "(lib_thread_step P b xs ^^ n) (wp, sp, own, s) (wp', sp', own', s')"
    and "\<forall>x \<in> set xs. msgq_cap P s x \<noteq> Some 0"
    and "\<forall>m \<in> Ms. refs P b xs (\<lambda>k. own k + carried xs wp sp k) s m + length xs \<le> 255"
  shows "n \<le> thread_load P b xs wp sp s \<and> \<not> thread_fails P b xs (wp', sp', own', s') \<and>
    ((\<nexists>c. lib_thread_step P b xs (wp', sp', own', s') c) \<longrightarrow>
    wp' = Resting \<and> published P s' b = [] \<and> (\<forall>x \<in> set xs. sp' x = Idle \<and> fifo_of P s' x = [] \<and> msgq_of P s' x = []) \<and>
    (\<forall>m \<in> Ms. (home m = None \<or> 0 < own m \<longrightarrow> ref_cnt s' m = own m) \<and>
      (\<forall>q. home m = Some q \<longrightarrow> (m \<in> slab_pool P s' q \<longleftrightarrow> own m = 0))))"
proof -
  have sl: "system_laws P log" using assms(1) by (simp add: app_laws_def)
  have inv: "thread_inv P b xs Ms home wp sp own s" using thread_reach_inv [OF assms(1-3)] by simp
  have e: "own' = own" "thread_inv P b xs Ms home wp' sp' own s'" "msgq_cap P s' = msgq_cap P s"
    "n + thread_load P b xs wp' sp' s' \<le> thread_load P b xs wp sp s"
    "\<forall>k. most_refs P b xs wp' sp' s' k \<le> most_refs P b xs wp sp s k"
    using thread_run_less [OF sl inv assms(4)] by auto
  have l: "\<forall>m \<in> Ms. own m + most_refs P b xs wp' sp' s' m \<le> 255"
  proof
    fix m
    assume m: "m \<in> Ms"
    have "own m + (lib_refs P b xs wp sp s m + length xs) \<le> 255" using assms(6) m by (simp add: refs_def lib_refs_def add.assoc)
    then show "own m + most_refs P b xs wp' sp' s' m \<le> 255"
      using most_lib [OF thread_invD(2) [OF inv, of m]] e(5) by (meson add_left_mono order_trans)
  qed
  have nf: "\<not> thread_fails P b xs (wp', sp', own', s')"
    unfolding e(1) using limits_kept [OF sl e(2) l] by (intro no_thread_fails [OF sl e(2)]) simp_all
  note r = thread_invD(1) [OF e(2)]
  have k: "wp' = Resting" "published P s' b = []" "\<forall>x \<in> set xs. sp' x = Idle \<and> fifo_of P s' x = [] \<and> msgq_of P s' x = []"
    "refs P b xs (\<lambda>k. own k + carried xs wp' sp' k) s' = own"
    if "\<nexists>c. lib_thread_step P b xs (wp', sp', own', s') c"
  proof -
    note a = threads_at_rest [OF sl e(2) _ l that [unfolded e(1)]]
    show b: "wp' = Resting" "published P s' b = []" "\<forall>x \<in> set xs. sp' x = Idle \<and> fifo_of P s' x = [] \<and> msgq_of P s' x = []"
      using a assms(5) e(3) by (simp_all add: waiting_def)
    show "refs P b xs (\<lambda>k. own k + carried xs wp' sp' k) s' = own"
      using b by (simp add: refs_def places_def linked_def carried_def held_def fun_eq_iff)
  qed
  show ?thesis using k e(4) nf ref_inv_refs [OF r] by auto
qed

section \<open>Example\<close>

text \<open>The application has published message 40 and stops; the work item has taken it and the lock.\<close>

theorem threads_quiescence_witness:
  "\<exists>own s n wp sp s'. thread_reach noting_platform 9 [4, 6, 10] {2, 40} [40 \<mapsto> 30] (some_kinds 0x0003FE00 0 [40]) (Walking 40 3 4 6, \<lambda>_. Idle, own, s) \<and>
     (lib_thread_step noting_platform 9 [4, 6, 10] ^^ n) (Walking 40 3 4 6, \<lambda>_. Idle, own, s) (wp, sp, own, s') \<and>
     (\<nexists>c. lib_thread_step noting_platform 9 [4, 6, 10] (wp, sp, own, s') c) \<and>
     n \<le> thread_load noting_platform 9 [4, 6, 10] (Walking 40 3 4 6) (\<lambda>_. Idle) s \<and> 40 \<in> slab_pool noting_platform s' 30"
proof -
  let ?P = "noting_platform" and ?h = "[40 \<mapsto> 30] :: ptr \<rightharpoonup> ptr"
  let ?step = "lib_thread_step ?P 9 [4, 6, 10]" and ?w = "Walking 40 3 4 6" and ?f = "\<lambda>_. Idle"
  obtain own s where s: "thread_reach ?P 9 [4, 6, 10] {2, 40} ?h (some_kinds 0x0003FE00 0 [40]) (?w, ?f, own, s)"
    "own 40 = 0" "sub_views ?P s = sub_views ?P all_kinds" "thread_inv ?P 9 [4, 6, 10] {2, 40} ?h ?w ?f own s"
    "ref_cnt s 2 = 0" "ref_cnt s 40 = 1"
    using walking_40 by blast
  let ?c = "(?w, ?f, own, s)"
  have "n \<le> thread_load ?P 9 [4, 6, 10] ?w ?f s" if r: "(?step ^^ n) ?c c" for n c
    using thread_run_less [OF noting_system_laws(1) s(4) r] by auto
  then obtain n c where n: "(?step ^^ n) ?c c" "\<nexists>c'. ?step c c'" by (rule runs_end) blast
  obtain wp sp s' where c: "c = (wp, sp, own, s')" using thread_run_less [OF noting_system_laws(1) s(4) n(1)] by blast
  have q: "\<forall>x \<in> {4, 6, 10}. msgq_cap ?P s x \<noteq> Some 0" using all_kinds_ready sub_viewsD(6) [OF s(3)] by simp
  have "refs ?P 9 [4, 6, 10] (\<lambda>k. own k + carried [4, 6, 10] ?w ?f k) s m \<le> ref_cnt s m" if "m \<in> {2, 40}" for m
    using ref_inv_refs(1) [OF thread_invD(1) [OF s(4)] that] by (cases "0 < refs ?P 9 [4, 6, 10] (\<lambda>k. own k + carried [4, 6, 10] ?w ?f k) s m") auto
  then have l: "\<forall>m \<in> {2, 40}. refs ?P 9 [4, 6, 10] (\<lambda>k. own k + carried [4, 6, 10] ?w ?f k) s m + length [4, 6, 10] \<le> 255"
    using s(5,6) by fastforce
  have "n \<le> thread_load ?P 9 [4, 6, 10] ?w ?f s \<and> 40 \<in> slab_pool ?P s' 30"
    using threads_quiescence [OF noting_system_laws(2) some_kinds_init s(1) n(1) [unfolded c] _ l] n(2) q s(2) by (simp add: c)
  then show ?thesis using s(1) n c by blast
qed

end
