(* ===== verification/ThreadTimers.thy ===== *)
theory ThreadTimers imports ThreadRuns begin

text \<open>
  Delayable messages among the threads: what happens when the time-out of a delayable message expires at
  any moment of an interleaving.
\<close>

section \<open>The expiry of a time-out\<close>

lemma upd_delayable_same: "same_world P s (upd_delayable m f s)" "queues P (upd_delayable m f s) = queues P s"
  using same_world_cap [OF delayable_views(1) [where P = P and s = s]] by (simp_all add: upd_delayable_def queues_def delayable_views)

text \<open>What the expiry puts into a queue counts as one reference.\<close>

lemma places_put:
  assumes "x \<in> set xs"
  shows "queues P s' = (published P s, (fifo_of P s)(x := fifo_of P s x @ [m]), msgq_of P s, c) \<Longrightarrow>
      places P b xs s' m = places P b xs s m + 1"
    and "queues P s' = (published P s, fifo_of P s, (msgq_of P s)(x := msgq_of P s x @ [m]), c) \<Longrightarrow>
      places P b xs s' m = places P b xs s m + 1"
  using held_push [OF assms, of "fifo_of P s" m] held_push [OF assms, of "msgq_of P s" m]
  by (simp_all add: queues_def places_def linked_def)

text \<open>C19. The time-out of a delayable message expires, in any state between the steps of any interleaving of the
  threads. When nobody has a reference to the message, and its subscriber is not one with a full message queue, the handler
  of the time-out returns, and the message is the last one in the queue of
  its subscriber, with one reference, or a callback subscriber has been called with it. When the message queue of the
  subscriber is full, the handler has to wait for room, in the interrupt. When a queue holds the
  message, or a thread has it in hand, as when the handler of the subscriber has started its time-out again and
  has not returned, or the application has kept a reference, the handler of the time-out fails its assertion, with
  assertions.\<close>

theorem delayable_expiry:
  assumes "app_laws P log" and "sys_init P b xs Ms home s0" and "thread_reach P b xs Ms home s0 (wp, sp, own, s)"
    and "m \<in> Ms" and "home m = None" and "delayable_msgs s m = Some d" and "subscriber d = x" and "x \<in> set xs"
    and "timeout_active P (timeout d)" and "\<not> timeout_active P q" and "s1 = upd_delayable m (\<lambda>d. d\<lparr>timeout := q\<rparr>) s"
    and "max_id_of s x < msg_id_of s m"
    and "n = own m + count_list (work_hand wp) m + (\<Sum>x\<in>set xs. count_list (hand_of (sp x)) m) + places P b xs s m"
  shows "(n = 0 \<and> has_room P s x \<longrightarrow> (\<exists>s'. pub_sub_delayable_msg_handler P m s1 = Inr ((), s') \<and> thread_reach P b xs Ms home s0 (wp, sp, own, s') \<and>
      (if type_of s x = PUB_SUB_RX_TYPE_CALLBACK
       then ref_cnt s' m = 0 \<and> log (app s') = log (app s) @ [(fst (handler_of s x), msg_id_of s m, m, snd (handler_of s x))]
       else ref_cnt s' m = 1 \<and> waiting P s' x = waiting P s x @ [m]))) \<and>
    (n = 0 \<and> \<not> has_room P s x \<longrightarrow> pub_sub_delayable_msg_handler P m s1 = Inl Blocked) \<and>
    (0 < n \<and> CONFIG_ASSERT P \<longrightarrow> pub_sub_delayable_msg_handler P m s1 = Inl Assert_failed)"
proof -
  have cl: "core_laws P" and hl: "header_laws P" using assms(1) by (simp_all add: app_laws_def system_laws_def core_laws_def)
  have inv: "thread_inv P b xs Ms home wp sp own s" using thread_reach_inv [OF assms(1-3)] by simp
  have inv1: "thread_inv P b xs Ms home wp sp own s1" unfolding assms(11) by (rule upd_delayable_inv [OF inv])
  let ?o = "\<lambda>k. own k + carried xs wp sp k"
  have n: "refs P b xs ?o s m = n" by (simp add: refs_def carried_def held_def assms(13) comp_def)
  have rc: "ref_cnt s m = n" using ref_inv_refs(1) [OF thread_invD(1) [OF inv] assms(4)] n assms(5) by simp
  note u = upd_delayable_same [where P = P and s = s and m = m and f = "\<lambda>d. d\<lparr>timeout := q\<rparr>", folded assms(11)]
  have w: "msg_id_of s1 = msg_id_of s" "max_id_of s1 = max_id_of s" "type_of s1 = type_of s" "handler_of s1 = handler_of s"
    using u(1) sub_viewsD(3,4,12) [of P s1 s] by (simp_all add: same_world_def msg_id_of_def fun_eq_iff)
  have hr: "has_room P s1 = has_room P s" using has_room_cong [OF u(1)] u(2) by (simp add: queues_def fun_eq_iff)
  have s1: "ref_cnt s1 = ref_cnt s" "app s1 = app s" "delayable_msgs s1 m = Some (d\<lparr>timeout := q\<rparr>)"
    using assms(6) by (simp_all add: assms(11))
  have "\<exists>s'. pub_sub_delayable_msg_handler P m s1 = Inr ((), s') \<and> thread_reach P b xs Ms home s0 (wp, sp, own, s') \<and>
      (if type_of s x = PUB_SUB_RX_TYPE_CALLBACK
       then ref_cnt s' m = 0 \<and> log (app s') = log (app s) @ [(fst (handler_of s x), msg_id_of s m, m, snd (handler_of s x))]
       else ref_cnt s' m = 1 \<and> waiting P s' x = waiting P s x @ [m])" if n0: "n = 0" and room: "has_room P s x"
  proof -
    have r0: "ref_cnt s1 m = 0" using rc n0 s1(1) by simp
    have z: "?o m = 0" "places P b xs s1 m = 0" using n n0 places_queues [OF u(2)] by (simp_all add: refs_def)
    obtain s' where s': "pub_sub_delayable_msg_handler P m s1 = Inr ((), s')" "thread_inv P b xs Ms home wp sp own s'"
      "case type_of s1 x of
         PUB_SUB_RX_TYPE_CALLBACK \<Rightarrow> queues P s' = queues P s1 \<and>
           log (app s') = log (app s1) @ [(fst (handler_of s1 x), msg_id_of s1 m, m, snd (handler_of s1 x))]
       | PUB_SUB_RX_TYPE_MSGQ \<Rightarrow> queues P s' = (published P s1, fifo_of P s1, (msgq_of P s1)(x := msgq_of P s1 x @ [m]), msgq_cap P s1)
       | PUB_SUB_RX_TYPE_FIFO \<Rightarrow> queues P s' = (published P s1, (fifo_of P s1)(x := fifo_of P s1 x @ [m]), msgq_of P s1, msgq_cap P s1)"
      using expiry_step [OF assms(1) inv1 assms(4,5) s1(3) _ assms(8) _ _ r0] assms(7,12) w hr room by auto
    have "timer_event P xs Ms home s s'"
      by (rule timer_event.expire [where s = s and m = m and d = d and q = q]) (use assms(4-12) rc n0 s'(1) in simp_all)
    then have reach: "thread_reach P b xs Ms home s0 (wp, sp, own, s')" by (rule thread_reach.timer [OF assms(3)])
    have "ref_cnt s' m = ?o m + places P b xs s' m"
      using ref_inv_refs(1) [OF thread_invD(1) [OF s'(2)] assms(4)] assms(5) by (simp add: refs_def)
    then have rc': "ref_cnt s' m = places P b xs s' m" using z(1) by simp
    have qe: "published P s1 = published P s" "fifo_of P s1 = fifo_of P s" "msgq_of P s1 = msgq_of P s"
      using u(2) by (simp_all add: queues_def)
    show ?thesis
    proof (cases "type_of s x")
      case PUB_SUB_RX_TYPE_CALLBACK
      then show ?thesis using s'(1,3) reach rc' places_queues [of P s' s1] z(2) w s1(2) by (intro exI [of _ s']) simp
    next
      case PUB_SUB_RX_TYPE_MSGQ
      then have q: "queues P s' = (published P s1, fifo_of P s1, (msgq_of P s1)(x := msgq_of P s1 x @ [m]), msgq_cap P s1)" using s'(3) w by simp
      then have "waiting P s' x = waiting P s x @ [m]" by (simp add: waiting_def queues_def qe)
      then show ?thesis using s'(1) reach rc' places_put(2) [OF assms(8) q] z(2) PUB_SUB_RX_TYPE_MSGQ by (intro exI [of _ s']) simp
    next
      case PUB_SUB_RX_TYPE_FIFO
      then have q: "queues P s' = (published P s1, (fifo_of P s1)(x := fifo_of P s1 x @ [m]), msgq_of P s1, msgq_cap P s1)" using s'(3) w by simp
      moreover have "msgq_of P s x = []" using ready_queues(1) [OF thread_invD(7) [OF inv assms(8)]] PUB_SUB_RX_TYPE_FIFO by auto
      ultimately have "waiting P s' x = waiting P s x @ [m]" by (simp add: waiting_def queues_def qe)
      then show ?thesis using s'(1) reach rc' places_put(1) [OF assms(8) q] z(2) PUB_SUB_RX_TYPE_FIFO by (intro exI [of _ s']) simp
    qed
  qed
  moreover have "pub_sub_delayable_msg_handler P m s1 = Inl Blocked" if "n = 0" "\<not> has_room P s x"
    by (rule expiry_waits [OF cl inv1 assms(4,5) s1(3)]) (use that assms(7,8,12) w hr rc s1(1) in simp_all)
  moreover have "pub_sub_delayable_msg_handler P m s1 = Inl Assert_failed" if "0 < n" "CONFIG_ASSERT P"
    by (rule handler_asserts [OF hl ref_invD(2) [OF thread_invD(1) [OF inv1] assms(4)] s1(3) _ that(2)]) (use rc s1(1) that(1) in simp)
  ultimately show ?thesis by blast
qed

section \<open>Example\<close>

text \<open>The static message 2, with the private id 10, is a delayable message of the FIFO subscriber 10. Its time-out
  has expired once, the subscriber has taken the message, and the time-out is started again.\<close>

definition delaying :: "(kobj, (nat \<times> uint16 \<times> ptr \<times> ptr) list) memory" where
  "delaying = (some_kinds 0x000AFE00 0 [40])\<lparr>delayable_msgs := [2 \<mapsto> \<lparr>timeout = kobj0, subscriber = 10\<rparr>]\<rparr>"

lemma delaying_init: "sys_init noting_platform 9 [4, 6, 10] {2, 40} [40 \<mapsto> 30] delaying"
proof -
  let ?s = "some_kinds 0x000AFE00 0 [40]"
  have w: "alloc_of 0x000AFE00 = PUB_SUB_ALLOC_ID_STATIC_MSG" "ref_of 0x000AFE00 = 0"
    by (simp_all add: word_unat_eq_iff unat_alloc_of unat_ref_of alloc_id_defs)
  have i: "sys_init noting_platform 9 [4, 6, 10] {2, 40} [40 \<mapsto> 30] ?s"
    using some_kinds_world [OF w(1)] all_kinds_ready w(2)
    by (auto simp: sys_init_def some_kinds_views all_kinds_views ref_cnt_def link_flag_def some_kinds_slab(1) split: if_splits)
  have "sys_world noting_platform 9 [4, 6, 10] {2, 40} [40 \<mapsto> 30] delaying = sys_world noting_platform 9 [4, 6, 10] {2, 40} [40 \<mapsto> 30] ?s"
    unfolding delaying_def by (rule sys_world_cong [OF delayable_views(1)])
  then show ?thesis using i by (simp add: sys_init_def delaying_def delayable_views delayable_link_flag)
qed

lemma delaying_sel:
  "delayable_msgs delaying = [2 \<mapsto> \<lparr>timeout = kobj0, subscriber = 10\<rparr>]" "subscribers delaying = subscribers all_kinds"
  "messages delaying 2 = Some \<lparr>fifo_reserved = False, atomic_data = 0x000AFE00\<rparr>"
  by (simp_all add: delaying_def some_kinds_def)

lemma take_keeps:
  assumes "core_laws P" and "thread_inv P b xs Ms home wp sp own s" and "x \<in> set xs" and "fifo_of P s x = m # ms"
    and "sub_event P x locked Idle s p s'"
  shows "delayable_msgs s' = delayable_msgs s" and "same_world P s s'"
proof -
  have l: "header_laws P" "fifo_laws P" using assms(1) by (simp_all add: core_laws_def)
  note d = thread_invD [OF assms(2)]
  note r = d(7) [OF assms(3)]
  have t: "type_of s x = PUB_SUB_RX_TYPE_FIFO" using ready_queues(2) [OF r] assms(4) by auto
  have "0 < held xs (fifo_of P s) m" by (rule held_pop(2) [where f = "fifo_of P s", OF assms(3,4)])
  then have "m \<in> Ms" using ref_invD(8) [OF d(1)] by (simp add: places_def linked_def)
  then have v: "valid_msg s m" by (rule ref_invD(2) [OF d(1)])
  then obtain h where h: "messages s m = Some h" "m \<noteq> NULL" by (rule valid_msgE)
  have f: "is_fifo_sub s x" using r t by (simp add: ready_sub_def)
  obtain su0 where su0: "subscribers s x = Some su0" using f by (rule is_fifo_subE)
  then obtain s1 su1 where s1: "pub_sub_msg_fifo_get P (Sub_fifo x) K_NO_WAIT s = Inr (m, s1)" "delayable_msgs s1 = delayable_msgs s"
    "messages s1 m = Some (h\<lparr>fifo_reserved := False\<rparr>)" "subscribers s1 x = Some su1"
    "msg_ident s1 = msg_ident s" "only_fifos s s1"
    using fifo_get_effect [OF l(2) f assms(4) h(2,1), of K_NO_WAIT] by fastforce
  have x0: "x \<noteq> NULL" using sub_list_sub_ok [OF sys_worldD(3) [OF d(6)] assms(3)] by (rule sub_ok_not_NULL)
  have "s' = s1"
    using assms(5) s1(1,3,4) get_msg_id_run [OF l(1) s1(3) h(2)] x0 t su0
    by (auto simp: sub_event_def assert_handler_def sub_run type_of_def key_of_def split: option.splits if_splits)
  then show "delayable_msgs s' = delayable_msgs s" "same_world P s s'"
    using s1(2) only_fifos_same_world(1) [OF s1(6,5), of P] by simp_all
qed

lemma delaying_same:
  assumes "same_world noting_platform delaying s"
  shows "type_of s 10 = PUB_SUB_RX_TYPE_FIFO" and "max_id_of s 10 < msg_id_of s 2" and "has_room noting_platform s 10"
proof -
  have "id_of 0x000AFE00 = 10" by (simp add: word_unat_eq_iff unat_id_of)
  then have d: "type_of delaying 10 = PUB_SUB_RX_TYPE_FIFO" "max_id_of delaying 10 = 9" "msg_id_of delaying 2 = 10"
    by (simp_all add: type_of_def key_of_def max_id_of_def msg_id_of_def msg_ident_def delaying_sel a_subscriber_def)
  then show "type_of s 10 = PUB_SUB_RX_TYPE_FIFO" "max_id_of s 10 < msg_id_of s 2"
    using assms sub_viewsD(3,12) [of noting_platform s delaying] by (simp_all add: same_world_def msg_id_of_def)
  then show "has_room noting_platform s 10" by (simp add: has_room_def)
qed

lemma delaying_expired:
  assumes "s = upd_delayable 2 f delaying" and "\<And>d. subscriber (f d) = subscriber d"
  shows "pub_sub_delayable_msg_handler noting_platform 2 s = Inr ((), hand_over noting_platform 10 2 s)"
    and "delayable_msgs (hand_over noting_platform 10 2 s) = delayable_msgs s"
    and "same_world noting_platform delaying (hand_over noting_platform 10 2 s)"
proof -
  let ?P = "noting_platform"
  have w: "id_of 0x000AFE00 = 10" "ref_of 0x000AFE00 = 0" by (simp_all add: word_unat_eq_iff unat_id_of unat_ref_of)
  have s: "delayable_msgs s 2 = Some (f \<lparr>timeout = kobj0, subscriber = 10\<rparr>)" "messages s = messages delaying"
    "subscribers s 10 = Some (a_subscriber PUB_SUB_RX_TYPE_FIFO (Rx_fifo kobj0) 11 2 0)"
    by (simp_all add: assms(1) delaying_sel)
  have m: "msg_ident s 2 = Some (10, alloc_of 0x000AFE00)" "ref_cnt s 2 = 0" "map_option fifo_reserved (messages s 2) = Some False"
    by (simp_all add: msg_ident_def ref_cnt_def s(2) delaying_sel w)
  have f: "is_fifo_sub s 10" by (simp add: is_fifo_sub_def s(3) a_subscriber_def)
  show "pub_sub_delayable_msg_handler ?P 2 s = Inr ((), hand_over ?P 10 2 s)"
    using delayable_handler_run(1) [OF noting_laws(1) s(1) _ _ _ m(1) _ _ m(2,3)] f s(3) by (simp add: assms(2) a_subscriber_def)
  have fr: "msg_free s 2" using m(2,3) by (auto simp: msg_free_def)
  have "same_world ?P s (hand_over ?P 10 2 s)"
    by (rule only_fifos_same_world(1) [OF only_fifos_hand_over [OF f] hand_over_effect(3) [OF noting_laws(2) fr f]])
  then show "same_world ?P delaying (hand_over ?P 10 2 s)"
    using same_world_trans upd_delayable_same(1) assms(1) by blast
qed simp

theorem delayable_expiry_witness:
  "\<exists>p s. thread_reach noting_platform 9 [4, 6, 10] {2, 40} [40 \<mapsto> 30] delaying (Resting, (\<lambda>_. Idle)(10 := p), \<lambda>_. 0, s) \<and>
     hand_of p = [2] \<and> waiting noting_platform s 10 = [] \<and>
     pub_sub_delayable_msg_handler noting_platform 2 (upd_delayable 2 (\<lambda>d. d\<lparr>timeout := kobj0\<rparr>) s) = Inl Assert_failed"
proof -
  let ?P = "noting_platform" and ?xs = "[4, 6, 10] :: ptr list" and ?h = "[40 \<mapsto> 30] :: ptr \<rightharpoonup> ptr"
  let ?reach = "thread_reach ?P 9 ?xs {2, 40} ?h delaying"
  let ?go = "\<lambda>d. d\<lparr>timeout := z_add_timeout ?P (timeout d) K_NO_WAIT\<rparr>" and ?off = "\<lambda>d. d\<lparr>timeout := kobj0\<rparr>"
  let ?q = "z_add_timeout ?P kobj0 K_NO_WAIT"
  have c: "core_laws ?P" by (rule system_core [OF noting_system_laws(1)])
  have na: "\<not> timeout_active ?P kobj0" by (simp add: noting_platform_def kobj0_def)
  have ac: "timeout_active ?P ?q" using noting_timeout_laws na by (simp add: timeout_laws_def)
  have start: "?reach (wp, sp, own, upd_delayable 2 ?go s)"
    if "?reach (wp, sp, own, s)" "delayable_msgs s 2 = Some d" for wp sp own s d
    by (rule thread_reach.timer [OF that(1) timer_event.start_timer [where m = 2 and d = d and t = K_NO_WAIT]])
      (use that(2) delayable_start_run [OF that(2), of ?P K_NO_WAIT] in simp_all)
  note expiry = delayable_expiry [OF noting_system_laws(2) delaying_init _ _ _ _ _ _ _ na refl _ refl, of _ _ _ _ 2 _ 10]
  let ?s1 = "upd_delayable 2 ?go delaying" and ?idle = "\<lambda>_. Idle"
  let ?s2 = "hand_over ?P 10 2 (upd_delayable 2 ?off ?s1)"
  have r1: "?reach (Resting, ?idle, \<lambda>_. 0, ?s1)" by (rule start [OF thread_reach.start]) (simp add: delaying_sel)
  have d1: "delayable_msgs ?s1 2 = Some \<lparr>timeout = ?q, subscriber = 10\<rparr>" by (simp add: delaying_sel)
  have off: "upd_delayable 2 ?off ?s1 = upd_delayable 2 ?off delaying" by (simp add: upd_delayable_def delaying_sel)
  note e = delaying_expired [where f = ?off, OF off]
  have "places ?P 9 ?xs delaying 2 = 0" using delaying_init by (simp add: sys_init_def places_def linked_def held_def)
  then have "places ?P 9 ?xs ?s1 2 = 0" unfolding places_queues [OF upd_delayable_same(2)] .
  then have s2: "?reach (Resting, ?idle, \<lambda>_. 0, ?s2)" "waiting ?P ?s2 10 = waiting ?P ?s1 10 @ [2]"
    using expiry [OF r1 _ _ d1] ac delaying_same [OF upd_delayable_same(1)] e(1) by simp_all
  have w2: "fifo_of ?P ?s2 10 @ msgq_of ?P ?s2 10 = [2]"
    using s2(2) delaying_init upd_delayable_same(2) [of ?P 2 ?go delaying] by (simp add: waiting_def queues_def sys_init_def)
  have d2: "delayable_msgs ?s2 2 = Some \<lparr>timeout = kobj0, subscriber = 10\<rparr>" using e(2) by (simp add: delaying_sel)
  have i2: "thread_inv ?P 9 ?xs {2, 40} ?h Resting ?idle (\<lambda>_. 0) ?s2"
    using thread_reach_inv [OF noting_system_laws(2) delaying_init s2(1)] by simp
  have f2: "fifo_of ?P ?s2 10 = [2]" "msgq_of ?P ?s2 10 = []"
    using w2 ready_queues(1) [OF thread_invD(7) [OF i2, of 10]] delaying_same(1) [OF e(3)] by auto
  obtain p s3 where s3: "sub_event ?P 10 False Idle ?s2 p s3" "hand_of p = [2]"
    "queues ?P s3 = (published ?P ?s2, (fifo_of ?P ?s2)(10 := []), msgq_of ?P ?s2, msgq_cap ?P ?s2)"
    using sub_take_ok [OF c i2 _ _ w2, of False] f2 by auto
  have r3: "?reach (Resting, ?idle(10 := p), \<lambda>_. 0, s3)"
    by (rule thread_reach.lib [OF s2(1) lib_thread_step.subscriber]) (use s3(1) in simp_all)
  note k = take_keeps [OF c i2 _ f2(1) s3(1)]
  let ?s4 = "upd_delayable 2 ?go s3"
  have d3: "delayable_msgs s3 2 = Some \<lparr>timeout = kobj0, subscriber = 10\<rparr>" using k(1) d2 by simp
  have r4: "?reach (Resting, ?idle(10 := p), \<lambda>_. 0, ?s4)" by (rule start [OF r3 d3])
  have d4: "delayable_msgs ?s4 2 = Some \<lparr>timeout = ?q, subscriber = 10\<rparr>" using d3 by simp
  have sw: "same_world ?P delaying ?s4"
    using same_world_trans [OF same_world_trans [OF e(3) k(2)] upd_delayable_same(1)] by simp
  have "CONFIG_ASSERT ?P" by (simp add: noting_platform_def)
  then have "pub_sub_delayable_msg_handler ?P 2 (upd_delayable 2 ?off ?s4) = Inl Assert_failed"
    using expiry [OF r4 _ _ d4] ac delaying_same [OF sw] s3(2) by simp
  moreover have "waiting ?P ?s4 10 = []"
    using s3(3) f2(2) upd_delayable_same(2) [of ?P 2 ?go s3] by (simp add: waiting_def queues_def)
  ultimately show ?thesis using r4 s3(2) by blast
qed

end
