(* ===== verification/Spec2Isabelle.thy ===== *)
theory Spec2Isabelle
  imports Prelude State Zephyr RefPlatform Msg MemSlab StaticMsg MsgAlloc SubscriberInit Hsm HsmMachine HsmTest HsmSub HsmSuite
    Subscriber Broker Delivery Delayable System Steps PubSubSpec PubSubDelivery Runs Refinement
    Scenarios Promises Boot Clients ClientRuns Threads ThreadRuns ThreadRest ThreadTimers
begin

text \<open>
  A model of the Zephyr publish/subscribe library and of its hierarchical state machine (HSM)
  framework, and the theorems that make it correct.

  \<^bold>\<open>The program.\<close> A message is a buffer of the application with a header in front of it
  (\<open>include/pub_sub/msg.h\<close>): one word for the link of a FIFO, and one atomic word that packs the
  message's id, the id of its allocator and its reference counter. Messages come from allocators
  (\<open>msg_alloc.h\<close>, \<open>lib/pub_sub/msg_alloc.c\<close>), of which the library has one, over
  Zephyr's memory slabs (\<open>msg_alloc_mem_slab.c\<close>); or they are static, with or without a callback
  that tells their owner that they are free again (\<open>static_msg.h\<close>). A subscriber
  (\<open>subscriber.h\<close>, \<open>lib/pub_sub/subscriber.c\<close>) is a handler, a bit array of the message ids it
  wants, and, unless it is called directly, a queue: a \<open>k_msgq\<close> or a \<open>k_fifo\<close>. A broker
  (\<open>broker.h\<close>, \<open>lib/pub_sub/broker.c\<close>) keeps a sorted list of subscribers and a FIFO of
  published messages, which a work item distributes. A FIFO links a message through its header, so
  a message is in one FIFO at a time and travels from one FIFO subscriber to the next. A delayable
  message (\<open>delayable_msg.h\<close>, \<open>lib/pub_sub/delayable_msg.c\<close>) publishes itself to a subscriber
  when a time-out expires. The HSM (\<open>include/hsm/hsm.h\<close>, \<open>lib/hsm/hsm.c\<close>) is a subscriber whose
  handler dispatches messages to nested states and performs the entry and exit actions of
  transitions.

  \<^bold>\<open>How it is modelled.\<close> Theory Prelude: C's machine integers as words, pointers as numbers of
  objects, and programs as functions from a state to a result and a new state or to the way in
  which they do not return: a failed assertion, a bad pointer, an access out of bounds, a union
  read through the wrong member, a message put into two FIFOs, a caller that waits for ever, a
  loop out of fuel. Theory State: every struct as a record, every enum as a datatype, and one
  record \<open>memory\<close> that holds all objects by kind; a struct embedded in another one is found
  under the number of its container. Theory Zephyr: the record \<open>platform\<close> of everything that
  is not source of this repository: Kconfig values, Zephyr's bit field, atomic, list, FIFO, message
  queue, memory slab, mutex, poll and time-out functions, the linker section of allocators, and
  the application's own functions. They are parameters of all definitions. What Zephyr's
  documentation says of them is stated as named laws (\<open>field_laws\<close>, \<open>atomic_laws\<close>,
  \<open>bitmap_laws\<close>, \<open>fifo_laws\<close>, \<open>msgq_laws\<close>, \<open>slab_laws\<close>,
  \<open>size_laws\<close>, \<open>mutex_laws\<close>, \<open>poll_laws\<close>, \<open>slist_laws\<close>,
  \<open>timeout_laws\<close>), and a theorem names the laws it needs. Theory RefPlatform has one platform
  that satisfies all of them, for the examples. Each operation is a definition with the name of
  its C function, which does the reads, writes and calls of the C code in their order.

  \<^bold>\<open>The components.\<close>
  \<^item> Msg: the header, its bit fields and the FIFOs of messages (\<open>msg.h\<close>). The locale
    \<open>ref_counted\<close> states the contract of a reference counter and is interpreted on the header.
  \<^item> MemSlab and StaticMsg: the memory slab back end (\<open>msg_alloc_mem_slab\<close>), with the locale
    of a pool of messages, and static and callback messages (\<open>static_msg.h\<close>).
  \<^item> MsgAlloc: allocating, acquiring and releasing messages, allocator ids, the table of run time
    allocators (\<open>msg_alloc\<close>).
  \<^item> SubscriberInit: initialisation and subscriptions (\<open>subscriber.h\<close>, first half of
    \<open>subscriber.c\<close>), with the locale of a set of subscriptions.
  \<^item> Hsm, HsmMachine: the HSM framework (\<open>hsm.h\<close>, \<open>hsm.c\<close>), and a reference machine that it
    implements (\<open>machine_step\<close>, \<open>machine_run\<close>), for states that answer with the macros
    of \<open>hsm.h\<close>.
  \<^item> HsmTest, HsmSub, HsmSuite: the state machine of \<open>tests/lib/hsm/basic/src/main.c\<close> as an instance;
    a state machine as a subscriber, behind a callback or a message queue; the test suite in that file as programs.
  \<^item> Subscriber: handling queued messages, private messages, polling (\<open>subscriber.c\<close>).
  \<^item> Broker, Delivery: the broker (\<open>broker.c\<close>): its operations and the order of its list in
    Broker, what the distribution of messages does in Delivery.
  \<^item> Delayable: delayable messages (\<open>delayable_msg.c\<close>).
  \<^item> System, Steps, Runs, Scenarios: a broker, its subscribers, the application, static messages and
    those of memory slabs together. System has the invariant \<open>ref_inv\<close> that ties the reference
    counters to the queues and to the free blocks of the slabs; Steps shows that each operation
    returns and keeps it; Runs has the step relations \<open>sys_step\<close> (all operations, in any order) and
    \<open>lib_step\<close> (those by which messages leave the library); Scenarios has what holds in all runs and
    for one message from end to end.
  \<^item> PubSubSpec, PubSubDelivery: the abstract specification, a publish and subscribe system without
    counters, slabs, lists and control blocks (record \<open>world\<close>, datatype \<open>event\<close>, \<open>enabled\<close> and
    \<open>effect\<close>), and what its runs deliver.
  \<^item> Refinement, Promises: the locale of a refinement of labelled systems, interpreted on the library
    and its specification (\<open>world_of\<close> is the abstraction), and the promises to the clients that
    follow from it.
  \<^item> Boot: the two functions registered with \<open>SYS_INIT\<close> (\<open>broker.c\<close>, \<open>msg_alloc.c\<close>) bring memory into
    the state in which runs start; a subscriber is set up while the system runs.
  \<^item> Clients, ClientRuns: handlers that use the library themselves. Clients has the contract of such a
    handler (\<open>honest_handlers\<close>) and shows that the distribution of a message and the handling of a
    queue keep the invariant with them; ClientRuns has the runs, and an application that
    meets the contract.
  \<^item> Threads, ThreadRuns, ThreadRest, ThreadTimers: the work item, the subscribers and the application as
    threads, and the time-outs of delayable messages as interrupts (\<open>timer_event\<close>). Threads cuts a
    round of \<open>publish_work_handler\<close> with \<open>process_msg\<close> (\<open>broker.c\<close>) and \<open>pub_sub_handle_queued_msg\<close>
    (\<open>subscriber.c\<close>) into the steps that other threads can see: \<open>work_next\<close> and \<open>sub_next\<close> are the code between
    two such points (\<open>work_phase\<close>, \<open>sub_phase\<close>), so that the work item takes the reference of a queue in
    one step and puts the message there, where it may have to wait, in the next. A thread whose code has the
    result \<open>Blocked\<close> waits; one that meets another error, or carries a counter past its limit,
    fails (\<open>thread_fails\<close>); otherwise it has a step (\<open>work_event\<close>, \<open>sub_event\<close>). Threads also has the invariant of
    the references that the threads have in hand; ThreadRuns has the runs (\<open>thread_reach\<close>), and shows that
    the steps of a thread that runs alone make up the operation they were cut from; ThreadRest has what
    the threads have left to do (\<open>thread_load\<close>) and the references that they may still take (\<open>most_refs\<close>),
    and ThreadTimers what the handler of a time-out does.

  \<^bold>\<open>What is shown.\<close> Msg: the accessors read back what was stored, the counter of a message moves
  by the increments and decrements and wraps into the allocator id at 255, FIFOs keep the order.
  MemSlab, MsgAlloc: a message that is allocated and released returns to the pool it came from,
  run time allocators get distinct ids up to 124 of them, the 125th gets the id that stands for
  the linker section, and the 129th the id of the section's first allocator, which its messages are freed to. SubscriberInit: a new subscriber wants nothing; subscribing and unsubscribing change
  one bit. Hsm: starting enters the states from the top down; a transition leaves states from the
  inside out up to the nearest common parent and enters the new ones from the outside in, so the
  entered states are always a chain of parents; a message is offered to the current state and then
  to its parents. HsmMachine: handling a message is one step of the reference machine, and changes
  nothing but the machine and the application's data. HsmSub: a machine behind a message queue computes
  the run of the reference machine on the messages of the queue, and their references are released.
  HsmSuite: every test case of the suite passes when the model is evaluated, as a check of the model. Subscriber: a public message is passed on to the next FIFO subscriber and its
  reference count accounts for it; private messages are not passed on. Broker: the list is kept
  grouped by type and sorted by priority; the order which the code's comment describes holds
  only when the types were added in a certain order. Delivery: who gets a message, once, in which
  order, with how many references; messages are distributed in the order of publication.
  Delayable: the life of a delayable message as a step relation, its invariant, and what abort and
  update return. Runs, Scenarios: in every run a message's counter is the number of references the
  application owns plus the number of queues that hold it, a slab's block is free exactly when
  there is no reference to it, and a message is linked in one FIFO at most; the library comes to
  rest after a bounded number of steps, with all queues empty and what was given away back in the
  slabs; a published message reaches every subscriber that wants it exactly once; and two messages
  can reach a FIFO subscriber in the opposite order of their publication. Promises: every run of
  the code is a run of the specification; every operation that the specification allows returns
  as long as counters and queues have room; callback and message queue subscribers receive what they
  want in the order of publication, and FIFO subscribers each message exactly once. Boot: the
  state in which these runs start is the one after the boot, in either order of its functions.
  ClientRuns: the reference counters, the slabs and the links stay right when handlers call the
  library while it calls them. ThreadRuns: they stay right in every state between two steps of any interleaving of
  threads, with what the threads have in hand counted, also while the work item waits for room in a queue;
  some thread of the library can always go on
  while there is a message to deliver and no counter is at its limit. ThreadRest: when the application stops and no
  time-out expires, the threads come to rest after a
  bounded number of steps in any interleaving, with all queues empty and what was given away back in the slabs, and
  no thread fails on the way when the counters leave room for one more reference per subscriber.
  ThreadTimers: a delayable message that nobody refers to reaches its subscriber whenever its
  time-out expires, unless the message queue of the subscriber is full, when the handler has to wait in the interrupt;
  and the handler fails its assertion when the message is still in use.

  \<^bold>\<open>Bounds and fuel.\<close> Loops over the list of subscribers, over the published messages and up the
  states of an HSM are not bounded by the code; their definitions take \<open>fuel P\<close> steps and end
  with \<open>Out_of_fuel\<close>, and the theorems assume fuel for one step more than the list is long (or
  as many as the state has parents), and prove that the operations return. The loops of
  \<open>hsm_start\<close> and \<open>transition_state\<close> are bounded by \<open>CONFIG_HSM_MAX_NESTED_STATES\<close>
  and terminate.

  \<^bold>\<open>Not modelled.\<close> The inside of Zephyr (a parameter); the include file \<open>pub_sub.h\<close>, Kconfig,
  CMake and linker files (no code); the payload of messages, which the library never reads; what
  is finer than the steps of Threads: the accesses to one queue, to one counter, and those under the lock of
  \<open>send_to_next_fifo_subscriber\<close>, which the kernel's queues, the atomic word and the mutex keep
  together; the operations of the application and the handler of a time-out are one step each. An expiry whose handler
  fails or has to wait is not part of a run. In Threads subscribers are neither added nor removed, and each is handled by one thread.
  Elsewhere operations run to their end, and those of different threads are interleaved as whole operations
  (Delayable, Runs, ClientRuns). The theorems about the delivery
  of messages take the application's handlers to note their calls and to change no object of the library
  (\<open>quiet_handlers\<close>); for a handler that publishes or releases messages itself, ClientRuns shows
  that nothing is lost or freed early and that the operations return, but not who receives what
  in which order. In Runs there is one broker, subscribers
  are added in the order of their types and removed when their queues are empty, and the messages
  are static, also delayable ones in Threads, or come from memory slabs; callback messages have theorems of
  their own (StaticMsg, MsgAlloc). The test drivers of the pub/sub library
  (\<open>tests/lib/pub_sub\<close>) are not modelled; those of the HSM framework are.
\<close>

end
